(* ===== verification/Prelude.thy ===== *)
theory Prelude
  imports Main "HOL-Library.Word" "HOL-Library.Signed_Division"
begin

text \<open>
  Shared vocabulary of the development: the faults that C leaves undefined, the result
  type of fallible code, C integer conversions, the linear search that the loops of the
  object store perform, 32-bit bitmaps whose bits are numbered from the most significant
  bit of word 0, and little-endian integers inside byte blocks.
\<close>

unbundle bit_operations_syntax

named_theorems run_simps \<open>taking apart a run that returns\<close>

section \<open>Faults and results\<close>

text \<open>
  Where the C code would have undefined behaviour (a null or wild pointer, an index out of
  the array, a shift by more than the width, a signed overflow, an overrun buffer, an
  indeterminate value) the model returns \<open>Inl\<close> of the fault.
\<close>

datatype cfault =
    NullDeref | OutOfBounds | BadShift | SignedOverflow | BufferOverflow | Uninitialised

type_synonym 'a res = "cfault + 'a"

definition rbind :: "'a res \<Rightarrow> ('a \<Rightarrow> 'b res) \<Rightarrow> 'b res" where
  "rbind m f = (case m of Inl e \<Rightarrow> Inl e | Inr x \<Rightarrow> f x)"

lemma rbind_simps [simp]:
  "rbind (Inl e) f = Inl e"
  "rbind (Inr x) f = f x"
  by (simp_all add: rbind_def)

lemma rbind_eq_Inr [run_simps]: "rbind m f = Inr y \<longleftrightarrow> (\<exists>x. m = Inr x \<and> f x = Inr y)"
  by (cases m) auto

declare Let_def [run_simps]

lemma rbind_assoc: "rbind (rbind m f) g = rbind m (\<lambda>x. rbind (f x) g)"
  by (cases m) auto

text \<open>A loop whose body may fault: it runs over a list and stops at the first fault.\<close>

fun rfold :: "('a \<Rightarrow> 's \<Rightarrow> 's res) \<Rightarrow> 'a list \<Rightarrow> 's \<Rightarrow> 's res" where
  "rfold f [] s = Inr s"
| "rfold f (x # xs) s = rbind (f x s) (rfold f xs)"

lemma rfold_append: "rfold f (xs @ ys) s = rbind (rfold f xs s) (rfold f ys)"
  by (induction xs arbitrary: s) (simp_all add: rbind_def split: sum.split)

lemma rfold_invariant:
  assumes "rfold f xs s = Inr t" and "P s"
    and "\<And>x s t. x \<in> set xs \<Longrightarrow> P s \<Longrightarrow> f x s = Inr t \<Longrightarrow> P t"
  shows "P t"
  using assms
proof (induction xs arbitrary: s)
  case Nil
  then show ?case by simp
next
  case (Cons x xs)
  from Cons.prems(1) obtain u where u: "f x s = Inr u" and "rfold f xs u = Inr t"
    by (auto simp: rbind_eq_Inr)
  moreover have "P u" using Cons.prems(2,3) u by auto
  ultimately show ?case using Cons.IH Cons.prems(3) by (metis list.set_intros(2))
qed

section \<open>C integers\<close>

text \<open>The value of a C \<open>int\<close> after a narrowing conversion (gcc wraps around).\<close>

definition s32 :: "int \<Rightarrow> int" where
  "s32 x = (x + 2 ^ 31) mod 2 ^ 32 - 2 ^ 31"

lemma s32_id [simp]: "- (2 ^ 31) \<le> x \<Longrightarrow> x < 2 ^ 31 \<Longrightarrow> s32 x = x"
  by (simp add: s32_def)

lemma s32_range: "- (2 ^ 31) \<le> s32 x \<and> s32 x < 2 ^ 31"
proof -
  have "0 \<le> (x + 2147483648) mod 4294967296" and "(x + 2147483648) mod 4294967296 < 4294967296"
    by simp_all
  then show ?thesis by (simp add: s32_def)
qed

text \<open>C division truncates; on non-negative numbers it is the division of HOL.\<close>

lemma sdiv_nonneg [simp]: "0 \<le> (a :: int) \<Longrightarrow> 0 < b \<Longrightarrow> a sdiv b = a div b"
  by (simp add: signed_divide_int_def sgn_if)

lemma smod_nonneg [simp]: "0 \<le> (a :: int) \<Longrightarrow> 0 < b \<Longrightarrow> a smod b = a mod b"
  by (cases "a = 0") (auto simp: signed_modulo_int_def minus_div_mult_eq_mod)

section \<open>Linear search\<close>

text \<open>
  The search loops visit the indices \<open>i\<close>, \<open>i + 1\<close>, \<open>\<dots>\<close> (\<open>n\<close> of them) and stop at the
  first that satisfies the test.
\<close>

fun scan :: "(nat \<Rightarrow> bool) \<Rightarrow> nat \<Rightarrow> nat \<Rightarrow> nat option" where
  "scan P i 0 = None"
| "scan P i (Suc n) = (if P i then Some i else scan P (Suc i) n)"

lemma scan_Some_iff:
  "scan P i n = Some k \<longleftrightarrow> i \<le> k \<and> k < i + n \<and> P k \<and> (\<forall>j. i \<le> j \<and> j < k \<longrightarrow> \<not> P j)"
proof (induction P i n rule: scan.induct)
  case (1 P i)
  then show ?case by auto
next
  case (2 P i n)
  show ?case
  proof (cases "P i")
    case True
    then show ?thesis by (auto simp: le_less)
  next
    case False
    with 2 show ?thesis
      by (auto simp: Suc_le_eq dest: le_neq_implies_less)
  qed
qed

lemma scan_None_iff: "scan P i n = None \<longleftrightarrow> (\<forall>k. i \<le> k \<and> k < i + n \<longrightarrow> \<not> P k)"
proof (induction P i n rule: scan.induct)
  case (1 P i)
  then show ?case by auto
next
  case (2 P i n)
  then show ?case by (auto simp: Suc_le_eq dest: le_neq_implies_less)
qed

lemma scan_SomeI:
  "i \<le> k \<Longrightarrow> k < i + n \<Longrightarrow> P k \<Longrightarrow> (\<And>j. i \<le> j \<Longrightarrow> j < k \<Longrightarrow> \<not> P j) \<Longrightarrow> scan P i n = Some k"
  by (auto simp: scan_Some_iff)

lemma scan_cong:
  "(\<And>k. i \<le> k \<Longrightarrow> k < i + n \<Longrightarrow> P k = Q k) \<Longrightarrow> scan P i n = scan Q i n"
  by (induction P i n rule: scan.induct) auto

section \<open>Bitmaps\<close>

text \<open>
  The bitmaps are arrays of 32-bit words. The loops test \<open>bitmap[i] & b\<close> with \<open>b\<close> going
  from \<open>1<<31\<close> down and count the bits visited in \<open>ctr\<close>, so bit \<open>ctr\<close> is bit
  \<open>31 - ctr mod 32\<close> of word \<open>ctr div 32\<close>.
\<close>

type_synonym bitmap = "nat \<Rightarrow> 32 word"

definition mask_at :: "nat \<Rightarrow> 32 word" where
  "mask_at ctr = drop_bit (ctr mod 32) 0x80000000"

definition bit_set :: "bitmap \<Rightarrow> nat \<Rightarrow> bool" where
  "bit_set bm ctr \<longleftrightarrow> bm (ctr div 32) AND mask_at ctr \<noteq> 0"

definition set_bit_at :: "nat \<Rightarrow> bitmap \<Rightarrow> bitmap" where
  "set_bit_at ctr bm = bm(ctr div 32 := bm (ctr div 32) OR mask_at ctr)"

definition flip_bit_at :: "nat \<Rightarrow> bitmap \<Rightarrow> bitmap" where
  "flip_bit_at ctr bm = bm(ctr div 32 := bm (ctr div 32) XOR mask_at ctr)"

lemma drop_push_one:
  "n \<le> m \<Longrightarrow> m < 32 \<Longrightarrow> drop_bit n (push_bit m 1 :: 32 word) = push_bit (m - n) 1"
  by (intro bit_word_eqI) (auto simp: bit_simps)

lemma mask_at_eq: "mask_at ctr = push_bit (31 - ctr mod 32) 1"
proof -
  have top: "(0x80000000 :: 32 word) = push_bit 31 1" by simp
  have "ctr mod 32 \<le> 31" by simp
  then have "drop_bit (ctr mod 32) (push_bit 31 1 :: 32 word) = push_bit (31 - ctr mod 32) 1"
    by (simp add: drop_push_one del: push_bit_of_1)
  then show ?thesis unfolding mask_at_def top .
qed

lemma bit_mask_at: "bit (mask_at ctr) n \<longleftrightarrow> n = 31 - ctr mod 32"
  by (auto simp: mask_at_eq bit_simps)

lemma bit_set_iff: "bit_set bm ctr \<longleftrightarrow> bit (bm (ctr div 32)) (31 - ctr mod 32)"
proof -
  have "bm (ctr div 32) AND mask_at ctr \<noteq> 0 \<longleftrightarrow>
    (\<exists>n. bit (bm (ctr div 32)) n \<and> n = 31 - ctr mod 32)"
    by (subst bit_eq_iff) (auto simp: bit_and_iff bit_mask_at dest: bit_imp_le_length)
  then show ?thesis by (simp add: bit_set_def)
qed

lemma same_bit_iff: "i div 32 = j div 32 \<Longrightarrow> 31 - i mod 32 = 31 - j mod 32 \<longleftrightarrow> i = (j :: nat)"
proof
  assume "i div 32 = j div 32" and "31 - i mod 32 = 31 - j mod 32"
  moreover from this(2) have "i mod 32 = j mod 32"
    using mod_less_divisor[of 32 i] mod_less_divisor[of 32 j] by linarith
  ultimately show "i = j" by (metis div_mult_mod_eq)
qed simp

lemma bit_set_set_bit_at [simp]: "bit_set (set_bit_at i bm) j \<longleftrightarrow> i = j \<or> bit_set bm j"
  by (auto simp: bit_set_iff set_bit_at_def bit_simps bit_mask_at dest: same_bit_iff)

lemma bit_set_flip_bit_at [simp]: "bit_set (flip_bit_at i bm) j \<longleftrightarrow> (i = j) \<noteq> bit_set bm j"
  by (auto simp: bit_set_iff flip_bit_at_def bit_simps bit_mask_at dest: same_bit_iff)

lemma bit_set_zero [simp]: "\<not> bit_set (\<lambda>_. 0) ctr"
  by (simp add: bit_set_iff)

section \<open>Bytes and little-endian integers\<close>

type_synonym byte = "8 word"

fun le_bytes :: "nat \<Rightarrow> int \<Rightarrow> byte list" where
  "le_bytes 0 v = []"
| "le_bytes (Suc n) v = word_of_int v # le_bytes n (v div 256)"

definition le32 :: "int \<Rightarrow> byte list" where
  "le32 v = le_bytes 4 v"

definition le64 :: "int \<Rightarrow> byte list" where
  "le64 v = le_bytes 8 v"

text \<open>The unsigned value of a little-endian byte string.\<close>

fun le_val :: "byte list \<Rightarrow> int" where
  "le_val [] = 0"
| "le_val (b # bs) = uint b + 256 * le_val bs"

text \<open>Entry \<open>k\<close> of a block seen as an array of C \<open>int\<close>s, and storing into it.\<close>

definition get_int :: "byte list \<Rightarrow> nat \<Rightarrow> int" where
  "get_int b k = s32 (le_val (take 4 (drop (4 * k) b)))"

definition put_int :: "byte list \<Rightarrow> nat \<Rightarrow> int \<Rightarrow> byte list" where
  "put_int b k v = take (4 * k) b @ le32 v @ drop (4 * k + 4) b"

lemma length_le_bytes [simp]: "length (le_bytes n v) = n"
  by (induction n arbitrary: v) auto

lemma length_le32 [simp]: "length (le32 v) = 4"
  by (simp add: le32_def)

lemma length_le64 [simp]: "length (le64 v) = 8"
  by (simp add: le64_def)

lemma le_val_le_bytes: "le_val (le_bytes n v) = v mod 256 ^ n"
proof (induction n arbitrary: v)
  case 0
  then show ?case by simp
next
  case (Suc n)
  have "uint (word_of_int v :: byte) = v mod 256"
    by (simp add: uint_word_of_int)
  moreover have "v mod (256 * 256 ^ n) = 256 * (v div 256 mod 256 ^ n) + v mod 256"
    by (rule zmod_zmult2_eq) simp
  ultimately show ?case by (simp add: Suc)
qed

lemma le_val_le32: "le_val (le32 v) = v mod 4294967296"
  by (simp add: le32_def le_val_le_bytes)

lemma le_val_le64: "le_val (le64 v) = v mod 18446744073709551616"
  by (simp add: le64_def le_val_le_bytes)

lemma s32_mod [simp]: "s32 (v mod 4294967296) = s32 v"
  by (simp add: s32_def mod_simps)

lemma length_put_int: "4 * k + 4 \<le> length b \<Longrightarrow> length (put_int b k v) = length b"
  by (simp add: put_int_def)

lemma get_put_same:
  assumes "4 * k + 4 \<le> length b"
  shows "get_int (put_int b k v) k = s32 v"
proof -
  have "take 4 (drop (4 * k) (put_int b k v)) = le32 v"
    using assms by (simp add: put_int_def min_def)
  then show ?thesis by (simp add: get_int_def le_val_le32)
qed

lemma get_put_other:
  assumes "4 * k + 4 \<le> length b" and "j \<noteq> k"
  shows "get_int (put_int b k v) j = get_int b j"
proof (cases "j < k")
  case True
  then have "4 \<le> 4 * k - 4 * j" by simp
  then have "take 4 (drop (4 * j) (put_int b k v)) = take 4 (drop (4 * j) b)"
    using assms True by (simp add: put_int_def drop_take min_def)
  then show ?thesis by (simp add: get_int_def)
next
  case False
  with assms(2) have "k < j" by simp
  then have "drop (4 * j) (put_int b k v) = drop (4 * j) b"
    using assms by (simp add: put_int_def min_def)
  then show ?thesis by (simp add: get_int_def)
qed

lemma take_replicate_zero: "take m (replicate n (0 :: byte)) = replicate (min m n) 0"
  by simp

lemma le_val_replicate_zero [simp]: "le_val (replicate n 0) = 0"
  by (induction n) auto

lemma get_int_zero [simp]: "get_int (replicate n 0) k = 0"
  by (simp add: get_int_def)

section \<open>Arrays of fixed-width elements\<close>

lemma take_drop_concat:
  assumes "\<And>x. length (f x) = w" and "m < length xs"
  shows "take w (drop (w * m) (concat (map f xs))) = f (xs ! m)"
  using assms(2)
proof (induction xs arbitrary: m)
  case Nil
  then show ?case by simp
next
  case (Cons x xs)
  show ?case
  proof (cases m)
    case 0
    then show ?thesis using assms(1) [of x] by simp
  next
    case (Suc n)
    then have "drop (w * m) (concat (map f (x # xs))) = drop (w * n) (concat (map f xs))"
      using assms(1) [of x] by simp
    then show ?thesis using Cons Suc by simp
  qed
qed

lemma length_concat_map:
  "(\<And>x. length (f x) = w) \<Longrightarrow> length (concat (map f xs)) = w * length xs"
  by (induction xs) auto

text \<open>The value of a C \<open>long\<close>.\<close>

definition s64 :: "int \<Rightarrow> int" where
  "s64 x = (x + 2 ^ 63) mod 2 ^ 64 - 2 ^ 63"

lemma s64_id [simp]: "- (2 ^ 63) \<le> x \<Longrightarrow> x < 2 ^ 63 \<Longrightarrow> s64 x = x"
  by (simp add: s64_def)

lemma s64_mod [simp]: "s64 (v mod 18446744073709551616) = s64 v"
  by (simp add: s64_def mod_simps)


section \<open>Machine words as numbers\<close>

lemma unat_small_64: "n < 2 ^ 64 \<Longrightarrow> unat (word_of_nat n :: 64 word) = n"
  by (simp add: unat_of_nat)

lemma unat_small_32: "n < 2 ^ 32 \<Longrightarrow> unat (word_of_nat n :: 32 word) = n"
  by (simp add: unat_of_nat)

lemma unat_ucast_32_64: "unat (ucast (w :: 32 word) :: 64 word) = unat w"
proof -
  have "unat w < 2 ^ 32" using unsigned_less [of w, where ?'a = nat] by simp
  then show ?thesis
    by (simp add: unsigned_ucast_eq take_bit_nat_eq_self)
qed

lemma unat_ucast_64_32: "unat (ucast (w :: 64 word) :: 32 word) = unat w mod 2 ^ 32"
  by (simp add: unsigned_ucast_eq take_bit_eq_mod)

lemma unat_less_64: "unat (w :: 64 word) < 2 ^ 64"
  using unsigned_less [of w, where ?'a = nat] by simp

lemma unat_less_32: "unat (w :: 32 word) < 2 ^ 32"
  using unsigned_less [of w, where ?'a = nat] by simp

end
