(* ===== verification/Block_Cache.thy ===== *)
theory Block_Cache
  imports Prelude
begin

text \<open>
  The block layer of the object store: \<open>read_block\<close> and \<open>write_block\<close> of
  \<open>assignment4/lib.c\<close> over the disk image, and \<open>cache_blk_read\<close> and \<open>cache_blk_write\<close>
  of \<open>assignment4/objstore.c\<close>, the direct-mapped write-back cache of 32768 blocks
  (built with \<open>-DCACHE\<close>) or the plain pass-through (without). Both builds implement one
  interface, the locale \<open>block_store\<close>: a read returns the current content of a block, a
  write changes the content of one block only, whatever is evicted on the way.
\<close>

type_synonym block = "byte list"

abbreviation zero_block :: block where
  "zero_block \<equiv> replicate 4096 0"

section \<open>The disk image\<close>

text \<open>
  \<open>disk.img\<close> is a file of \<open>nblocks\<close> whole blocks. A transfer of a block in \<open>bad\<close> fails
  with \<open>EIO\<close>. Reading past the end transfers nothing, writing past the end extends the
  file (the gap reads as zeros), a negative offset is \<open>EINVAL\<close> and a null buffer \<open>EFAULT\<close>.
\<close>

record disk =
  nblocks :: nat
  dblock :: "nat \<Rightarrow> block"
  bad :: "int \<Rightarrow> bool"

definition pread_block :: "disk \<Rightarrow> int \<Rightarrow> block \<Rightarrow> int \<times> block" where
  "pread_block d off buf =
     (if off < 0 \<or> bad d (off div 4096) then (-1, buf)
      else if off div 4096 < int (nblocks d) then (4096, dblock d (nat (off div 4096)))
      else (0, buf))"

definition pwrite_block :: "disk \<Rightarrow> int \<Rightarrow> block option \<Rightarrow> int \<times> disk" where
  "pwrite_block d off buf =
     (case buf of
        None \<Rightarrow> (-1, d)
      | Some x \<Rightarrow>
          if off < 0 \<or> bad d (off div 4096) then (-1, d)
          else let k = nat (off div 4096) in
            (4096, d\<lparr>nblocks := max (nblocks d) (Suc k),
                     dblock := (\<lambda>i. if i = k then x
                                    else if nblocks d \<le> i then zero_block else dblock d i)\<rparr>))"

text \<open>
  \<open>addr\<close> is the address of the buffer relative to the page-aligned start of its \<open>mmap\<close>
  region; only its alignment matters.
\<close>

definition read_block :: "disk \<Rightarrow> int \<Rightarrow> 64 word \<Rightarrow> block \<Rightarrow> int \<times> block" where
  "read_block d block_offset addr buf =
     (if push_bit 12 (drop_bit 12 addr) \<noteq> addr then (-1, buf)
      else (case pread_block d (block_offset * 4096) buf of
              (n, buf') \<Rightarrow> if n < 0 then (-1, buf') else (0, buf')))"

definition write_block :: "disk \<Rightarrow> int \<Rightarrow> 64 word \<Rightarrow> block option \<Rightarrow> int \<times> disk" where
  "write_block d block_offset addr buf =
     (if push_bit 12 (drop_bit 12 addr) \<noteq> addr then (-1, d)
      else (case pwrite_block d (block_offset * 4096) buf of
              (n, d') \<Rightarrow> if n < 0 then (-1, d') else (0, d')))"

definition disk_content :: "disk \<Rightarrow> int \<Rightarrow> block option" where
  "disk_content d blk = (if 0 \<le> blk \<and> blk < int (nblocks d) then Some (dblock d (nat blk)) else None)"

definition disk_ok :: "disk \<Rightarrow> bool" where
  "disk_ok d \<longleftrightarrow> (\<forall>k < nblocks d. length (dblock d k) = 4096) \<and> (\<forall>b. \<not> bad d b)"

definition page_aligned :: "64 word \<Rightarrow> bool" where
  "page_aligned addr \<longleftrightarrow> push_bit 12 (drop_bit 12 addr) = addr"

lemma page_aligned_0 [simp]: "page_aligned 0"
  by (simp add: page_aligned_def)

lemma page_aligned_slot [simp]: "page_aligned (word_of_nat (4096 * k))"
proof -
  have "(word_of_nat (4096 * k) :: 64 word) = push_bit 12 (word_of_nat k)"
    by (simp add: push_bit_eq_mult)
  then show ?thesis
    unfolding page_aligned_def by (auto intro!: bit_word_eqI simp: bit_simps)
qed

lemma disk_content_length: "disk_ok d \<Longrightarrow> disk_content d blk = Some x \<Longrightarrow> length x = 4096"
  by (auto simp: disk_ok_def disk_content_def split: if_splits)

lemma read_block_content:
  "disk_ok d \<Longrightarrow> page_aligned addr \<Longrightarrow> disk_content d blk = Some x \<Longrightarrow>
   read_block d blk addr buf = (0, x)"
  by (auto simp: read_block_def pread_block_def page_aligned_def disk_ok_def disk_content_def
      split: if_splits)

lemma read_block_past_end:
  "disk_ok d \<Longrightarrow> page_aligned addr \<Longrightarrow> int (nblocks d) \<le> blk \<Longrightarrow>
   read_block d blk addr buf = (0, buf)"
  by (auto simp: read_block_def pread_block_def page_aligned_def disk_ok_def)

lemma write_block_content:
  assumes "disk_ok d" and "page_aligned addr" and "0 \<le> blk" and "length x = 4096"
    and "write_block d blk addr (Some x) = (r, d')"
  shows "r = 0 \<and> disk_ok d' \<and> disk_content d' blk = Some x \<and>
    (\<forall>b y. b \<noteq> blk \<longrightarrow> disk_content d b = Some y \<longrightarrow> disk_content d' b = Some y)"
  using assms
  by (auto simp: write_block_def pwrite_block_def page_aligned_def disk_ok_def disk_content_def
      Let_def)

section \<open>The cache\<close>

datatype build = Plain | Cached

text \<open>
  \<open>cache i\<close> is the block at \<open>cache_ptr + BLOCK_SIZE * i\<close>; \<open>cache_index i\<close> is -1 or the
  quotient \<open>blk / cache_blks\<close> of the block held there; \<open>cache_dirty i\<close> is 1 when it must
  be written back.
\<close>

record bstate =
  disk :: disk
  cache :: "nat \<Rightarrow> block"
  cache_index :: "nat \<Rightarrow> int"
  cache_dirty :: "nat \<Rightarrow> int"

abbreviation (input) cache_blks :: int where
  "cache_blks \<equiv> 32768"

definition cache_fill :: "nat \<Rightarrow> int \<Rightarrow> bstate \<Rightarrow> bstate" where
  "cache_fill slot blk s =
     s\<lparr>cache := (cache s)(slot :=
        snd (read_block (disk s) blk (word_of_nat (4096 * slot)) (cache s slot)))\<rparr>"

definition cache_flush :: "nat \<Rightarrow> int \<Rightarrow> bstate \<Rightarrow> bstate" where
  "cache_flush slot blk s =
     s\<lparr>disk := snd (write_block (disk s) blk (word_of_nat (4096 * slot)) (Some (cache s slot)))\<rparr>"

text \<open>Before a slot is reused for \<open>blk\<close>, a dirty block in it is written back.\<close>

definition cache_evict :: "nat \<Rightarrow> int \<Rightarrow> bstate \<Rightarrow> bstate" where
  "cache_evict slot blk s =
     (if cache_dirty s slot = 1
      then cache_flush slot (cache_blks * cache_index s slot + blk smod cache_blks) s
      else s)"

definition cache_blk_read :: "build \<Rightarrow> int \<Rightarrow> block \<Rightarrow> bstate \<Rightarrow> (block \<times> bstate) res" where
  "cache_blk_read c blk temp s =
     (case c of
        Plain \<Rightarrow> Inr (snd (read_block (disk s) blk 0 temp), s)
      | Cached \<Rightarrow>
          if blk smod cache_blks < 0 then Inl OutOfBounds
          else
            let slot = nat (blk smod cache_blks);
                s' =
                  (if cache_index s slot = -1 then
                     cache_fill slot blk
                       (s\<lparr>cache_index := (cache_index s)(slot := blk sdiv cache_blks)\<rparr>)
                   else if cache_index s slot \<noteq> blk sdiv cache_blks then
                     (let s1 = cache_fill slot blk (cache_evict slot blk s)
                      in s1\<lparr>cache_index := (cache_index s1)(slot := blk sdiv cache_blks)\<rparr>)
                   else s)
            in Inr (cache s' slot, s'))"

definition cache_blk_write :: "build \<Rightarrow> int \<Rightarrow> block option \<Rightarrow> bstate \<Rightarrow> bstate res" where
  "cache_blk_write c blk temp s =
     (case c of
        Plain \<Rightarrow> Inr (s\<lparr>disk := snd (write_block (disk s) blk 0 temp)\<rparr>)
      | Cached \<Rightarrow>
          if blk smod cache_blks < 0 then Inl OutOfBounds
          else
            let slot = nat (blk smod cache_blks) in
            (case temp of
               None \<Rightarrow> Inl NullDeref
             | Some x \<Rightarrow>
                 let s1 =
                   (if cache_index s slot = -1 \<or> cache_index s slot = blk sdiv cache_blks then s
                    else cache_evict slot blk s)
                 in Inr (s1\<lparr>cache := (cache s1)(slot := x),
                            cache_index := (cache_index s1)(slot := blk sdiv cache_blks),
                            cache_dirty := (cache_dirty s1)(slot := 1)\<rparr>)))"

text \<open>
  The content of a block as the store sees it: the cached copy if its slot holds the block,
  the disk otherwise.
\<close>

definition slot_of :: "int \<Rightarrow> nat" where
  "slot_of blk = nat (blk mod cache_blks)"

definition cached_at :: "bstate \<Rightarrow> int \<Rightarrow> bool" where
  "cached_at s blk \<longleftrightarrow> cache_index s (slot_of blk) = blk div cache_blks"

definition content :: "build \<Rightarrow> bstate \<Rightarrow> int \<Rightarrow> block option" where
  "content c s blk =
     (if c = Cached \<and> cached_at s blk then Some (cache s (slot_of blk))
      else disk_content (disk s) blk)"

text \<open>A clean slot agrees with the disk.\<close>

definition cache_ok :: "bstate \<Rightarrow> bool" where
  "cache_ok s \<longleftrightarrow>
     (\<forall>i < 32768. length (cache s i) = 4096 \<and> - 1 \<le> cache_index s i \<and>
        (0 \<le> cache_index s i \<and> cache_dirty s i \<noteq> 1 \<longrightarrow>
           disk_content (disk s) (cache_blks * cache_index s i + int i) = Some (cache s i)))"

definition io_ok :: "build \<Rightarrow> bstate \<Rightarrow> bool" where
  "io_ok c s \<longleftrightarrow> disk_ok (disk s) \<and> (c = Cached \<longrightarrow> cache_ok s)"

section \<open>The cache refines the block store\<close>

lemma slot_of_less [simp]: "slot_of blk < 32768"
  by (simp add: slot_of_def nat_less_iff)

lemma slot_of_mod: "nat (blk mod 32768) = slot_of blk"
  by (simp add: slot_of_def)

lemma cache_ok_index:
  "cache_ok s \<Longrightarrow> i < 32768 \<Longrightarrow> cache_index s i \<noteq> - 1 \<Longrightarrow> 0 \<le> cache_index s i"
  by (force simp: cache_ok_def)

lemma blk_split: "32768 * (blk div 32768) + int (slot_of blk) = blk"
  by (simp add: slot_of_def)

lemma home_slot: "i < 32768 \<Longrightarrow> slot_of (32768 * q + int i) = i"
  by (simp add: slot_of_def)

lemma home_index: "i < 32768 \<Longrightarrow> (32768 * q + int i) div 32768 = q"
  by simp

lemma home_inject:
  "i < 32768 \<Longrightarrow> j < 32768 \<Longrightarrow> 32768 * p + int i = 32768 * q + int j \<Longrightarrow> i = j"
  using home_slot by metis

lemma same_slot_index:
  "slot_of a = slot_of b \<Longrightarrow> a div 32768 = b div 32768 \<Longrightarrow> a = b"
  using blk_split by metis

lemma cached_content: "cached_at s blk \<Longrightarrow> content Cached s blk = Some (cache s (slot_of blk))"
  by (simp add: content_def)

lemma uncached_content: "\<not> cached_at s blk \<Longrightarrow> content Cached s blk = disk_content (disk s) blk"
  by (simp add: content_def)

lemma cached_at_home: "cached_at s b \<Longrightarrow> 32768 * cache_index s (slot_of b) + int (slot_of b) = b"
  using blk_split by (simp add: cached_at_def)

lemma cache_flush_fields [simp]:
  "cache (cache_flush slot b s) = cache s"
  "cache_index (cache_flush slot b s) = cache_index s"
  "cache_dirty (cache_flush slot b s) = cache_dirty s"
  by (simp_all add: cache_flush_def)

lemma cache_evict_fields [simp]:
  "cache (cache_evict slot b s) = cache s"
  "cache_index (cache_evict slot b s) = cache_index s"
  "cache_dirty (cache_evict slot b s) = cache_dirty s"
  by (simp_all add: cache_evict_def)

lemma cache_fill_fields [simp]:
  "disk (cache_fill slot b s) = disk s"
  "cache_index (cache_fill slot b s) = cache_index s"
  "cache_dirty (cache_fill slot b s) = cache_dirty s"
  by (simp_all add: cache_fill_def)

text \<open>Writing a slot back puts its block on the disk and changes no other block there.\<close>

lemma cache_flush_disk:
  assumes "disk_ok (disk s)" and "0 \<le> b" and "length (cache s slot) = 4096"
  shows "disk_ok (disk (cache_flush slot b s)) \<and>
    disk_content (disk (cache_flush slot b s)) b = Some (cache s slot) \<and>
    (\<forall>b' y. b' \<noteq> b \<longrightarrow> disk_content (disk s) b' = Some y \<longrightarrow>
       disk_content (disk (cache_flush slot b s)) b' = Some y)"
proof -
  obtain r d where w: "write_block (disk s) b (word_of_nat (4096 * slot)) (Some (cache s slot)) = (r, d)"
    by fastforce
  from write_block_content [OF assms(1) page_aligned_slot assms(2,3) w] w show ?thesis
    by (simp add: cache_flush_def)
qed

lemma cache_evict_slots:
  "cache (cache_evict k blk s) = cache s" "cache_index (cache_evict k blk s) = cache_index s"
  "cache_dirty (cache_evict k blk s) = cache_dirty s"
  by (simp_all add: cache_evict_def)

lemma cache_evict_disk:
  assumes io: "io_ok Cached s" and blk: "0 \<le> blk" and idx: "0 \<le> cache_index s (slot_of blk)"
  defines "s1 \<equiv> cache_evict (slot_of blk) blk s"
    and "home \<equiv> 32768 * cache_index s (slot_of blk) + int (slot_of blk)"
  shows "disk_ok (disk s1)" and "disk_content (disk s1) home = Some (cache s (slot_of blk))"
    and "b \<noteq> home \<Longrightarrow> disk_content (disk s) b = Some y \<Longrightarrow> disk_content (disk s1) b = Some y"
proof -
  let ?k = "slot_of blk"
  have d: "disk_ok (disk s)" and c: "cache_ok s" using io by (simp_all add: io_ok_def)
  have len: "length (cache s ?k) = 4096" using c by (simp add: cache_ok_def)
  have low: "blk smod 32768 = int ?k" using blk by (simp add: slot_of_def)
  have s1: "s1 = (if cache_dirty s ?k = 1 then cache_flush ?k home s else s)"
    by (simp add: s1_def cache_evict_def low home_def)
  have fl: "disk_ok (disk (cache_flush ?k home s)) \<and>
    disk_content (disk (cache_flush ?k home s)) home = Some (cache s ?k) \<and>
    (\<forall>b' y. b' \<noteq> home \<longrightarrow> disk_content (disk s) b' = Some y \<longrightarrow>
       disk_content (disk (cache_flush ?k home s)) b' = Some y)"
    using cache_flush_disk [OF d _ len] idx by (simp add: home_def)
  show "disk_ok (disk s1)" using d fl by (simp add: s1)
  show "disk_content (disk s1) home = Some (cache s ?k)"
    using fl c idx by (auto simp: s1 cache_ok_def home_def)
  show "disk_content (disk s1) b = Some y" if "b \<noteq> home" and "disk_content (disk s) b = Some y"
    using that fl by (simp add: s1)
qed

lemma cache_evict_ok:
  assumes "io_ok Cached s" and "0 \<le> blk" and "0 \<le> cache_index s (slot_of blk)"
  defines "s1 \<equiv> cache_evict (slot_of blk) blk s"
  shows "disk_ok (disk s1)" and "cache_ok s1"
    and "disk_content (disk s1) (32768 * cache_index s (slot_of blk) + int (slot_of blk)) =
      Some (cache s (slot_of blk))"
    and "\<And>b y. content Cached s b = Some y \<Longrightarrow> content Cached s1 b = Some y"
proof -
  let ?k = "slot_of blk" and ?home = "32768 * cache_index s (slot_of blk) + int (slot_of blk)"
  have c: "cache_ok s" using assms(1) by (simp add: io_ok_def)
  note slots = cache_evict_slots [of ?k blk s, folded s1_def]
  note ev = cache_evict_disk [OF assms(1-3), folded s1_def]
  show "disk_ok (disk s1)" and "disk_content (disk s1) ?home = Some (cache s ?k)" by (rule ev)+
  show "cache_ok s1"
    unfolding cache_ok_def
  proof (intro allI impI)
    fix i :: nat assume i: "i < 32768"
    have "disk_content (disk s1) (32768 * cache_index s i + int i) = Some (cache s i)"
      if "0 \<le> cache_index s i" "cache_dirty s i \<noteq> 1"
    proof (cases "i = ?k")
      case True
      then show ?thesis using ev(2) by simp
    next
      case False
      then have "32768 * cache_index s i + int i \<noteq> ?home"
        using home_inject [OF i slot_of_less] by blast
      then show ?thesis using ev(3) c i that by (simp add: cache_ok_def)
    qed
    then show "length (cache s1 i) = 4096 \<and> - 1 \<le> cache_index s1 i \<and>
      (0 \<le> cache_index s1 i \<and> cache_dirty s1 i \<noteq> 1 \<longrightarrow>
        disk_content (disk s1) (32768 * cache_index s1 i + int i) = Some (cache s1 i))"
      using c i by (simp add: slots cache_ok_def)
  qed
  show "content Cached s1 b = Some y" if "content Cached s b = Some y" for b y
  proof (cases "cached_at s b")
    case True
    then show ?thesis using that by (simp add: content_def cached_at_def slots)
  next
    case False
    then have dsk: "disk_content (disk s) b = Some y" and nc: "\<not> cached_at s1 b"
      using that by (simp_all add: content_def cached_at_def slots)
    have "b \<noteq> ?home"
      using False home_slot [of ?k] home_index [of ?k] by (auto simp: cached_at_def)
    then show ?thesis using ev(3) dsk nc by (simp add: content_def)
  qed
qed

text \<open>
  Giving a slot to block \<open>blk\<close> with new data: \<open>blk\<close> has that content, the previous tenant
  falls back to the disk, every other block is untouched.
\<close>

lemma content_replace:
  assumes "0 \<le> b" and "0 \<le> blk"
    and "cache s2 = (cache s1)(slot_of blk := x)"
    and "cache_index s2 = (cache_index s1)(slot_of blk := blk div 32768)"
    and "disk s2 = disk s1"
  shows "content Cached s2 b =
    (if b = blk then Some x
     else if slot_of b = slot_of blk then disk_content (disk s1) b
     else content Cached s1 b)"
  using assms same_slot_index [of b blk]
  by (auto simp: content_def cached_at_def)

lemma content_replace_other:
  assumes "0 \<le> b" and "0 \<le> blk" and "b \<noteq> blk"
    and "cache s2 = (cache s1)(slot_of blk := x)"
    and "cache_index s2 = (cache_index s1)(slot_of blk := blk div 32768)"
    and "disk s2 = disk s1"
    and home: "0 \<le> cache_index s1 (slot_of blk) \<Longrightarrow>
      disk_content (disk s1) (32768 * cache_index s1 (slot_of blk) + int (slot_of blk)) =
        Some (cache s1 (slot_of blk))"
    and c: "content Cached s1 b = Some y"
  shows "content Cached s2 b = Some y"
proof (cases "slot_of b = slot_of blk")
  case False
  then show ?thesis using content_replace [OF assms(1,2,4,5,6)] assms(3) c by simp
next
  case True
  have "disk_content (disk s1) b = Some y"
  proof (cases "cached_at s1 b")
    case cached: True
    have idx: "cache_index s1 (slot_of blk) = b div 32768"
      using cached True by (simp add: cached_at_def)
    moreover have "0 \<le> b div 32768" using assms(1) by simp
    moreover have "32768 * (b div 32768) + int (slot_of blk) = b"
      using blk_split [of b] True by simp
    ultimately have "disk_content (disk s1) b = Some (cache s1 (slot_of blk))"
      using home by simp
    then show ?thesis using c cached True by (simp add: content_def)
  next
    case False
    then show ?thesis using c by (simp add: content_def)
  qed
  then show ?thesis using content_replace [OF assms(1,2,4,5,6)] assms(3) True by simp
qed

lemma cache_ok_replace:
  assumes "cache_ok s1" and "0 \<le> blk" and "length x = 4096"
    and "cache s2 = (cache s1)(slot_of blk := x)"
    and "cache_index s2 = (cache_index s1)(slot_of blk := blk div 32768)"
    and "cache_dirty s2 = (cache_dirty s1)(slot_of blk := d)"
    and "disk s2 = disk s1"
    and "d \<noteq> 1 \<Longrightarrow> disk_content (disk s1) blk = Some x"
  shows "cache_ok s2"
  using assms blk_split [of blk] by (simp add: cache_ok_def)

lemma cache_read_hit:
  assumes "0 \<le> blk" and "cached_at s blk"
  shows "cache_blk_read Cached blk buf s = Inr (cache s (slot_of blk), s)"
  using assms pos_imp_zdiv_nonneg_iff [of 32768 blk]
  by (auto simp: cache_blk_read_def cached_at_def slot_of_mod Let_def)

lemma cache_read_miss:
  assumes io: "io_ok Cached s" and blk: "0 \<le> blk" and x: "content Cached s blk = Some x"
    and miss: "\<not> cached_at s blk"
  shows "\<exists>s'. cache_blk_read Cached blk buf s = Inr (x, s') \<and> io_ok Cached s' \<and>
    (\<forall>b y. 0 \<le> b \<longrightarrow> content Cached s b = Some y \<longrightarrow> content Cached s' b = Some y)"
proof -
  let ?k = "slot_of blk"
  define s1 where "s1 = (if cache_index s ?k = -1 then s else cache_evict ?k blk s)"
  define s2 where "s2 = s1\<lparr>cache := (cache s1)(?k := x),
    cache_index := (cache_index s1)(?k := blk div 32768)\<rparr>"
  have c: "cache_ok s" and d: "disk_ok (disk s)" using io by (simp_all add: io_ok_def)
  have idx: "cache_index s ?k \<noteq> -1 \<Longrightarrow> 0 \<le> cache_index s ?k"
    using cache_ok_index [OF c slot_of_less] .
  note ev = cache_evict_ok [OF io blk]
  have ok1: "disk_ok (disk s1)" "cache_ok s1"
    using ev(1,2) idx c d by (auto simp: s1_def)
  have keep1: "content Cached s1 b = Some y" if "content Cached s b = Some y" for b y
    using ev(4) [OF idx] that by (auto simp: s1_def)
  have fields1: "cache s1 = cache s" "cache_index s1 = cache_index s"
    by (simp_all add: s1_def)
  have "disk_content (disk s1) blk = Some x"
    using keep1 [OF x] miss fields1 by (simp add: content_def cached_at_def)
  then have rd: "read_block (disk s1) blk (word_of_nat (4096 * ?k)) b = (0, x)"
    and len: "length x = 4096" for b
    using read_block_content [OF ok1(1) page_aligned_slot] disk_content_length [OF ok1(1)] by blast+
  have run: "cache_blk_read Cached blk buf s = Inr (x, s2)"
    using blk miss rd fields1
    by (auto simp: cache_blk_read_def s1_def s2_def cache_fill_def cached_at_def slot_of_mod Let_def)
  have "cache_ok s2"
    by (rule cache_ok_replace [OF ok1(2) blk len, where d = "cache_dirty s1 ?k"])
      (simp_all add: s2_def \<open>disk_content (disk s1) blk = Some x\<close>)
  then have io2: "io_ok Cached s2"
    using ok1(1) by (simp add: io_ok_def s2_def)
  have "content Cached s2 b = Some y" if b: "0 \<le> b" "content Cached s b = Some y" for b y
  proof (cases "b = blk")
    case True
    then show ?thesis
      using that x content_replace [of b blk s2 s1 x] blk by (simp add: s2_def)
  next
    case False
    show ?thesis
    proof (rule content_replace_other [where ?s1.0 = s1 and x = x and blk = blk])
      show "disk_content (disk s1) (32768 * cache_index s1 ?k + int ?k) = Some (cache s1 ?k)"
        if "0 \<le> cache_index s1 ?k"
        using that ev(3) by (auto simp: s1_def)
    qed (use b blk False keep1 in \<open>simp_all add: s2_def\<close>)
  qed
  with run io2 show ?thesis by blast
qed

lemma cache_blk_read_ok:
  assumes "io_ok c s" and "0 \<le> blk" and "content c s blk = Some x"
  shows "\<exists>s'. cache_blk_read c blk buf s = Inr (x, s') \<and> io_ok c s' \<and>
    (\<forall>b y. 0 \<le> b \<longrightarrow> content c s b = Some y \<longrightarrow> content c s' b = Some y)"
proof (cases c)
  case Plain
  then show ?thesis
    using assms read_block_content [of "disk s" 0 blk x buf]
    by (simp add: cache_blk_read_def content_def io_ok_def)
next
  case Cached
  show ?thesis
  proof (cases "cached_at s blk")
    case True
    then show ?thesis using assms Cached by (auto simp: cache_read_hit content_def)
  next
    case False
    then show ?thesis using assms Cached cache_read_miss by simp
  qed
qed

lemma cache_write_cached:
  assumes io: "io_ok Cached s" and blk: "0 \<le> blk" and len: "length x = 4096"
  shows "\<exists>s'. cache_blk_write Cached blk (Some x) s = Inr s' \<and> io_ok Cached s' \<and>
    content Cached s' blk = Some x \<and>
    (\<forall>b y. 0 \<le> b \<longrightarrow> b \<noteq> blk \<longrightarrow> content Cached s b = Some y \<longrightarrow> content Cached s' b = Some y)"
proof -
  let ?k = "slot_of blk"
  define keepslot where "keepslot \<longleftrightarrow> cache_index s ?k = -1 \<or> cached_at s blk"
  define s1 where "s1 = (if keepslot then s else cache_evict ?k blk s)"
  define s2 where "s2 = s1\<lparr>cache := (cache s1)(?k := x),
    cache_index := (cache_index s1)(?k := blk div 32768),
    cache_dirty := (cache_dirty s1)(?k := 1)\<rparr>"
  have c: "cache_ok s" and d: "disk_ok (disk s)" using io by (simp_all add: io_ok_def)
  have idx: "\<not> keepslot \<Longrightarrow> 0 \<le> cache_index s ?k"
    using cache_ok_index [OF c slot_of_less] by (auto simp: keepslot_def)
  note ev = cache_evict_ok [OF io blk]
  have ok1: "disk_ok (disk s1)" "cache_ok s1"
    using ev(1,2) idx c d by (auto simp: s1_def)
  have keep1: "content Cached s1 b = Some y" if "content Cached s b = Some y" for b y
    using ev(4) [OF idx] that by (auto simp: s1_def)
  have run: "cache_blk_write Cached blk (Some x) s = Inr s2"
    using blk by (simp add: cache_blk_write_def s1_def s2_def keepslot_def cached_at_def
        slot_of_mod Let_def)
  have "cache_ok s2"
    by (rule cache_ok_replace [OF ok1(2) blk len, where d = 1]) (simp_all add: s2_def)
  then have io2: "io_ok Cached s2"
    using ok1(1) by (simp add: io_ok_def s2_def)
  have new: "content Cached s2 blk = Some x"
    using content_replace [of blk blk s2 s1 x] blk by (simp add: s2_def)
  have "content Cached s2 b = Some y" if b: "0 \<le> b" "b \<noteq> blk" "content Cached s b = Some y" for b y
  proof (cases keepslot)
    case False
    show ?thesis
    proof (rule content_replace_other [where ?s1.0 = s1 and x = x and blk = blk])
      show "disk_content (disk s1) (32768 * cache_index s1 ?k + int ?k) = Some (cache s1 ?k)"
        if "0 \<le> cache_index s1 ?k"
        using that ev(3) False by (auto simp: s1_def)
    qed (use b blk keep1 in \<open>simp_all add: s2_def\<close>)
  next
    case True
    have nc: "\<not> cached_at s b" if "slot_of b = ?k"
      using True b(1,2) that same_slot_index [of b blk] pos_imp_zdiv_nonneg_iff [of 32768 b]
      by (auto simp: keepslot_def cached_at_def)
    show ?thesis
      using content_replace [of b blk s2 s1 x] b blk True nc
      by (auto simp: s2_def s1_def content_def)
  qed
  with run io2 new show ?thesis by blast
qed

lemma cache_blk_write_ok:
  assumes "io_ok c s" and "0 \<le> blk" and "length x = 4096"
  shows "\<exists>s'. cache_blk_write c blk (Some x) s = Inr s' \<and> io_ok c s' \<and>
    content c s' blk = Some x \<and>
    (\<forall>b y. 0 \<le> b \<longrightarrow> b \<noteq> blk \<longrightarrow> content c s b = Some y \<longrightarrow> content c s' b = Some y)"
proof (cases c)
  case Plain
  obtain r d where "write_block (disk s) blk 0 (Some x) = (r, d)" by fastforce
  then show ?thesis
    using assms Plain write_block_content [of "disk s" 0 blk x r d]
    by (simp add: cache_blk_write_def content_def io_ok_def)
next
  case Cached
  then show ?thesis using assms cache_write_cached by simp
qed

section \<open>The interface the object store relies on\<close>

locale block_store =
  fixes rd :: "int \<Rightarrow> block \<Rightarrow> 's \<Rightarrow> (block \<times> 's) res"
    and wr :: "int \<Rightarrow> block option \<Rightarrow> 's \<Rightarrow> 's res"
    and cont :: "'s \<Rightarrow> int \<Rightarrow> block option"
    and inv :: "'s \<Rightarrow> bool"
  assumes rd_law: "inv s \<Longrightarrow> 0 \<le> blk \<Longrightarrow> cont s blk = Some x \<Longrightarrow>
      \<exists>s'. rd blk buf s = Inr (x, s') \<and> inv s' \<and>
        (\<forall>b y. 0 \<le> b \<longrightarrow> cont s b = Some y \<longrightarrow> cont s' b = Some y)"
    and wr_law: "inv s \<Longrightarrow> 0 \<le> blk \<Longrightarrow> length x = 4096 \<Longrightarrow>
      \<exists>s'. wr blk (Some x) s = Inr s' \<and> inv s' \<and> cont s' blk = Some x \<and>
        (\<forall>b y. 0 \<le> b \<longrightarrow> b \<noteq> blk \<longrightarrow> cont s b = Some y \<longrightarrow> cont s' b = Some y)"
    and len_law: "inv s \<Longrightarrow> 0 \<le> blk \<Longrightarrow> cont s blk = Some x \<Longrightarrow> length x = 4096"

text \<open>
  The read-modify-write of one entry of an index block: read it into a fresh zeroed buffer,
  set entry \<open>k\<close>, write it back.
\<close>

definition rmw_entry ::
    "(int \<Rightarrow> block \<Rightarrow> 's \<Rightarrow> (block \<times> 's) res) \<Rightarrow> (int \<Rightarrow> block option \<Rightarrow> 's \<Rightarrow> 's res) \<Rightarrow>
     int \<Rightarrow> nat \<Rightarrow> int \<Rightarrow> 's \<Rightarrow> 's res" where
  "rmw_entry rd wr ind k v s =
     rbind (rd ind zero_block s) (\<lambda>(ib, s1). wr ind (Some (put_int ib k v)) s1)"

text \<open>Sequences of transfers: the blocks read, in the store and in an abstract map.\<close>

datatype io_op = IoRead int | IoWrite int block

fun io_run ::
    "(int \<Rightarrow> block \<Rightarrow> 's \<Rightarrow> (block \<times> 's) res) \<Rightarrow> (int \<Rightarrow> block option \<Rightarrow> 's \<Rightarrow> 's res) \<Rightarrow>
     io_op list \<Rightarrow> 's \<Rightarrow> (block list \<times> 's) res" where
  "io_run rd wr [] s = Inr ([], s)"
| "io_run rd wr (IoRead b # ops) s =
     rbind (rd b zero_block s) (\<lambda>(x, s1). rbind (io_run rd wr ops s1) (\<lambda>(xs, s2). Inr (x # xs, s2)))"
| "io_run rd wr (IoWrite b x # ops) s = rbind (wr b (Some x) s) (io_run rd wr ops)"

fun io_spec :: "io_op list \<Rightarrow> (int \<Rightarrow> block option) \<Rightarrow> block list" where
  "io_spec [] C = []"
| "io_spec (IoRead b # ops) C = the (C b) # io_spec ops C"
| "io_spec (IoWrite b x # ops) C = io_spec ops (C(b := Some x))"

fun io_wf :: "io_op list \<Rightarrow> (int \<Rightarrow> block option) \<Rightarrow> bool" where
  "io_wf [] C \<longleftrightarrow> True"
| "io_wf (IoRead b # ops) C \<longleftrightarrow> 0 \<le> b \<and> C b \<noteq> None \<and> io_wf ops C"
| "io_wf (IoWrite b x # ops) C \<longleftrightarrow> 0 \<le> b \<and> length x = 4096 \<and> io_wf ops (C(b := Some x))"

context block_store
begin

lemma io_trace:
  assumes "inv s" and "\<And>b x. 0 \<le> b \<Longrightarrow> C b = Some x \<Longrightarrow> cont s b = Some x" and "io_wf ops C"
  shows "\<exists>t. io_run rd wr ops s = Inr (io_spec ops C, t) \<and> inv t"
  using assms
proof (induction ops C arbitrary: s rule: io_spec.induct)
  case (1 C)
  then show ?case by simp
next
  case (2 b ops C)
  then obtain x where x: "C b = Some x" and b: "0 \<le> b" by auto
  obtain s1 where s1: "rd b zero_block s = Inr (x, s1)" "inv s1"
      "\<forall>b y. 0 \<le> b \<longrightarrow> cont s b = Some y \<longrightarrow> cont s1 b = Some y"
    using rd_law [OF 2(2) b 2(3) [OF b x]] by blast
  have "\<exists>t. io_run rd wr ops s1 = Inr (io_spec ops C, t) \<and> inv t"
    using 2(1) [OF s1(2)] 2(3,4) s1(3) by auto
  with s1(1) x show ?case by auto
next
  case (3 b x ops C)
  then have b: "0 \<le> b" "length x = 4096" by simp_all
  obtain s1 where s1: "wr b (Some x) s = Inr s1" "inv s1" "cont s1 b = Some x"
      "\<forall>b' y. 0 \<le> b' \<longrightarrow> b' \<noteq> b \<longrightarrow> cont s b' = Some y \<longrightarrow> cont s1 b' = Some y"
    using wr_law [OF 3(2) b] by blast
  have "\<exists>t. io_run rd wr ops s1 = Inr (io_spec ops (C(b := Some x)), t) \<and> inv t"
  proof (rule 3(1) [OF s1(2)])
    show "cont s1 b' = Some y" if "0 \<le> b'" "(C(b := Some x)) b' = Some y" for b' y
      using that 3(3) s1(3,4) by (cases "b' = b") simp_all
    show "io_wf ops (C(b := Some x))" using 3(4) by simp
  qed
  with s1(1) show ?case by simp
qed

lemma wr_rd:
  assumes "inv s" and "0 \<le> blk" and "length x = 4096"
  shows "\<exists>s'. rbind (wr blk (Some x) s) (rd blk buf) = Inr (x, s') \<and> inv s'"
proof -
  obtain s1 where "wr blk (Some x) s = Inr s1" and "inv s1" and "cont s1 blk = Some x"
    using wr_law [OF assms] by blast
  moreover from rd_law [OF this(2) assms(2) this(3)]
  obtain s2 where "rd blk buf s1 = Inr (x, s2)" and "inv s2" by blast
  ultimately show ?thesis by simp
qed

lemma rmw_entry_law:
  assumes "inv s" and "0 \<le> ind" and "cont s ind = Some ib" and "k < 1024"
  shows "\<exists>s'. rmw_entry rd wr ind k v s = Inr s' \<and> inv s' \<and>
    cont s' ind = Some (put_int ib k v) \<and>
    (\<forall>b y. 0 \<le> b \<longrightarrow> b \<noteq> ind \<longrightarrow> cont s b = Some y \<longrightarrow> cont s' b = Some y)"
proof -
  obtain s1 where s1: "rd ind zero_block s = Inr (ib, s1)" "inv s1"
      "\<forall>b y. 0 \<le> b \<longrightarrow> cont s b = Some y \<longrightarrow> cont s1 b = Some y"
    using rd_law [OF assms(1,2,3)] by blast
  have "length (put_int ib k v) = 4096"
    using len_law [OF assms(1,2,3)] assms(4) by (simp add: length_put_int)
  from wr_law [OF s1(2) assms(2) this] obtain s2 where s2:
      "wr ind (Some (put_int ib k v)) s1 = Inr s2" "inv s2" "cont s2 ind = Some (put_int ib k v)"
      "\<forall>b y. 0 \<le> b \<longrightarrow> b \<noteq> ind \<longrightarrow> cont s1 b = Some y \<longrightarrow> cont s2 b = Some y"
    by blast
  with s1 show ?thesis by (auto simp: rmw_entry_def)
qed

end

lemma content_length: "io_ok c s \<Longrightarrow> content c s blk = Some x \<Longrightarrow> length x = 4096"
  by (auto simp: content_def io_ok_def cache_ok_def disk_content_length split: if_splits)

interpretation io: block_store "cache_blk_read c" "cache_blk_write c" "content c" "io_ok c"
  for c
proof (unfold_locales, goal_cases)
  case 1
  then show ?case by (rule cache_blk_read_ok)
next
  case 2
  then show ?case by (rule cache_blk_write_ok)
next
  case 3
  from 3(1,3) show ?case by (rule content_length)
qed

end
