(* ===== verification/Inodes.thy ===== *)
theory Inodes
  imports Block_Cache
begin

text \<open>
  The object table of \<open>assignment4/objstore.c\<close>: \<open>struct object\<close>, the inode bitmap, and
  the operations that find, create and rename objects or report their size. Slot \<open>k\<close> of
  the table is live when bit \<open>k\<close> of the inode bitmap is set; the invariant \<open>inodes_ok\<close>
  says that a live slot carries the id \<open>k + 2\<close> and a free slot is blank.
\<close>

section \<open>State\<close>

text \<open>\<open>struct object\<close>; the key is the raw \<open>char[32]\<close>, a C string followed by leftovers.\<close>

record object =
  o_id :: int
  o_size :: int
  o_cache_index :: int
  o_dirty :: int
  o_direct :: "int list"
  o_indirect :: "int list"
  o_key :: "char list"

text \<open>
  The globals of \<open>objstore.c\<close>. \<open>backup\<close> is the slot of the object found last, \<open>None\<close>
  while it still points to the zeroed page allocated at start.
\<close>

record objstore =
  dev :: bstate
  inode_bitmap :: bitmap
  data_bitmap :: bitmap
  dirty_array :: "nat \<Rightarrow> int"
  objs :: "nat \<Rightarrow> object"
  backup :: "nat option"

abbreviation n_inodes :: nat where
  "n_inodes \<equiv> 1015808" \<comment> \<open>\<open>INODE_BITMAP_SIZE*BLOCK_SIZE/4\<close> words of 32 bits\<close>

abbreviation n_slots :: nat where
  "n_slots \<equiv> 1048576" \<comment> \<open>\<open>INODE_BLOCKS*BLOCK_SIZE / sizeof(struct object)\<close>\<close>

definition zero_object :: object where
  "zero_object = \<lparr>o_id = 0, o_size = 0, o_cache_index = 0, o_dirty = 0,
     o_direct = [0, 0, 0, 0], o_indirect = [0, 0, 0, 0], o_key = replicate 32 (CHR 0x00)\<rparr>"

abbreviation live :: "objstore \<Rightarrow> nat \<Rightarrow> bool" where
  "live s \<equiv> bit_set (inode_bitmap s)"

abbreviation obj_update :: "nat \<Rightarrow> (object \<Rightarrow> object) \<Rightarrow> objstore \<Rightarrow> objstore" where
  "obj_update k f s \<equiv> s\<lparr>objs := (objs s)(k := f (objs s k))\<rparr>"

abbreviation mark_dirty :: "nat \<Rightarrow> objstore \<Rightarrow> objstore" where
  "mark_dirty k s \<equiv> s\<lparr>dirty_array := (dirty_array s)(k div 46 := 1)\<rparr>"

text \<open>C strings in a buffer.\<close>

definition cstr :: "char list \<Rightarrow> string" where
  "cstr buf = takeWhile (\<lambda>c. c \<noteq> CHR 0x00) buf"

definition strcpy :: "char list \<Rightarrow> string \<Rightarrow> char list res" where
  "strcpy buf src =
     (if length src < length buf then Inr (src @ [CHR 0x00] @ drop (length src + 1) buf)
      else Inl BufferOverflow)"

lemma cstr_append: "CHR 0x00 \<notin> set src \<Longrightarrow> cstr (src @ CHR 0x00 # xs) = src"
  by (induction src) (auto simp: cstr_def)

lemma strcpy_ok:
  "length src < length buf \<Longrightarrow> CHR 0x00 \<notin> set src \<Longrightarrow>
   \<exists>b. strcpy buf src = Inr b \<and> cstr b = src \<and> length b = length buf \<and> CHR 0x00 \<in> set b"
  by (simp add: strcpy_def cstr_append)

section \<open>Operations\<close>

definition find_target :: "int \<Rightarrow> bool \<Rightarrow> objstore \<Rightarrow> nat option \<times> objstore" where
  "find_target objid set_dirty s =
     (case scan (\<lambda>k. live s k \<and> o_id (objs s k) = objid) 0 n_inodes of
        Some k \<Rightarrow> (Some k, if set_dirty then mark_dirty k s else s)
      | None \<Rightarrow> (None, s))"

definition has_key :: "objstore \<Rightarrow> string \<Rightarrow> nat \<Rightarrow> bool" where
  "has_key s key k \<longleftrightarrow> live s k \<and> o_id (objs s k) \<noteq> 0 \<and> cstr (o_key (objs s k)) = key"

definition find_object_id :: "string \<Rightarrow> objstore \<Rightarrow> int \<times> objstore" where
  "find_object_id key s =
     (case scan (has_key s key) 0 n_inodes of
        Some k \<Rightarrow> (o_id (objs s k), s\<lparr>backup := Some k\<rparr>)
      | None \<Rightarrow> (-1, s))"

text \<open>
  The loop of \<open>create_object\<close> visits every bit; the first clear one is taken (the variable
  \<open>free\<close>), the others are passed over.
\<close>

fun create_loop :: "nat \<Rightarrow> nat \<Rightarrow> nat option \<Rightarrow> objstore \<Rightarrow> nat option \<times> objstore" where
  "create_loop ctr 0 free s = (free, s)"
| "create_loop ctr (Suc n) free s =
     (if \<not> live s ctr \<and> free = None
      then create_loop (Suc ctr) n (Some ctr)
             (obj_update ctr (\<lambda>obj. obj\<lparr>o_id := int ctr + 2\<rparr>)
               (mark_dirty ctr (s\<lparr>inode_bitmap := set_bit_at ctr (inode_bitmap s)\<rparr>)))
      else create_loop (Suc ctr) n free s)"

definition create_object :: "string \<Rightarrow> objstore \<Rightarrow> (int \<times> objstore) res" where
  "create_object key s =
     (case create_loop 0 n_inodes None s of
        (None, s1) \<Rightarrow> Inr (-1, s1)
      | (Some k, s1) \<Rightarrow>
          rbind (strcpy (o_key (objs s1 k)) key)
            (\<lambda>b. Inr (o_id (objs s1 k), obj_update k (\<lambda>obj. obj\<lparr>o_key := b\<rparr>) s1)))"

definition release_object :: "int \<Rightarrow> objstore \<Rightarrow> int" where
  "release_object objid s = 0"

text \<open>
  \<open>rename_object\<close> never initialises its counter \<open>ctr\<close>: \<open>ctr0\<close> is the indeterminate value
  it starts from. The object examined at bit \<open>pos\<close> is \<open>a\<close> itself in the first round and
  \<open>a + ctr\<close> afterwards; \<open>actual\<close> is indeterminate (\<open>None\<close>) until a match.
\<close>

fun rename_loop ::
    "string \<Rightarrow> string \<Rightarrow> nat \<Rightarrow> nat \<Rightarrow> int \<Rightarrow> int \<Rightarrow> nat option \<Rightarrow> objstore \<Rightarrow>
     (int option \<times> nat option \<times> objstore) res" where
  "rename_loop key newname pos 0 ctr obj actual s = Inr (None, actual, s)"
| "rename_loop key newname pos (Suc n) ctr obj actual s =
     (if \<not> live s pos
      then rename_loop key newname (Suc pos) n (s32 (ctr + 1)) (s32 (ctr + 1)) actual s
      else if obj < 0 \<or> int n_slots \<le> obj then Inl OutOfBounds
      else if cstr (o_key (objs s (nat obj))) \<noteq> key
      then rename_loop key newname (Suc pos) n (s32 (ctr + 1)) (s32 (ctr + 1)) actual s
      else if actual \<noteq> None then Inr (Some (-1), actual, s)
      else if ctr sdiv 46 < 0 \<or> 22528 \<le> ctr sdiv 46 then Inl OutOfBounds
      else
        rbind (strcpy (o_key (objs s (nat obj))) newname)
          (\<lambda>b. rename_loop key newname (Suc pos) n (s32 (ctr + 1)) (s32 (ctr + 1)) (Some (nat obj))
            (obj_update (nat obj) (\<lambda>ob. ob\<lparr>o_key := b\<rparr>)
              (s\<lparr>dirty_array := (dirty_array s)(nat (ctr sdiv 46) := 1)\<rparr>))))"

definition rename_object :: "int \<Rightarrow> string \<Rightarrow> string \<Rightarrow> objstore \<Rightarrow> (int \<times> objstore) res" where
  "rename_object ctr0 key newname s =
     rbind (rename_loop key newname 0 n_inodes ctr0 0 None s)
       (\<lambda>(early, actual, s1).
          case early of
            Some r \<Rightarrow> Inr (r, s1)
          | None \<Rightarrow> (case actual of
                       None \<Rightarrow> Inl Uninitialised
                     | Some k \<Rightarrow> Inr (o_id (objs s1 k), s1)))"

text \<open>The fields of \<open>struct stat\<close> that the object store and its FUSE layer fill in.\<close>

record stat =
  st_ino :: int
  st_size :: int
  st_blocks :: int
  st_uid :: int
  st_gid :: int

definition backup_object :: "objstore \<Rightarrow> object" where
  "backup_object s = (case backup s of None \<Rightarrow> zero_object | Some k \<Rightarrow> objs s k)"

definition fillup_size_details :: "stat \<Rightarrow> objstore \<Rightarrow> int \<times> stat" where
  "fillup_size_details buf s =
     (let obj = backup_object s in
      if st_ino buf < 2 \<or> o_id obj \<noteq> st_ino buf then (-1, buf)
      else (0, buf\<lparr>st_size := o_size obj,
                   st_blocks := o_size obj div 512 +
                     (if o_size obj div 512 * 512 \<noteq> o_size obj then 1 else 0)\<rparr>))"

section \<open>Invariant\<close>

definition blank :: "object \<Rightarrow> bool" where
  "blank ob \<longleftrightarrow> o_size ob = 0 \<and> o_direct ob = [0, 0, 0, 0] \<and> o_indirect ob = [0, 0, 0, 0]"

definition inodes_ok :: "objstore \<Rightarrow> bool" where
  "inodes_ok s \<longleftrightarrow>
     (\<forall>k < n_inodes.
        length (o_direct (objs s k)) = 4 \<and> length (o_indirect (objs s k)) = 4 \<and>
        length (o_key (objs s k)) = 32 \<and> CHR 0x00 \<in> set (o_key (objs s k)) \<and>
        (if live s k then o_id (objs s k) = int k + 2 else blank (objs s k)))"

text \<open>The directory view: the slots that answer to a key.\<close>

definition slots_with :: "objstore \<Rightarrow> string \<Rightarrow> nat set" where
  "slots_with s key = {k. k < n_inodes \<and> has_key s key k}"

section \<open>Lookup\<close>

lemma inodes_okD:
  assumes "inodes_ok s" and "k < n_inodes"
  shows "length (o_direct (objs s k)) = 4" and "length (o_indirect (objs s k)) = 4"
    and "length (o_key (objs s k)) = 32" and "CHR 0x00 \<in> set (o_key (objs s k))"
    and "live s k \<Longrightarrow> o_id (objs s k) = int k + 2"
    and "\<not> live s k \<Longrightarrow> blank (objs s k)"
  using assms by (auto simp: inodes_ok_def)

lemma has_key_iff:
  "inodes_ok s \<Longrightarrow> k < n_inodes \<Longrightarrow> has_key s key k \<longleftrightarrow> live s k \<and> cstr (o_key (objs s k)) = key"
  using inodes_okD(5) [of s k] by (auto simp: has_key_def)

lemma find_target_live:
  assumes "inodes_ok s" and "k < n_inodes" and "live s k"
  shows "find_target (int k + 2) sd s = (Some k, if sd then mark_dirty k s else s)"
proof -
  have "scan (\<lambda>j. live s j \<and> o_id (objs s j) = int k + 2) 0 n_inodes = Some k"
  proof (rule scan_SomeI)
    show "\<not> (live s j \<and> o_id (objs s j) = int k + 2)" if "j < k" for j
      using inodes_okD(5) [OF assms(1), of j] assms(2) that by auto
  qed (use assms inodes_okD(5) in auto)
  then show ?thesis by (simp add: find_target_def)
qed

lemma find_target_None:
  assumes "inodes_ok s" and "\<forall>k < n_inodes. live s k \<longrightarrow> int k + 2 \<noteq> objid"
  shows "find_target objid sd s = (None, s)"
proof -
  have "scan (\<lambda>j. live s j \<and> o_id (objs s j) = objid) 0 n_inodes = None"
    using assms inodes_okD(5) [OF assms(1)] by (auto simp: scan_None_iff)
  then show ?thesis by (simp add: find_target_def)
qed

lemma find_object_id_least:
  assumes "inodes_ok s" and "k \<in> slots_with s key" and "\<And>j. j \<in> slots_with s key \<Longrightarrow> k \<le> j"
  shows "find_object_id key s = (int k + 2, s\<lparr>backup := Some k\<rparr>)"
proof -
  have "scan (has_key s key) 0 n_inodes = Some k"
  proof (rule scan_SomeI)
    show "\<not> has_key s key j" if "j < k" for j
      using assms(2) assms(3) [of j] that by (auto simp: slots_with_def)
  qed (use assms(2) in \<open>auto simp: slots_with_def\<close>)
  moreover have "o_id (objs s k) = int k + 2"
    using assms(1,2) inodes_okD(5) by (auto simp: slots_with_def has_key_def)
  ultimately show ?thesis by (simp add: find_object_id_def)
qed

lemma find_object_id_missing:
  assumes "slots_with s key = {}"
  shows "find_object_id key s = (-1, s)"
proof -
  have "scan (has_key s key) 0 n_inodes = None"
    using assms by (auto simp: scan_None_iff slots_with_def)
  then show ?thesis by (simp add: find_object_id_def)
qed

section \<open>Creation\<close>

lemma create_loop_taken: "create_loop ctr n (Some k) s = (Some k, s)"
  by (induction n arbitrary: ctr) auto

lemma create_loop_scan:
  "create_loop ctr n None s =
     (case scan (\<lambda>k. \<not> live s k) ctr n of
        None \<Rightarrow> (None, s)
      | Some k \<Rightarrow> (Some k, obj_update k (\<lambda>obj. obj\<lparr>o_id := int k + 2\<rparr>)
                     (mark_dirty k (s\<lparr>inode_bitmap := set_bit_at k (inode_bitmap s)\<rparr>))))"
  by (induction n arbitrary: ctr) (auto simp: create_loop_taken)

lemma create_object_full:
  assumes "\<forall>k < n_inodes. live s k"
  shows "create_object key s = Inr (-1, s)"
proof -
  have "scan (\<lambda>k. \<not> live s k) 0 n_inodes = None"
    using assms by (simp add: scan_None_iff)
  then show ?thesis by (simp add: create_object_def create_loop_scan)
qed

definition created :: "nat \<Rightarrow> char list \<Rightarrow> objstore \<Rightarrow> objstore" where
  "created k b s =
     (obj_update k (\<lambda>ob. ob\<lparr>o_id := int k + 2, o_key := b\<rparr>)
       (mark_dirty k (s\<lparr>inode_bitmap := set_bit_at k (inode_bitmap s)\<rparr>)))"

lemma created_simps [simp]:
  "live (created k b s) j \<longleftrightarrow> k = j \<or> live s j"
  "objs (created k b s) = (objs s)(k := (objs s k)\<lparr>o_id := int k + 2, o_key := b\<rparr>)"
  "dev (created k b s) = dev s"
  "data_bitmap (created k b s) = data_bitmap s"
  "backup (created k b s) = backup s"
  "dirty_array (created k b s) = (dirty_array s)(k div 46 := 1)"
  by (simp_all add: created_def)

lemma create_object_at:
  assumes "inodes_ok s" and "k < n_inodes" and "\<not> live s k" and "\<forall>j < k. live s j"
    and "length key < 32" and "CHR 0x00 \<notin> set key"
  shows "\<exists>b. create_object key s = Inr (int k + 2, created k b s) \<and> cstr b = key \<and>
    length b = 32 \<and> CHR 0x00 \<in> set b"
proof -
  have sc: "scan (\<lambda>k. \<not> live s k) 0 n_inodes = Some k"
    using assms(2-4) by (intro scan_SomeI) auto
  obtain b where "strcpy (o_key (objs s k)) key = Inr b" "cstr b = key" "length b = 32"
      "CHR 0x00 \<in> set b"
    using strcpy_ok [of key "o_key (objs s k)"] assms(5,6) inodes_okD(3) [OF assms(1,2)] by auto
  with sc show ?thesis
    by (auto simp: create_object_def create_loop_scan created_def)
qed

lemma created_inodes_ok:
  "inodes_ok s \<Longrightarrow> k < n_inodes \<Longrightarrow> length b = 32 \<Longrightarrow> CHR 0x00 \<in> set b \<Longrightarrow>
   inodes_ok (created k b s)"
  by (auto simp: inodes_ok_def)

lemma slots_with_created:
  assumes "inodes_ok s" and "k < n_inodes" and "\<not> live s k"
  shows "slots_with (created k b s) key =
    (if cstr b = key then insert k (slots_with s key) else slots_with s key)"
  using assms by (auto simp: slots_with_def has_key_def split: if_splits)

section \<open>Renaming\<close>

text \<open>With the counter at zero the loop examines object \<open>pos\<close> at bit \<open>pos\<close>.\<close>

lemma rename_loop_skip:
  assumes "pos + n \<le> n_inodes"
    and "\<And>k. pos \<le> k \<Longrightarrow> k < pos + n \<Longrightarrow> live s k \<Longrightarrow> cstr (o_key (objs s k)) \<noteq> key"
  shows "rename_loop key new pos n (int pos) (int pos) actual s = Inr (None, actual, s)"
  using assms
proof (induction n arbitrary: pos)
  case 0
  then show ?case by simp
next
  case (Suc n)
  have "rename_loop key new (Suc pos) n (int (Suc pos)) (int (Suc pos)) actual s = Inr (None, actual, s)"
    using Suc.prems by (intro Suc.IH) auto
  then show ?case using Suc.prems by (auto simp: ac_simps)
qed

definition renamed :: "nat \<Rightarrow> char list \<Rightarrow> objstore \<Rightarrow> objstore" where
  "renamed k b s = obj_update k (\<lambda>ob. ob\<lparr>o_key := b\<rparr>) (mark_dirty k s)"

lemma rename_loop_prefix:
  assumes "pos + n \<le> n_inodes" and "pos \<le> k" and "k < pos + n"
    and "\<And>j. pos \<le> j \<Longrightarrow> j < k \<Longrightarrow> live s j \<Longrightarrow> cstr (o_key (objs s j)) \<noteq> key"
  shows "rename_loop key new pos n (int pos) (int pos) actual s =
    rename_loop key new k (pos + n - k) (int k) (int k) actual s"
  using assms
proof (induction n arbitrary: pos)
  case 0
  then show ?case by simp
next
  case (Suc n)
  show ?case
  proof (cases "pos = k")
    case True
    then show ?thesis by simp
  next
    case False
    have "rename_loop key new (Suc pos) n (int (Suc pos)) (int (Suc pos)) actual s =
        rename_loop key new k (Suc pos + n - k) (int k) (int k) actual s"
      using Suc.prems False by (intro Suc.IH) auto
    then show ?thesis using Suc.prems False by (auto simp: ac_simps)
  qed
qed

lemma rename_object_unique:
  assumes ok: "inodes_ok s" and k: "slots_with s key = {k}"
    and new: "length newname < 32" "CHR 0x00 \<notin> set newname" "newname \<noteq> key"
  shows "\<exists>b. rename_object 0 key newname s = Inr (int k + 2, renamed k b s) \<and> cstr b = newname \<and>
    length b = 32 \<and> CHR 0x00 \<in> set b"
proof -
  have kn: "k < n_inodes" and lk: "live s k" and ck: "cstr (o_key (objs s k)) = key"
    using k by (auto simp: slots_with_def has_key_def)
  have others: "cstr (o_key (objs s j)) \<noteq> key" if "j < n_inodes" "live s j" "j \<noteq> k" for j
    using that k has_key_iff [OF ok that(1)] by (auto simp: slots_with_def)
  obtain b where b: "strcpy (o_key (objs s k)) newname = Inr b" "cstr b = newname" "length b = 32"
      "CHR 0x00 \<in> set b"
    using strcpy_ok [of newname "o_key (objs s k)"] new inodes_okD(3) [OF ok kn] by auto
  obtain m where m: "n_inodes - k = Suc m" using kn by (metis Suc_diff_Suc minus_nat.diff_0)
  have "rename_loop key newname 0 n_inodes 0 0 None s =
      rename_loop key newname k (Suc m) (int k) (int k) None s"
    using rename_loop_prefix [of 0 n_inodes k s key newname None] kn others m by simp
  also have "\<dots> = rename_loop key newname (Suc k) m (int (Suc k)) (int (Suc k)) (Some k) (renamed k b s)"
  proof -
    have "int k div 46 < 22528" and "0 \<le> int k div 46" using kn by auto
    then show ?thesis
      using kn lk ck b by (simp add: renamed_def nat_div_distrib ac_simps)
  qed
  also have "\<dots> = Inr (None, Some k, renamed k b s)"
    using m kn others by (intro rename_loop_skip) (auto simp: renamed_def)
  finally show ?thesis
    using b inodes_okD(5) [OF ok kn lk] by (auto simp: rename_object_def renamed_def)
qed

lemma slots_with_renamed:
  "slots_with (renamed k b s) key' =
    (if k \<in> slots_with s (cstr (o_key (objs s k)))
     then (if cstr b = key' then insert k (slots_with s key') else slots_with s key' - {k})
     else slots_with s key')"
  by (auto simp: slots_with_def has_key_def renamed_def split: if_splits)

end
