(* ===== verification/Data_Blocks.thy ===== *)
theory Data_Blocks
  imports Inodes
begin

text \<open>
  Allocation of data blocks (\<open>free_data_block\<close>) and their release in \<open>destroy_object\<close>, of
  \<open>assignment4/objstore.c\<close>. Data block \<open>n\<close> is disk block \<open>22815 + n\<close> and bit \<open>n\<close> of the
  data bitmap. The macro \<open>data_block_offset\<close> is \<open>22528+287\<close> without parentheses, so
  \<open>x - data_block_offset\<close> in \<open>destroy_object\<close> is \<open>(x - 22528) + 287\<close>; the definitions
  keep the expression the preprocessor produces.
\<close>

abbreviation n_dblocks :: nat where
  "n_dblocks \<equiv> 8388608" \<comment> \<open>\<open>DATA_BITMAP_SIZE*BLOCK_SIZE/4\<close> words of 32 bits\<close>

section \<open>Allocation\<close>

definition free_data_block :: "objstore \<Rightarrow> int \<times> objstore" where
  "free_data_block s =
     (case scan (\<lambda>k. \<not> bit_set (data_bitmap s) k) 0 n_dblocks of
        Some k \<Rightarrow> (22528 + 287 + int k, s\<lparr>data_bitmap := set_bit_at k (data_bitmap s)\<rparr>)
      | None \<Rightarrow> (-1, s))"

lemma free_data_block_at:
  assumes "k < n_dblocks" and "\<not> bit_set (data_bitmap s) k" and "\<forall>j < k. bit_set (data_bitmap s) j"
  shows "free_data_block s = (22815 + int k, s\<lparr>data_bitmap := set_bit_at k (data_bitmap s)\<rparr>)"
proof -
  have "scan (\<lambda>k. \<not> bit_set (data_bitmap s) k) 0 n_dblocks = Some k"
    using assms by (intro scan_SomeI) auto
  then show ?thesis by (simp add: free_data_block_def)
qed

lemma free_data_block_full:
  assumes "\<forall>j < n_dblocks. bit_set (data_bitmap s) j"
  shows "free_data_block s = (-1, s)"
proof -
  have "scan (\<lambda>k. \<not> bit_set (data_bitmap s) k) 0 n_dblocks = None"
    using assms by (simp add: scan_None_iff)
  then show ?thesis by (simp add: free_data_block_def)
qed

text \<open>Either the bitmap is full, or the least clear bit is taken.\<close>

lemma free_data_block_cases:
  obtains (full) "\<forall>j < n_dblocks. bit_set (data_bitmap s) j" and "free_data_block s = (-1, s)"
  | (free) k where "k < n_dblocks" and "\<not> bit_set (data_bitmap s) k"
      and "\<forall>j < k. bit_set (data_bitmap s) j"
      and "free_data_block s = (22815 + int k, s\<lparr>data_bitmap := set_bit_at k (data_bitmap s)\<rparr>)"
proof (cases "scan (\<lambda>k. \<not> bit_set (data_bitmap s) k) 0 n_dblocks")
  case None
  then show ?thesis using full free_data_block_full by (auto simp: scan_None_iff)
next
  case (Some k)
  then show ?thesis using free free_data_block_at by (auto simp: scan_Some_iff)
qed

section \<open>Release\<close>

text \<open>\<open>data_bitmap[bit_pos/32] ^= 1 << (31 - bit_pos%32)\<close>, with C's truncating division.\<close>

definition toggle_data_bit :: "int \<Rightarrow> objstore \<Rightarrow> objstore res" where
  "toggle_data_bit bit_pos s =
     (let idx = bit_pos sdiv 32; sh = 31 - bit_pos smod 32 in
      if idx < 0 \<or> 262144 \<le> idx then Inl OutOfBounds
      else if 32 \<le> sh then Inl BadShift
      else Inr (s\<lparr>data_bitmap := (data_bitmap s)
                    (nat idx := data_bitmap s (nat idx) XOR push_bit (nat sh) 1)\<rparr>))"

text \<open>A cached copy of a released block is dropped without being written back.\<close>

definition drop_cached :: "int \<Rightarrow> objstore \<Rightarrow> objstore res" where
  "drop_cached add s =
     (if add smod cache_blks < 0 then Inl OutOfBounds
      else
        let slot = nat (add smod cache_blks); d = dev s in
        if cache_index d slot = add sdiv cache_blks
        then Inr (s\<lparr>dev := d\<lparr>cache_index := (cache_index d)(slot := -1),
                              cache_dirty := (cache_dirty d)(slot := 0)\<rparr>\<rparr>)
        else Inr s)"

definition free_direct :: "nat \<Rightarrow> nat \<Rightarrow> objstore \<Rightarrow> objstore res" where
  "free_direct target i s =
     (let dir_add = o_direct (objs s target) ! i in
      if dir_add \<noteq> 0
      then rbind (drop_cached dir_add s) (toggle_data_bit (dir_add - 22528 + 287))
      else Inr s)"

definition free_leaf :: "block \<Rightarrow> nat \<Rightarrow> objstore \<Rightarrow> objstore res" where
  "free_leaf indir_block i s =
     (if get_int indir_block i \<noteq> 0
      then rbind (toggle_data_bit (get_int indir_block i - 22528 + 287) s)
             (drop_cached (get_int indir_block i))
      else Inr s)"

definition free_indirect :: "nat \<Rightarrow> nat \<Rightarrow> objstore \<Rightarrow> objstore res" where
  "free_indirect target i s =
     (let indir_add = o_indirect (objs s target) ! i in
      rbind (toggle_data_bit (indir_add - 22528 + 287) s) (\<lambda>s1.
      rbind (drop_cached indir_add s1) (\<lambda>s2.
        if indir_add \<noteq> 0
        then rfold (free_leaf (snd (read_block (disk (dev s2)) indir_add 0 zero_block)))
               [0 ..< 1024] s2
        else Inr s2)))"

definition destroy_object :: "string \<Rightarrow> objstore \<Rightarrow> (int \<times> objstore) res" where
  "destroy_object key s =
     (case scan (has_key s key) 0 n_inodes of
        None \<Rightarrow> Inl NullDeref
      | Some k \<Rightarrow>
          rbind (rfold (free_direct k) [0 ..< 4]
                   (obj_update k (\<lambda>target. target\<lparr>o_id := 0, o_size := 0\<rparr>)
                     (mark_dirty k (s\<lparr>inode_bitmap := flip_bit_at k (inode_bitmap s)\<rparr>))))
            (\<lambda>s1. rbind (rfold (free_indirect k) [0 ..< 4] s1)
              (\<lambda>s2. Inr (0, obj_update k (\<lambda>target. target\<lparr>o_direct := [0, 0, 0, 0],
                                             o_indirect := [0, 0, 0, 0]\<rparr>) s2))))"

subsection \<open>What release leaves alone\<close>

definition same_table :: "objstore \<Rightarrow> objstore \<Rightarrow> bool" where
  "same_table s t \<longleftrightarrow> objs t = objs s \<and> inode_bitmap t = inode_bitmap s \<and>
     dirty_array t = dirty_array s \<and> backup t = backup s \<and> disk (dev t) = disk (dev s)"

lemma same_table_refl: "same_table s s"
  by (simp add: same_table_def)

lemma same_table_trans: "same_table s t \<Longrightarrow> same_table t u \<Longrightarrow> same_table s u"
  by (simp add: same_table_def)

lemma toggle_same_table: "toggle_data_bit p s = Inr t \<Longrightarrow> same_table s t"
  by (auto simp: toggle_data_bit_def Let_def same_table_def split: if_splits)

lemma drop_cached_same_table: "drop_cached p s = Inr t \<Longrightarrow> same_table s t"
  by (auto simp: drop_cached_def Let_def same_table_def split: if_splits)

lemma free_direct_same_table: "free_direct k i s = Inr t \<Longrightarrow> same_table s t"
  by (auto simp: free_direct_def run_simps same_table_refl split: if_splits
      dest!: toggle_same_table drop_cached_same_table elim: same_table_trans)

lemma free_leaf_same_table: "free_leaf b i s = Inr t \<Longrightarrow> same_table s t"
  by (auto simp: free_leaf_def run_simps same_table_refl split: if_splits
      dest!: toggle_same_table drop_cached_same_table elim: same_table_trans)

lemma rfold_same_table:
  assumes "rfold f xs s = Inr t" and "\<And>x s t. f x s = Inr t \<Longrightarrow> same_table s t"
  shows "same_table s t"
  using rfold_invariant [where P = "same_table s", OF assms(1)] assms(2)
    same_table_refl same_table_trans by blast

lemma free_indirect_same_table:
  assumes "free_indirect k i s = Inr t"
  shows "same_table s t"
proof -
  let ?a = "o_indirect (objs s k) ! i"
  obtain s1 s2 where 1: "toggle_data_bit (?a - 22528 + 287) s = Inr s1"
    and 2: "drop_cached ?a s1 = Inr s2"
    and 3: "(if ?a \<noteq> 0 then rfold (free_leaf (snd (read_block (disk (dev s2)) ?a 0 zero_block)))
               [0 ..< 1024] s2 else Inr s2) = Inr t"
    using assms by (auto simp: free_indirect_def run_simps)
  from 3 have "same_table s2 t"
    using rfold_same_table [OF _ free_leaf_same_table] same_table_refl
    by (auto split: if_splits)
  with toggle_same_table [OF 1] drop_cached_same_table [OF 2] show ?thesis
    using same_table_trans by blast
qed

lemma free_loops_same_table:
  "rfold (free_direct k) xs s = Inr t \<Longrightarrow> same_table s t"
  "rfold (free_indirect k) xs s = Inr t \<Longrightarrow> same_table s t"
  by (erule rfold_same_table, erule free_direct_same_table)
    (erule rfold_same_table, erule free_indirect_same_table)

subsection \<open>What destroy does, and where it faults\<close>

lemma destroy_object_missing:
  assumes "slots_with s key = {}"
  shows "destroy_object key s = Inl NullDeref"
proof -
  have "scan (has_key s key) 0 n_inodes = None"
    using assms by (auto simp: scan_None_iff slots_with_def)
  then show ?thesis by (simp add: destroy_object_def)
qed

lemma toggle_zero_pointer: "toggle_data_bit (0 - 22528 + 287) s = Inl OutOfBounds"
  by (simp add: toggle_data_bit_def signed_divide_int_def)

text \<open>When it does succeed, exactly its slot of the table is emptied.\<close>

lemma destroy_object_success:
  assumes "inodes_ok s" and k: "scan (has_key s key) 0 n_inodes = Some k"
    and "destroy_object key s = Inr (r, t)"
  shows "r = 0 \<and> inodes_ok t \<and> \<not> live t k \<and>
    (\<forall>j. j \<noteq> k \<longrightarrow> live t j = live s j \<and> objs t j = objs s j)"
proof -
  let ?s0 = "obj_update k (\<lambda>target. target\<lparr>o_id := 0, o_size := 0\<rparr>)
    (mark_dirty k (s\<lparr>inode_bitmap := flip_bit_at k (inode_bitmap s)\<rparr>))"
  obtain s1 s2 where d: "rfold (free_direct k) [0 ..< 4] ?s0 = Inr s1"
    and ind: "rfold (free_indirect k) [0 ..< 4] s1 = Inr s2"
    and t: "r = 0" "t = obj_update k (\<lambda>target. target\<lparr>o_direct := [0, 0, 0, 0],
                                        o_indirect := [0, 0, 0, 0]\<rparr>) s2"
    using assms(3) k by (auto simp: destroy_object_def run_simps)
  have "same_table ?s0 s2"
    using free_loops_same_table(1) [OF d] free_loops_same_table(2) [OF ind] by (rule same_table_trans)
  then have fields: "objs s2 = objs ?s0" "inode_bitmap s2 = inode_bitmap ?s0"
    by (simp_all add: same_table_def)
  have "live s k" and "k < n_inodes"
    using k by (simp_all add: scan_Some_iff has_key_def)
  then show ?thesis
    using assms(1) by (auto simp: inodes_ok_def fields t blank_def)
qed

text \<open>
  Releasing block \<open>n\<close> does not clear its bit but flips bit \<open>n + 574\<close>: the two numbers of
  the unparenthesised macro add up to 574 instead of cancelling.
\<close>

lemma toggle_data_bit_nonneg:
  "0 \<le> p \<Longrightarrow> p < int n_dblocks \<Longrightarrow>
   toggle_data_bit p s = Inr (s\<lparr>data_bitmap := flip_bit_at (nat p) (data_bitmap s)\<rparr>)"
  by (auto simp: toggle_data_bit_def Let_def flip_bit_at_def mask_at_eq nat_div_distrib
      nat_mod_distrib nat_diff_distrib')

lemma toggle_released_block:
  assumes "n + 574 < n_dblocks"
  shows "toggle_data_bit (22815 + int n - 22528 + 287) s =
    Inr (s\<lparr>data_bitmap := flip_bit_at (n + 574) (data_bitmap s)\<rparr>)"
proof -
  have "22815 + int n - 22528 + 287 = int (n + 574)" by simp
  then show ?thesis
    using assms toggle_data_bit_nonneg [of "int (n + 574)" s] by (simp only: nat_int)
qed

lemma free_direct_flips:
  assumes "o_direct (objs s k) ! i = 22815 + int n" and "n + 574 < n_dblocks"
    and "free_direct k i s = Inr t"
  shows "bit_set (data_bitmap t) m \<longleftrightarrow> (m = n + 574) \<noteq> bit_set (data_bitmap s) m"
proof -
  obtain s1 where s1: "drop_cached (22815 + int n) s = Inr s1"
    and t: "toggle_data_bit (22815 + int n - 22528 + 287) s1 = Inr t"
    using assms(1,3) by (auto simp: free_direct_def run_simps split: if_splits)
  have "data_bitmap s1 = data_bitmap s"
    using s1 by (auto simp: drop_cached_def Let_def split: if_splits)
  with t toggle_released_block [OF assms(2)] show ?thesis by auto
qed

end
