(* ===== verification/Files.thy ===== *)
theory Files
  imports Data_Blocks
begin

text \<open>
  Object contents: \<open>objstore_write\<close> and \<open>objstore_read\<close> of \<open>assignment4/objstore.c\<close>. An
  object has 4 direct blocks and 4 indirect blocks of 1024 entries. The invariant
  \<open>files_ok\<close> says that every non-zero pointer in use names an allocated data block with
  content and that no two pointers name the same block; \<open>file_block\<close> is the abstract view,
  the blocks of every object.
\<close>

section \<open>Operations\<close>

definition dev_write :: "build \<Rightarrow> int \<Rightarrow> block option \<Rightarrow> objstore \<Rightarrow> objstore res" where
  "dev_write c blk temp s =
     rbind (cache_blk_write c blk temp (dev s)) (\<lambda>d. Inr (s\<lparr>dev := d\<rparr>))"

definition dev_rmw :: "build \<Rightarrow> int \<Rightarrow> nat \<Rightarrow> int \<Rightarrow> objstore \<Rightarrow> objstore res" where
  "dev_rmw c ind j v s =
     rbind (rmw_entry (cache_blk_read c) (cache_blk_write c) ind j v (dev s))
       (\<lambda>d. Inr (s\<lparr>dev := d\<rparr>))"

text \<open>
  The four ranges of file blocks behind the indirect pointers: the pointer and the first
  file block of the range. Beyond block 4099 there is none.
\<close>

definition indirect_range :: "int \<Rightarrow> (nat \<times> int) option" where
  "indirect_range a =
     (if 4 \<le> a \<and> a < 1028 then Some (0, 4)
      else if 1028 \<le> a \<and> a < 2052 then Some (1, 1028)
      else if 2052 \<le> a \<and> a < 3076 then Some (2, 2052)
      else if 3076 \<le> a \<and> a < 4100 then Some (3, 3076)
      else None)"

text \<open>
  The copy of the user's buffer, \<open>mmap\<close>ed (so zero-filled up to a page; a zero length makes
  \<open>mmap\<close> fail and the pointer null). Only its first block is ever written.
\<close>

definition write_buffer :: "byte list \<Rightarrow> block option" where
  "write_buffer buff = (if buff = [] then None else Some (take 4096 (buff @ zero_block)))"

definition write_indirect ::
    "build \<Rightarrow> nat \<Rightarrow> nat \<Rightarrow> int \<Rightarrow> int \<Rightarrow> int \<Rightarrow> block option \<Rightarrow> objstore \<Rightarrow> objstore res" where
  "write_indirect c k r base a data_1 temp s =
     (if a = base then
        (case free_data_block s of (data_2, s1) \<Rightarrow>
           rbind (dev_write c data_1 (Some (put_int zero_block 0 data_2))
                   (obj_update k (\<lambda>t. t\<lparr>o_indirect := (o_indirect t)[r := data_1]\<rparr>) s1))
             (dev_write c data_2 temp))
      else
        rbind (dev_rmw c (o_indirect (objs s k) ! r) (nat (a - base)) data_1 s)
          (dev_write c data_1 temp))"

definition objstore_write ::
    "build \<Rightarrow> int \<Rightarrow> byte list \<Rightarrow> int \<Rightarrow> objstore \<Rightarrow> (int \<times> objstore) res" where
  "objstore_write c objid buff offset s =
     (case find_target objid True s of
        (None, s0) \<Rightarrow> Inr (-1, s0)
      | (Some k, s0) \<Rightarrow>
          let a = s32 (offset sdiv 4096); temp = write_buffer buff; size = int (length buff) in
          (case free_data_block s0 of (data_1, s1) \<Rightarrow>
             let s2 = obj_update k (\<lambda>t. t\<lparr>o_size := o_size t + size\<rparr>) s1 in
             if a \<le> 3 then
               rbind (dev_write c data_1 temp s2)
                 (\<lambda>s3. if a < 0 then Inl OutOfBounds
                       else Inr (size, obj_update k
                              (\<lambda>t. t\<lparr>o_direct := (o_direct t)[nat a := data_1]\<rparr>) s3))
             else
               (case indirect_range a of
                  Some (r, base) \<Rightarrow>
                    rbind (write_indirect c k r base a data_1 temp s2) (\<lambda>s3. Inr (size, s3))
                | None \<Rightarrow> Inr (size, s2))))"

definition dev_read :: "build \<Rightarrow> int \<Rightarrow> objstore \<Rightarrow> (block \<times> objstore) res" where
  "dev_read c blk s =
     rbind (cache_blk_read c blk zero_block (dev s)) (\<lambda>(x, d). Inr (x, s\<lparr>dev := d\<rparr>))"

text \<open>
  One round of the read loop: the block to append, or \<open>None\<close> for the \<open>break\<close> beyond the
  file limit. The target pointer is dereferenced unchecked.
\<close>

definition read_one :: "build \<Rightarrow> nat option \<Rightarrow> int \<Rightarrow> objstore \<Rightarrow> (block option \<times> objstore) res" where
  "read_one c target a s =
     (if a \<le> 3 then
        (case target of
           None \<Rightarrow> Inl NullDeref
         | Some k \<Rightarrow>
             if a < 0 then Inl OutOfBounds
             else rbind (dev_read c (o_direct (objs s k) ! nat a) s) (\<lambda>(x, s1). Inr (Some x, s1)))
      else
        (case indirect_range a of
           None \<Rightarrow> Inr (None, s)
         | Some (r, base) \<Rightarrow>
             (case target of
                None \<Rightarrow> Inl NullDeref
              | Some k \<Rightarrow>
                  rbind (dev_read c (o_indirect (objs s k) ! r) s) (\<lambda>(ib, s1).
                  rbind (dev_read c (get_int ib (nat (a - base))) s1) (\<lambda>(x, s2).
                    Inr (Some x, s2))))))"

fun read_loop ::
    "build \<Rightarrow> nat option \<Rightarrow> nat \<Rightarrow> int \<Rightarrow> byte list \<Rightarrow> objstore \<Rightarrow> (byte list \<times> objstore) res" where
  "read_loop c target 0 curpos acc s = Inr (acc, s)"
| "read_loop c target (Suc blocks) curpos acc s =
     rbind (read_one c target (curpos sdiv 4096) s)
       (\<lambda>(x, s1).
          case x of
            None \<Rightarrow> Inr (acc @ replicate (4096 * Suc blocks) 0, s1)
          | Some b \<Rightarrow> read_loop c target blocks (s32 (curpos + 4096)) (acc @ b) s1)"

definition objstore_read ::
    "build \<Rightarrow> int \<Rightarrow> nat \<Rightarrow> int \<Rightarrow> objstore \<Rightarrow> (int \<times> byte list \<times> objstore) res" where
  "objstore_read c objid nbytes offset s =
     (case find_target objid False s of
        (target, s1) \<Rightarrow>
          rbind (read_loop c target ((nbytes + 4096 - 1) div 4096) (s32 offset) [] s1)
            (\<lambda>(data, s2). Inr (int nbytes, take nbytes data, s2)))"

section \<open>References\<close>

text \<open>The pointers of the store: direct, indirect, and the entries of indirect blocks.\<close>

datatype blkref = Dir nat nat | Ind nat nat | Leaf nat nat nat

fun valid_ref :: "blkref \<Rightarrow> bool" where
  "valid_ref (Dir k i) \<longleftrightarrow> k < n_inodes \<and> i < 4"
| "valid_ref (Ind k r) \<longleftrightarrow> k < n_inodes \<and> r < 4"
| "valid_ref (Leaf k r j) \<longleftrightarrow> k < n_inodes \<and> r < 4 \<and> j < 1024"

fun deref :: "build \<Rightarrow> objstore \<Rightarrow> blkref \<Rightarrow> int" where
  "deref c s (Dir k i) = o_direct (objs s k) ! i"
| "deref c s (Ind k r) = o_indirect (objs s k) ! r"
| "deref c s (Leaf k r j) =
     (let ind = o_indirect (objs s k) ! r in
      if ind = 0 then 0
      else (case content c (dev s) ind of Some ib \<Rightarrow> get_int ib j | None \<Rightarrow> 0))"

text \<open>
  Pointers \<open>D\<close>, bitmap \<open>B\<close> and contents \<open>C\<close> fit together: a pointer in use names an
  allocated block with content, and no other pointer names it.
\<close>

definition refs_ok :: "(blkref \<Rightarrow> int) \<Rightarrow> bitmap \<Rightarrow> (int \<Rightarrow> block option) \<Rightarrow> bool" where
  "refs_ok D B C \<longleftrightarrow>
     (\<forall>r. valid_ref r \<and> D r \<noteq> 0 \<longrightarrow>
        (\<exists>n < n_dblocks. D r = 22815 + int n \<and> bit_set B n) \<and> C (D r) \<noteq> None) \<and>
     (\<forall>r1 r2. valid_ref r1 \<and> valid_ref r2 \<and> D r1 \<noteq> 0 \<and> D r1 = D r2 \<longrightarrow> r1 = r2)"

definition files_ok :: "build \<Rightarrow> objstore \<Rightarrow> bool" where
  "files_ok c s \<longleftrightarrow> io_ok c (dev s) \<and> inodes_ok s \<and>
     refs_ok (deref c s) (data_bitmap s) (content c (dev s))"

text \<open>The abstract file system: block \<open>a\<close> of the object in slot \<open>k\<close>.\<close>

definition block_ref :: "nat \<Rightarrow> nat \<Rightarrow> blkref" where
  "block_ref k a = (if a < 4 then Dir k a else Leaf k ((a - 4) div 1024) ((a - 4) mod 1024))"

definition file_block :: "build \<Rightarrow> objstore \<Rightarrow> nat \<Rightarrow> nat \<Rightarrow> block option" where
  "file_block c s k a =
     (if 4100 \<le> a \<or> deref c s (block_ref k a) = 0 then None
      else content c (dev s) (deref c s (block_ref k a)))"

lemma valid_block_ref: "k < n_inodes \<Longrightarrow> a < 4100 \<Longrightarrow> valid_ref (block_ref k a)"
  by (auto simp: block_ref_def)

lemma block_ref_leaf:
  assumes "4 + 1024 * r \<le> a" and "a < 4 + 1024 * Suc r"
  shows "block_ref k a = Leaf k r (a - (4 + 1024 * r))"
proof -
  have e: "a - 4 = 1024 * r + (a - (4 + 1024 * r))" and l: "a - (4 + 1024 * r) < 1024" using assms by auto
  have "(a - 4) div 1024 = r" "(a - 4) mod 1024 = a - (4 + 1024 * r)"
    unfolding e using l by simp_all
  then show ?thesis using assms(1) by (simp add: block_ref_def)
qed

lemma block_ref_inject: "block_ref k a = block_ref k' a' \<longleftrightarrow> k = k' \<and> a = a'"
proof
  assume eq: "block_ref k a = block_ref k' a'"
  have "a = a'" if "(a - 4) div 1024 = (a' - 4) div 1024" "(a - 4) mod 1024 = (a' - 4) mod 1024"
      "4 \<le> a" "4 \<le> a'"
    using that div_mult_mod_eq [of "a - 4" 1024] div_mult_mod_eq [of "a' - 4" 1024] by linarith
  then show "k = k' \<and> a = a'" using eq by (auto simp: block_ref_def split: if_splits)
qed simp

lemma indirect_range_int:
  assumes "4 \<le> a" and "a < 4100"
  shows "indirect_range (int a) = Some ((a - 4) div 1024, 4 + 1024 * int ((a - 4) div 1024))"
    and "nat (int a - (4 + 1024 * int ((a - 4) div 1024))) = (a - 4) mod 1024"
    and "int a = 4 + 1024 * int ((a - 4) div 1024) \<longleftrightarrow> (a - 4) mod 1024 = 0"
proof -
  define q where "q = (a - 4) div 1024"
  define m where "m = (a - 4) mod 1024"
  have a: "a = 4 + 1024 * q + m" and m: "m < 1024"
    using assms(1) div_mult_mod_eq [of "a - 4" 1024] by (auto simp: q_def m_def)
  then have q: "q \<in> {0, 1, 2, 3}" using assms(2) by auto
  show "indirect_range (int a) = Some ((a - 4) div 1024, 4 + 1024 * int ((a - 4) div 1024))"
    unfolding q_def [symmetric] using q m by (auto simp: a indirect_range_def)
  show "nat (int a - (4 + 1024 * int ((a - 4) div 1024))) = (a - 4) mod 1024"
    unfolding q_def [symmetric] m_def [symmetric] by (simp add: a)
  show "int a = 4 + 1024 * int ((a - 4) div 1024) \<longleftrightarrow> (a - 4) mod 1024 = 0"
    unfolding q_def [symmetric] m_def [symmetric] by (simp add: a)
qed

lemma refs_okD:
  assumes "refs_ok D B C" and "valid_ref r" and "D r \<noteq> 0"
  shows "\<exists>n < n_dblocks. D r = 22815 + int n \<and> bit_set B n" and "C (D r) \<noteq> None"
    and "\<And>r'. valid_ref r' \<Longrightarrow> D r' = D r \<Longrightarrow> r' = r"
  using assms by (auto simp: refs_ok_def)

text \<open>A block whose bit is clear is named by no pointer.\<close>

lemma refs_ok_fresh:
  assumes "refs_ok D B C" and "\<not> bit_set B n" and "valid_ref r"
  shows "D r \<noteq> 22815 + int n"
  using refs_okD(1) [OF assms(1,3)] assms(2) by fastforce

text \<open>Pointing one reference at a fresh block.\<close>

lemma refs_ok_point:
  assumes ok: "refs_ok D B C" and n: "n < n_dblocks" "\<not> bit_set B n"
    and D': "\<And>r. valid_ref r \<Longrightarrow> D' r = (if r = R then 22815 + int n else D r)"
    and B': "\<And>m. bit_set B m \<or> m = n \<Longrightarrow> bit_set B' m"
    and C': "C' (22815 + int n) \<noteq> None"
      "\<And>r. valid_ref r \<Longrightarrow> D r \<noteq> 0 \<Longrightarrow> C' (D r) \<noteq> None"
  shows "refs_ok D' B' C'"
  unfolding refs_ok_def
proof (intro conjI allI impI)
  fix r assume r: "valid_ref r \<and> D' r \<noteq> 0"
  show "\<exists>m < n_dblocks. D' r = 22815 + int m \<and> bit_set B' m"
    using r D' [of r] n B' refs_okD(1) [OF ok, of r] by (cases "r = R") auto
  show "C' (D' r) \<noteq> None"
    using r D' [of r] C' by (cases "r = R") auto
next
  fix r1 r2 assume r: "valid_ref r1 \<and> valid_ref r2 \<and> D' r1 \<noteq> 0 \<and> D' r1 = D' r2"
  have fresh: "D r \<noteq> 22815 + int n" if "valid_ref r" for r
    by (rule refs_ok_fresh [OF ok n(2) that])
  show "r1 = r2"
    using r D' [of r1] D' [of r2] fresh [of r1] fresh [of r2] refs_okD(3) [OF ok, of r1 r2]
    by (auto split: if_splits)
qed

text \<open>Dropping references (the blocks leak) keeps the invariant.\<close>

lemma refs_ok_drop:
  assumes "refs_ok D B C" and "\<And>r. D' r = D r \<or> D' r = 0"
  shows "refs_ok D' B C"
  unfolding refs_ok_def
proof (intro conjI allI impI)
  fix r assume "valid_ref r \<and> D' r \<noteq> 0"
  then show "\<exists>n < n_dblocks. D' r = 22815 + int n \<and> bit_set B n" and "C (D' r) \<noteq> None"
    using assms(2) [of r] refs_okD(1,2) [OF assms(1), of r] by auto
next
  fix r1 r2 assume "valid_ref r1 \<and> valid_ref r2 \<and> D' r1 \<noteq> 0 \<and> D' r1 = D' r2"
  then have "valid_ref r1" "valid_ref r2" "D r1 \<noteq> 0" "D r1 = D r2"
    using assms(2) [of r1] assms(2) [of r2] by auto
  then show "r1 = r2" using refs_okD(3) [OF assms(1)] by metis
qed

text \<open>The same references, bits and contents.\<close>

lemma refs_ok_same:
  assumes ok: "refs_ok D B C" and D: "\<And>r. valid_ref r \<Longrightarrow> D' r = D r"
    and B: "\<And>n. n < n_dblocks \<Longrightarrow> bit_set B' n = bit_set B n"
    and C: "\<And>r. valid_ref r \<Longrightarrow> D r \<noteq> 0 \<Longrightarrow> C' (D r) = C (D r)"
  shows "refs_ok D' B' C'"
  unfolding refs_ok_def
proof (intro conjI allI impI)
  fix r assume r: "valid_ref r \<and> D' r \<noteq> 0"
  then show "\<exists>n < n_dblocks. D' r = 22815 + int n \<and> bit_set B' n" "C' (D' r) \<noteq> None"
    using D [of r] B C [of r] refs_okD(1,2) [OF ok, of r] by auto
next
  fix r1 r2 assume "valid_ref r1 \<and> valid_ref r2 \<and> D' r1 \<noteq> 0 \<and> D' r1 = D' r2"
  then show "r1 = r2" using D [of r1] D [of r2] refs_okD(3) [OF ok, of r1 r2] by auto
qed

section \<open>Device steps\<close>

lemma dev_write_ok:
  assumes "io_ok c (dev s)" and "0 \<le> blk" and "length x = 4096"
  shows "\<exists>d. dev_write c blk (Some x) s = Inr (s\<lparr>dev := d\<rparr>) \<and> io_ok c d \<and>
    content c d blk = Some x \<and>
    (\<forall>b y. 0 \<le> b \<longrightarrow> b \<noteq> blk \<longrightarrow> content c (dev s) b = Some y \<longrightarrow> content c d b = Some y)"
proof -
  obtain d where d: "cache_blk_write c blk (Some x) (dev s) = Inr d" "io_ok c d"
      "content c d blk = Some x"
      "\<forall>b y. 0 \<le> b \<longrightarrow> b \<noteq> blk \<longrightarrow> content c (dev s) b = Some y \<longrightarrow> content c d b = Some y"
    using io.wr_law [OF assms] by blast
  from d(1) have "dev_write c blk (Some x) s = Inr (s\<lparr>dev := d\<rparr>)"
    by (simp add: dev_write_def)
  with d(2-4) show ?thesis by blast
qed

lemma dev_rmw_ok:
  assumes "io_ok c (dev s)" and "0 \<le> ind" and "content c (dev s) ind = Some ib" and "j < 1024"
  shows "\<exists>d. dev_rmw c ind j v s = Inr (s\<lparr>dev := d\<rparr>) \<and> io_ok c d \<and>
    content c d ind = Some (put_int ib j v) \<and>
    (\<forall>b y. 0 \<le> b \<longrightarrow> b \<noteq> ind \<longrightarrow> content c (dev s) b = Some y \<longrightarrow> content c d b = Some y)"
proof -
  obtain d where d: "rmw_entry (cache_blk_read c) (cache_blk_write c) ind j v (dev s) = Inr d"
      "io_ok c d" "content c d ind = Some (put_int ib j v)"
      "\<forall>b y. 0 \<le> b \<longrightarrow> b \<noteq> ind \<longrightarrow> content c (dev s) b = Some y \<longrightarrow> content c d b = Some y"
    using io.rmw_entry_law [OF assms] by blast
  from d(1) have "dev_rmw c ind j v s = Inr (s\<lparr>dev := d\<rparr>)"
    by (simp add: dev_rmw_def)
  with d(2-4) show ?thesis by blast
qed

lemma dev_read_ok:
  assumes "io_ok c (dev s)" and "0 \<le> blk" and "content c (dev s) blk = Some x"
  shows "\<exists>d. dev_read c blk s = Inr (x, s\<lparr>dev := d\<rparr>) \<and> io_ok c d \<and>
    (\<forall>b y. 0 \<le> b \<longrightarrow> content c (dev s) b = Some y \<longrightarrow> content c d b = Some y)"
proof -
  obtain d where d: "cache_blk_read c blk zero_block (dev s) = Inr (x, d)" "io_ok c d"
      "\<forall>b y. 0 \<le> b \<longrightarrow> content c (dev s) b = Some y \<longrightarrow> content c d b = Some y"
    using io.rd_law [OF assms] by blast
  from d(1) have "dev_read c blk s = Inr (x, s\<lparr>dev := d\<rparr>)"
    by (simp add: dev_read_def)
  with d(2,3) show ?thesis by blast
qed

section \<open>What a write establishes\<close>

definition block_of :: "byte list \<Rightarrow> block" where
  "block_of buff = take 4096 (buff @ zero_block)"

lemma length_block_of [simp]: "length (block_of buff) = 4096"
  by (simp add: block_of_def)

lemma write_buffer_some: "buff \<noteq> [] \<Longrightarrow> write_buffer buff = Some (block_of buff)"
  by (simp add: write_buffer_def block_of_def)

text \<open>
  After a write of \<open>x\<close> to block \<open>a\<close> of slot \<open>k\<close>: the invariant holds, that block reads \<open>x\<close>,
  every other block of every object reads as before, and the directory is unchanged.
\<close>

definition write_post :: "build \<Rightarrow> objstore \<Rightarrow> objstore \<Rightarrow> nat \<Rightarrow> nat \<Rightarrow> block \<Rightarrow> bool" where
  "write_post c s t k a x \<longleftrightarrow>
     files_ok c t \<and> file_block c t k a = Some x \<and>
     (\<forall>k' a'. k' < n_inodes \<longrightarrow> (k', a') \<noteq> (k, a) \<longrightarrow> file_block c t k' a' = file_block c s k' a') \<and>
     inode_bitmap t = inode_bitmap s \<and>
     (\<forall>k'. o_id (objs t k') = o_id (objs s k') \<and> o_key (objs t k') = o_key (objs s k') \<and>
        (k' \<noteq> k \<longrightarrow> objs t k' = objs s k'))"

lemma files_okD:
  assumes "files_ok c s"
  shows "io_ok c (dev s)" and "inodes_ok s"
    and "refs_ok (deref c s) (data_bitmap s) (content c (dev s))"
  using assms by (simp_all add: files_ok_def)

lemma deref_content:
  assumes "files_ok c s" and "valid_ref r" and "deref c s r \<noteq> 0"
  shows "\<exists>y. content c (dev s) (deref c s r) = Some y"
  using refs_okD(2) [OF files_okD(3) [OF assms(1)] assms(2,3)] by auto

lemma deref_pos:
  assumes "files_ok c s" and "valid_ref r" and "deref c s r \<noteq> 0"
  shows "0 \<le> deref c s r"
  using refs_okD(1) [OF files_okD(3) [OF assms(1)] assms(2,3)] by auto

lemma leaf_zero: "o_indirect (objs s k) ! r = 0 \<Longrightarrow> deref c s (Leaf k r j) = 0"
  by simp

lemma write_post_intro:
  assumes ok: "files_ok c s" and k: "k < n_inodes" and a: "a < 4100"
    and t: "io_ok c (dev t)" "inodes_ok t"
      "refs_ok (deref c t) (data_bitmap t) (content c (dev t))"
    and D: "\<And>k' a'. k' < n_inodes \<Longrightarrow> a' < 4100 \<Longrightarrow>
      deref c t (block_ref k' a') =
        (if (k', a') = (k, a) then 22815 + int n else deref c s (block_ref k' a'))"
    and C: "content c (dev t) (22815 + int n) = Some x"
      "\<And>k' a'. k' < n_inodes \<Longrightarrow> a' < 4100 \<Longrightarrow> deref c s (block_ref k' a') \<noteq> 0 \<Longrightarrow>
        content c (dev t) (deref c s (block_ref k' a')) =
          content c (dev s) (deref c s (block_ref k' a'))"
    and dir: "inode_bitmap t = inode_bitmap s"
      "\<And>k'. o_id (objs t k') = o_id (objs s k')" "\<And>k'. o_key (objs t k') = o_key (objs s k')"
      "\<And>k'. k' \<noteq> k \<Longrightarrow> objs t k' = objs s k'"
  shows "write_post c s t k a x"
  unfolding write_post_def
proof (intro conjI allI impI)
  show "files_ok c t" using t by (simp add: files_ok_def)
  show "file_block c t k a = Some x"
    using D [OF k a] C(1) a by (simp add: file_block_def)
  show "file_block c t k' a' = file_block c s k' a'"
    if "k' < n_inodes" "(k', a') \<noteq> (k, a)" for k' a'
    using D [of k' a'] C(2) [of k' a'] that by (auto simp: file_block_def)
qed (use dir in auto)

text \<open>Bookkeeping before the block is stored does not disturb the invariant.\<close>

lemma deref_frame:
  assumes "dev t = dev s"
    and "\<And>k. o_direct (objs t k) = o_direct (objs s k)"
    and "\<And>k. o_indirect (objs t k) = o_indirect (objs s k)"
  shows "deref c t = deref c s"
proof
  fix r show "deref c t r = deref c s r"
    using assms by (cases r) (simp_all add: Let_def)
qed

lemma deref_dev:
  assumes "files_ok c s" and "valid_ref r"
    and "\<And>k j. k < n_inodes \<Longrightarrow> j < 4 \<Longrightarrow> deref c s (Ind k j) \<noteq> 0 \<Longrightarrow>
      content c (dev t) (deref c s (Ind k j)) = content c (dev s) (deref c s (Ind k j))"
    and "\<And>k. o_direct (objs t k) = o_direct (objs s k)"
    and "\<And>k. o_indirect (objs t k) = o_indirect (objs s k)"
  shows "deref c t r = deref c s r"
  using assms by (cases r) (auto simp: Let_def)

section \<open>Writing\<close>

text \<open>The state once the target is found and block \<open>n\<close> is allocated.\<close>

definition prepared :: "nat \<Rightarrow> int \<Rightarrow> nat \<Rightarrow> objstore \<Rightarrow> objstore" where
  "prepared k sz n s =
     obj_update k (\<lambda>t. t\<lparr>o_size := o_size t + sz\<rparr>)
       ((mark_dirty k s)\<lparr>data_bitmap := set_bit_at n (data_bitmap s)\<rparr>)"

lemma prepared_simps [simp]:
  "dev (prepared k sz n s) = dev s"
  "data_bitmap (prepared k sz n s) = set_bit_at n (data_bitmap s)"
  "inode_bitmap (prepared k sz n s) = inode_bitmap s"
  "objs (prepared k sz n s) = (objs s)(k := (objs s k)\<lparr>o_size := o_size (objs s k) + sz\<rparr>)"
  by (simp_all add: prepared_def)

lemma prepared_deref: "deref c (prepared k sz n s) = deref c s"
  by (rule deref_frame) simp_all

lemma prepared_inodes_ok:
  "inodes_ok s \<Longrightarrow> live s k \<Longrightarrow> inodes_ok (prepared k sz n s)"
  by (auto simp: inodes_ok_def)

lemma inodes_ok_cong:
  "objs t = objs s \<Longrightarrow> inode_bitmap t = inode_bitmap s \<Longrightarrow> inodes_ok t \<longleftrightarrow> inodes_ok s"
  by (simp add: inodes_ok_def)

lemma inodes_ok_pointers:
  assumes "inodes_ok s" and "live s k" and "inode_bitmap t = inode_bitmap s"
    and "\<And>j. j \<noteq> k \<Longrightarrow> objs t j = objs s j"
    and "o_id (objs t k) = o_id (objs s k)" and "o_key (objs t k) = o_key (objs s k)"
    and "length (o_direct (objs t k)) = 4" and "length (o_indirect (objs t k)) = 4"
  shows "inodes_ok t"
  unfolding inodes_ok_def
proof (intro allI impI)
  fix j assume "j < n_inodes"
  then show "length (o_direct (objs t j)) = 4 \<and> length (o_indirect (objs t j)) = 4 \<and>
      length (o_key (objs t j)) = 32 \<and> CHR 0x00 \<in> set (o_key (objs t j)) \<and>
      (if live t j then o_id (objs t j) = int j + 2 else blank (objs t j))"
    using assms inodes_okD [OF assms(1), of j] by (cases "j = k") auto
qed

text \<open>
  The end of a write whose block is in place: the reference to the block \<open>a\<close> of the file \<open>k\<close> now leads to
  the new block \<open>n\<close>, all others lead where they led, and what they lead to is still there.
\<close>

lemma write_point:
  assumes ok: "files_ok c s" and k: "k < n_inodes" "live s k" and n: "n < n_dblocks" "\<not> bit_set (data_bitmap s) n"
    and a: "a < 4100" and t: "io_ok c (dev t)" "data_bitmap t = set_bit_at n (data_bitmap s)"
    and D: "\<And>r. valid_ref r \<Longrightarrow> deref c t r = (if r = block_ref k a then 22815 + int n else deref c s r)"
    and C: "content c (dev t) (22815 + int n) = Some x"
      "\<And>r. valid_ref r \<Longrightarrow> deref c s r \<noteq> 0 \<Longrightarrow> content c (dev t) (deref c s r) \<noteq> None"
      "\<And>k' a'. k' < n_inodes \<Longrightarrow> a' < 4100 \<Longrightarrow> deref c s (block_ref k' a') \<noteq> 0 \<Longrightarrow>
        content c (dev t) (deref c s (block_ref k' a')) = content c (dev s) (deref c s (block_ref k' a'))"
    and dir: "inode_bitmap t = inode_bitmap s" "\<And>j. j \<noteq> k \<Longrightarrow> objs t j = objs s j"
      "o_id (objs t k) = o_id (objs s k)" "o_key (objs t k) = o_key (objs s k)"
      "length (o_direct (objs t k)) = 4" "length (o_indirect (objs t k)) = 4"
  shows "write_post c s t k a x"
proof (rule write_post_intro [OF ok k(1) a t(1) _ _ _ C(1)])
  show "inodes_ok t" by (rule inodes_ok_pointers [OF files_okD(2) [OF ok] k(2) dir])
  show "refs_ok (deref c t) (data_bitmap t) (content c (dev t))"
    by (rule refs_ok_point [OF files_okD(3) [OF ok] n D]) (use C t(2) in auto)
  show "deref c t (block_ref k' a') = (if (k', a') = (k, a) then 22815 + int n else deref c s (block_ref k' a'))"
    if "k' < n_inodes" "a' < 4100" for k' a'
    using D [OF valid_block_ref [OF that]] block_ref_inject [of k' a' k a] by simp
  show "o_id (objs t j) = o_id (objs s j)" "o_key (objs t j) = o_key (objs s j)" for j
    using dir(2-4) by (cases "j = k"; simp)+
qed (use C(3) dir in auto)

text \<open>
  Where the references lead after a write that got the blocks \<open>b1\<close> and, for the first entry of
  a range, \<open>b2\<close>.
\<close>

definition written_ref :: "nat \<Rightarrow> nat \<Rightarrow> int \<Rightarrow> int \<Rightarrow> (blkref \<Rightarrow> int) \<Rightarrow> blkref \<Rightarrow> int" where
  "written_ref k a b1 b2 D r =
     (if a < 4 \<or> (a - 4) mod 1024 \<noteq> 0 then if r = block_ref k a then b1 else D r
      else if r = block_ref k a then b2
      else if r = Ind k ((a - 4) div 1024) then b1
      else if \<exists>j. r = Leaf k ((a - 4) div 1024) j then 0
      else D r)"

lemma write_direct:
  assumes ok: "files_ok c s" and k: "k < n_inodes" "live s k"
    and n: "n < n_dblocks" "\<not> bit_set (data_bitmap s) n" and a: "a < 4" and x: "length x = 4096"
  shows "\<exists>t. rbind (dev_write c (22815 + int n) (Some x) (prepared k sz n s))
      (\<lambda>s3. Inr (sz, obj_update k (\<lambda>t. t\<lparr>o_direct := (o_direct t)[a := 22815 + int n]\<rparr>) s3)) =
        Inr (sz, t) \<and>
    write_post c s t k a x \<and> o_size (objs t k) = o_size (objs s k) + sz \<and>
    (\<forall>r. valid_ref r \<longrightarrow> deref c t r = written_ref k a (22815 + int n) b2 (deref c s) r)"
proof -
  let ?b = "22815 + int n" and ?s2 = "prepared k sz n s"
  note [simp] = files_okD(1) [OF ok]
  obtain d where run: "dev_write c ?b (Some x) ?s2 = Inr (?s2\<lparr>dev := d\<rparr>)"
    and d: "io_ok c d" "content c d ?b = Some x"
      "\<And>b y. 0 \<le> b \<Longrightarrow> b \<noteq> ?b \<Longrightarrow> content c (dev s) b = Some y \<Longrightarrow> content c d b = Some y"
    using dev_write_ok [of c ?s2 ?b x] x by fastforce
  define t where "t = obj_update k (\<lambda>t. t\<lparr>o_direct := (o_direct t)[a := ?b]\<rparr>) (?s2\<lparr>dev := d\<rparr>)"
  have len4: "length (o_direct (objs s k)) = 4" and ilen4: "length (o_indirect (objs s k)) = 4"
    using inodes_okD [OF files_okD(2) [OF ok] k(1)] by auto
  have same: "content c d (deref c s r) = content c (dev s) (deref c s r)"
    if "valid_ref r" "deref c s r \<noteq> 0" for r
    using deref_content [OF ok that] d(3) [OF deref_pos [OF ok that] refs_ok_fresh [OF files_okD(3) [OF ok] n(2) that(1)]]
    by auto
  have D: "deref c t r = (if r = Dir k a then ?b else deref c s r)" if v: "valid_ref r" for r
  proof (cases r)
    case (Dir k' i)
    then show ?thesis using v a len4 by (auto simp: t_def nth_list_update)
  next
    case (Ind k' i)
    then show ?thesis by (simp add: t_def)
  next
    case (Leaf k' i j)
    then show ?thesis using v same [of "Ind k' i"] by (auto simp: t_def Let_def)
  qed
  have ref: "block_ref k a = Dir k a" using a by (simp add: block_ref_def)
  have "write_post c s t k a x"
  proof (rule write_point [OF ok k n])
    show "deref c t r = (if r = block_ref k a then ?b else deref c s r)" if "valid_ref r" for r
      unfolding ref by (rule D [OF that])
    show "content c (dev t) (deref c s r) \<noteq> None" if "valid_ref r" "deref c s r \<noteq> 0" for r
      using same [OF that] deref_content [OF ok that] by (simp add: t_def)
    show "content c (dev t) (deref c s (block_ref k' a')) = content c (dev s) (deref c s (block_ref k' a'))"
      if "k' < n_inodes" "a' < 4100" "deref c s (block_ref k' a') \<noteq> 0" for k' a'
      using same [OF valid_block_ref [OF that(1,2)] that(3)] by (simp add: t_def)
  qed (use a d len4 ilen4 in \<open>simp_all add: t_def\<close>)
  moreover have "deref c t r = written_ref k a ?b b2 (deref c s) r" if "valid_ref r" for r
    using D [OF that] a ref by (simp add: written_ref_def)
  moreover have "rbind (dev_write c ?b (Some x) ?s2)
      (\<lambda>s3. Inr (sz, obj_update k (\<lambda>t. t\<lparr>o_direct := (o_direct t)[a := ?b]\<rparr>) s3)) = Inr (sz, t)"
    and "o_size (objs t k) = o_size (objs s k) + sz"
    using run by (simp_all add: t_def)
  ultimately show ?thesis by blast
qed

lemma s32_block: "n < n_dblocks \<Longrightarrow> s32 (22815 + int n) = 22815 + int n"
  by simp

text \<open>The second of two transfers to different blocks.\<close>

lemma dev_write_after:
  assumes d1: "io_ok c d1" "content c d1 b1 = Some y1"
      "\<forall>b y. 0 \<le> b \<longrightarrow> b \<noteq> b1 \<longrightarrow> content c (dev s) b = Some y \<longrightarrow> content c d1 b = Some y"
    and b: "0 \<le> b1" "0 \<le> b2" "b1 \<noteq> b2" and x: "length x = 4096"
  obtains d where "dev_write c b2 (Some x) (s\<lparr>dev := d1\<rparr>) = Inr (s\<lparr>dev := d\<rparr>)" "io_ok c d"
    "content c d b1 = Some y1" "content c d b2 = Some x"
    "\<forall>b y. 0 \<le> b \<longrightarrow> b \<noteq> b1 \<longrightarrow> b \<noteq> b2 \<longrightarrow> content c (dev s) b = Some y \<longrightarrow> content c d b = Some y"
proof -
  obtain d where d: "dev_write c b2 (Some x) (s\<lparr>dev := d1\<rparr>) = Inr (s\<lparr>dev := d\<rparr>)" "io_ok c d" "content c d b2 = Some x"
      "\<forall>b y. 0 \<le> b \<longrightarrow> b \<noteq> b2 \<longrightarrow> content c d1 b = Some y \<longrightarrow> content c d b = Some y"
    using dev_write_ok [of c "s\<lparr>dev := d1\<rparr>" b2 x] x b(2) d1(1) by fastforce
  then show ?thesis using that [of d] d1(2,3) b(1,3) by blast
qed

text \<open>An entry of an index block that is there, and the block it leads to.\<close>

lemma leaf_transfers:
  assumes ok: "files_ok c s" and k: "k < n_inodes"
    and n: "n < n_dblocks" "\<not> bit_set (data_bitmap s) n" and x: "length x = 4096"
    and r: "r < 4" and j: "0 < j" "j < 1024" and ind: "o_indirect (objs s k) ! r \<noteq> 0"
    and a: "a = 4 + 1024 * r + j"
  obtains d ib where "write_indirect c k r (4 + 1024 * int r) (int a) (22815 + int n) (Some x) (prepared k sz n s) =
      Inr ((prepared k sz n s)\<lparr>dev := d\<rparr>)" "io_ok c d" "content c d (22815 + int n) = Some x"
    "content c (dev s) (o_indirect (objs s k) ! r) = Some ib" "length ib = 4096"
    "content c d (o_indirect (objs s k) ! r) = Some (put_int ib j (22815 + int n))"
    "\<forall>r'. valid_ref r' \<longrightarrow> deref c s r' \<noteq> 0 \<longrightarrow> r' \<noteq> Ind k r \<longrightarrow>
      content c d (deref c s r') = content c (dev s) (deref c s r')"
proof -
  let ?b = "22815 + int n" and ?s2 = "prepared k sz n s" and ?ind = "o_indirect (objs s k) ! r"
  have vi: "valid_ref (Ind k r)" and di: "deref c s (Ind k r) = ?ind" using k r by auto
  obtain ib where ib: "content c (dev s) ?ind = Some ib"
    using deref_content [OF ok vi] ind by auto
  have pos: "0 \<le> ?ind" using deref_pos [OF ok vi] ind by simp
  have fresh: "deref c s r' \<noteq> ?b" if "valid_ref r'" for r'
    by (rule refs_ok_fresh [OF files_okD(3) [OF ok] n(2) that])
  obtain d1 where run1: "dev_rmw c ?ind j ?b ?s2 = Inr (?s2\<lparr>dev := d1\<rparr>)"
    and d1: "io_ok c d1" "content c d1 ?ind = Some (put_int ib j ?b)"
      "\<forall>b y. 0 \<le> b \<longrightarrow> b \<noteq> ?ind \<longrightarrow> content c (dev ?s2) b = Some y \<longrightarrow> content c d1 b = Some y"
    using dev_rmw_ok [of c ?s2 ?ind ib j ?b] pos ib j files_okD(1) [OF ok] by auto
  have "0 \<le> ?b" "?ind \<noteq> ?b" using fresh [OF vi] di by simp_all
  from dev_write_after [OF d1 pos this x]
  obtain d where run2: "dev_write c ?b (Some x) (?s2\<lparr>dev := d1\<rparr>) = Inr (?s2\<lparr>dev := d\<rparr>)" and d: "io_ok c d"
      "content c d ?ind = Some (put_int ib j ?b)" "content c d ?b = Some x"
      "\<forall>b y. 0 \<le> b \<longrightarrow> b \<noteq> ?ind \<longrightarrow> b \<noteq> ?b \<longrightarrow> content c (dev ?s2) b = Some y \<longrightarrow> content c d b = Some y"
    by blast
  have "content c d (deref c s r') = content c (dev s) (deref c s r')"
    if "valid_ref r'" "deref c s r' \<noteq> 0" "r' \<noteq> Ind k r" for r'
  proof -
    have "deref c s r' \<noteq> ?ind"
      using refs_okD(3) [OF files_okD(3) [OF ok] vi, of r'] that ind di by auto
    then show ?thesis
      using deref_content [OF ok that(1,2)] d(4) deref_pos [OF ok that(1,2)] fresh [OF that(1)] by auto
  qed
  moreover have "write_indirect c k r (4 + 1024 * int r) (int a) ?b (Some x) ?s2 = Inr (?s2\<lparr>dev := d\<rparr>)"
    using run1 run2 a j by (simp add: write_indirect_def)
  ultimately show ?thesis
    using that d(1-3) ib content_length [OF files_okD(1) [OF ok] ib] by blast
qed

lemma write_leaf:
  assumes ok: "files_ok c s" and k: "k < n_inodes" "live s k"
    and n: "n < n_dblocks" "\<not> bit_set (data_bitmap s) n" and x: "length x = 4096"
    and r: "r < 4" and j: "0 < j" "j < 1024" and ind: "o_indirect (objs s k) ! r \<noteq> 0"
    and a: "a = 4 + 1024 * r + j"
  shows "\<exists>t. write_indirect c k r (4 + 1024 * int r) (int a) (22815 + int n) (Some x)
      (prepared k sz n s) = Inr t \<and>
    write_post c s t k a x \<and> o_size (objs t k) = o_size (objs s k) + sz \<and>
    (\<forall>r'. valid_ref r' \<longrightarrow> deref c t r' = written_ref k a (22815 + int n) b2 (deref c s) r')"
proof -
  let ?b = "22815 + int n" and ?ind = "o_indirect (objs s k) ! r"
  obtain d ib where run: "write_indirect c k r (4 + 1024 * int r) (int a) ?b (Some x) (prepared k sz n s) =
      Inr ((prepared k sz n s)\<lparr>dev := d\<rparr>)" and d: "io_ok c d" "content c d ?b = Some x"
    and ib: "content c (dev s) ?ind = Some ib" "length ib = 4096" and newib: "content c d ?ind = Some (put_int ib j ?b)"
    and same: "\<forall>r'. valid_ref r' \<longrightarrow> deref c s r' \<noteq> 0 \<longrightarrow> r' \<noteq> Ind k r \<longrightarrow>
      content c d (deref c s r') = content c (dev s) (deref c s r')"
    by (rule leaf_transfers [OF ok k(1) n x r j ind a])
  define t where "t = (prepared k sz n s)\<lparr>dev := d\<rparr>"
  have lens: "length (o_direct (objs s k)) = 4" "length (o_indirect (objs s k)) = 4"
    using inodes_okD [OF files_okD(2) [OF ok] k(1)] by auto
  have ref: "block_ref k a = Leaf k r j" and a': "a < 4100"
    using a j r by (auto simp: block_ref_def)
  have D: "deref c t r' = (if r' = Leaf k r j then ?b else deref c s r')" if v: "valid_ref r'" for r'
  proof (cases r')
    case (Leaf k' i j')
    show ?thesis
    proof (cases "k' = k \<and> i = r")
      case True
      then show ?thesis
        using Leaf v ind ib newib j n get_put_other [of j ib j' ?b]
        by (auto simp: t_def Let_def get_put_same s32_block)
    next
      case False
      then show ?thesis using Leaf v same [rule_format, of "Ind k' i"] by (auto simp: t_def Let_def)
    qed
  qed (simp_all add: t_def)
  have "write_post c s t k a x"
  proof (rule write_point [OF ok k n a'])
    show "deref c t r' = (if r' = block_ref k a then ?b else deref c s r')" if "valid_ref r'" for r'
      unfolding ref by (rule D [OF that])
    show "content c (dev t) (deref c s r') \<noteq> None" if "valid_ref r'" "deref c s r' \<noteq> 0" for r'
      using same that deref_content [OF ok that] newib by (cases "r' = Ind k r") (auto simp: t_def)
    show "content c (dev t) (deref c s (block_ref k' a')) = content c (dev s) (deref c s (block_ref k' a'))"
      if "k' < n_inodes" "a' < 4100" "deref c s (block_ref k' a') \<noteq> 0" for k' a'
      using same valid_block_ref [OF that(1,2)] that(3) by (simp add: t_def block_ref_def)
  qed (use d lens in \<open>simp_all add: t_def\<close>)
  moreover have "(a - 4) mod 1024 \<noteq> 0" using a j by simp
  then have "deref c t r' = written_ref k a ?b b2 (deref c s) r'" if "valid_ref r'" for r'
    using D [OF that] ref by (simp add: written_ref_def)
  moreover have "o_size (objs t k) = o_size (objs s k) + sz" by (simp add: t_def)
  ultimately show ?thesis using run t_def by blast
qed

text \<open>
  A new index block: its entry 0 leads to the block, its other entries to none. \<open>indexed\<close> is the
  state before the two transfers.
\<close>

definition indexed :: "nat \<Rightarrow> int \<Rightarrow> nat \<Rightarrow> nat \<Rightarrow> nat \<Rightarrow> objstore \<Rightarrow> objstore" where
  "indexed k sz r n m s =
     obj_update k (\<lambda>t. t\<lparr>o_indirect := (o_indirect t)[r := 22815 + int n]\<rparr>)
       ((prepared k sz n s)\<lparr>data_bitmap := set_bit_at m (set_bit_at n (data_bitmap s))\<rparr>)"

lemma indexed_simps [simp]:
  "dev (indexed k sz r n m s) = dev s" "inode_bitmap (indexed k sz r n m s) = inode_bitmap s"
  "data_bitmap (indexed k sz r n m s) = set_bit_at m (set_bit_at n (data_bitmap s))"
  "objs (indexed k sz r n m s) = (objs s)(k := (objs s k)\<lparr>o_size := o_size (objs s k) + sz,
     o_indirect := (o_indirect (objs s k))[r := 22815 + int n]\<rparr>)"
  by (simp_all add: indexed_def fun_eq_iff)

lemma index_transfers:
  assumes ok: "files_ok c s" and n: "n < n_dblocks" "\<not> bit_set (data_bitmap s) n"
    and m: "m < n_dblocks" "\<not> bit_set (data_bitmap s) m" "m \<noteq> n"
    and alloc: "free_data_block (prepared k sz n s) =
      (22815 + int m, (prepared k sz n s)\<lparr>data_bitmap := set_bit_at m (set_bit_at n (data_bitmap s))\<rparr>)"
    and x: "length x = 4096" and a: "a = 4 + 1024 * r"
  obtains d where "write_indirect c k r (4 + 1024 * int r) (int a) (22815 + int n) (Some x) (prepared k sz n s) =
      Inr ((indexed k sz r n m s)\<lparr>dev := d\<rparr>)" "io_ok c d" "content c d (22815 + int m) = Some x"
    "content c d (22815 + int n) = Some (put_int zero_block 0 (22815 + int m))"
    "\<forall>r'. valid_ref r' \<longrightarrow> deref c s r' \<noteq> 0 \<longrightarrow> content c d (deref c s r') = content c (dev s) (deref c s r')"
proof -
  let ?i = "22815 + int n" and ?b = "22815 + int m" and ?s3 = "indexed k sz r n m s"
  let ?ib = "put_int zero_block 0 ?b"
  obtain d1 where run1: "dev_write c ?i (Some ?ib) ?s3 = Inr (?s3\<lparr>dev := d1\<rparr>)"
    and d1: "io_ok c d1" "content c d1 ?i = Some ?ib"
      "\<forall>b y. 0 \<le> b \<longrightarrow> b \<noteq> ?i \<longrightarrow> content c (dev ?s3) b = Some y \<longrightarrow> content c d1 b = Some y"
    using dev_write_ok [of c ?s3 ?i ?ib] files_okD(1) [OF ok] by (auto simp: length_put_int)
  have "0 \<le> ?i" "0 \<le> ?b" "?i \<noteq> ?b" using m(3) by simp_all
  from dev_write_after [OF d1 this x]
  obtain d where run2: "dev_write c ?b (Some x) (?s3\<lparr>dev := d1\<rparr>) = Inr (?s3\<lparr>dev := d\<rparr>)"
    and d: "io_ok c d" "content c d ?i = Some ?ib" "content c d ?b = Some x"
      "\<forall>b y. 0 \<le> b \<longrightarrow> b \<noteq> ?i \<longrightarrow> b \<noteq> ?b \<longrightarrow> content c (dev ?s3) b = Some y \<longrightarrow> content c d b = Some y"
    by blast
  have "content c d (deref c s r') = content c (dev s) (deref c s r')"
    if "valid_ref r'" "deref c s r' \<noteq> 0" for r'
    using deref_content [OF ok that] d(4) deref_pos [OF ok that]
      refs_ok_fresh [OF files_okD(3) [OF ok] n(2) that(1)] refs_ok_fresh [OF files_okD(3) [OF ok] m(2) that(1)] by auto
  moreover have "write_indirect c k r (4 + 1024 * int r) (int a) ?i (Some x) (prepared k sz n s) = Inr (?s3\<lparr>dev := d\<rparr>)"
    using run1 run2 a alloc by (simp add: write_indirect_def indexed_def)
  ultimately show ?thesis using that d(1-3) by blast
qed

lemma write_index_block:
  assumes ok: "files_ok c s" and k: "k < n_inodes" "live s k"
    and n: "n < n_dblocks" "\<not> bit_set (data_bitmap s) n"
    and m: "m < n_dblocks" "\<not> bit_set (data_bitmap s) m" "m \<noteq> n"
    and alloc: "free_data_block (prepared k sz n s) =
      (22815 + int m, (prepared k sz n s)\<lparr>data_bitmap := set_bit_at m (set_bit_at n (data_bitmap s))\<rparr>)"
    and x: "length x = 4096" and r: "r < 4"
    and a: "a = 4 + 1024 * r"
  shows "\<exists>t. write_indirect c k r (4 + 1024 * int r) (int a) (22815 + int n) (Some x)
      (prepared k sz n s) = Inr t \<and> files_ok c t \<and>
    content c (dev t) (22815 + int m) = Some x \<and>
    (\<forall>r'. valid_ref r' \<and> deref c s r' \<noteq> 0 \<longrightarrow>
       content c (dev t) (deref c s r') = content c (dev s) (deref c s r')) \<and>
    (\<forall>r'. valid_ref r' \<longrightarrow> deref c t r' =
       (if r' = Leaf k r 0 then 22815 + int m
        else if r' = Ind k r then 22815 + int n
        else if \<exists>j. r' = Leaf k r j then 0 else deref c s r')) \<and>
    inode_bitmap t = inode_bitmap s \<and>
    (\<forall>k'. o_id (objs t k') = o_id (objs s k') \<and> o_key (objs t k') = o_key (objs s k') \<and>
       (k' \<noteq> k \<longrightarrow> objs t k' = objs s k')) \<and>
    o_size (objs t k) = o_size (objs s k) + sz"
proof -
  let ?i = "22815 + int n" and ?b = "22815 + int m" and ?B = "data_bitmap s"
  let ?ib = "put_int zero_block 0 ?b"
  have lens: "length (o_direct (objs s k)) = 4" "length (o_indirect (objs s k)) = 4"
    using inodes_okD [OF files_okD(2) [OF ok] k(1)] by auto
  obtain d where run: "write_indirect c k r (4 + 1024 * int r) (int a) ?i (Some x) (prepared k sz n s) =
      Inr ((indexed k sz r n m s)\<lparr>dev := d\<rparr>)" and d: "io_ok c d" "content c d ?b = Some x"
    and newib: "content c d ?i = Some ?ib"
    and same: "\<forall>r'. valid_ref r' \<longrightarrow> deref c s r' \<noteq> 0 \<longrightarrow> content c d (deref c s r') = content c (dev s) (deref c s r')"
    by (rule index_transfers [OF ok n m alloc x a])
  define t where "t = (indexed k sz r n m s)\<lparr>dev := d\<rparr>"
  define D0 where "D0 = (\<lambda>r'. if \<exists>j. r' = Leaf k r j then 0 else deref c s r')"
  define D1 where "D1 = D0(Ind k r := ?i)"
  have D: "deref c t r' = (if r' = Leaf k r 0 then ?b else D1 r')" if v: "valid_ref r'" for r'
  proof (cases r')
    case (Leaf k' i j')
    show ?thesis
    proof (cases "k' = k \<and> i = r")
      case True
      then show ?thesis
        using Leaf v r newib lens m get_put_other [of 0 zero_block j' ?b]
        by (auto simp: t_def D1_def D0_def Let_def get_put_same s32_block)
    next
      case False
      then show ?thesis using Leaf v same [rule_format, of "Ind k' i"]
        by (auto simp: t_def D1_def D0_def Let_def nth_list_update)
    qed
  next
    case (Ind k' i)
    then show ?thesis using v lens by (auto simp: t_def D1_def D0_def nth_list_update)
  qed (simp add: t_def D1_def D0_def)
  have "refs_ok D0 ?B (content c (dev s))"
    by (rule refs_ok_drop [OF files_okD(3) [OF ok]]) (simp add: D0_def)
  then have "refs_ok D1 (set_bit_at n ?B) (content c d)"
    by (rule refs_ok_point [OF _ n, where R = "Ind k r"])
      (use newib same deref_content [OF ok] in \<open>auto simp: D1_def D0_def split: if_splits\<close>)
  then have "refs_ok (deref c t) (data_bitmap t) (content c (dev t))"
  proof (rule refs_ok_point [where n = m and R = "Leaf k r 0"])
    show "content c (dev t) (D1 r') \<noteq> None" if "valid_ref r'" "D1 r' \<noteq> 0" for r'
      using same that(1) deref_content [OF ok that(1)] newib that
      by (cases "r' = Ind k r") (auto simp: t_def D1_def D0_def split: if_splits)
  qed (use D d(2) m in \<open>auto simp: t_def\<close>)
  moreover have "inodes_ok t"
    by (rule inodes_ok_pointers [OF files_okD(2) [OF ok] k(2)]) (simp_all add: t_def lens)
  ultimately have "files_ok c t" using d(1) by (simp add: files_ok_def t_def)
  moreover have "deref c t r' = (if r' = Leaf k r 0 then ?b else if r' = Ind k r then ?i
      else if \<exists>j. r' = Leaf k r j then 0 else deref c s r')" if "valid_ref r'" for r'
    using D [OF that] by (auto simp: D1_def D0_def)
  ultimately show ?thesis
    using run same d(2) by (intro exI [of _ t]) (auto simp: t_def)
qed

lemma write_first_leaf:
  assumes ok: "files_ok c s" and k: "k < n_inodes" "live s k"
    and n: "n < n_dblocks" "\<not> bit_set (data_bitmap s) n"
    and m: "m < n_dblocks" "\<not> bit_set (data_bitmap s) m" "m \<noteq> n"
    and alloc: "free_data_block (prepared k sz n s) =
      (22815 + int m, (prepared k sz n s)\<lparr>data_bitmap := set_bit_at m (set_bit_at n (data_bitmap s))\<rparr>)"
    and x: "length x = 4096" and r: "r < 4" and ind: "o_indirect (objs s k) ! r = 0"
    and a: "a = 4 + 1024 * r"
  shows "\<exists>t. write_indirect c k r (4 + 1024 * int r) (int a) (22815 + int n) (Some x)
      (prepared k sz n s) = Inr t \<and>
    write_post c s t k a x \<and> o_size (objs t k) = o_size (objs s k) + sz \<and>
    (\<forall>r'. valid_ref r' \<longrightarrow> deref c t r' = written_ref k a (22815 + int n) (22815 + int m) (deref c s) r')"
proof -
  obtain t where run: "write_indirect c k r (4 + 1024 * int r) (int a) (22815 + int n) (Some x)
      (prepared k sz n s) = Inr t"
    and t: "files_ok c t" "content c (dev t) (22815 + int m) = Some x"
    and same: "\<And>r'. valid_ref r' \<Longrightarrow> deref c s r' \<noteq> 0 \<Longrightarrow>
      content c (dev t) (deref c s r') = content c (dev s) (deref c s r')"
    and D: "\<And>r'. valid_ref r' \<Longrightarrow> deref c t r' =
      (if r' = Leaf k r 0 then 22815 + int m else if r' = Ind k r then 22815 + int n
       else if \<exists>j. r' = Leaf k r j then 0 else deref c s r')"
    and dir: "inode_bitmap t = inode_bitmap s"
      "\<And>k'. o_id (objs t k') = o_id (objs s k')" "\<And>k'. o_key (objs t k') = o_key (objs s k')"
      "\<And>k'. k' \<noteq> k \<Longrightarrow> objs t k' = objs s k'"
    and sz: "o_size (objs t k) = o_size (objs s k) + sz"
    using write_index_block [OF ok k n m alloc x r a] by blast
  have ref: "block_ref k a = Leaf k r 0" and a': "a < 4100"
    using a r by (auto simp: block_ref_def)
  have "write_post c s t k a x"
  proof (rule write_post_intro [OF ok k(1) a', where n = m])
    show "deref c t (block_ref k' a') =
        (if (k', a') = (k, a) then 22815 + int m else deref c s (block_ref k' a'))"
      if "k' < n_inodes" "a' < 4100" for k' a'
      using D [OF valid_block_ref [OF that]] block_ref_inject [of k' a' k a] ref ind
      by (auto simp: block_ref_def split: if_splits)
    show "content c (dev t) (deref c s (block_ref k' a')) = content c (dev s) (deref c s (block_ref k' a'))"
      if "k' < n_inodes" "a' < 4100" "deref c s (block_ref k' a') \<noteq> 0" for k' a'
      using same [OF valid_block_ref [OF that(1,2)] that(3)] .
  qed (use t files_okD [OF t(1)] dir in auto)
  moreover have "deref c t r' = written_ref k a (22815 + int n) (22815 + int m) (deref c s) r'"
    if "valid_ref r'" for r'
    using D [OF that] a ref by (simp add: written_ref_def)
  ultimately show ?thesis using run sz by blast
qed

text \<open>
  Room for one data block and one index block; and the block is one that sequential writing
  reaches: a direct block, an entry of an index block already there, or the first entry of
  one that is not.
\<close>

definition has_room :: "objstore \<Rightarrow> bool" where
  "has_room s \<longleftrightarrow> (\<exists>m n. m < n \<and> n < n_dblocks \<and>
     \<not> bit_set (data_bitmap s) m \<and> \<not> bit_set (data_bitmap s) n)"

definition in_sequence :: "objstore \<Rightarrow> nat \<Rightarrow> nat \<Rightarrow> bool" where
  "in_sequence s k a \<longleftrightarrow> a < 4 \<or>
     ((a - 4) mod 1024 = 0 \<longleftrightarrow> o_indirect (objs s k) ! ((a - 4) div 1024) = 0)"

lemma has_room_alloc:
  assumes "has_room s" and "data_bitmap s' = data_bitmap s"
  obtains n m where "n < n_dblocks" and "\<not> bit_set (data_bitmap s) n"
    and "free_data_block s' = (22815 + int n, s'\<lparr>data_bitmap := set_bit_at n (data_bitmap s)\<rparr>)"
    and "m < n_dblocks" and "\<not> bit_set (data_bitmap s) m" and "m \<noteq> n"
    and "\<And>s2. data_bitmap s2 = set_bit_at n (data_bitmap s) \<Longrightarrow>
      free_data_block s2 = (22815 + int m, s2\<lparr>data_bitmap := set_bit_at m (set_bit_at n (data_bitmap s))\<rparr>)"
proof -
  obtain p q where pq: "p < q" "q < n_dblocks" "\<not> bit_set (data_bitmap s) p" "\<not> bit_set (data_bitmap s) q"
    using assms(1) by (auto simp: has_room_def)
  obtain n where n: "n < n_dblocks" "\<not> bit_set (data_bitmap s) n"
      "free_data_block s' = (22815 + int n, s'\<lparr>data_bitmap := set_bit_at n (data_bitmap s)\<rparr>)"
    using pq assms(2) by (cases s' rule: free_data_block_cases) auto
  define B where "B = set_bit_at n (data_bitmap s)"
  obtain m where m: "scan (\<lambda>j. \<not> bit_set B j) 0 n_dblocks = Some m"
  proof (cases "scan (\<lambda>j. \<not> bit_set B j) 0 n_dblocks")
    case None
    then have "bit_set B p" and "bit_set B q" using pq by (auto simp: scan_None_iff)
    then show ?thesis using pq by (auto simp: B_def)
  qed
  then have "m < n_dblocks" "\<not> bit_set (data_bitmap s) m" "m \<noteq> n"
    by (auto simp: scan_Some_iff B_def)
  moreover have "free_data_block s2 = (22815 + int m, s2\<lparr>data_bitmap := set_bit_at m B\<rparr>)"
    if "data_bitmap s2 = B" for s2
    using m that by (simp add: free_data_block_def)
  ultimately show ?thesis using that n by (simp add: B_def)
qed

lemma write_indirect_correct:
  assumes ok: "files_ok c s" and k: "k < n_inodes" "live s k"
    and n: "n < n_dblocks" "\<not> bit_set (data_bitmap s) n"
    and m: "m < n_dblocks" "\<not> bit_set (data_bitmap s) m" "m \<noteq> n"
    and alloc: "free_data_block (prepared k sz n s) =
      (22815 + int m, (prepared k sz n s)\<lparr>data_bitmap := set_bit_at m (set_bit_at n (data_bitmap s))\<rparr>)"
    and x: "length x = 4096" and a: "4 \<le> a" "a < 4100" and seq: "in_sequence s k a"
  defines "r \<equiv> (a - 4) div 1024"
  shows "\<exists>t. write_indirect c k r (4 + 1024 * int r) (int a) (22815 + int n) (Some x)
      (prepared k sz n s) = Inr t \<and>
    write_post c s t k a x \<and> o_size (objs t k) = o_size (objs s k) + sz \<and>
    (\<forall>r'. valid_ref r' \<longrightarrow> deref c t r' = written_ref k a (22815 + int n) (22815 + int m) (deref c s) r')"
proof -
  define j where "j = (a - 4) mod 1024"
  have aj: "a = 4 + 1024 * r + j" and j: "j < 1024" and r: "r < 4"
    using a div_mult_mod_eq [of "a - 4" 1024] by (auto simp: r_def j_def)
  show ?thesis
  proof (cases "j = 0")
    case True
    then have "o_indirect (objs s k) ! r = 0"
      using seq a(1) by (auto simp: in_sequence_def r_def j_def)
    moreover have "a = 4 + 1024 * r" using aj True by simp
    ultimately show ?thesis by (rule write_first_leaf [OF ok k n m alloc x r])
  next
    case False
    then have "o_indirect (objs s k) ! r \<noteq> 0"
      using seq a(1) by (auto simp: in_sequence_def r_def j_def)
    moreover have "0 < j" using False by simp
    ultimately show ?thesis using write_leaf [OF ok k n x r _ j _ aj] by blast
  qed
qed

lemma objstore_write_refs:
  assumes ok: "files_ok c s" and k: "k < n_inodes" "live s k" and room: "has_room s"
    and buff: "buff \<noteq> []" and off: "0 \<le> offset" "offset div 4096 = int a" "a < 4100"
    and seq: "in_sequence s k a"
  shows "\<exists>t. objstore_write c (int k + 2) buff offset s = Inr (int (length buff), t) \<and>
    write_post c s t k a (block_of buff) \<and>
    o_size (objs t k) = o_size (objs s k) + int (length buff) \<and>
    (\<forall>r. valid_ref r \<longrightarrow> deref c t r = written_ref k a (fst (free_data_block s))
       (fst (free_data_block (snd (free_data_block s)))) (deref c s) r)"
proof -
  let ?sz = "int (length buff)" and ?x = "block_of buff"
  have find: "find_target (int k + 2) True s = (Some k, mark_dirty k s)"
    using find_target_live [OF files_okD(2) [OF ok] k] by simp
  have a32: "s32 (offset sdiv 4096) = int a"
    using off by simp
  obtain n m where n: "n < n_dblocks" "\<not> bit_set (data_bitmap s) n"
    and alloc: "free_data_block (mark_dirty k s) =
      (22815 + int n, (mark_dirty k s)\<lparr>data_bitmap := set_bit_at n (data_bitmap s)\<rparr>)"
    and m: "m < n_dblocks" "\<not> bit_set (data_bitmap s) m" "m \<noteq> n"
    and alloc2: "\<And>s2. data_bitmap s2 = set_bit_at n (data_bitmap s) \<Longrightarrow>
      free_data_block s2 = (22815 + int m, s2\<lparr>data_bitmap := set_bit_at m (set_bit_at n (data_bitmap s))\<rparr>)"
    using has_room_alloc [OF room, of "mark_dirty k s"] by auto
  have prep: "obj_update k (\<lambda>t. t\<lparr>o_size := o_size t + ?sz\<rparr>)
      ((mark_dirty k s)\<lparr>data_bitmap := set_bit_at n (data_bitmap s)\<rparr>) = prepared k ?sz n s"
    by (simp add: prepared_def)
  have "\<not> bit_set (data_bitmap s) p \<Longrightarrow> p < n \<Longrightarrow> False" for p
    using alloc by (cases "mark_dirty k s" rule: free_data_block_cases) auto
  then have alloc_s: "free_data_block s = (22815 + int n, s\<lparr>data_bitmap := set_bit_at n (data_bitmap s)\<rparr>)"
    using free_data_block_at [OF n] by blast
  have blocks: "fst (free_data_block s) = 22815 + int n"
      "fst (free_data_block (snd (free_data_block s))) = 22815 + int m"
    unfolding alloc_s by (simp_all add: alloc2)
  note unfold = objstore_write_def find alloc a32 prep write_buffer_some [OF buff] Let_def
  show ?thesis
  proof (cases "a < 4")
    case True
    then show ?thesis
      using write_direct [OF ok k n True length_block_of [of buff], of ?sz "22815 + int m"]
      unfolding blocks by (simp only: unfold prod.case option.case) simp
  next
    case False
    then have a4: "4 \<le> a" by simp
    have rng: "indirect_range (int a) = Some ((a - 4) div 1024, 4 + 1024 * int ((a - 4) div 1024))"
      using indirect_range_int(1) [of a] False off(3) by simp
    have "free_data_block (prepared k ?sz n s) =
        (22815 + int m, (prepared k ?sz n s)\<lparr>data_bitmap := set_bit_at m (set_bit_at n (data_bitmap s))\<rparr>)"
      by (rule alloc2) simp
    from write_indirect_correct [OF ok k n m this length_block_of a4 off(3) seq, of buff]
    show ?thesis using False rng unfolding blocks by (simp only: unfold prod.case option.case) auto
  qed
qed

theorem objstore_write_correct:
  assumes "files_ok c s" and "k < n_inodes" "live s k" and "has_room s"
    and "buff \<noteq> []" and "0 \<le> offset" "offset div 4096 = int a" "a < 4100"
    and "in_sequence s k a"
  shows "\<exists>t. objstore_write c (int k + 2) buff offset s = Inr (int (length buff), t) \<and>
    write_post c s t k a (block_of buff) \<and>
    o_size (objs t k) = o_size (objs s k) + int (length buff)"
  using objstore_write_refs [OF assms] by blast

section \<open>Reading\<close>

text \<open>
  A read changes only which blocks are cached, never the content of a block, so the file
  system it leaves is the one it found.
\<close>

definition same_files :: "build \<Rightarrow> objstore \<Rightarrow> objstore \<Rightarrow> bool" where
  "same_files c s t \<longleftrightarrow> files_ok c t \<and> (\<exists>d. t = s\<lparr>dev := d\<rparr>) \<and>
     (\<forall>r. valid_ref r \<longrightarrow> deref c t r = deref c s r) \<and>
     (\<forall>k a. k < n_inodes \<longrightarrow> file_block c t k a = file_block c s k a)"

lemma same_files_refl: "files_ok c s \<Longrightarrow> same_files c s s"
  by (auto simp: same_files_def intro: exI [of _ "dev s"])

lemma same_files_trans: "same_files c s t \<Longrightarrow> same_files c t u \<Longrightarrow> same_files c s u"
  by (auto simp: same_files_def)

lemma same_files_dev:
  assumes ok: "files_ok c s" and d: "io_ok c d"
    and mono: "\<And>b y. 0 \<le> b \<Longrightarrow> content c (dev s) b = Some y \<Longrightarrow> content c d b = Some y"
  shows "same_files c s (s\<lparr>dev := d\<rparr>)"
proof -
  let ?t = "s\<lparr>dev := d\<rparr>"
  have same: "content c d (deref c s r) = content c (dev s) (deref c s r)"
    if "valid_ref r" "deref c s r \<noteq> 0" for r
    using deref_content [OF ok that] mono [OF deref_pos [OF ok that]] by auto
  have D: "deref c ?t r = deref c s r" if "valid_ref r" for r
    by (rule deref_dev [OF ok that]) (use same [of "Ind _ _"] in simp_all)
  have "refs_ok (deref c ?t) (data_bitmap ?t) (content c (dev ?t))"
    by (rule refs_ok_same [OF files_okD(3) [OF ok]]) (use D same in simp_all)
  moreover have "inodes_ok ?t"
    by (rule inodes_ok_cong [THEN iffD2, OF _ _ files_okD(2) [OF ok]]) simp_all
  ultimately have "files_ok c ?t" using d by (simp add: files_ok_def)
  moreover have "file_block c ?t k a = file_block c s k a" if "k < n_inodes" for k a
    using D [OF valid_block_ref [OF that, of a]] same [OF valid_block_ref [OF that, of a]]
    by (auto simp: file_block_def)
  ultimately show ?thesis using D by (auto simp: same_files_def)
qed

lemma dev_read_same:
  assumes "files_ok c s" and "0 \<le> blk" and "content c (dev s) blk = Some x"
  shows "\<exists>t. dev_read c blk s = Inr (x, t) \<and> same_files c s t \<and>
    (\<forall>b y. 0 \<le> b \<longrightarrow> content c (dev s) b = Some y \<longrightarrow> content c (dev t) b = Some y)"
proof -
  obtain d where d: "dev_read c blk s = Inr (x, s\<lparr>dev := d\<rparr>)" "io_ok c d"
      "\<And>b y. 0 \<le> b \<Longrightarrow> content c (dev s) b = Some y \<Longrightarrow> content c d b = Some y"
    using dev_read_ok [OF files_okD(1) [OF assms(1)] assms(2,3)] by blast
  with same_files_dev [OF assms(1) d(2,3)] show ?thesis by fastforce
qed

lemma read_one_ok:
  assumes ok: "files_ok c s" and k: "k < n_inodes" and x: "file_block c s k a = Some x"
  shows "\<exists>t. read_one c (Some k) (int a) s = Inr (Some x, t) \<and> same_files c s t"
proof -
  let ?p = "deref c s (block_ref k a)"
  have a: "a < 4100" and p: "?p \<noteq> 0" "content c (dev s) ?p = Some x"
    using x by (auto simp: file_block_def split: if_splits)
  note valid = valid_block_ref [OF k a]
  show ?thesis
  proof (cases "a < 4")
    case True
    then have "?p = o_direct (objs s k) ! a" by (simp add: block_ref_def)
    then show ?thesis
      using dev_read_same [OF ok deref_pos [OF ok valid p(1)] p(2)] True
      by (auto simp: read_one_def)
  next
    case False
    define r where "r = (a - 4) div 1024"
    define j where "j = (a - 4) mod 1024"
    let ?ind = "o_indirect (objs s k) ! r"
    have ref: "block_ref k a = Leaf k r j" and r: "r < 4"
      using False a by (auto simp: block_ref_def r_def j_def)
    have vi: "valid_ref (Ind k r)" and di: "deref c s (Ind k r) = ?ind" using k r by auto
    have ind: "?ind \<noteq> 0" using p(1) ref by (auto simp: Let_def)
    obtain ib where ib: "content c (dev s) ?ind = Some ib"
      using deref_content [OF ok vi] ind di by auto
    have entry: "?p = get_int ib j" using ref ib ind by (simp add: Let_def)
    obtain t1 where t1: "dev_read c ?ind s = Inr (ib, t1)" "same_files c s t1"
      and mono: "\<And>b y. 0 \<le> b \<Longrightarrow> content c (dev s) b = Some y \<Longrightarrow> content c (dev t1) b = Some y"
      using dev_read_same [OF ok _ ib] deref_pos [OF ok vi] ind di by auto
    have "content c (dev t1) ?p = Some x" using mono p deref_pos [OF ok valid p(1)] by blast
    then obtain t2 where t2: "dev_read c ?p t1 = Inr (x, t2)" "same_files c t1 t2"
      using dev_read_same [of c t1 ?p x] t1(2) deref_pos [OF ok valid p(1)]
      by (auto simp: same_files_def)
    have rng: "indirect_range (int a) = Some (r, 4 + 1024 * int r)"
      and sub: "nat (int a - (4 + 1024 * int r)) = j"
      using indirect_range_int(1,2) [of a] False a by (simp_all add: r_def j_def)
    have "read_one c (Some k) (int a) s = Inr (Some x, t2)"
      using False t1(1) t2(1) rng sub entry by (simp add: read_one_def)
    then show ?thesis using same_files_trans [OF t1(2) t2(2)] by blast
  qed
qed

lemma read_loop_ok:
  assumes "files_ok c s" and "k < n_inodes"
    and "\<And>i. i < n \<Longrightarrow> file_block c s k (a + i) \<noteq> None"
  shows "\<exists>t. read_loop c (Some k) n (4096 * int a) acc s =
      Inr (acc @ concat (map (\<lambda>i. the (file_block c s k (a + i))) [0 ..< n]), t) \<and> same_files c s t"
  using assms
proof (induction n arbitrary: a acc s)
  case 0
  then show ?case using same_files_refl by auto
next
  case (Suc n)
  obtain x where x: "file_block c s k a = Some x" using Suc.prems(3) [of 0] by auto
  have a: "a < 4100" using x by (auto simp: file_block_def split: if_splits)
  obtain t1 where t1: "read_one c (Some k) (int a) s = Inr (Some x, t1)" "same_files c s t1"
    using read_one_ok [OF Suc.prems(1,2) x] by blast
  have fb: "file_block c t1 k i = file_block c s k i" for i
    using t1(2) Suc.prems(2) by (simp add: same_files_def)
  have "file_block c t1 k (Suc a + i) \<noteq> None" if "i < n" for i
    using Suc.prems(3) [of "Suc i"] that by (simp add: fb)
  then obtain t2 where t2: "read_loop c (Some k) n (4096 * int (Suc a)) (acc @ x) t1 =
      Inr ((acc @ x) @ concat (map (\<lambda>i. the (file_block c t1 k (Suc a + i))) [0 ..< n]), t2)"
      "same_files c t1 t2"
    using Suc.IH [of t1 "Suc a" "acc @ x"] t1(2) Suc.prems(2) by (auto simp: same_files_def)
  have "s32 (4096 * int a + 4096) = 4096 * int (Suc a)" using a by simp
  moreover have "[0 ..< Suc n] = 0 # map Suc [0 ..< n]"
    by (simp add: upt_conv_Cons map_Suc_upt del: upt_Suc)
  ultimately show ?case
    using t1(1) t2 same_files_trans [OF t1(2) t2(2)] x
    by (auto simp: fb comp_def simp del: upt_Suc)
qed

theorem objstore_read_correct:
  assumes ok: "files_ok c s" and k: "k < n_inodes" "live s k"
    and blocks: "\<And>i. i < (n + 4095) div 4096 \<Longrightarrow> file_block c s k (a + i) \<noteq> None"
    and a: "a < 4100"
  shows "\<exists>t. objstore_read c (int k + 2) n (4096 * int a) s =
      Inr (int n, take n (concat (map (\<lambda>i. the (file_block c s k (a + i)))
        [0 ..< (n + 4095) div 4096])), t) \<and> same_files c s t"
proof -
  have find: "find_target (int k + 2) False s = (Some k, s)"
    using find_target_live [OF files_okD(2) [OF ok] k] by simp
  have a32: "s32 (4096 * int a) = 4096 * int a" using a by simp
  obtain t where "read_loop c (Some k) ((n + 4095) div 4096) (4096 * int a) [] s =
      Inr (concat (map (\<lambda>i. the (file_block c s k (a + i))) [0 ..< (n + 4095) div 4096]), t)"
    and "same_files c s t"
    using read_loop_ok [OF ok k(1), of "(n + 4095) div 4096" a "[]"] blocks by auto
  moreover have "n + 4096 - 1 = n + 4095" by simp
  ultimately show ?thesis
    by (simp only: objstore_read_def find a32 prod.case) simp
qed

end
