(* ===== verification/Persist.thy ===== *)
theory Persist
  imports Files
begin

text \<open>
  Mounting and unmounting: \<open>objstore_init\<close> and \<open>objstore_destroy\<close> of
  \<open>assignment4/objstore.c\<close>. On disk, blocks 0 to 30 hold the inode bitmap, 31 to 286 the
  data bitmap, 287 to 22814 the object table (46 objects of 88 bytes in the first 4048 bytes
  of each block), and the data blocks follow. Unmounting writes the bitmaps, the table
  blocks marked dirty and the dirty cache slots; mounting the result gives back the same
  bitmaps, objects and file contents.
\<close>

section \<open>The on-disk formats\<close>

definition byte_of_char :: "char \<Rightarrow> byte" where
  "byte_of_char ch = word_of_nat (of_char ch)"

definition char_of_byte :: "byte \<Rightarrow> char" where
  "char_of_byte b = char_of (unat b)"

text \<open>The 88 bytes of a \<open>struct object\<close>.\<close>

definition encode_object :: "object \<Rightarrow> byte list" where
  "encode_object ob =
     le64 (o_id ob) @ le64 (o_size ob) @ le32 (o_cache_index ob) @ le32 (o_dirty ob) @
     concat (map le32 (o_direct ob)) @ concat (map le32 (o_indirect ob)) @
     map byte_of_char (o_key ob)"

definition decode_object :: "byte list \<Rightarrow> object" where
  "decode_object bs =
     \<lparr>o_id = s64 (le_val (take 8 bs)), o_size = s64 (le_val (take 8 (drop 8 bs))),
      o_cache_index = get_int bs 4, o_dirty = get_int bs 5,
      o_direct = map (get_int bs) [6, 7, 8, 9], o_indirect = map (get_int bs) [10, 11, 12, 13],
      o_key = map char_of_byte (take 32 (drop 56 bs))\<rparr>"

text \<open>Block \<open>i\<close> of a bitmap: 1024 little-endian words.\<close>

definition encode_bitmap_block :: "bitmap \<Rightarrow> nat \<Rightarrow> block" where
  "encode_bitmap_block bm i = concat (map (\<lambda>j. le32 (uint (bm (1024 * i + j)))) [0 ..< 1024])"

definition decode_word :: "block \<Rightarrow> nat \<Rightarrow> 32 word" where
  "decode_word b j = word_of_int (le_val (take 4 (drop (4 * j) b)))"

text \<open>
  Block \<open>i\<close> of the object table as it is written: 4096 bytes from offset \<open>4048 * i\<close> of the
  array, that is 46 objects and the first 48 bytes of the next.
\<close>

definition encode_table_block :: "(nat \<Rightarrow> object) \<Rightarrow> nat \<Rightarrow> block" where
  "encode_table_block os i =
     take 4096 (concat (map (\<lambda>m. encode_object (os (46 * i + m))) [0 ..< 47]))"

section \<open>Mounting\<close>

definition read_at :: "disk \<Rightarrow> int \<Rightarrow> block \<Rightarrow> block" where
  "read_at d blk buf = snd (read_block d blk 0 buf)"

text \<open>
  The buffer \<open>temp\<close> of the table loop after round \<open>i\<close>: it is not cleared between rounds, so a
  read that transfers nothing leaves the previous block in it.
\<close>

primrec table_temp :: "disk \<Rightarrow> nat \<Rightarrow> block" where
  "table_temp d 0 = read_at d 287 zero_block"
| "table_temp d (Suc i) = read_at d (287 + int (Suc i)) (table_temp d i)"

definition load_bitmap :: "disk \<Rightarrow> nat \<Rightarrow> nat \<Rightarrow> bitmap" where
  "load_bitmap d first count w =
     (if w div 1024 < count
      then decode_word (snd (read_block d (int (w div 1024 + first))
             (word_of_nat (4096 * (w div 1024))) zero_block)) (w mod 1024)
      else 0)"

definition load_object :: "disk \<Rightarrow> nat \<Rightarrow> object" where
  "load_object d k =
     (if k div 46 < 22528
      then decode_object (take 88 (drop (88 * (k mod 46)) (table_temp d (k div 46))))
      else zero_object)"

definition fresh_cache :: "disk \<Rightarrow> bstate" where
  "fresh_cache d =
     \<lparr>disk = d, cache = (\<lambda>_. zero_block), cache_index = (\<lambda>_. -1), cache_dirty = (\<lambda>_. 0)\<rparr>"

definition objstore_init :: "disk \<Rightarrow> objstore" where
  "objstore_init d =
     \<lparr>dev = fresh_cache d,
      inode_bitmap = load_bitmap d 0 31,
      data_bitmap = load_bitmap d 31 256,
      dirty_array = (\<lambda>_. 0),
      objs = load_object d,
      backup = None\<rparr>"

section \<open>Unmounting\<close>

text \<open>
  The writes in the order the code makes them: target block, offset of the buffer in its
  region (in pages), and the bytes.
\<close>

type_synonym wreq = "int \<times> nat \<times> block"

definition bitmap_writes :: "bitmap \<Rightarrow> nat \<Rightarrow> nat \<Rightarrow> wreq list" where
  "bitmap_writes bm first count =
     map (\<lambda>i. (int (first + i), i, encode_bitmap_block bm i)) [0 ..< count]"

definition table_writes :: "objstore \<Rightarrow> wreq list" where
  "table_writes s =
     map (\<lambda>i. (287 + int i, 0, encode_table_block (objs s) i))
       (filter (\<lambda>i. dirty_array s i \<noteq> 0) [0 ..< 22528])"

definition cache_writes :: "bstate \<Rightarrow> wreq list" where
  "cache_writes d =
     map (\<lambda>i. (cache_blks * cache_index d i + int i, i, cache d i))
       (filter (\<lambda>i. cache_dirty d i = 1) [0 ..< 32768])"

fun do_writes :: "wreq list \<Rightarrow> disk \<Rightarrow> disk" where
  "do_writes [] d = d"
| "do_writes ((blk, page, x) # ws) d =
     do_writes ws (snd (write_block d blk (word_of_nat (4096 * page)) (Some x)))"

definition objstore_destroy :: "objstore \<Rightarrow> disk" where
  "objstore_destroy s =
     do_writes (bitmap_writes (inode_bitmap s) 0 31 @ bitmap_writes (data_bitmap s) 31 256 @
                table_writes s @ cache_writes (dev s)) (disk (dev s))"

section \<open>Round trips of the formats\<close>

lemma byte_char [simp]: "char_of_byte (byte_of_char ch) = ch"
proof -
  have "of_char ch < (256 :: nat)" by simp
  then have "unat (word_of_nat (of_char ch) :: byte) = of_char ch"
    by (simp add: unat_of_nat)
  then show ?thesis by (simp add: byte_of_char_def char_of_byte_def)
qed

definition fits32 :: "int \<Rightarrow> bool" where
  "fits32 x \<longleftrightarrow> - (2 ^ 31) \<le> x \<and> x < 2 ^ 31"

definition fits64 :: "int \<Rightarrow> bool" where
  "fits64 x \<longleftrightarrow> - (2 ^ 63) \<le> x \<and> x < 2 ^ 63"

text \<open>An object whose fields are C values.\<close>

definition representable :: "object \<Rightarrow> bool" where
  "representable ob \<longleftrightarrow>
     fits64 (o_id ob) \<and> fits64 (o_size ob) \<and> fits32 (o_cache_index ob) \<and> fits32 (o_dirty ob) \<and>
     length (o_direct ob) = 4 \<and> (\<forall>x \<in> set (o_direct ob). fits32 x) \<and>
     length (o_indirect ob) = 4 \<and> (\<forall>x \<in> set (o_indirect ob). fits32 x) \<and>
     length (o_key ob) = 32"

lemma length_encode_object:
  "length (o_direct ob) = 4 \<Longrightarrow> length (o_indirect ob) = 4 \<Longrightarrow> length (o_key ob) = 32 \<Longrightarrow>
   length (encode_object ob) = 88"
  by (simp add: encode_object_def length_concat_map [where w = 4])

lemma length4: "length xs = 4 \<Longrightarrow> \<exists>a b c d. xs = [a, b, c, d]"
  by (auto simp: numeral_eq_Suc length_Suc_conv)

lemma decode_encode_object:
  assumes "representable ob"
  shows "decode_object (encode_object ob) = ob"
proof -
  obtain d0 d1 d2 d3 where d: "o_direct ob = [d0, d1, d2, d3]"
    using length4 assms by (fastforce simp: representable_def)
  obtain i0 i1 i2 i3 where i: "o_indirect ob = [i0, i1, i2, i3]"
    using length4 assms by (fastforce simp: representable_def)
  show ?thesis
    using assms
    by (simp add: representable_def fits32_def fits64_def decode_object_def encode_object_def
        get_int_def d i le_val_le32 le_val_le64 comp_def)
qed

lemma length_encode_bitmap_block [simp]: "length (encode_bitmap_block bm i) = 4096"
  by (simp add: encode_bitmap_block_def length_concat_map [where w = 4])

lemma decode_encode_bitmap:
  assumes "j < 1024"
  shows "decode_word (encode_bitmap_block bm i) j = bm (1024 * i + j)"
proof -
  have "take 4 (drop (4 * j) (encode_bitmap_block bm i)) = le32 (uint (bm (1024 * i + j)))"
    unfolding encode_bitmap_block_def
    using assms by (subst take_drop_concat) simp_all
  moreover have "uint (bm (1024 * i + j)) mod 4294967296 = uint (bm (1024 * i + j))"
    using uint_lt2p [of "bm (1024 * i + j)"] by simp
  ultimately show ?thesis by (simp add: decode_word_def le_val_le32)
qed

text \<open>The part of the object array that the table blocks cover.\<close>

definition table_ok :: "(nat \<Rightarrow> object) \<Rightarrow> bool" where
  "table_ok os \<longleftrightarrow> (\<forall>k < n_slots. representable (os k))"

lemma table_ok_entry:
  assumes "table_ok os" and "i < 22528" and "m < 47"
  shows "representable (os (46 * i + m))" and "length (encode_object (os (46 * i + m))) = 88"
proof -
  have "46 * i + m < n_slots" using assms(2,3) by simp
  then show "representable (os (46 * i + m))" using assms(1) by (simp add: table_ok_def)
  then show "length (encode_object (os (46 * i + m))) = 88"
    by (simp add: length_encode_object representable_def)
qed

text \<open>The concatenation reads only the entries it lists.\<close>

lemma table_concat:
  assumes "table_ok os" and "i < 22528"
  defines "f \<equiv> \<lambda>m. if m < 47 then encode_object (os (46 * i + m)) else replicate 88 0"
  shows "concat (map (\<lambda>m. encode_object (os (46 * i + m))) [0 ..< 47]) = concat (map f [0 ..< 47])"
    and "\<And>m. length (f m) = 88"
proof -
  show "concat (map (\<lambda>m. encode_object (os (46 * i + m))) [0 ..< 47]) = concat (map f [0 ..< 47])"
    by (intro arg_cong [where f = concat] map_cong) (auto simp: f_def)
  show "length (f m) = 88" for m
    using table_ok_entry(2) [OF assms(1,2)] by (simp add: f_def)
qed

lemma length_encode_table_block:
  assumes "table_ok os" and "i < 22528"
  shows "length (encode_table_block os i) = 4096"
  using table_concat [OF assms] by (simp add: encode_table_block_def length_concat_map [where w = 88])

lemma decode_encode_table:
  assumes "table_ok os" and "i < 22528" and "m < 46"
  shows "decode_object (take 88 (drop (88 * m) (encode_table_block os i))) = os (46 * i + m)"
proof -
  note tc = table_concat [OF assms(1,2)]
  have "take 88 (drop (88 * m) (concat (map (\<lambda>m. encode_object (os (46 * i + m))) [0 ..< 47]))) =
      encode_object (os (46 * i + m))"
    unfolding tc(1) using assms(3) take_drop_concat [of _ 88 m "[0 ..< 47]", OF tc(2)] by simp
  moreover have "take 88 (drop (88 * m) (take 4096 xs)) = take 88 (drop (88 * m) xs)" for xs :: block
    using assms(3) by (simp add: drop_take min_def)
  moreover have "representable (os (46 * i + m))"
    using table_ok_entry(1) [OF assms(1,2)] assms(3) by simp
  ultimately show ?thesis
    using decode_encode_object by (simp add: encode_table_block_def)
qed

section \<open>The writes of an unmount\<close>

lemma do_writes_content:
  assumes "disk_ok d" and "\<And>b p x. (b, p, x) \<in> set ws \<Longrightarrow> 0 \<le> b \<and> length x = 4096"
    and "distinct (map fst ws)"
  shows "disk_ok (do_writes ws d)"
    and "(b, p, x) \<in> set ws \<Longrightarrow> disk_content (do_writes ws d) b = Some x"
    and "b \<notin> fst ` set ws \<Longrightarrow> disk_content d b = Some y \<Longrightarrow>
      disk_content (do_writes ws d) b = Some y"
proof -
  have "disk_ok (do_writes ws d) \<and>
    (\<forall>b p x. (b, p, x) \<in> set ws \<longrightarrow> disk_content (do_writes ws d) b = Some x) \<and>
    (\<forall>b y. b \<notin> fst ` set ws \<longrightarrow> disk_content d b = Some y \<longrightarrow>
      disk_content (do_writes ws d) b = Some y)"
    using assms
  proof (induction ws arbitrary: d)
    case Nil
    then show ?case by simp
  next
    case (Cons w ws)
    obtain b p x where w: "w = (b, p, x)" by (cases w)
    have bx: "0 \<le> b" "length x = 4096" using Cons.prems(2) w by auto
    obtain r d1 where d1: "write_block d b (word_of_nat (4096 * p)) (Some x) = (r, d1)"
      by fastforce
    note step = write_block_content [OF Cons.prems(1) page_aligned_slot bx d1]
    have IH: "disk_ok (do_writes ws d1) \<and>
      (\<forall>b p x. (b, p, x) \<in> set ws \<longrightarrow> disk_content (do_writes ws d1) b = Some x) \<and>
      (\<forall>b y. b \<notin> fst ` set ws \<longrightarrow> disk_content d1 b = Some y \<longrightarrow>
        disk_content (do_writes ws d1) b = Some y)"
      using step Cons.prems(2,3) w by (intro Cons.IH) auto
    moreover have "b \<notin> fst ` set ws" using Cons.prems(3) w by simp
    ultimately show ?case using step w d1 by auto
  qed
  then show "disk_ok (do_writes ws d)"
    and "(b, p, x) \<in> set ws \<Longrightarrow> disk_content (do_writes ws d) b = Some x"
    and "b \<notin> fst ` set ws \<Longrightarrow> disk_content d b = Some y \<Longrightarrow>
      disk_content (do_writes ws d) b = Some y"
    by blast+
qed

text \<open>
  What unmounting relies on: the disk holds the metadata area, a table block not marked
  dirty agrees with the disk, and dirty slots hold data blocks.
\<close>

definition synced :: "build \<Rightarrow> objstore \<Rightarrow> bool" where
  "synced c s \<longleftrightarrow>
     22815 \<le> nblocks (disk (dev s)) \<and> table_ok (objs s) \<and>
     (\<forall>i < 22528. dirty_array s i = 0 \<longrightarrow>
        (\<forall>m < 46. decode_object (take 88 (drop (88 * m) (dblock (disk (dev s)) (287 + i)))) =
           objs s (46 * i + m))) \<and>
     (\<forall>i < 32768. cache_dirty (dev s) i = 1 \<longrightarrow>
        c = Cached \<and> 22815 \<le> cache_blks * cache_index (dev s) i + int i)"

definition all_writes :: "objstore \<Rightarrow> wreq list" where
  "all_writes s = bitmap_writes (inode_bitmap s) 0 31 @ bitmap_writes (data_bitmap s) 31 256 @
     table_writes s @ cache_writes (dev s)"

lemma all_writes_cases:
  assumes "(b, p, x) \<in> set (all_writes s)"
  obtains i where "i < 31" "b = int i" "x = encode_bitmap_block (inode_bitmap s) i"
  | i where "i < 256" "b = 31 + int i" "x = encode_bitmap_block (data_bitmap s) i"
  | i where "i < 22528" "b = 287 + int i" "x = encode_table_block (objs s) i" "dirty_array s i \<noteq> 0"
  | i where "i < 32768" "b = cache_blks * cache_index (dev s) i + int i" "x = cache (dev s) i"
      "cache_dirty (dev s) i = 1"
  using assms
  by (auto simp: all_writes_def bitmap_writes_def table_writes_def cache_writes_def)

lemma cache_writes_distinct: "distinct (map fst (cache_writes d))"
proof -
  have "inj_on (\<lambda>i. cache_blks * cache_index d i + int i) (set (filter (\<lambda>i. cache_dirty d i = 1) [0 ..< 32768]))"
    by (auto intro!: inj_onI dest: home_inject)
  then show ?thesis by (simp add: cache_writes_def comp_def distinct_map)
qed

lemma distinct_append_below:
  assumes "distinct xs" and "distinct ys"
    and "\<And>x. x \<in> set xs \<Longrightarrow> x < (a :: int)" and "\<And>y. y \<in> set ys \<Longrightarrow> a \<le> y"
  shows "distinct (xs @ ys)"
  using assms by fastforce

lemma all_writes_distinct:
  assumes "synced c s"
  shows "distinct (map fst (all_writes s))"
proof -
  have bits: "distinct (map fst (bitmap_writes bm a n))" for bm a n
    by (simp add: bitmap_writes_def comp_def distinct_map inj_on_def)
  have bits_range: "int a \<le> b \<and> b < int (a + n)"
    if "b \<in> set (map fst (bitmap_writes bm a n))" for b bm a n
    using that by (auto simp: bitmap_writes_def)
  have tab: "distinct (map fst (table_writes s))"
    by (simp add: table_writes_def comp_def distinct_map inj_on_def)
  have tab_range: "287 \<le> b \<and> b < 22815" if "b \<in> set (map fst (table_writes s))" for b
    using that by (auto simp: table_writes_def)
  have cache_range: "22815 \<le> b" if "b \<in> set (map fst (cache_writes (dev s)))" for b
    using that assms by (auto simp: cache_writes_def synced_def)
  have rest: "distinct (map fst (table_writes s) @ map fst (cache_writes (dev s)))"
    using tab cache_writes_distinct
    by (rule distinct_append_below [where a = 22815]) (use tab_range cache_range in blast)+
  have rest_range: "287 \<le> b" if "b \<in> set (map fst (table_writes s) @ map fst (cache_writes (dev s)))" for b
    using that unfolding set_append
    by (elim UnE) (drule tab_range, linarith, drule cache_range, linarith)
  have two: "distinct (map fst (bitmap_writes (data_bitmap s) 31 256) @
      map fst (table_writes s) @ map fst (cache_writes (dev s)))"
    by (rule distinct_append_below [where a = 287, OF bits rest _ rest_range])
      (drule bits_range, linarith)
  have "distinct (map fst (bitmap_writes (inode_bitmap s) 0 31) @
      map fst (bitmap_writes (data_bitmap s) 31 256) @
      map fst (table_writes s) @ map fst (cache_writes (dev s)))"
  proof (rule distinct_append_below [where a = 31, OF bits two])
    show "b < 31" if "b \<in> set (map fst (bitmap_writes (inode_bitmap s) 0 31))" for b
      using bits_range [OF that] by simp
    show "31 \<le> b" if "b \<in> set (map fst (bitmap_writes (data_bitmap s) 31 256) @
        map fst (table_writes s) @ map fst (cache_writes (dev s)))" for b
      using that unfolding set_append
      by (elim UnE) (drule bits_range, linarith, drule tab_range, linarith, drule cache_range, linarith)
  qed
  then show ?thesis by (simp only: all_writes_def map_append)
qed

lemma all_writes_ok:
  assumes "synced c s" and "io_ok c (dev s)" and "(b, p, x) \<in> set (all_writes s)"
  shows "0 \<le> b \<and> length x = 4096"
  using assms(3)
proof (cases rule: all_writes_cases)
  case (3 i)
  then show ?thesis using assms(1) length_encode_table_block by (simp add: synced_def)
next
  case (4 i)
  then show ?thesis using assms(1,2) by (force simp: synced_def io_ok_def cache_ok_def)
qed simp_all

lemma objstore_destroy_disk:
  assumes "synced c s" and "io_ok c (dev s)"
  shows "disk_ok (objstore_destroy s)"
    and "(b, p, x) \<in> set (all_writes s) \<Longrightarrow> disk_content (objstore_destroy s) b = Some x"
    and "b \<notin> fst ` set (all_writes s) \<Longrightarrow> disk_content (disk (dev s)) b = Some y \<Longrightarrow>
      disk_content (objstore_destroy s) b = Some y"
proof -
  have "disk_ok (disk (dev s))" using assms(2) by (simp add: io_ok_def)
  note w = do_writes_content [OF this all_writes_ok [OF assms] all_writes_distinct [OF assms(1)]]
  have d: "objstore_destroy s = do_writes (all_writes s) (disk (dev s))"
    by (simp add: objstore_destroy_def all_writes_def)
  show "disk_ok (objstore_destroy s)" using w(1) d by simp
  show "(b, p, x) \<in> set (all_writes s) \<Longrightarrow> disk_content (objstore_destroy s) b = Some x"
    using w(2) d by simp
  show "b \<notin> fst ` set (all_writes s) \<Longrightarrow> disk_content (disk (dev s)) b = Some y \<Longrightarrow>
      disk_content (objstore_destroy s) b = Some y"
    using w(3) d by simp
qed

section \<open>Remounting\<close>

lemma load_bitmap_at:
  assumes "disk_ok d" and "w div 1024 < count"
    and "disk_content d (int (w div 1024 + first)) = Some (encode_bitmap_block bm (w div 1024))"
  shows "load_bitmap d first count w = bm w"
proof -
  have "snd (read_block d (int (w div 1024 + first)) (word_of_nat (4096 * (w div 1024))) zero_block) =
      encode_bitmap_block bm (w div 1024)"
    using read_block_content [OF assms(1) page_aligned_slot assms(3)] by simp
  then show ?thesis
    using assms(2) decode_encode_bitmap [of "w mod 1024" bm "w div 1024"]
    by (simp add: load_bitmap_def)
qed

lemma table_temp_content:
  assumes "disk_ok d" and "disk_content d (287 + int i) = Some x"
  shows "table_temp d i = x"
  using read_block_content [OF assms(1) page_aligned_0 assms(2)]
  by (cases i) (simp_all add: read_at_def)

lemma remount_inode_bitmap:
  assumes "synced c s" and "io_ok c (dev s)" and "w < 31744"
  shows "inode_bitmap (objstore_init (objstore_destroy s)) w = inode_bitmap s w"
proof -
  have "w div 1024 < 31" using assms(3) by (simp add: div_less_iff_less_mult)
  moreover from this have "(int (w div 1024), w div 1024, encode_bitmap_block (inode_bitmap s) (w div 1024))
      \<in> set (all_writes s)"
    by (auto simp: all_writes_def bitmap_writes_def)
  ultimately show ?thesis
    using load_bitmap_at [OF objstore_destroy_disk(1) [OF assms(1,2)], of w 31 0]
      objstore_destroy_disk(2) [OF assms(1,2)]
    by (simp add: objstore_init_def)
qed

lemma remount_data_bitmap:
  assumes "synced c s" and "io_ok c (dev s)" and "w < 262144"
  shows "data_bitmap (objstore_init (objstore_destroy s)) w = data_bitmap s w"
proof -
  have "w div 1024 < 256" using assms(3) by (simp add: div_less_iff_less_mult)
  moreover from this have "(int (31 + w div 1024), w div 1024, encode_bitmap_block (data_bitmap s) (w div 1024))
      \<in> set (all_writes s)"
    by (auto simp: all_writes_def bitmap_writes_def)
  ultimately show ?thesis
    using load_bitmap_at [OF objstore_destroy_disk(1) [OF assms(1,2)], of w 256 31]
      objstore_destroy_disk(2) [OF assms(1,2)]
    by (simp add: objstore_init_def add.commute)
qed

lemma table_block_not_cached:
  assumes "synced c s" and "i < 22528" and "dirty_array s i = 0"
  shows "287 + int i \<notin> fst ` set (all_writes s)"
proof
  assume "287 + int i \<in> fst ` set (all_writes s)"
  then obtain p x where "(287 + int i, p, x) \<in> set (all_writes s)" by auto
  then show False
    using assms by (cases rule: all_writes_cases) (auto simp: synced_def)
qed

lemma remount_objs:
  assumes "synced c s" and "io_ok c (dev s)" and "k < 1036288"
  shows "objs (objstore_init (objstore_destroy s)) k = objs s k"
proof -
  define i where "i = k div 46"
  define m where "m = k mod 46"
  have k: "k = 46 * i + m" and m: "m < 46" and i: "i < 22528"
    using assms(3) by (simp_all add: i_def m_def div_less_iff_less_mult)
  have os: "table_ok (objs s)" using assms(1) by (simp add: synced_def)
  note dok = objstore_destroy_disk(1) [OF assms(1,2)]
  have "decode_object (take 88 (drop (88 * m) (table_temp (objstore_destroy s) i))) = objs s k"
  proof (cases "dirty_array s i = 0")
    case True
    have "disk_content (disk (dev s)) (287 + int i) = Some (dblock (disk (dev s)) (287 + i))"
      using assms(1) i by (simp add: synced_def disk_content_def nat_add_distrib)
    then have "table_temp (objstore_destroy s) i = dblock (disk (dev s)) (287 + i)"
      using objstore_destroy_disk(3) [OF assms(1,2) table_block_not_cached [OF assms(1) i True]]
        table_temp_content [OF dok] by blast
    then show ?thesis using assms(1) True i m by (simp add: synced_def k)
  next
    case False
    then have "(287 + int i, 0, encode_table_block (objs s) i) \<in> set (all_writes s)"
      using i by (auto simp: all_writes_def table_writes_def)
    then have "table_temp (objstore_destroy s) i = encode_table_block (objs s) i"
      using objstore_destroy_disk(2) [OF assms(1,2)] table_temp_content [OF dok] by blast
    then show ?thesis using decode_encode_table [OF os i m] k by simp
  qed
  then show ?thesis
    using i by (simp add: objstore_init_def load_object_def i_def m_def)
qed

lemma remount_content:
  assumes "synced c s" and "io_ok c (dev s)" and "22815 \<le> b" and "content c (dev s) b = Some y"
  shows "content c (dev (objstore_init (objstore_destroy s))) b = Some y"
proof -
  have "disk_content (objstore_destroy s) b = Some y"
  proof (cases "c = Cached \<and> cached_at (dev s) b")
    case True
    then have home: "cache_blks * cache_index (dev s) (slot_of b) + int (slot_of b) = b"
      and y: "y = cache (dev s) (slot_of b)"
      using cached_at_home assms(4) by (auto simp: content_def)
    show ?thesis
    proof (cases "cache_dirty (dev s) (slot_of b) = 1")
      case True
      then have "(b, slot_of b, y) \<in> set (all_writes s)"
        using home y slot_of_less by (force simp: all_writes_def cache_writes_def)
      then show ?thesis by (rule objstore_destroy_disk(2) [OF assms(1,2)])
    next
      case False
      have "cache_ok (dev s)" using assms(2) True by (simp add: io_ok_def)
      moreover have "0 \<le> cache_index (dev s) (slot_of b)"
        using True assms(3) by (simp add: cached_at_def)
      ultimately have "disk_content (disk (dev s))
          (cache_blks * cache_index (dev s) (slot_of b) + int (slot_of b)) = Some y"
        using False y by (simp add: cache_ok_def)
      then have "disk_content (disk (dev s)) b = Some y" by (simp only: home)
      moreover have "b \<notin> fst ` set (all_writes s)"
        using False assms(3) by (force elim!: all_writes_cases simp: home_slot)
      ultimately show ?thesis using objstore_destroy_disk(3) [OF assms(1,2)] by blast
    qed
  next
    case False
    then have "disk_content (disk (dev s)) b = Some y"
      using assms(4) by (auto simp: content_def)
    moreover have "b \<notin> fst ` set (all_writes s)"
    proof
      assume "b \<in> fst ` set (all_writes s)"
      then obtain p x where "(b, p, x) \<in> set (all_writes s)" by auto
      then show False
        using False assms(1,3)
        by (cases rule: all_writes_cases) (auto simp: synced_def cached_at_def home_slot)
    qed
    ultimately show ?thesis using objstore_destroy_disk(3) [OF assms(1,2)] by blast
  qed
  moreover have "\<not> cached_at (fresh_cache (objstore_destroy s)) b"
    using assms(3) by (simp add: cached_at_def fresh_cache_def)
  ultimately show ?thesis by (simp add: objstore_init_def content_def fresh_cache_def)
qed

theorem remount_files:
  assumes ok: "files_ok c s" and sync: "synced c s"
  defines "t \<equiv> objstore_init (objstore_destroy s)"
  shows "files_ok c t"
    and "\<And>k. k < n_inodes \<Longrightarrow> live t k = live s k \<and> objs t k = objs s k"
    and "\<And>k a. k < n_inodes \<Longrightarrow> file_block c t k a = file_block c s k a"
    and "\<And>r. valid_ref r \<Longrightarrow> deref c t r = deref c s r"
proof -
  note io = files_okD(1) [OF ok]
  have objs: "objs t k = objs s k" if "k < n_inodes" for k
    using remount_objs [OF sync io] that by (simp add: t_def)
  have live: "live t k = live s k" if "k < n_inodes" for k
    using remount_inode_bitmap [OF sync io, of "k div 32"] that
    by (simp add: bit_set_iff t_def div_less_iff_less_mult)
  have bits: "bit_set (data_bitmap t) n = bit_set (data_bitmap s) n" if "n < n_dblocks" for n
    using remount_data_bitmap [OF sync io, of "n div 32"] that
    by (simp add: bit_set_iff t_def div_less_iff_less_mult)
  have same: "content c (dev t) (deref c s r) = content c (dev s) (deref c s r)"
    if "valid_ref r" "deref c s r \<noteq> 0" for r
  proof -
    have "22815 \<le> deref c s r" using refs_okD(1) [OF files_okD(3) [OF ok] that] by auto
    then show ?thesis
      using deref_content [OF ok that] remount_content [OF sync io] by (auto simp: t_def)
  qed
  show D: "deref c t r = deref c s r" if v: "valid_ref r" for r
  proof (cases r)
    case (Leaf k i j)
    then show ?thesis using v objs [of k] same [of "Ind k i"] by (auto simp: Let_def)
  qed (use v objs in auto)
  have "refs_ok (deref c t) (data_bitmap t) (content c (dev t))"
    by (rule refs_ok_same [OF files_okD(3) [OF ok]]) (use D same bits in simp_all)
  moreover have "inodes_ok t"
    using files_okD(2) [OF ok] objs live by (simp add: inodes_ok_def)
  moreover have "io_ok c (dev t)"
    using objstore_destroy_disk(1) [OF sync io]
    by (simp add: io_ok_def t_def objstore_init_def fresh_cache_def cache_ok_def)
  ultimately show "files_ok c t" by (simp add: files_ok_def)
  show "live t k = live s k \<and> objs t k = objs s k" if "k < n_inodes" for k
    using objs live that by simp
  show "file_block c t k a = file_block c s k a" if "k < n_inodes" for k a
    using D [OF valid_block_ref [OF that, of a]] same [OF valid_block_ref [OF that, of a]]
    by (auto simp: file_block_def)
qed

end
