(* ===== verification/Objfs.thy ===== *)
theory Objfs
  imports Persist
begin

text \<open>
  The FUSE callbacks of \<open>assignment4/objfs.c\<close>: thin wrappers that strip the leading slash
  of the path, call the object store and turn failures into negative error numbers.
\<close>

abbreviation (input) ENOENT :: int where "ENOENT \<equiv> 2"
abbreviation (input) EBADF :: int where "EBADF \<equiv> 9"
abbreviation (input) EEXIST :: int where "EEXIST \<equiv> 17"
abbreviation (input) EINVAL :: int where "EINVAL \<equiv> 22"

text \<open>
  The parts of \<open>struct objfs_state\<close> and of the process that the callbacks read: the
  default attributes of files and of the root, and the user and group ids.
\<close>

record fs_env =
  def_fstat :: stat
  def_dirstat :: stat
  uid :: int
  gid :: int

text \<open>\<open>key + 1\<close>: paths handed over by FUSE are never empty.\<close>

definition path_key :: "string \<Rightarrow> string" where
  "path_key path = tl path"

definition objfs_getattr :: "fs_env \<Rightarrow> string \<Rightarrow> objstore \<Rightarrow> int \<times> stat option \<times> objstore" where
  "objfs_getattr env key s =
     (let own = (\<lambda>st. st\<lparr>st_uid := uid env, st_gid := gid env\<rparr>) in
      if key = ''/'' then (0, Some (own ((def_dirstat env)\<lparr>st_ino := 1\<rparr>)), s)
      else
        (case find_object_id (path_key key) s of (oid, s1) \<Rightarrow>
           let retval = s32 oid in
           if retval < 0 then (- ENOENT, None, s1)
           else
             (case fillup_size_details ((def_fstat env)\<lparr>st_ino := retval\<rparr>) s1 of (rc, st) \<Rightarrow>
                if rc < 0 then (- EBADF, None, s1)
                else (0, Some (own st), s1))))"

definition objfs_unlink :: "string \<Rightarrow> objstore \<Rightarrow> (int \<times> objstore) res" where
  "objfs_unlink key s = rbind (destroy_object (path_key key) s) (\<lambda>(_, s1). Inr (0, s1))"

definition objfs_rename_key ::
    "int \<Rightarrow> string \<Rightarrow> string \<Rightarrow> objstore \<Rightarrow> (int \<times> objstore) res" where
  "objfs_rename_key ctr0 oldkey newkey s =
     rbind (rename_object ctr0 (path_key oldkey) (path_key newkey) s)
       (\<lambda>(r, s1). Inr (if r < 0 then - EINVAL else 0, s1))"

text \<open>The handle \<open>fi->fh\<close> set on success is the second component.\<close>

definition objfs_create :: "string \<Rightarrow> objstore \<Rightarrow> (int \<times> int option \<times> objstore) res" where
  "objfs_create key s =
     rbind (create_object (path_key key) s)
       (\<lambda>(r, s1). Inr (if r < 0 then (- EEXIST, None, s1) else (0, Some r, s1)))"

definition objfs_open :: "string \<Rightarrow> objstore \<Rightarrow> int \<times> int option \<times> objstore" where
  "objfs_open key s =
     (case find_object_id (path_key key) s of (oid, s1) \<Rightarrow>
        let retval = s32 oid in
        if retval < 0 then (- ENOENT, None, s1) else (0, Some retval, s1))"

definition objfs_read ::
    "build \<Rightarrow> int \<Rightarrow> nat \<Rightarrow> int \<Rightarrow> objstore \<Rightarrow> (int \<times> byte list \<times> objstore) res" where
  "objfs_read c fh nbytes offset s =
     rbind (objstore_read c (s32 fh) nbytes offset s)
       (\<lambda>(r, data, s1). let retval = s32 r in
          Inr (if retval < 0 then - EINVAL else retval, data, s1))"

definition objfs_write ::
    "build \<Rightarrow> int \<Rightarrow> byte list \<Rightarrow> int \<Rightarrow> objstore \<Rightarrow> (int \<times> objstore) res" where
  "objfs_write c fh buf offset s =
     rbind (objstore_write c (s32 fh) buf offset s)
       (\<lambda>(r, s1). let retval = s32 r in
          Inr (if retval < 0 then - EINVAL else retval, s1))"

definition objfs_release :: "int \<Rightarrow> objstore \<Rightarrow> int" where
  "objfs_release fh s = (let r = release_object (s32 fh) s in - EINVAL)"

definition objfs_init :: "disk \<Rightarrow> objstore" where
  "objfs_init d = objstore_init d"

definition objfs_destroy :: "objstore \<Rightarrow> disk" where
  "objfs_destroy s = objstore_destroy s"

section \<open>Attributes\<close>

lemma blocks_ceiling:
  "n div 512 + (if n div 512 * 512 \<noteq> n then 1 else 0) = (n + 511) div (512 :: int)"
proof (cases "n mod 512 = 0")
  case True
  then have n: "n div 512 * 512 = n" using div_mult_mod_eq [of n 512] by linarith
  then have "n + 511 = 511 + (n div 512) * 512" by simp
  then have "(n + 511) div 512 = n div 512 + 511 div 512"
    by (metis div_mult_self1 add.commute zero_neq_numeral)
  then show ?thesis using n by simp
next
  case False
  have m: "0 \<le> n mod 512" "n mod 512 < 512" by simp_all
  have "n + 511 = (n mod 512 - 1) + (n div 512 + 1) * 512"
    using div_mult_mod_eq [of n 512] by (simp add: algebra_simps)
  then have "(n + 511) div 512 = (n div 512 + 1) + (n mod 512 - 1) div 512"
    by (metis div_mult_self1 add.commute zero_neq_numeral)
  also have "(n mod 512 - 1) div 512 = 0" using m False by (intro div_pos_pos_trivial) auto
  moreover have "n div 512 * 512 \<noteq> n" using False by (metis mod_mult_self2_is_0)
  ultimately show ?thesis by simp
qed

lemma getattr_found:
  assumes ok: "inodes_ok s" and k: "k \<in> slots_with s key"
    and least: "\<And>j. j \<in> slots_with s key \<Longrightarrow> k \<le> j"
    and path: "path = CHR 0x2F # key" "key \<noteq> []"
  shows "objfs_getattr env path s =
    (0, Some ((def_fstat env)\<lparr>st_ino := int k + 2, st_size := o_size (objs s k),
                st_blocks := (o_size (objs s k) + 511) div 512,
                st_uid := uid env, st_gid := gid env\<rparr>),
     s\<lparr>backup := Some k\<rparr>)"
proof -
  have kn: "k < n_inodes" and lk: "live s k" using k by (auto simp: slots_with_def has_key_def)
  have id: "o_id (objs s k) = int k + 2" by (rule inodes_okD(5) [OF ok kn lk])
  have "path \<noteq> ''/''" and "path_key path = key" using path by (simp_all add: path_key_def)
  moreover have "s32 (int k + 2) = int k + 2" using kn by simp
  ultimately show ?thesis
    using find_object_id_least [OF ok k least] id blocks_ceiling [of "o_size (objs s k)"]
    by (simp add: objfs_getattr_def fillup_size_details_def backup_object_def Let_def)
qed

lemma getattr_missing:
  assumes "slots_with s key = {}" and "path = CHR 0x2F # key" and "key \<noteq> []"
  shows "objfs_getattr env path s = (-2, None, s)"
  using assms find_object_id_missing by (simp add: objfs_getattr_def path_key_def Let_def)

lemma open_found:
  assumes "inodes_ok s" and "k \<in> slots_with s key" and "\<And>j. j \<in> slots_with s key \<Longrightarrow> k \<le> j"
  shows "objfs_open (c # key) s = (0, Some (int k + 2), s\<lparr>backup := Some k\<rparr>)"
proof -
  have "k < n_inodes" using assms(2) by (simp add: slots_with_def)
  then have "s32 (int k + 2) = int k + 2" by simp
  then show ?thesis
    using find_object_id_least [OF assms] by (simp add: objfs_open_def path_key_def Let_def)
qed

end
