(* ===== verification/Startup.thy ===== *)
theory Startup
  imports Objfs
begin

text \<open>
  The start of the file system: \<open>do_init\<close> of \<open>assignment4/lib.c\<close> and \<open>main\<close> of \<open>objfs.c\<close>, and
  those of the example. The C library and FUSE are a parameter: what each call answers, and
  what it makes of the world \<open>'w\<close> outside.
\<close>

section \<open>The calls\<close>

record 'w libc =
  getcwd :: "'w \<Rightarrow> string option"
  stat_file :: "string \<Rightarrow> 'w \<Rightarrow> stat option"
  open_device :: "string \<Rightarrow> bool \<Rightarrow> 'w \<Rightarrow> int \<times> 'w" \<comment> \<open>read-write, direct, and synchronous or not\<close>
  fopen :: "string \<Rightarrow> 'w \<Rightarrow> int option \<times> 'w"
  mmap_cache :: "'w \<Rightarrow> int option \<times> 'w"
  malloc_state :: "'w \<Rightarrow> bool \<times> 'w"

text \<open>\<open>struct objfs_state\<close>, as far as these functions set it.\<close>

record objfs_state =
  blkdev :: int
  logfd :: "int option"
  s_fstat :: stat
  s_dirstat :: stat
  cache_at :: "int option"

section \<open>Initialisation\<close>

definition do_init :: "'w libc \<Rightarrow> objfs_state \<Rightarrow> 'w \<Rightarrow> int \<times> objfs_state \<times> 'w" where
  "do_init L fs w =
     (case getcwd L w of
        None \<Rightarrow> (-1, fs, w)
      | Some ptr \<Rightarrow>
     (case stat_file L ptr w of
        None \<Rightarrow> (-1, fs, w)
      | Some dst \<Rightarrow>
          let fs1 = fs\<lparr>s_dirstat := dst\<rparr> in
     (case open_device L ''disk.img'' False w of
        (fd, w1) \<Rightarrow>
          let fs2 = fs1\<lparr>blkdev := fd\<rparr> in
          if fd < 0 then (-1, fs2, w1)
          else
     (case fopen L ''objfs.log'' w1 of
        (lg, w2) \<Rightarrow>
          let fs3 = fs2\<lparr>logfd := lg\<rparr> in
          if lg = None then (-1, fs3, w2)
          else
     (case stat_file L ''objfs.log'' w2 of
        None \<Rightarrow> (-1, fs3, w2)
      | Some fstat \<Rightarrow>
     (case mmap_cache L w2 of
        (c, w3) \<Rightarrow>
          let fs4 = fs3\<lparr>s_fstat := fstat, cache_at := c\<rparr>
          in (if c = None then -1 else 0, fs4, w3)))))))"

text \<open>The example opens the device for synchronous writes, too.\<close>

definition do_init_x :: "'w libc \<Rightarrow> objfs_state \<Rightarrow> 'w \<Rightarrow> int \<times> objfs_state \<times> 'w" where
  "do_init_x L fs w = do_init (L\<lparr>open_device := (\<lambda>path _. open_device L path True)\<rparr>) fs w"

text \<open>
  \<open>main\<close>: \<open>Inl\<close> of the exit code, or \<open>Inr\<close> of the value that \<open>fuse_main\<close> returns and that \<open>main\<close>
  returns, too. \<open>fs\<close> is the content of the memory that \<open>malloc\<close> gives.
\<close>

definition objfs_main ::
    "'w libc \<Rightarrow> (objfs_state \<Rightarrow> 'w \<Rightarrow> int \<times> 'w) \<Rightarrow> int \<Rightarrow> objfs_state \<Rightarrow> 'w \<Rightarrow> (int + int) \<times> 'w" where
  "objfs_main L fuse_main argc fs w =
     (if argc < 2 then (Inl (-1), w)
      else
        case malloc_state L w of (ok, w1) \<Rightarrow>
        if \<not> ok then (Inl (-1), w1)
        else
          case do_init L fs w1 of (r, fs1, w2) \<Rightarrow>
          if r < 0 then (Inl (-1), w2)
          else (case fuse_main fs1 w2 of (rv, w3) \<Rightarrow> (Inr rv, w3)))"

definition objfs_main_x ::
    "'w libc \<Rightarrow> (objfs_state \<Rightarrow> 'w \<Rightarrow> int \<times> 'w) \<Rightarrow> int \<Rightarrow> objfs_state \<Rightarrow> 'w \<Rightarrow> (int + int) \<times> 'w" where
  "objfs_main_x L fuse_main argc fs w =
     (if argc < 2 then (Inl (-1), w)
      else
        case malloc_state L w of (ok, w1) \<Rightarrow>
        if \<not> ok then (Inl (-1), w1)
        else
          case do_init_x L fs w1 of (r, fs1, w2) \<Rightarrow>
          if r < 0 then (Inl (-1), w2)
          else (case fuse_main fs1 w2 of (rv, w3) \<Rightarrow> (Inr rv, w3)))"

section \<open>What the callbacks find\<close>

text \<open>A file system that is served has a device, a log, a cache, and the attributes it reports.\<close>

lemma do_init_ready:
  assumes "do_init L fs w = (0, fs1, w1)"
  shows "0 \<le> blkdev fs1 \<and> logfd fs1 \<noteq> None \<and> cache_at fs1 \<noteq> None \<and>
    (\<exists>ptr. getcwd L w = Some ptr \<and> stat_file L ptr w = Some (s_dirstat fs1)) \<and>
    (\<exists>w2. stat_file L ''objfs.log'' w2 = Some (s_fstat fs1))"
  using assms unfolding do_init_def Let_def
  by (auto split: option.splits prod.splits if_splits)

lemma do_init_values: "fst (do_init L fs w) = 0 \<or> fst (do_init L fs w) = -1"
  unfolding do_init_def Let_def by (auto split: option.splits prod.splits if_splits)

lemma main_serves:
  assumes "objfs_main L fuse_main argc fs w = (Inr rv, w')"
  shows "\<exists>fs1 w1 w2. do_init L fs w1 = (0, fs1, w2) \<and> fuse_main fs1 w2 = (rv, w')"
proof -
  obtain w1 r fs1 w2 where i: "do_init L fs w1 = (r, fs1, w2)" and r: "\<not> r < 0"
    and f: "fuse_main fs1 w2 = (rv, w')"
    using assms by (auto simp: objfs_main_def split: prod.splits if_splits)
  then have "r = 0" using do_init_values [of L fs w1] by simp
  then show ?thesis using i f by blast
qed

end
