(* ===== verification/Sync.thy ===== *)
theory Sync
  imports Objfs
begin

text \<open>
  Every operation keeps the store ready to be unmounted: the predicate \<open>synced\<close> of
  \<open>Persist\<close> (clean parts of the object table agree with the disk, dirty cache slots hold
  data blocks only) is preserved by creation, renaming, writing and reading. The block layer
  contributes that transfers of data blocks never touch the metadata area, disk blocks
  0 to 22814, also when they evict.
\<close>

section \<open>Data transfers leave the metadata area alone\<close>

definition dirty_high :: "build \<Rightarrow> bstate \<Rightarrow> bool" where
  "dirty_high c d \<longleftrightarrow>
     (\<forall>i < 32768. cache_dirty d i = 1 \<longrightarrow> c = Cached \<and> 22815 \<le> cache_blks * cache_index d i + int i)"

definition low_kept :: "build \<Rightarrow> bstate \<Rightarrow> bstate \<Rightarrow> bool" where
  "low_kept c d d' \<longleftrightarrow> dirty_high c d' \<and> nblocks (disk d) \<le> nblocks (disk d') \<and>
     (\<forall>b < 22815. dblock (disk d') b = dblock (disk d) b)"

lemma low_kept_refl: "dirty_high c d \<Longrightarrow> low_kept c d d"
  by (simp add: low_kept_def)

lemma low_kept_trans: "low_kept c d d1 \<Longrightarrow> low_kept c d1 d2 \<Longrightarrow> low_kept c d d2"
  by (auto simp: low_kept_def)

lemma low_kept_high: "low_kept c d d' \<Longrightarrow> 22815 \<le> nblocks (disk d) \<Longrightarrow>
    dirty_high c d' \<and> 22815 \<le> nblocks (disk d')"
  by (auto simp: low_kept_def)

lemma write_block_low:
  assumes "22815 \<le> nblocks d" and "22815 \<le> blk"
  shows "nblocks d \<le> nblocks (snd (write_block d blk addr x)) \<and>
    (\<forall>b < 22815. dblock (snd (write_block d blk addr x)) b = dblock d b)"
proof -
  have "b \<noteq> nat blk" if "b < 22815" for b using assms(2) that by auto
  then show ?thesis
    using assms by (auto simp: write_block_def pwrite_block_def Let_def split: option.splits)
qed

lemma cache_evict_low:
  assumes "dirty_high Cached d" and "22815 \<le> nblocks (disk d)" and "0 \<le> blk"
  shows "low_kept Cached d (cache_evict (slot_of blk) blk d)"
proof (cases "cache_dirty d (slot_of blk) = 1")
  case True
  let ?home = "cache_blks * cache_index d (slot_of blk) + int (slot_of blk)"
  have low: "blk smod 32768 = int (slot_of blk)" using assms(3) by (simp add: slot_of_def)
  have "22815 \<le> ?home" using assms(1) True by (auto simp: dirty_high_def)
  from write_block_low [OF assms(2) this] show ?thesis
    using assms(1) True
    by (auto simp: low_kept_def dirty_high_def cache_evict_def low cache_flush_def)
next
  case False
  then show ?thesis using assms(1) by (simp add: cache_evict_def low_kept_refl)
qed

lemma dirty_high_refill:
  assumes "low_kept Cached d d1" and "22815 \<le> blk"
    and "disk d2 = disk d1" and "cache_dirty d2 = (cache_dirty d1)(slot_of blk := v)"
    and "cache_index d2 = (cache_index d1)(slot_of blk := blk div cache_blks)"
  shows "low_kept Cached d d2"
  using assms blk_split [of blk] by (auto simp: low_kept_def dirty_high_def)

lemma dirty_high_refill_same:
  assumes "low_kept Cached d d1" and "22815 \<le> blk"
    and "disk d2 = disk d1" and "cache_dirty d2 = cache_dirty d1"
    and "cache_index d2 = (cache_index d1)(slot_of blk := blk div cache_blks)"
  shows "low_kept Cached d d2"
  using dirty_high_refill [OF assms(1-3), of "cache_dirty d1 (slot_of blk)"] assms(4,5) by simp

lemma cache_blk_read_low:
  assumes "dirty_high c d" and "22815 \<le> nblocks (disk d)" and "22815 \<le> blk"
    and "cache_blk_read c blk buf d = Inr (x, d')"
  shows "low_kept c d d'"
proof (cases c)
  case Plain
  then show ?thesis using assms by (simp add: cache_blk_read_def low_kept_refl)
next
  case Cached
  let ?k = "slot_of blk"
  have pos: "0 \<le> blk" using assms(3) by simp
  have d: "dirty_high Cached d" using assms(1) Cached by simp
  consider (hit) "d' = d"
    | (fill) "d' = cache_fill ?k blk (d\<lparr>cache_index := (cache_index d)(?k := blk div cache_blks)\<rparr>)"
    | (evict) d1 where "d1 = cache_fill ?k blk (cache_evict ?k blk d)"
        "d' = d1\<lparr>cache_index := (cache_index d1)(?k := blk div cache_blks)\<rparr>"
    using assms(4) Cached pos
    by (auto simp: cache_blk_read_def slot_of_mod Let_def split: if_splits)
  then show ?thesis
  proof cases
    case hit
    then show ?thesis using assms(1) by (simp add: low_kept_refl)
  next
    case fill
    show ?thesis unfolding Cached
      by (rule dirty_high_refill_same [OF low_kept_refl [OF d] assms(3)]) (simp_all add: fill)
  next
    case evict
    show ?thesis unfolding Cached
      by (rule dirty_high_refill_same [OF cache_evict_low [OF d assms(2) pos] assms(3)])
        (simp_all add: evict)
  qed
qed

lemma cache_blk_write_low:
  assumes "dirty_high c d" and "22815 \<le> nblocks (disk d)" and "22815 \<le> blk"
    and "cache_blk_write c blk x d = Inr d'"
  shows "low_kept c d d'"
proof (cases c)
  case Plain
  then show ?thesis
    using assms write_block_low [OF assms(2,3)]
    by (auto simp: cache_blk_write_def low_kept_def dirty_high_def)
next
  case Cached
  let ?k = "slot_of blk"
  have pos: "0 \<le> blk" using assms(3) by simp
  have d: "dirty_high Cached d" using assms(1) Cached by simp
  define d1 where "d1 = (if cache_index d ?k = -1 \<or> cache_index d ?k = blk div cache_blks then d
    else cache_evict ?k blk d)"
  have d1: "d1 = d \<or> d1 = cache_evict ?k blk d" by (simp add: d1_def)
  obtain y where d': "d' = d1\<lparr>cache := (cache d1)(?k := y),
      cache_index := (cache_index d1)(?k := blk div cache_blks),
      cache_dirty := (cache_dirty d1)(?k := 1)\<rparr>"
    using assms(4) Cached pos
    by (auto simp: cache_blk_write_def slot_of_mod Let_def d1_def split: option.splits if_splits)
  have "low_kept Cached d d1"
    using d1 low_kept_refl [OF d] cache_evict_low [OF d assms(2) pos] by auto
  then show ?thesis unfolding Cached
    by (rule dirty_high_refill [OF _ assms(3)]) (simp_all add: d')
qed


section \<open>Writing an object\<close>

text \<open>What \<open>objstore_write\<close> does outside the block layer.\<close>

definition write_meta :: "nat \<Rightarrow> int \<Rightarrow> int \<Rightarrow> objstore \<Rightarrow> objstore" where
  "write_meta k sz a s =
     (case free_data_block (mark_dirty k s) of (data_1, s1) \<Rightarrow>
        let s2 = obj_update k (\<lambda>t. t\<lparr>o_size := o_size t + sz\<rparr>) s1 in
        if a \<le> 3 then obj_update k (\<lambda>t. t\<lparr>o_direct := (o_direct t)[nat a := data_1]\<rparr>) s2
        else (case indirect_range a of
                None \<Rightarrow> s2
              | Some (r, base) \<Rightarrow>
                  if a = base
                  then obj_update k (\<lambda>t. t\<lparr>o_indirect := (o_indirect t)[r := data_1]\<rparr>)
                         (snd (free_data_block s2))
                  else s2))"

lemma free_data_block_frame:
  assumes "free_data_block s = (b, t)"
  shows "objs t = objs s" and "dev t = dev s" and "inode_bitmap t = inode_bitmap s"
    and "dirty_array t = dirty_array s" and "backup t = backup s" and "b < 8411423" and "- 1 \<le> b"
  using assms by (auto simp: free_data_block_def scan_Some_iff split: option.splits)

lemma dev_write_shape:
  "dev_write c blk x s = Inr t \<Longrightarrow>
   \<exists>d. t = s\<lparr>dev := d\<rparr> \<and> cache_blk_write c blk x (dev s) = Inr d"
  by (auto simp: dev_write_def run_simps)

lemma dev_read_shape:
  "dev_read c blk s = Inr (x, t) \<Longrightarrow>
   \<exists>d. t = s\<lparr>dev := d\<rparr> \<and> cache_blk_read c blk zero_block (dev s) = Inr (x, d)"
  by (auto simp: dev_read_def run_simps)

lemma dev_rmw_shape:
  "dev_rmw c ind j v s = Inr t \<Longrightarrow>
   \<exists>d ib d1. t = s\<lparr>dev := d\<rparr> \<and> cache_blk_read c ind zero_block (dev s) = Inr (ib, d1) \<and>
     cache_blk_write c ind (Some (put_int ib j v)) d1 = Inr d"
  by (auto simp: dev_rmw_def rmw_entry_def run_simps)

lemma set_dev_update: "(obj_update k f s)\<lparr>dev := d\<rparr> = obj_update k f (s\<lparr>dev := d\<rparr>)"
  by simp

text \<open>
  A write that succeeds is its metadata part together with transfers of data blocks.
\<close>

lemma write_indirect_shape:
  assumes w: "write_indirect c k r base a b x s = Inr t" and a: "indirect_range a = Some (r, base)"
  shows "\<exists>d. t = (if a = base
      then obj_update k (\<lambda>t. t\<lparr>o_indirect := (o_indirect t)[r := b]\<rparr>) (snd (free_data_block s))
      else s)\<lparr>dev := d\<rparr>"
proof (cases "a = base")
  case True
  obtain m s1 where m: "free_data_block s = (m, s1)" by fastforce
  obtain u where u: "dev_write c b (Some (put_int zero_block 0 m))
      (obj_update k (\<lambda>t. t\<lparr>o_indirect := (o_indirect t)[r := b]\<rparr>) s1) = Inr u"
    and t: "dev_write c m x u = Inr t"
    using w True m by (auto simp: write_indirect_def run_simps)
  show ?thesis using dev_write_shape [OF u] dev_write_shape [OF t] True m by auto
next
  case False
  then obtain u where u: "dev_rmw c (o_indirect (objs s k) ! r) (nat (a - base)) b s = Inr u"
    and t: "dev_write c b x u = Inr t"
    using w by (auto simp: write_indirect_def run_simps)
  show ?thesis using dev_rmw_shape [OF u] dev_write_shape [OF t] False by auto
qed

lemma objstore_write_meta:
  assumes "find_target objid True s = (Some k, mark_dirty k s)"
    and "objstore_write c objid buff offset s = Inr (n, t)"
  shows "\<exists>d. t = (write_meta k (int (length buff)) (s32 (offset sdiv 4096)) s)\<lparr>dev := d\<rparr>"
proof -
  let ?a = "s32 (offset sdiv 4096)" and ?sz = "int (length buff)"
  obtain b s1 where b: "free_data_block (mark_dirty k s) = (b, s1)" by fastforce
  let ?s2 = "obj_update k (\<lambda>t. t\<lparr>o_size := o_size t + ?sz\<rparr>) s1"
  show ?thesis
  proof (cases "?a \<le> 3")
    case True
    then obtain u where u: "dev_write c b (write_buffer buff) ?s2 = Inr u" and "0 \<le> ?a"
      and t: "t = obj_update k (\<lambda>t. t\<lparr>o_direct := (o_direct t)[nat ?a := b]\<rparr>) u"
      using assms b by (auto simp: objstore_write_def run_simps split: if_splits)
    moreover obtain d where "u = ?s2\<lparr>dev := d\<rparr>" using dev_write_shape [OF u] by blast
    ultimately show ?thesis
      using True b by (intro exI [of _ d]) (simp add: write_meta_def Let_def)
  next
    case False
    show ?thesis
    proof (cases "indirect_range ?a")
      case None
      then have "t = ?s2\<lparr>dev := dev ?s2\<rparr>" using assms b False by (auto simp: objstore_write_def Let_def)
      then show ?thesis using None False b by (auto simp: write_meta_def Let_def intro: exI [of _ "dev ?s2"])
    next
      case (Some p)
      then obtain r base where p: "indirect_range ?a = Some (r, base)" by (cases p) auto
      then have "write_indirect c k r base ?a b (write_buffer buff) ?s2 = Inr t"
        using assms b False by (auto simp: objstore_write_def run_simps)
      from write_indirect_shape [OF this p] show ?thesis
        using p False b by (simp add: write_meta_def Let_def)
    qed
  qed
qed


lemma dev_write_low:
  assumes "dev_write c blk x s = Inr t" and "dirty_high c (dev s)"
    and "22815 \<le> nblocks (disk (dev s))" and "22815 \<le> blk"
  shows "low_kept c (dev s) (dev t)"
  using dev_write_shape [OF assms(1)] cache_blk_write_low [OF assms(2-4)] by auto

lemma dev_read_low:
  assumes "dev_read c blk s = Inr (x, t)" and "dirty_high c (dev s)"
    and "22815 \<le> nblocks (disk (dev s))" and "22815 \<le> blk"
  shows "low_kept c (dev s) (dev t)"
  using dev_read_shape [OF assms(1)] cache_blk_read_low [OF assms(2-4)] by auto

lemma dev_rmw_low:
  assumes "dev_rmw c ind j v s = Inr t" and "dirty_high c (dev s)"
    and "22815 \<le> nblocks (disk (dev s))" and "22815 \<le> ind"
  shows "low_kept c (dev s) (dev t)"
proof -
  obtain d ib d1 where t: "t = s\<lparr>dev := d\<rparr>"
    and rd: "cache_blk_read c ind zero_block (dev s) = Inr (ib, d1)"
    and wr: "cache_blk_write c ind (Some (put_int ib j v)) d1 = Inr d"
    using dev_rmw_shape [OF assms(1)] by blast
  have 1: "low_kept c (dev s) d1" by (rule cache_blk_read_low [OF assms(2-4) rd])
  moreover have "low_kept c d1 d"
    using cache_blk_write_low [OF _ _ assms(4) wr] low_kept_high [OF 1 assms(3)] by blast
  ultimately show ?thesis using low_kept_trans t by auto
qed

lemma two_steps_low:
  assumes "low_kept c d d1" and "22815 \<le> nblocks (disk d)"
    and "dirty_high c d1 \<Longrightarrow> 22815 \<le> nblocks (disk d1) \<Longrightarrow> low_kept c d1 d2"
  shows "low_kept c d d2"
  using assms low_kept_high low_kept_trans by blast

lemma pointer_high:
  "files_ok c s \<Longrightarrow> valid_ref r \<Longrightarrow> deref c s r \<noteq> 0 \<Longrightarrow> 22815 \<le> deref c s r"
  using refs_okD(1) [OF files_okD(3)] by fastforce

lemma write_indirect_low:
  assumes w: "write_indirect c k r base a b x s = Inr t"
    and d: "dirty_high c (dev s)" "22815 \<le> nblocks (disk (dev s))" and b: "22815 \<le> b"
    and m: "a = base \<Longrightarrow> 22815 \<le> fst (free_data_block s)"
    and ind: "a \<noteq> base \<Longrightarrow> 22815 \<le> o_indirect (objs s k) ! r"
  shows "low_kept c (dev s) (dev t)"
proof (cases "a = base")
  case True
  obtain m s1 where ms: "free_data_block s = (m, s1)" by fastforce
  let ?s2 = "obj_update k (\<lambda>t. t\<lparr>o_indirect := (o_indirect t)[r := b]\<rparr>) s1"
  obtain u where u: "dev_write c b (Some (put_int zero_block 0 m)) ?s2 = Inr u"
    and t: "dev_write c m x u = Inr t"
    using w True ms by (auto simp: write_indirect_def run_simps)
  have dev: "dev ?s2 = dev s" using free_data_block_frame(2) [OF ms] by simp
  have "low_kept c (dev s) (dev u)" using dev_write_low [OF u] d b dev by simp
  then show ?thesis
    by (rule two_steps_low [OF _ d(2)]) (use dev_write_low [OF t] m True ms in simp)
next
  case False
  then obtain u where u: "dev_rmw c (o_indirect (objs s k) ! r) (nat (a - base)) b s = Inr u"
    and t: "dev_write c b x u = Inr t"
    using w by (auto simp: write_indirect_def run_simps)
  show ?thesis
    by (rule two_steps_low [OF dev_rmw_low [OF u d ind [OF False]] d(2)])
      (use dev_write_low [OF t] b in simp)
qed

lemma has_room_two:
  assumes "has_room s" and "data_bitmap s1 = data_bitmap s" and "free_data_block s1 = (b, s2)"
  shows "22815 \<le> b" and "data_bitmap s3 = data_bitmap s2 \<Longrightarrow> 22815 \<le> fst (free_data_block s3)"
proof -
  obtain n m where n: "free_data_block s1 = (22815 + int n, s1\<lparr>data_bitmap := set_bit_at n (data_bitmap s)\<rparr>)"
    and m: "\<And>s3. data_bitmap s3 = set_bit_at n (data_bitmap s) \<Longrightarrow> free_data_block s3 =
      (22815 + int m, s3\<lparr>data_bitmap := set_bit_at m (set_bit_at n (data_bitmap s))\<rparr>)"
    using has_room_alloc [OF assms(1,2)] by metis
  show "22815 \<le> b" using n assms(3) by simp
  show "22815 \<le> fst (free_data_block s3)" if "data_bitmap s3 = data_bitmap s2"
    using m [of s3] n assms(3) that by auto
qed

lemma indirect_range_bound:
  "indirect_range a = Some (r, base) \<Longrightarrow> r < 4 \<and> base = 4 + 1024 * int r \<and> base \<le> a \<and> a < base + 1024"
  by (auto simp: indirect_range_def split: if_splits)

lemma in_sequence_pointer:
  assumes ok: "files_ok c s" and k: "k < n_inodes" and seq: "in_sequence s k a"
    and r: "indirect_range (int a) = Some (r, base)" "int a \<noteq> base"
  shows "22815 \<le> o_indirect (objs s k) ! r"
proof -
  have a: "4 \<le> a" "a < 4100" using indirect_range_bound [OF r(1)] by auto
  have q: "(a - 4) div 1024 = r" "base = 4 + 1024 * int ((a - 4) div 1024)"
    using indirect_range_int(1) [OF a] r(1) by auto
  then have "o_indirect (objs s k) ! r \<noteq> 0"
    using indirect_range_int(3) [OF a] seq r(2) a(1) by (simp add: in_sequence_def)
  then show ?thesis
    using pointer_high [OF ok, of "Ind k r"] k indirect_range_bound [OF r(1)] by simp
qed

lemma objstore_write_low:
  assumes ok: "files_ok c s" and k: "k < n_inodes" "live s k" and room: "has_room s"
    and d: "dirty_high c (dev s)" "22815 \<le> nblocks (disk (dev s))"
    and off: "0 \<le> offset" "offset div 4096 = int a" "a < 4100" and seq: "in_sequence s k a"
    and w: "objstore_write c (int k + 2) buff offset s = Inr (n, t)"
  shows "low_kept c (dev s) (dev t)"
proof -
  have find: "find_target (int k + 2) True s = (Some k, mark_dirty k s)"
    using find_target_live [OF files_okD(2) [OF ok] k] by simp
  have a32: "s32 (offset sdiv 4096) = int a" using off by simp
  obtain b s1 where b: "free_data_block (mark_dirty k s) = (b, s1)" by fastforce
  note fr = free_data_block_frame [OF b]
  let ?s2 = "obj_update k (\<lambda>t. t\<lparr>o_size := o_size t + int (length buff)\<rparr>) s1"
  have dev2: "dev ?s2 = dev s" using fr(2) by simp
  have high: "22815 \<le> b" "22815 \<le> fst (free_data_block ?s2)"
    using has_room_two [OF room _ b] by simp_all
  show ?thesis
  proof (cases "int a \<le> 3")
    case True
    then obtain u where u: "dev_write c b (write_buffer buff) ?s2 = Inr u"
      and "t = obj_update k (\<lambda>t. t\<lparr>o_direct := (o_direct t)[a := b]\<rparr>) u"
      using w find b a32 by (auto simp: objstore_write_def run_simps split: if_splits)
    then show ?thesis using dev_write_low [OF u] d high(1) dev2 by simp
  next
    case False
    then obtain r base where r: "indirect_range (int a) = Some (r, base)"
      using indirect_range_int(1) [of a] off(3) by fastforce
    then have wi: "write_indirect c k r base (int a) b (write_buffer buff) ?s2 = Inr t"
      using w find b a32 False by (auto simp: objstore_write_def run_simps)
    have "22815 \<le> o_indirect (objs ?s2 k) ! r" if "int a \<noteq> base"
      using in_sequence_pointer [OF ok k(1) seq r that] fr(1) by simp
    with write_indirect_low [OF wi] d high dev2 show ?thesis by simp
  qed
qed


section \<open>Reading an object\<close>

lemma read_one_low:
  assumes ok: "files_ok c s" and k: "k < n_inodes" and x: "file_block c s k a = Some x"
    and d: "dirty_high c (dev s)" "22815 \<le> nblocks (disk (dev s))"
    and r: "read_one c (Some k) (int a) s = Inr (y, t)"
  shows "low_kept c (dev s) (dev t)"
proof -
  let ?p = "deref c s (block_ref k a)"
  have a: "a < 4100" and p: "?p \<noteq> 0" using x by (auto simp: file_block_def split: if_splits)
  have high: "22815 \<le> ?p" by (rule pointer_high [OF ok valid_block_ref [OF k a] p])
  show ?thesis
  proof (cases "a < 4")
    case True
    then show ?thesis
      using r high dev_read_low [OF _ d] by (auto simp: read_one_def run_simps block_ref_def)
  next
    case False
    let ?r = "(a - 4) div 1024" and ?j = "(a - 4) mod 1024"
    let ?ind = "o_indirect (objs s k) ! ?r"
    have a4: "4 \<le> a" using False by simp
    have r4: "?r < 4" using a a4 by (simp add: div_less_iff_less_mult)
    have leaf: "?p = deref c s (Leaf k ?r ?j)" using False by (simp add: block_ref_def)
    have ind: "?ind \<noteq> 0" using p leaf leaf_zero by metis
    have indhigh: "22815 \<le> ?ind" using pointer_high [OF ok, of "Ind k ?r"] ind k r4 by simp
    obtain ib where ib: "content c (dev s) ?ind = Some ib"
      using deref_content [OF ok, of "Ind k ?r"] ind k r4 by auto
    have entry: "?p = get_int ib ?j" using leaf ind ib by simp
    obtain ib' s1 where 1: "dev_read c ?ind s = Inr (ib', s1)"
      and 2: "\<exists>y t'. dev_read c (get_int ib' ?j) s1 = Inr (y, t') \<and> t = t'"
      using r False indirect_range_int(1,2) [OF a4 a] by (auto simp: read_one_def run_simps)
    have "ib' = ib"
      using dev_read_same [OF ok _ ib] indhigh 1 by auto
    then show ?thesis
      using two_steps_low [OF dev_read_low [OF 1 d indhigh] d(2)] 2 dev_read_low [of c _ s1]
        high entry by auto
  qed
qed

lemma read_loop_low:
  assumes "files_ok c s" and "k < n_inodes"
    and "\<And>i. i < n \<Longrightarrow> file_block c s k (a + i) \<noteq> None"
    and "dirty_high c (dev s)" "22815 \<le> nblocks (disk (dev s))"
    and "read_loop c (Some k) n (4096 * int a) acc s = Inr (out, t)"
  shows "low_kept c (dev s) (dev t)"
  using assms
proof (induction n arbitrary: a acc s)
  case 0
  then show ?case by (auto intro: low_kept_refl)
next
  case (Suc n)
  obtain x where x: "file_block c s k a = Some x" using Suc.prems(3) [of 0] by auto
  have a: "a < 4100" using x by (auto simp: file_block_def split: if_splits)
  obtain t1 where t1: "read_one c (Some k) (int a) s = Inr (Some x, t1)" "same_files c s t1"
    using read_one_ok [OF Suc.prems(1,2) x] by blast
  have low1: "low_kept c (dev s) (dev t1)"
    by (rule read_one_low [OF Suc.prems(1,2) x Suc.prems(4,5) t1(1)])
  have ok1: "files_ok c t1" using t1(2) by (simp add: same_files_def)
  have next_pos: "s32 (4096 * int a + 4096) = 4096 * int (Suc a)" using a by simp
  have rest: "read_loop c (Some k) n (4096 * int (Suc a)) (acc @ x) t1 = Inr (out, t)"
    using Suc.prems(6) t1(1) next_pos by simp
  have blocks: "file_block c t1 k (Suc a + i) \<noteq> None" if "i < n" for i
    using Suc.prems(3) [of "Suc i"] that t1(2) Suc.prems(2) by (simp add: same_files_def)
  note high1 = low_kept_high [OF low1 Suc.prems(5)]
  have "low_kept c (dev t1) (dev t)"
    using Suc.IH [OF ok1 Suc.prems(2) _ _ _ rest] blocks high1 by blast
  then show ?case using low_kept_trans low1 by blast
qed

lemma objstore_read_low:
  assumes ok: "files_ok c s" and k: "k < n_inodes" "live s k"
    and blocks: "\<And>i. i < (n + 4095) div 4096 \<Longrightarrow> file_block c s k (a + i) \<noteq> None"
    and a: "a < 4100"
    and d: "dirty_high c (dev s)" "22815 \<le> nblocks (disk (dev s))"
    and r: "objstore_read c (int k + 2) n (4096 * int a) s = Inr (m, out, t)"
  shows "low_kept c (dev s) (dev t)"
proof -
  have find: "find_target (int k + 2) False s = (Some k, s)"
    using find_target_live [OF files_okD(2) [OF ok] k] by simp
  have a32: "s32 (4096 * int a) = 4096 * int a" using a by simp
  obtain data where "read_loop c (Some k) ((n + 4095) div 4096) (4096 * int a) [] s = Inr (data, t)"
    using r find a32 by (auto simp: objstore_read_def run_simps add.commute [of 4095])
  with read_loop_low [OF ok k(1) blocks d] show ?thesis by blast
qed

section \<open>Staying in sync\<close>

lemma syncedD:
  assumes "synced c s"
  shows "22815 \<le> nblocks (disk (dev s))" and "table_ok (objs s)" and "dirty_high c (dev s)"
  using assms by (simp_all add: synced_def dirty_high_def)

lemma synced_step:
  assumes s: "synced c s" and low: "low_kept c (dev s) (dev t)" and tab: "table_ok (objs t)"
    and clean: "\<And>i. dirty_array t i = 0 \<Longrightarrow> dirty_array s i = 0"
    and same: "\<And>i m. dirty_array t i = 0 \<Longrightarrow> m < 46 \<Longrightarrow> objs t (46 * i + m) = objs s (46 * i + m)"
  shows "synced c t"
  unfolding synced_def
proof (intro conjI allI impI)
  fix i m :: nat
  assume i: "i < 22528" "dirty_array t i = 0" and m: "m < 46"
  have "dblock (disk (dev t)) (287 + i) = dblock (disk (dev s)) (287 + i)"
    using low i(1) by (simp add: low_kept_def)
  then show "decode_object (take 88 (drop (88 * m) (dblock (disk (dev t)) (287 + i)))) =
      objs t (46 * i + m)"
    using s clean [OF i(2)] same [OF i(2) m] i m by (simp add: synced_def)
qed (use s low tab in \<open>auto simp: synced_def low_kept_def dirty_high_def\<close>)

lemma table_ok_update:
  "table_ok os \<Longrightarrow> representable ob \<Longrightarrow> table_ok (os(k := ob))"
  by (simp add: table_ok_def)

lemma slot_of_table: "m < 46 \<Longrightarrow> (46 * i + m) div 46 = (i :: nat)"
  by (simp add: div_nat_eqI)

lemma synced_update:
  assumes s: "synced c s" and low: "low_kept c (dev s) (dev t)"
    and objs: "objs t = (objs s)(k := ob)" and ob: "representable ob"
    and dirty: "dirty_array t = (dirty_array s)(k div 46 := 1)"
  shows "synced c t"
proof (rule synced_step [OF s low])
  show "table_ok (objs t)" using table_ok_update [OF syncedD(2) [OF s] ob] objs by simp
  show "dirty_array s i = 0" if "dirty_array t i = 0" for i
    using that dirty by (simp split: if_splits)
  show "objs t (46 * i + m) = objs s (46 * i + m)" if "dirty_array t i = 0" "m < 46" for i m
    using that dirty objs slot_of_table [OF that(2), of i] by (auto split: if_splits)
qed

lemma synced_representable: "synced c s \<Longrightarrow> k < n_slots \<Longrightarrow> representable (objs s k)"
  using syncedD(2) by (auto simp: table_ok_def)

lemma representable_size:
  "representable ob \<Longrightarrow> fits64 n \<Longrightarrow> representable (ob\<lparr>o_size := n\<rparr>)"
  by (simp add: representable_def)

lemma representable_pointer:
  assumes "representable ob" and "fits32 b"
  shows "representable (ob\<lparr>o_direct := (o_direct ob)[i := b]\<rparr>)"
    and "representable (ob\<lparr>o_indirect := (o_indirect ob)[i := b]\<rparr>)"
  using assms
  by (auto simp: representable_def dest: subsetD [OF set_update_subset_insert])

lemma synced_created:
  assumes "synced c s" and "k < n_inodes" and "length b = 32"
  shows "synced c (created k b s)"
proof (rule synced_update [where k = k, OF assms(1)])
  show "objs (created k b s) = (objs s)(k := (objs s k)\<lparr>o_id := int k + 2, o_key := b\<rparr>)" by simp
  show "representable ((objs s k)\<lparr>o_id := int k + 2, o_key := b\<rparr>)"
    using synced_representable [OF assms(1), of k] assms(2,3)
    by (simp add: representable_def fits64_def)
qed (use low_kept_refl [OF syncedD(3) [OF assms(1)]] in simp_all)

lemma synced_renamed:
  assumes "synced c s" and "k < n_inodes" and "length b = 32"
  shows "synced c (renamed k b s)"
proof (rule synced_update [where k = k, OF assms(1)])
  show "objs (renamed k b s) = (objs s)(k := (objs s k)\<lparr>o_key := b\<rparr>)" by (simp add: renamed_def)
  show "representable ((objs s k)\<lparr>o_key := b\<rparr>)"
    using synced_representable [OF assms(1), of k] assms(2,3) by (simp add: representable_def)
qed (use low_kept_refl [OF syncedD(3) [OF assms(1)]] in \<open>simp_all add: renamed_def\<close>)

lemma synced_backup: "synced c s \<Longrightarrow> synced c (s\<lparr>backup := b\<rparr>)"
  by (simp add: synced_def)

lemma synced_dev:
  assumes "synced c s" and "low_kept c (dev s) d"
  shows "synced c (s\<lparr>dev := d\<rparr>)"
  by (rule synced_step [OF assms(1)]) (use assms syncedD in auto)

lemma write_meta_object:
  assumes s: "representable (objs s k)" and sz: "fits64 (o_size (objs s k) + sz)"
  shows "\<exists>ob. objs (write_meta k sz a s) = (objs s)(k := ob) \<and> representable ob \<and>
    o_size ob = o_size (objs s k) + sz"
    and "dirty_array (write_meta k sz a s) = (dirty_array s)(k div 46 := 1)"
proof -
  obtain b s1 where b: "free_data_block (mark_dirty k s) = (b, s1)" by fastforce
  let ?s2 = "obj_update k (\<lambda>t. t\<lparr>o_size := o_size t + sz\<rparr>) s1"
  obtain m s3 where m: "free_data_block ?s2 = (m, s3)" by fastforce
  note fr = free_data_block_frame [OF b] and fr2 = free_data_block_frame [OF m]
  have f32: "fits32 b" using fr(6,7) by (simp add: fits32_def)
  let ?ob0 = "(objs s k)\<lparr>o_size := o_size (objs s k) + sz\<rparr>"
  let ?R = "\<lambda>u. (\<exists>ob. objs u = (objs s)(k := ob) \<and> representable ob \<and>
      o_size ob = o_size (objs s k) + sz) \<and> dirty_array u = (dirty_array s)(k div 46 := 1)"
  have rep0: "representable ?ob0" by (rule representable_size [OF s sz])
  have "?R (write_meta k sz a s)"
  proof (cases "a \<le> 3")
    case True
    have "representable (?ob0\<lparr>o_direct := (o_direct (objs s k))[nat a := b]\<rparr>)"
      using representable_pointer(1) [OF rep0 f32] by simp
    moreover have "objs (write_meta k sz a s) =
        (objs s)(k := ?ob0\<lparr>o_direct := (o_direct (objs s k))[nat a := b]\<rparr>)"
      and "dirty_array (write_meta k sz a s) = (dirty_array s)(k div 46 := 1)"
      using True b fr(1,4) by (simp_all add: write_meta_def Let_def)
    ultimately show ?thesis by (metis (no_types, lifting) object.select_convs(2)
          object.surjective object.update_convs(2) object.update_convs(5))
  next
    case a: False
    show ?thesis
    proof (cases "\<exists>r. indirect_range a = Some (r, a)")
      case True
      then obtain r where r: "indirect_range a = Some (r, a)" by blast
      have "representable (?ob0\<lparr>o_indirect := (o_indirect (objs s k))[r := b]\<rparr>)"
        using representable_pointer(2) [OF rep0 f32] by simp
      moreover have "objs (write_meta k sz a s) =
          (objs s)(k := ?ob0\<lparr>o_indirect := (o_indirect (objs s k))[r := b]\<rparr>)"
        and "dirty_array (write_meta k sz a s) = (dirty_array s)(k div 46 := 1)"
        using a r b m fr(1,4) fr2(1,4) by (simp_all add: write_meta_def Let_def)
      ultimately show ?thesis by (intro conjI exI) (assumption | simp)+
    next
      case False
      then have "write_meta k sz a s = ?s2"
        using a b by (auto simp: write_meta_def Let_def split: option.splits)
      then show ?thesis using fr(1,4) rep0 by (intro conjI exI [of _ ?ob0]) simp_all
    qed
  qed
  then show "\<exists>ob. objs (write_meta k sz a s) = (objs s)(k := ob) \<and> representable ob \<and>
      o_size ob = o_size (objs s k) + sz"
    and "dirty_array (write_meta k sz a s) = (dirty_array s)(k div 46 := 1)"
    by blast+
qed

lemma synced_write:
  assumes s: "synced c s" and ok: "files_ok c s" and k: "k < n_inodes" "live s k"
    and room: "has_room s"
    and off: "0 \<le> offset" "offset div 4096 = int a" "a < 4100" and seq: "in_sequence s k a"
    and sz: "fits64 (o_size (objs s k) + int (length buff))"
    and w: "objstore_write c (int k + 2) buff offset s = Inr (n, t)"
  shows "synced c t"
proof -
  have find: "find_target (int k + 2) True s = (Some k, mark_dirty k s)"
    using find_target_live [OF files_okD(2) [OF ok] k] by simp
  obtain d where t: "t = (write_meta k (int (length buff)) (s32 (offset sdiv 4096)) s)\<lparr>dev := d\<rparr>"
    using objstore_write_meta [OF find w] by blast
  have "k < n_slots" using k(1) by simp
  from write_meta_object [OF synced_representable [OF s this] sz]
  obtain ob where ob: "objs (write_meta k (int (length buff)) (s32 (offset sdiv 4096)) s) = (objs s)(k := ob)"
      "representable ob"
    and dirty: "dirty_array (write_meta k (int (length buff)) (s32 (offset sdiv 4096)) s) =
      (dirty_array s)(k div 46 := 1)" by blast
  have "low_kept c (dev s) (dev t)"
    by (rule objstore_write_low [OF ok k room syncedD(3,1) [OF s] off seq w])
  then show ?thesis
    by (rule synced_update [OF s, where k = k and ob = ob]) (simp_all add: t ob dirty)
qed

end
