(* ===== verification/Unlink.thy ===== *)
theory Unlink
  imports Sync
begin

text \<open>
  Deletion, where it returns: \<open>destroy_object\<close> of \<open>assignment4/objstore.c\<close> empties the slot of
  the object it finds and flips bit \<open>n + 574\<close> of the data bitmap for each of its blocks \<open>n\<close>. When
  those bits are clear, so that only unused blocks become marked, when every index block is
  there and when the disk has it as the cache has it (\<open>destroy_object\<close> reads the index blocks
  with \<open>read_block\<close>, past the cache), the store stays sound and loses exactly that file; its
  blocks leak.
\<close>

section \<open>The references of an object\<close>

fun ref_slot :: "blkref \<Rightarrow> nat" where
  "ref_slot (Dir k i) = k"
| "ref_slot (Ind k r) = k"
| "ref_slot (Leaf k r j) = k"

text \<open>The pointers of the object in slot \<open>k\<close>, in the order in which they are released.\<close>

definition leaf_refs :: "nat \<Rightarrow> nat \<Rightarrow> blkref list" where
  "leaf_refs k r = map (Leaf k r) [0 ..< 1024]"

definition slot_refs :: "nat \<Rightarrow> blkref list" where
  "slot_refs k = map (Dir k) [0 ..< 4] @ concat (map (\<lambda>r. Ind k r # leaf_refs k r) [0 ..< 4])"

lemma set_slot_refs: "k < n_inodes \<Longrightarrow> set (slot_refs k) = {r. valid_ref r \<and> ref_slot r = k}"
proof (rule set_eqI)
  fix r assume "k < n_inodes"
  then show "r \<in> set (slot_refs k) \<longleftrightarrow> r \<in> {r. valid_ref r \<and> ref_slot r = k}"
    by (cases r) (auto simp: slot_refs_def leaf_refs_def image_iff)
qed

text \<open>
  When \<open>destroy_object\<close> can be run on slot \<open>k\<close>: four index blocks, on the disk as in the cache, and a
  clear bit 574 places after the bit of every block of the object.
\<close>

definition unlinkable :: "build \<Rightarrow> objstore \<Rightarrow> nat \<Rightarrow> bool" where
  "unlinkable c s k \<longleftrightarrow>
     (\<forall>i < 4. o_indirect (objs s k) ! i \<noteq> 0 \<and>
        disk_content (disk (dev s)) (o_indirect (objs s k) ! i) = content c (dev s) (o_indirect (objs s k) ! i)) \<and>
     (\<forall>r \<in> set (slot_refs k). deref c s r \<noteq> 0 \<longrightarrow>
        deref c s r - 22815 + 574 < int n_dblocks \<and>
        \<not> bit_set (data_bitmap s) (nat (deref c s r - 22815) + 574))"

text \<open>The blocks that a reference names: one, or none.\<close>

definition names :: "build \<Rightarrow> objstore \<Rightarrow> blkref \<Rightarrow> nat set" where
  "names c s r = {n. deref c s r = 22815 + int n}"

lemma names_disjoint:
  assumes "files_ok c s" and "valid_ref r" and "valid_ref r'" and "r \<noteq> r'"
  shows "names c s r \<inter> names c s r' = {}"
proof (rule ccontr)
  assume "names c s r \<inter> names c s r' \<noteq> {}"
  then have "deref c s r \<noteq> 0" and "deref c s r' = deref c s r" by (auto simp: names_def)
  then show False using refs_okD(3) [OF files_okD(3) [OF assms(1)] assms(2) _ assms(3)] assms(4) by auto
qed

section \<open>Releasing a block\<close>

text \<open>The block layer without its copy of block \<open>add\<close>.\<close>

definition dropped :: "int \<Rightarrow> bstate \<Rightarrow> bstate" where
  "dropped add d =
     (if cached_at d add
      then d\<lparr>cache_index := (cache_index d)(slot_of add := -1),
             cache_dirty := (cache_dirty d)(slot_of add := 0)\<rparr>
      else d)"

lemma drop_cached_eq: "0 \<le> add \<Longrightarrow> drop_cached add s = Inr (s\<lparr>dev := dropped add (dev s)\<rparr>)"
  by (simp add: drop_cached_def dropped_def cached_at_def slot_of_mod Let_def)

lemma dropped_disk [simp]: "disk (dropped add d) = disk d"
  by (simp add: dropped_def)

lemma dropped_io: "io_ok c d \<Longrightarrow> io_ok c (dropped add d)"
  by (auto simp: io_ok_def cache_ok_def dropped_def)

lemma dropped_high: "dirty_high c d \<Longrightarrow> dirty_high c (dropped add d)"
  by (auto simp: dirty_high_def dropped_def)

lemma dropped_content:
  assumes "0 \<le> b" and "b \<noteq> add"
  shows "content c (dropped add d) b = content c d b"
proof (cases "cached_at d add \<and> slot_of b = slot_of add")
  case True
  have "b div 32768 \<noteq> -1" using assms(1) pos_imp_zdiv_nonneg_iff [of 32768 b] by simp
  then have "\<not> cached_at (dropped add d) b" using True by (auto simp: cached_at_def dropped_def)
  moreover have "\<not> cached_at d b"
  proof
    assume "cached_at d b"
    then show False using cached_at_home [of d b] cached_at_home [of d add] True assms(2) by simp
  qed
  ultimately show ?thesis by (simp add: content_def)
next
  case False
  then show ?thesis by (auto simp: content_def cached_at_def dropped_def)
qed

text \<open>
  What a state \<open>t\<close> in the middle of a deletion has left of the state \<open>s\<close>, when the blocks \<open>P\<close> have been
  released.
\<close>

definition freed :: "build \<Rightarrow> objstore \<Rightarrow> nat set \<Rightarrow> objstore \<Rightarrow> bool" where
  "freed c s P t \<longleftrightarrow> same_table s t \<and> io_ok c (dev t) \<and> (dirty_high c (dev s) \<longrightarrow> dirty_high c (dev t)) \<and>
     (\<forall>b. 0 \<le> b \<longrightarrow> (\<forall>n \<in> P. b \<noteq> 22815 + int n) \<longrightarrow> content c (dev t) b = content c (dev s) b) \<and>
     (\<forall>m. bit_set (data_bitmap t) m \<longleftrightarrow> (\<exists>n \<in> P. m = n + 574) \<noteq> bit_set (data_bitmap s) m)"

lemma freed_start: "io_ok c (dev s) \<Longrightarrow> freed c s {} s"
  by (simp add: freed_def same_table_refl)

definition release :: "nat \<Rightarrow> objstore \<Rightarrow> objstore" where
  "release n s =
     s\<lparr>dev := dropped (22815 + int n) (dev s), data_bitmap := flip_bit_at (n + 574) (data_bitmap s)\<rparr>"

lemma freed_release:
  assumes "freed c s P t" and "n \<notin> P"
  shows "freed c s (P \<union> {n}) (release n t)"
  using assms dropped_io [of c "dev t"] dropped_high [of c "dev t"] dropped_content [of _ "22815 + int n" c "dev t"]
  by (auto simp: freed_def release_def same_table_def)

lemma release_direct:
  "n + 574 < n_dblocks \<Longrightarrow> o_direct (objs s k) ! i = 22815 + int n \<Longrightarrow> free_direct k i s = Inr (release n s)"
  using toggle_released_block [of n "s\<lparr>dev := dropped (22815 + int n) (dev s)\<rparr>"]
  by (simp add: free_direct_def drop_cached_eq release_def Let_def)

lemma release_leaf:
  "n + 574 < n_dblocks \<Longrightarrow> get_int b i = 22815 + int n \<Longrightarrow> free_leaf b i s = Inr (release n s)"
  using toggle_released_block [of n s] by (simp add: free_leaf_def drop_cached_eq release_def)

lemma release_indirect:
  assumes "n + 574 < n_dblocks" and "o_indirect (objs s k) ! i = 22815 + int n"
    and "disk_ok (disk (dev s))" and "disk_content (disk (dev s)) (22815 + int n) = Some ib"
  shows "free_indirect k i s = rfold (free_leaf ib) [0 ..< 1024] (release n s)"
proof -
  have "read_block (disk (dev s)) (22815 + int n) 0 zero_block = (0, ib)"
    using read_block_content [OF assms(3) page_aligned_0 assms(4)] .
  then have "free_indirect k i s = rfold (free_leaf ib) [0 ..< 1024]
      (s\<lparr>data_bitmap := flip_bit_at (n + 574) (data_bitmap s), dev := dropped (22815 + int n) (dev s)\<rparr>)"
    using toggle_released_block [OF assms(1), of s] assms(2)
    by (simp add: free_indirect_def drop_cached_eq Let_def)
  moreover have "s\<lparr>data_bitmap := flip_bit_at (n + 574) (data_bitmap s), dev := dropped (22815 + int n) (dev s)\<rparr> =
      release n s"
    by (simp add: release_def)
  ultimately show ?thesis by (simp only:)
qed

text \<open>A loop whose rounds release disjoint sets of blocks.\<close>

lemma rfold_freed:
  assumes "\<And>x P t. x \<in> set xs \<Longrightarrow> freed c s P t \<Longrightarrow> P \<inter> A x = {} \<Longrightarrow>
      \<exists>u. f x t = Inr u \<and> freed c s (P \<union> A x) u"
    and "distinct xs" and "\<And>x y. x \<in> set xs \<Longrightarrow> y \<in> set xs \<Longrightarrow> x \<noteq> y \<Longrightarrow> A x \<inter> A y = {}"
    and "freed c s P t" and "\<And>x. x \<in> set xs \<Longrightarrow> P \<inter> A x = {}"
  shows "\<exists>u. rfold f xs t = Inr u \<and> freed c s (P \<union> (\<Union>x \<in> set xs. A x)) u"
  using assms
proof (induction xs arbitrary: P t)
  case Nil
  then show ?case by simp
next
  case (Cons x xs)
  obtain u where u: "f x t = Inr u" "freed c s (P \<union> A x) u"
    using Cons.prems(1) [of x, OF _ Cons.prems(4)] Cons.prems(5) [of x] by auto
  have dis: "(P \<union> A x) \<inter> A y = {}" if "y \<in> set xs" for y
  proof -
    have "x \<noteq> y" using Cons.prems(2) that by auto
    then show ?thesis using Cons.prems(3) [of x y] Cons.prems(5) [of y] that by auto
  qed
  have "\<exists>v. rfold f xs u = Inr v \<and> freed c s (P \<union> A x \<union> (\<Union>x \<in> set xs. A x)) v"
    by (rule Cons.IH [OF _ _ _ u(2) dis]) (use Cons.prems(1-3) in \<open>auto\<close>)
  then show ?case using u(1) by (auto simp: Un_assoc)
qed

section \<open>The whole deletion\<close>

text \<open>The state once the object is found.\<close>

definition unlinking :: "nat \<Rightarrow> objstore \<Rightarrow> objstore" where
  "unlinking k s = obj_update k (\<lambda>target. target\<lparr>o_id := 0, o_size := 0\<rparr>)
     (mark_dirty k (s\<lparr>inode_bitmap := flip_bit_at k (inode_bitmap s)\<rparr>))"

lemma unlinking_simps [simp]:
  "dev (unlinking k s) = dev s" "data_bitmap (unlinking k s) = data_bitmap s"
  "inode_bitmap (unlinking k s) = flip_bit_at k (inode_bitmap s)"
  "objs (unlinking k s) = (objs s)(k := (objs s k)\<lparr>o_id := 0, o_size := 0\<rparr>)"
  "dirty_array (unlinking k s) = (dirty_array s)(k div 46 := 1)"
  by (simp_all add: unlinking_def)

lemma unlinkable_block:
  assumes "files_ok c s" and "k < n_inodes" and "unlinkable c s k"
    and "valid_ref r" and "ref_slot r = k" and "deref c s r \<noteq> 0"
  obtains n where "deref c s r = 22815 + int n" and "n + 574 < n_dblocks"
    and "\<not> bit_set (data_bitmap s) (n + 574)" and "names c s r = {n}"
proof -
  obtain n where n: "deref c s r = 22815 + int n"
    using refs_okD(1) [OF files_okD(3) [OF assms(1)] assms(4,6)] by blast
  have "r \<in> set (slot_refs k)" using set_slot_refs [OF assms(2)] assms(4,5) by simp
  then have "n + 574 < n_dblocks" and "\<not> bit_set (data_bitmap s) (n + 574)"
    using assms(3,6) n unfolding unlinkable_def by fastforce+
  then show ?thesis using that n by (simp add: names_def)
qed

lemma names_none: "deref c s r = 0 \<Longrightarrow> names c s r = {}"
  by (simp add: names_def)

lemma direct_step:
  assumes ok: "files_ok c s" and k: "k < n_inodes" and un: "unlinkable c s k"
    and i: "i < 4" and f: "freed c (unlinking k s) P t" and P: "P \<inter> names c s (Dir k i) = {}"
  shows "\<exists>u. free_direct k i t = Inr u \<and> freed c (unlinking k s) (P \<union> names c s (Dir k i)) u"
proof -
  have d: "o_direct (objs t k) ! i = deref c s (Dir k i)"
    using f by (simp add: freed_def same_table_def)
  show ?thesis
  proof (cases "deref c s (Dir k i) = 0")
    case True
    then show ?thesis using d f names_none by (simp add: free_direct_def)
  next
    case False
    obtain n where n: "deref c s (Dir k i) = 22815 + int n" "n + 574 < n_dblocks" "names c s (Dir k i) = {n}"
      by (rule unlinkable_block [OF ok k un _ _ False]) (use k i in auto)
    have "free_direct k i t = Inr (release n t)" by (rule release_direct [OF n(2)]) (simp only: d n(1))
    then show ?thesis using freed_release [OF f, of n] P n(3) by simp
  qed
qed

lemma leaf_step:
  assumes ok: "files_ok c s" and k: "k < n_inodes" and un: "unlinkable c s k" and r: "r < 4" and j: "j < 1024"
    and ib: "content c (dev s) (o_indirect (objs s k) ! r) = Some ib"
    and f: "freed c (unlinking k s) P t" and P: "P \<inter> names c s (Leaf k r j) = {}"
  shows "\<exists>u. free_leaf ib j t = Inr u \<and> freed c (unlinking k s) (P \<union> names c s (Leaf k r j)) u"
proof -
  have d: "deref c s (Leaf k r j) = get_int ib j" using un r ib by (simp add: unlinkable_def)
  show ?thesis
  proof (cases "get_int ib j = 0")
    case True
    then show ?thesis using d f names_none [of c s "Leaf k r j"] by (simp add: free_leaf_def)
  next
    case False
    then have nz: "deref c s (Leaf k r j) \<noteq> 0" unfolding d .
    obtain n where n: "deref c s (Leaf k r j) = 22815 + int n" "n + 574 < n_dblocks" "names c s (Leaf k r j) = {n}"
      by (rule unlinkable_block [OF ok k un _ _ nz]) (use k r j in auto)
    have "free_leaf ib j t = Inr (release n t)" by (rule release_leaf [OF n(2)]) (use d n(1) in simp)
    then show ?thesis using freed_release [OF f, of n] P n(3) by simp
  qed
qed

lemma indirect_step:
  assumes ok: "files_ok c s" and k: "k < n_inodes" and un: "unlinkable c s k" and r: "r < 4"
    and f: "freed c (unlinking k s) P t"
    and P: "P \<inter> (\<Union>x \<in> set (Ind k r # leaf_refs k r). names c s x) = {}"
  shows "\<exists>u. free_indirect k r t = Inr u \<and>
    freed c (unlinking k s) (P \<union> (\<Union>x \<in> set (Ind k r # leaf_refs k r). names c s x)) u"
proof -
  let ?a = "o_indirect (objs s k) ! r"
  have v: "valid_ref (Ind k r)" "ref_slot (Ind k r) = k" and nz: "deref c s (Ind k r) \<noteq> 0"
    using k r un by (simp_all add: unlinkable_def)
  obtain ib where ib: "content c (dev s) ?a = Some ib" using deref_content [OF ok v(1) nz] by auto
  obtain n where n: "deref c s (Ind k r) = 22815 + int n" "n + 574 < n_dblocks" "names c s (Ind k r) = {n}"
    by (rule unlinkable_block [OF ok k un v nz])
  have t: "o_indirect (objs t k) ! r = 22815 + int n" and disk: "disk (dev t) = disk (dev s)"
    using f n(1) by (simp_all add: freed_def same_table_def)
  have "disk_content (disk (dev s)) ?a = Some ib" using un r ib by (simp add: unlinkable_def)
  then have dc: "disk_content (disk (dev t)) (22815 + int n) = Some ib" using disk n(1) by simp
  have "disk_ok (disk (dev t))" using f by (simp add: freed_def io_ok_def)
  note run = release_indirect [OF n(2) t this dc]
  have f1: "freed c (unlinking k s) (P \<union> {n}) (release n t)"
    by (rule freed_release [OF f]) (use P n(3) in auto)
  have "\<exists>u. rfold (free_leaf ib) [0 ..< 1024] (release n t) = Inr u \<and>
      freed c (unlinking k s) (P \<union> {n} \<union> (\<Union>j \<in> set [0 ..< 1024]. names c s (Leaf k r j))) u"
  proof (rule rfold_freed [OF _ _ _ f1])
    show "\<exists>u. free_leaf ib j t' = Inr u \<and> freed c (unlinking k s) (P' \<union> names c s (Leaf k r j)) u"
      if "j \<in> set [0 ..< 1024]" "freed c (unlinking k s) P' t'" "P' \<inter> names c s (Leaf k r j) = {}" for j P' t'
      by (rule leaf_step [OF ok k un r _ ib that(2,3)]) (use that(1) in simp)
    show "names c s (Leaf k r i) \<inter> names c s (Leaf k r j) = {}"
      if "i \<in> set [0 ..< 1024]" "j \<in> set [0 ..< 1024]" "i \<noteq> j" for i j
      by (rule names_disjoint [OF ok]) (use that k r in auto)
    show "(P \<union> {n}) \<inter> names c s (Leaf k r j) = {}" if "j \<in> set [0 ..< 1024]" for j
    proof -
      have "names c s (Ind k r) \<inter> names c s (Leaf k r j) = {}"
        by (rule names_disjoint [OF ok]) (use that k r in auto)
      moreover have "P \<inter> names c s (Leaf k r j) = {}" using P that by (auto simp: leaf_refs_def)
      ultimately show ?thesis using n(3) by auto
    qed
  qed simp
  moreover have "(\<Union>x \<in> set (Ind k r # leaf_refs k r). names c s x) =
      {n} \<union> (\<Union>j \<in> set [0 ..< 1024]. names c s (Leaf k r j))"
    using n(3) by (simp add: leaf_refs_def)
  ultimately show ?thesis using run by (simp add: Un_assoc)
qed

text \<open>The blocks that the object in slot \<open>k\<close> holds.\<close>

definition held :: "build \<Rightarrow> objstore \<Rightarrow> nat \<Rightarrow> nat set" where
  "held c s k = (\<Union>r \<in> set (slot_refs k). names c s r)"

definition emptied :: "nat \<Rightarrow> objstore \<Rightarrow> objstore" where
  "emptied k s = obj_update k (\<lambda>target. target\<lparr>o_direct := [0, 0, 0, 0], o_indirect := [0, 0, 0, 0]\<rparr>) s"

lemma held_split:
  "held c s k = (\<Union>i \<in> set [0 ..< 4]. names c s (Dir k i)) \<union>
     (\<Union>r \<in> set [0 ..< 4]. \<Union>x \<in> set (Ind k r # leaf_refs k r). names c s x)"
  by (simp add: held_def slot_refs_def)

lemma range_refs: "x \<in> set (Ind k r # leaf_refs k r) \<longleftrightarrow> x = Ind k r \<or> (\<exists>j < 1024. x = Leaf k r j)"
  by (auto simp: leaf_refs_def)

lemma range_refs_valid:
  "x \<in> set (Ind k r # leaf_refs k r) \<Longrightarrow> k < n_inodes \<Longrightarrow> r < 4 \<Longrightarrow> valid_ref x"
  unfolding range_refs by auto

lemma range_refs_other:
  "x \<in> set (Ind k r # leaf_refs k r) \<Longrightarrow> y \<in> set (Ind k q # leaf_refs k q) \<Longrightarrow> r \<noteq> q \<Longrightarrow> x \<noteq> y"
  "x \<in> set (Ind k r # leaf_refs k r) \<Longrightarrow> Dir k i \<noteq> x"
  unfolding range_refs by auto

lemma names_sets_disjoint:
  assumes "files_ok c s" and "\<And>x. x \<in> X \<Longrightarrow> valid_ref x" and "\<And>y. y \<in> Y \<Longrightarrow> valid_ref y"
    and "\<And>x y. x \<in> X \<Longrightarrow> y \<in> Y \<Longrightarrow> x \<noteq> y"
  shows "(\<Union>x \<in> X. names c s x) \<inter> (\<Union>y \<in> Y. names c s y) = {}"
proof -
  have "names c s x \<inter> names c s y = {}" if "x \<in> X" "y \<in> Y" for x y
    by (rule names_disjoint [OF assms(1)]) (use assms(2-4) that in auto)
  then show ?thesis by blast
qed

lemma destroy_unlinkable:
  assumes ok: "files_ok c s" and scan: "scan (has_key s key) 0 n_inodes = Some k" and un: "unlinkable c s k"
  obtains u where "destroy_object key s = Inr (0, emptied k u)" and "freed c (unlinking k s) (held c s k) u"
proof -
  have k: "k < n_inodes" using scan by (simp add: scan_Some_iff)
  let ?s0 = "unlinking k s"
  let ?A = "\<lambda>r. \<Union>x \<in> set (Ind k r # leaf_refs k r). names c s x"
  let ?P = "\<Union>i \<in> set [0 ..< 4]. names c s (Dir k i)"
  have f0: "freed c ?s0 {} ?s0" by (rule freed_start) (use files_okD(1) [OF ok] in simp)
  have "\<exists>u. rfold (free_direct k) [0 ..< 4] ?s0 = Inr u \<and> freed c ?s0 ({} \<union> ?P) u"
  proof (rule rfold_freed [OF _ _ _ f0])
    show "\<exists>u. free_direct k i t = Inr u \<and> freed c ?s0 (P \<union> names c s (Dir k i)) u"
      if "i \<in> set [0 ..< 4]" "freed c ?s0 P t" "P \<inter> names c s (Dir k i) = {}" for i P t
      by (rule direct_step [OF ok k un _ that(2,3)]) (use that(1) in simp)
    show "names c s (Dir k i) \<inter> names c s (Dir k j) = {}"
      if "i \<in> set [0 ..< 4]" "j \<in> set [0 ..< 4]" "i \<noteq> j" for i j
      by (rule names_disjoint [OF ok]) (use that k in auto)
  qed simp_all
  then obtain u1 where u1: "rfold (free_direct k) [0 ..< 4] ?s0 = Inr u1" "freed c ?s0 ?P u1" by auto
  have "\<exists>u. rfold (free_indirect k) [0 ..< 4] u1 = Inr u \<and> freed c ?s0 (?P \<union> (\<Union>r \<in> set [0 ..< 4]. ?A r)) u"
  proof (rule rfold_freed [OF _ _ _ u1(2)])
    show "\<exists>u. free_indirect k r t = Inr u \<and> freed c ?s0 (P \<union> ?A r) u"
      if "r \<in> set [0 ..< 4]" "freed c ?s0 P t" "P \<inter> ?A r = {}" for r P t
      by (rule indirect_step [OF ok k un _ that(2,3)]) (use that(1) in simp)
    show "?A r \<inter> ?A q = {}" if "r \<in> set [0 ..< 4]" "q \<in> set [0 ..< 4]" "r \<noteq> q" for r q
      by (rule names_sets_disjoint [OF ok range_refs_valid [OF _ k] range_refs_valid [OF _ k] range_refs_other(1)])
        (assumption | use that in simp)+
    have "(\<Union>x \<in> Dir k ` {..< 4}. names c s x) \<inter> ?A r = {}" if "r < 4" for r
      by (rule names_sets_disjoint [OF ok _ range_refs_valid [OF _ k that]])
        (use k range_refs_other(2) in \<open>auto simp del: set_simps\<close>)
    moreover have "?P = (\<Union>x \<in> Dir k ` {..< 4}. names c s x)" by auto
    ultimately show "?P \<inter> ?A r = {}" if "r \<in> set [0 ..< 4]" for r
      using that by simp
  qed simp
  then obtain u2 where u2: "rfold (free_indirect k) [0 ..< 4] u1 = Inr u2" "freed c ?s0 (held c s k) u2"
    unfolding held_split by blast
  have "destroy_object key s = Inr (0, emptied k u2)"
    by (simp only: destroy_object_def scan option.case unlinking_def [symmetric] u1(1) u2(1) rbind_simps emptied_def)
  then show ?thesis using that u2(2) by blast
qed

lemma held_other:
  assumes "files_ok c s" and "k < n_inodes" and "valid_ref r" and "ref_slot r \<noteq> k" and "deref c s r \<noteq> 0"
  shows "\<forall>n \<in> held c s k. deref c s r \<noteq> 22815 + int n"
proof (intro ballI notI)
  fix n assume "n \<in> held c s k" and r: "deref c s r = 22815 + int n"
  then obtain r' where r': "r' \<in> set (slot_refs k)" "deref c s r' = 22815 + int n" by (auto simp: held_def names_def)
  then have "r' = r"
    using refs_okD(3) [OF files_okD(3) [OF assms(1)] assms(3,5)] r set_slot_refs [OF assms(2)] by auto
  then show False using r'(1) set_slot_refs [OF assms(2)] assms(4) by simp
qed

lemma held_clear:
  assumes "files_ok c s" and "k < n_inodes" and "unlinkable c s k" and "n \<in> held c s k"
  shows "\<not> bit_set (data_bitmap s) (n + 574)"
proof -
  obtain r where r: "r \<in> set (slot_refs k)" "deref c s r = 22815 + int n"
    using assms(4) by (auto simp: held_def names_def)
  then have "\<not> bit_set (data_bitmap s) (nat (deref c s r - 22815) + 574)"
    using assms(3) unfolding unlinkable_def by fastforce
  then show ?thesis by (simp add: r(2))
qed

text \<open>
  What the deletion leaves: the references of the other objects and what they lead to, and marks on the
  blocks 574 places after the released ones.
\<close>

lemma emptied_state:
  assumes ok: "files_ok c s" and k: "k < n_inodes" and un: "unlinkable c s k"
    and f: "freed c (unlinking k s) (held c s k) u"
  shows "inode_bitmap (emptied k u) = flip_bit_at k (inode_bitmap s)"
    and "objs (emptied k u) = (objs s)(k := (objs s k)\<lparr>o_id := 0, o_size := 0,
      o_direct := [0, 0, 0, 0], o_indirect := [0, 0, 0, 0]\<rparr>)"
    and "dirty_array (emptied k u) = (dirty_array s)(k div 46 := 1)"
    and "valid_ref r \<Longrightarrow> deref c (emptied k u) r = (if ref_slot r = k then 0 else deref c s r)"
    and "valid_ref r \<Longrightarrow> ref_slot r \<noteq> k \<Longrightarrow> deref c s r \<noteq> 0 \<Longrightarrow>
      content c (dev (emptied k u)) (deref c s r) = content c (dev s) (deref c s r)"
    and "bit_set (data_bitmap (emptied k u)) m \<longleftrightarrow> bit_set (data_bitmap s) m \<or> (\<exists>n \<in> held c s k. m = n + 574)"
proof -
  show 1: "inode_bitmap (emptied k u) = flip_bit_at k (inode_bitmap s)"
    and "dirty_array (emptied k u) = (dirty_array s)(k div 46 := 1)"
    using f by (simp_all add: freed_def same_table_def emptied_def)
  show 2: "objs (emptied k u) = (objs s)(k := (objs s k)\<lparr>o_id := 0, o_size := 0,
      o_direct := [0, 0, 0, 0], o_indirect := [0, 0, 0, 0]\<rparr>)"
    using f by (simp add: freed_def same_table_def emptied_def)
  show 3: "content c (dev (emptied k u)) (deref c s r) = content c (dev s) (deref c s r)"
    if "valid_ref r" "ref_slot r \<noteq> k" "deref c s r \<noteq> 0" for r
    using f deref_pos [OF ok that(1,3)] held_other [OF ok k that] by (simp add: freed_def emptied_def)
  show "deref c (emptied k u) r = (if ref_slot r = k then 0 else deref c s r)" if v: "valid_ref r"
  proof (cases r)
    case (Leaf k' i j)
    then show ?thesis using v 3 [of "Ind k' i"] by (auto simp: 2 Let_def nth_Cons split: nat.split)
  qed (use v in \<open>auto simp: 2 nth_Cons split: nat.split\<close>)
  show "bit_set (data_bitmap (emptied k u)) m \<longleftrightarrow> bit_set (data_bitmap s) m \<or> (\<exists>n \<in> held c s k. m = n + 574)"
    using f held_clear [OF ok k un] by (auto simp: freed_def emptied_def)
qed

lemma emptied_sound:
  assumes ok: "files_ok c s" and sy: "synced c s" and k: "k < n_inodes" and live: "live s k"
    and un: "unlinkable c s k" and f: "freed c (unlinking k s) (held c s k) u"
  shows "files_ok c (emptied k u)" and "synced c (emptied k u)"
    and "\<And>k' a. k' < n_inodes \<Longrightarrow> file_block c (emptied k u) k' a = (if k' = k then None else file_block c s k' a)"
proof -
  note e = emptied_state [OF ok k un f]
  let ?t = "emptied k u"
  have "refs_ok (deref c ?t) (data_bitmap ?t) (content c (dev ?t))"
    unfolding refs_ok_def
  proof (intro conjI allI impI)
    fix r assume r: "valid_ref r \<and> deref c ?t r \<noteq> 0"
    then have o: "ref_slot r \<noteq> k" "deref c ?t r = deref c s r" using e(4) [of r] by (auto split: if_splits)
    then show "\<exists>n < n_dblocks. deref c ?t r = 22815 + int n \<and> bit_set (data_bitmap ?t) n"
      using r refs_okD(1) [OF files_okD(3) [OF ok], of r] by (auto simp: e(6))
    show "content c (dev ?t) (deref c ?t r) \<noteq> None"
      using r o e(5) [of r] refs_okD(2) [OF files_okD(3) [OF ok], of r] by auto
  next
    fix r1 r2 assume r: "valid_ref r1 \<and> valid_ref r2 \<and> deref c ?t r1 \<noteq> 0 \<and> deref c ?t r1 = deref c ?t r2"
    then have d: "deref c s r1 = deref c s r2" "deref c s r2 \<noteq> 0" using e(4) [of r1] e(4) [of r2] by (auto split: if_splits)
    show "r1 = r2"
      by (rule refs_okD(3) [OF files_okD(3) [OF ok]]) (use r d in simp_all)
  qed
  moreover have "inodes_ok ?t"
    using files_okD(2) [OF ok] live by (auto simp: inodes_ok_def e(1,2) blank_def)
  moreover have "io_ok c (dev ?t)" using f by (simp add: freed_def emptied_def)
  ultimately show "files_ok c ?t" by (simp add: files_ok_def)
  show "file_block c ?t k' a = (if k' = k then None else file_block c s k' a)" if "k' < n_inodes" for k' a
  proof -
    have sl: "ref_slot (block_ref k' a) = k'" by (simp add: block_ref_def)
    have v: "valid_ref (block_ref k' a)" if "\<not> 4100 \<le> a" using valid_block_ref [OF \<open>k' < n_inodes\<close>] that by simp
    show ?thesis
      using e(4) [OF v] e(5) [OF v] by (auto simp: file_block_def sl)
  qed
  show "synced c ?t"
  proof (rule synced_update [OF sy _ e(2) _ e(3)])
    show "low_kept c (dev s) (dev ?t)"
      using f syncedD(3) [OF sy] by (simp add: freed_def same_table_def emptied_def low_kept_def)
    have "representable (objs s k)" by (rule synced_representable [OF sy]) (use k in simp)
    then show "representable ((objs s k)\<lparr>o_id := 0, o_size := 0, o_direct := [0, 0, 0, 0], o_indirect := [0, 0, 0, 0]\<rparr>)"
      by (simp add: representable_def fits32_def fits64_def)
  qed
qed

section \<open>Where the deletion leaves the bitmap\<close>

text \<open>
  A block number as it occurs in a sound store, or none. Its release returns, or the bit to flip is
  past the end of the bitmap; the release of an index block that is not there flips a bit before
  its start.
\<close>

definition block_or_none :: "int \<Rightarrow> bool" where
  "block_or_none p \<longleftrightarrow> p = 0 \<or> (\<exists>n. p = 22815 + int n)"

definition runs_or_leaves :: "objstore res \<Rightarrow> bool" where
  "runs_or_leaves r \<longleftrightarrow> r = Inl OutOfBounds \<or> (\<exists>t. r = Inr t)"

lemma toggle_runs: "0 \<le> p \<Longrightarrow> runs_or_leaves (toggle_data_bit p s)"
proof (cases "p < int n_dblocks")
  case False
  then have "262144 \<le> p sdiv 32" by simp
  then show ?thesis by (simp add: toggle_data_bit_def Let_def runs_or_leaves_def)
qed (simp add: toggle_data_bit_nonneg runs_or_leaves_def)

lemma free_direct_runs:
  assumes "block_or_none (o_direct (objs s k) ! i)"
  shows "runs_or_leaves (free_direct k i s)"
proof (cases "o_direct (objs s k) ! i = 0")
  case False
  then show ?thesis
    using assms toggle_runs [of "o_direct (objs s k) ! i - 22528 + 287"]
    by (auto simp: block_or_none_def free_direct_def drop_cached_eq Let_def)
qed (simp add: free_direct_def runs_or_leaves_def)

lemma free_leaf_runs:
  assumes "block_or_none (get_int b i)"
  shows "runs_or_leaves (free_leaf b i s)"
proof (cases "get_int b i = 0")
  case False
  then obtain n where n: "get_int b i = 22815 + int n" using assms by (auto simp: block_or_none_def)
  then have "runs_or_leaves (toggle_data_bit (get_int b i - 22528 + 287) s)" by (intro toggle_runs) simp
  then show ?thesis using n by (auto simp: free_leaf_def runs_or_leaves_def drop_cached_eq)
qed (simp add: free_leaf_def runs_or_leaves_def)

lemma rfold_runs:
  assumes "\<And>x t. x \<in> set xs \<Longrightarrow> same_table s t \<Longrightarrow> runs_or_leaves (f x t)"
    and "\<And>x s t. f x s = Inr t \<Longrightarrow> same_table s t" and "same_table s t"
  shows "runs_or_leaves (rfold f xs t)"
  using assms
proof (induction xs arbitrary: t)
  case Nil
  then show ?case by (simp add: runs_or_leaves_def)
next
  case (Cons x xs)
  from Cons.prems(1) [of x, OF _ Cons.prems(3)] consider "f x t = Inl OutOfBounds" | u where "f x t = Inr u"
    by (auto simp: runs_or_leaves_def)
  then show ?case
  proof cases
    case 1
    then show ?thesis by (simp add: runs_or_leaves_def)
  next
    case 2
    then have "same_table s u" using Cons.prems(2,3) same_table_trans by blast
    then show ?thesis using Cons.IH Cons.prems(1,2) 2 by simp
  qed
qed

lemma free_indirect_runs:
  assumes p: "o_indirect (objs s k) ! i = 22815 + int n" and d: "disk_ok (disk (dev s))"
    and ib: "disk_content (disk (dev s)) (22815 + int n) = Some ib"
    and leaves: "\<And>j. j < 1024 \<Longrightarrow> block_or_none (get_int ib j)"
  shows "runs_or_leaves (free_indirect k i s)"
proof (cases "n + 574 < n_dblocks")
  case True
  have "runs_or_leaves (rfold (free_leaf ib) [0 ..< 1024] (release n s))"
    by (rule rfold_runs [OF free_leaf_runs [OF leaves] free_leaf_same_table same_table_refl]) simp_all
  then show ?thesis by (simp only: release_indirect [OF True p d ib])
next
  case False
  have "toggle_data_bit (22815 + int n - 22528 + 287) s = Inl OutOfBounds"
    using False toggle_runs [of "22815 + int n - 22528 + 287" s]
    by (auto simp: toggle_data_bit_def Let_def)
  then show ?thesis using p by (simp add: free_indirect_def runs_or_leaves_def)
qed

lemma free_indirect_unused: "o_indirect (objs s k) ! i = 0 \<Longrightarrow> free_indirect k i s = Inl OutOfBounds"
  by (simp add: free_indirect_def toggle_zero_pointer [simplified])

lemma destroy_unused:
  assumes ok: "files_ok c s" and scan: "scan (has_key s key) 0 n_inodes = Some k"
    and i: "i < 4" "o_indirect (objs s k) ! i = 0"
    and disk: "\<And>j. j < i \<Longrightarrow> disk_content (disk (dev s)) (o_indirect (objs s k) ! j) =
      content c (dev s) (o_indirect (objs s k) ! j)"
  shows "destroy_object key s = Inl OutOfBounds"
proof -
  have k: "k < n_inodes" using scan by (simp add: scan_Some_iff)
  let ?s0 = "unlinking k s"
  have ref: "block_or_none (deref c s r)" if "valid_ref r" for r
    using refs_okD(1) [OF files_okD(3) [OF ok] that] by (auto simp: block_or_none_def)
  have direct: "runs_or_leaves (rfold (free_direct k) [0 ..< 4] ?s0)"
  proof (rule rfold_runs [OF free_direct_runs free_direct_same_table same_table_refl])
    fix j t assume "j \<in> set [0 ..< 4]" and "same_table ?s0 t"
    then show "block_or_none (o_direct (objs t k) ! j)"
      using ref [of "Dir k j"] k by (simp add: same_table_def)
  qed
  have indirect: "rfold (free_indirect k) [0 ..< 4] t = Inl OutOfBounds" if t: "same_table ?s0 t" for t
  proof -
    have zero: "free_indirect k i u = Inl OutOfBounds" if "same_table ?s0 u" for u
      by (rule free_indirect_unused) (use that i in \<open>simp add: same_table_def\<close>)
    have "runs_or_leaves (rfold (free_indirect k) [0 ..< i] t)"
    proof (rule rfold_runs [OF _ free_indirect_same_table t])
      fix j u assume "j \<in> set [0 ..< i]" and u: "same_table ?s0 u"
      then have j: "j < i" by simp
      have p: "o_indirect (objs u k) ! j = deref c s (Ind k j)" and du: "disk (dev u) = disk (dev s)"
        using u by (simp_all add: same_table_def)
      show "runs_or_leaves (free_indirect k j u)"
      proof (cases "deref c s (Ind k j) = 0")
        case True
        then show ?thesis using p free_indirect_unused by (simp add: runs_or_leaves_def)
      next
        case False
        have v: "valid_ref (Ind k j)" using k i j by simp
        obtain n where n: "deref c s (Ind k j) = 22815 + int n" using ref [OF v] False by (auto simp: block_or_none_def)
        obtain ib where ib: "content c (dev s) (deref c s (Ind k j)) = Some ib"
          using deref_content [OF ok v False] by blast
        show ?thesis
        proof (rule free_indirect_runs)
          show "o_indirect (objs u k) ! j = 22815 + int n" using p n by simp
          show "disk_ok (disk (dev u))" using files_okD(1) [OF ok] du by (simp add: io_ok_def)
          show "disk_content (disk (dev u)) (22815 + int n) = Some ib"
            using disk [OF j] ib n du by simp
          show "block_or_none (get_int ib m)" if "m < 1024" for m
            using ref [of "Leaf k j m"] False ib k i j that by simp
        qed
      qed
    qed
    then consider "rfold (free_indirect k) [0 ..< i] t = Inl OutOfBounds"
      | u where "rfold (free_indirect k) [0 ..< i] t = Inr u" by (auto simp: runs_or_leaves_def)
    then have "rfold (free_indirect k) ([0 ..< i] @ i # [Suc i ..< 4]) t = Inl OutOfBounds"
    proof cases
      case 2
      then have "same_table ?s0 u" using free_loops_same_table(2) t same_table_trans by blast
      then show ?thesis using 2 zero by (simp add: rfold_append)
    qed (simp add: rfold_append)
    moreover have "[0 ..< i] @ i # [Suc i ..< 4] = [0 ..< 4]"
      using i(1) upt_add_eq_append [of 0 i "4 - i"] upt_conv_Cons [of i 4] by simp
    ultimately show ?thesis by (simp only:)
  qed
  from direct consider "rfold (free_direct k) [0 ..< 4] ?s0 = Inl OutOfBounds"
    | t where "rfold (free_direct k) [0 ..< 4] ?s0 = Inr t" by (auto simp: runs_or_leaves_def)
  then show ?thesis
  proof cases
    case 1
    then show ?thesis
      by (simp only: destroy_object_def scan option.case unlinking_def [symmetric] rbind_simps)
  next
    case 2
    note ind = indirect [OF free_loops_same_table(1) [OF 2]]
    show ?thesis
      by (simp only: destroy_object_def scan option.case unlinking_def [symmetric] 2 ind rbind_simps)
  qed
qed

end
