(* ===== verification/Store_Refinement.thy ===== *)
theory Store_Refinement
  imports Unlink
begin

text \<open>
  The contract of the object store: an abstract file system (for every slot a key, a length
  and the blocks written), requests on it, and the proof that the FUSE callbacks of
  \<open>assignment4/objfs.c\<close>, over the operations of \<open>assignment4/objstore.c\<close> and in both builds,
  implement it step by step, an unmount followed by a mount included. The callback \<open>rename\<close> is
  not part of the contract: \<open>rename_object\<close> counts with a variable it never initialises, so
  that no call of it has a defined outcome.
\<close>

section \<open>The abstract file system\<close>

record afs =
  a_key :: "nat \<Rightarrow> string option"
  a_len :: "nat \<Rightarrow> int"
  a_blk :: "nat \<Rightarrow> nat \<Rightarrow> block option"

definition abs_fs :: "build \<Rightarrow> objstore \<Rightarrow> afs" where
  "abs_fs c s =
     \<lparr>a_key = (\<lambda>k. if k < n_inodes \<and> live s k then Some (cstr (o_key (objs s k))) else None),
      a_len = (\<lambda>k. if k < n_inodes then o_size (objs s k) else 0),
      a_blk = (\<lambda>k a. if k < n_inodes then file_block c s k a else None)\<rparr>"

text \<open>
  The calls that a file system gets. Objects are named by their slot once they are open: the
  handle of slot \<open>k\<close> is \<open>k + 2\<close>. A \<open>Getattr\<close> carries the environment in which it is made, the
  default attributes and the owner of the process.
\<close>

datatype request =
    Create string
  | Open string
  | Getattr fs_env string
  | Write nat nat "byte list"
  | Read nat nat nat
  | Unlink string
  | Remount

text \<open>The value returned, with the handle, the attributes or the bytes handed back.\<close>

datatype reply =
    Code int
  | Handle int "int option"
  | Attr int "stat option"
  | Data int "byte list"

text \<open>What a request does abstractly.\<close>

definition owned :: "fs_env \<Rightarrow> stat \<Rightarrow> stat" where
  "owned env st = st\<lparr>st_uid := uid env, st_gid := gid env\<rparr>"

definition file_attr :: "fs_env \<Rightarrow> nat \<Rightarrow> int \<Rightarrow> stat" where
  "file_attr env k n = owned env ((def_fstat env)\<lparr>st_ino := int k + 2, st_size := n, st_blocks := (n + 511) div 512\<rparr>)"

definition slot_of_key :: "afs \<Rightarrow> string \<Rightarrow> nat option" where
  "slot_of_key A key = scan (\<lambda>k. a_key A k = Some key) 0 n_inodes"

fun spec_step :: "request \<Rightarrow> afs \<Rightarrow> reply \<times> afs" where
  "spec_step (Create key) A =
     (case scan (\<lambda>k. a_key A k = None) 0 n_inodes of
        None \<Rightarrow> (Handle (- EEXIST) None, A)
      | Some k \<Rightarrow> (Handle 0 (Some (int k + 2)), A\<lparr>a_key := (a_key A)(k := Some key)\<rparr>))"
| "spec_step (Open key) A =
     (case slot_of_key A key of
        None \<Rightarrow> Handle (- ENOENT) None
      | Some k \<Rightarrow> Handle 0 (Some (int k + 2)), A)"
| "spec_step (Getattr env key) A =
     (if key = [] then Attr 0 (Some (owned env ((def_dirstat env)\<lparr>st_ino := 1\<rparr>)))
      else (case slot_of_key A key of
              None \<Rightarrow> Attr (- ENOENT) None
            | Some k \<Rightarrow> Attr 0 (Some (file_attr env k (a_len A k)))), A)"
| "spec_step (Write k a buff) A =
     (Code (int (length buff)),
      A\<lparr>a_len := (a_len A)(k := a_len A k + int (length buff)),
        a_blk := (a_blk A)(k := (a_blk A k)(a := Some (block_of buff)))\<rparr>)"
| "spec_step (Read k a n) A =
     (Data (int n) (take n (concat (map (\<lambda>i. the (a_blk A k (a + i))) [0 ..< (n + 4095) div 4096]))), A)"
| "spec_step (Unlink key) A =
     (Code 0,
      (case slot_of_key A key of
         None \<Rightarrow> A
       | Some k \<Rightarrow> A\<lparr>a_key := (a_key A)(k := None), a_len := (a_len A)(k := 0),
                     a_blk := (a_blk A)(k := (\<lambda>_. None))\<rparr>))"
| "spec_step Remount A = (Code 0, A)"

text \<open>What it does in the code: the callback, on the path that FUSE hands over.\<close>

abbreviation path_of :: "string \<Rightarrow> string" where
  "path_of key \<equiv> CHR 0x2F # key"

fun code_step :: "build \<Rightarrow> request \<Rightarrow> objstore \<Rightarrow> (reply \<times> objstore) res" where
  "code_step c (Create key) s = rbind (objfs_create (path_of key) s) (\<lambda>(r, h, t). Inr (Handle r h, t))"
| "code_step c (Open key) s = (case objfs_open (path_of key) s of (r, h, t) \<Rightarrow> Inr (Handle r h, t))"
| "code_step c (Getattr env key) s = (case objfs_getattr env (path_of key) s of (r, st, t) \<Rightarrow> Inr (Attr r st, t))"
| "code_step c (Write k a buff) s =
     rbind (objfs_write c (int k + 2) buff (4096 * int a) s) (\<lambda>(r, t). Inr (Code r, t))"
| "code_step c (Read k a n) s =
     rbind (objfs_read c (int k + 2) n (4096 * int a) s) (\<lambda>(r, data, t). Inr (Data r data, t))"
| "code_step c (Unlink key) s = rbind (objfs_unlink (path_of key) s) (\<lambda>(r, t). Inr (Code r, t))"
| "code_step c Remount s = Inr (Code 0, objfs_init (objfs_destroy s))"

text \<open>
  The requests the code serves: keys that fit the buffer; writes to a live object, with room on
  the disk, at a place that sequential writing reaches; reads of blocks that were written, not of
  holes; lengths that the type \<open>int\<close> holds; and the deletion of an object with four index blocks
  whose release marks only free blocks (\<open>unlinkable\<close>).
\<close>

definition key_ok :: "string \<Rightarrow> bool" where
  "key_ok key \<longleftrightarrow> length key < 32 \<and> CHR 0x00 \<notin> set key"

fun served :: "build \<Rightarrow> request \<Rightarrow> objstore \<Rightarrow> bool" where
  "served c (Create key) s \<longleftrightarrow> key_ok key"
| "served c (Open key) s \<longleftrightarrow> True"
| "served c (Getattr env key) s \<longleftrightarrow> True"
| "served c (Write k a buff) s \<longleftrightarrow> k < n_inodes \<and> live s k \<and> a < 4100 \<and> buff \<noteq> [] \<and>
     length buff < 2 ^ 31 \<and> has_room s \<and> in_sequence s k a \<and> fits64 (o_size (objs s k) + int (length buff))"
| "served c (Read k a n) s \<longleftrightarrow> k < n_inodes \<and> live s k \<and> a < 4100 \<and> n < 2 ^ 31 \<and>
     (\<forall>i < (n + 4095) div 4096. file_block c s k (a + i) \<noteq> None)"
| "served c (Unlink key) s \<longleftrightarrow>
     (case scan (has_key s key) 0 n_inodes of None \<Rightarrow> False | Some k \<Rightarrow> unlinkable c s k)"
| "served c Remount s \<longleftrightarrow> True"

definition fs_inv :: "build \<Rightarrow> objstore \<Rightarrow> bool" where
  "fs_inv c s \<longleftrightarrow> files_ok c s \<and> synced c s"

section \<open>Table operations and the invariant\<close>

lemma files_ok_table:
  assumes "files_ok c s" and "inodes_ok t" and "dev t = dev s" and "data_bitmap t = data_bitmap s"
    and "\<And>k. o_direct (objs t k) = o_direct (objs s k)"
    and "\<And>k. o_indirect (objs t k) = o_indirect (objs s k)"
  shows "files_ok c t" and "file_block c t = file_block c s"
proof -
  have "deref c t = deref c s" by (rule deref_frame) (use assms in simp_all)
  then show "files_ok c t" and "file_block c t = file_block c s"
    using assms(1-4) by (simp_all add: files_ok_def file_block_def [abs_def] cong: if_cong)
qed

lemma created_fs:
  assumes "fs_inv c s" and "k < n_inodes" and "length b = 32" and "CHR 0x00 \<in> set b"
  shows "fs_inv c (created k b s)"
    and "abs_fs c (created k b s) = (abs_fs c s)\<lparr>a_key := (a_key (abs_fs c s))(k := Some (cstr b))\<rparr>"
proof -
  have f: "files_ok c s" using assms(1) by (simp add: fs_inv_def)
  have io: "inodes_ok (created k b s)"
    using created_inodes_ok [OF files_okD(2) [OF f] assms(2-4)] .
  note t = files_ok_table [OF f io]
  have "files_ok c (created k b s)" and fb: "file_block c (created k b s) = file_block c s"
    by (rule t; simp)+
  then show "fs_inv c (created k b s)"
    using synced_created assms by (simp add: fs_inv_def)
  show "abs_fs c (created k b s) = (abs_fs c s)\<lparr>a_key := (a_key (abs_fs c s))(k := Some (cstr b))\<rparr>"
    using assms(2) by (auto simp: abs_fs_def fb fun_eq_iff)
qed

lemma renamed_simps [simp]:
  "inode_bitmap (renamed k b s) = inode_bitmap s"
  "objs (renamed k b s) = (objs s)(k := (objs s k)\<lparr>o_key := b\<rparr>)"
  "dev (renamed k b s) = dev s"
  "data_bitmap (renamed k b s) = data_bitmap s"
  by (simp_all add: renamed_def)

lemma renamed_fs:
  assumes "fs_inv c s" and "k < n_inodes" and "live s k" and "length b = 32" and "CHR 0x00 \<in> set b"
  shows "fs_inv c (renamed k b s)"
    and "abs_fs c (renamed k b s) = (abs_fs c s)\<lparr>a_key := (a_key (abs_fs c s))(k := Some (cstr b))\<rparr>"
proof -
  have f: "files_ok c s" using assms(1) by (simp add: fs_inv_def)
  have io: "inodes_ok (renamed k b s)"
    using files_okD(2) [OF f] assms(2-5) by (auto simp: inodes_ok_def blank_def)
  note t = files_ok_table [OF f io]
  have "files_ok c (renamed k b s)" and fb: "file_block c (renamed k b s) = file_block c s"
    by (rule t; simp)+
  then show "fs_inv c (renamed k b s)"
    using synced_renamed assms by (simp add: fs_inv_def)
  show "abs_fs c (renamed k b s) = (abs_fs c s)\<lparr>a_key := (a_key (abs_fs c s))(k := Some (cstr b))\<rparr>"
    using assms(2,3) by (auto simp: abs_fs_def fb fun_eq_iff)
qed

lemma backup_fs: "fs_inv c s \<Longrightarrow> fs_inv c (s\<lparr>backup := b\<rparr>) \<and> abs_fs c (s\<lparr>backup := b\<rparr>) = abs_fs c s"
proof
  assume inv: "fs_inv c s"
  then have f: "files_ok c s" by (simp add: fs_inv_def)
  have io: "inodes_ok (s\<lparr>backup := b\<rparr>)" using files_okD(2) [OF f] by (simp add: inodes_ok_def)
  note t = files_ok_table [OF f io]
  have "files_ok c (s\<lparr>backup := b\<rparr>)" and fb: "file_block c (s\<lparr>backup := b\<rparr>) = file_block c s"
    by (rule t; simp)+
  then show "fs_inv c (s\<lparr>backup := b\<rparr>)" and "abs_fs c (s\<lparr>backup := b\<rparr>) = abs_fs c s"
    using synced_backup inv by (simp_all add: fs_inv_def abs_fs_def fb cong: if_cong)
qed

lemma a_key_abs:
  assumes "files_ok c s"
  shows "a_key (abs_fs c s) k = Some key \<longleftrightarrow> k \<in> slots_with s key"
    and "k < n_inodes \<Longrightarrow> a_key (abs_fs c s) k = None \<longleftrightarrow> \<not> live s k"
  using has_key_iff [OF files_okD(2) [OF assms]] by (auto simp: abs_fs_def slots_with_def)

section \<open>Each operation implements its abstract step\<close>

definition implements :: "build \<Rightarrow> request \<Rightarrow> objstore \<Rightarrow> bool" where
  "implements c r s \<longleftrightarrow> (\<exists>t. code_step c r s = Inr (fst (spec_step r (abs_fs c s)), t) \<and>
     fs_inv c t \<and> abs_fs c t = snd (spec_step r (abs_fs c s)))"

lemma create_implements:
  assumes inv: "fs_inv c s" and key: "key_ok key"
  shows "implements c (Create key) s"
proof -
  have f: "files_ok c s" using inv by (simp add: fs_inv_def)
  show ?thesis
  proof (cases "scan (\<lambda>k. a_key (abs_fs c s) k = None) 0 n_inodes")
    case None
    then have "\<forall>k < n_inodes. live s k" using a_key_abs(2) [OF f] by (auto simp: scan_None_iff)
    then show ?thesis
      using create_object_full None inv by (simp add: implements_def objfs_create_def)
  next
    case (Some k)
    then have kn: "k < n_inodes" and none: "a_key (abs_fs c s) k = None"
        "\<forall>j < k. a_key (abs_fs c s) j \<noteq> None"
      by (auto simp: scan_Some_iff)
    have "live s j" if "j < k" for j
      using none(2) that kn a_key_abs(2) [OF f, of j] by auto
    then have k: "k < n_inodes" "\<not> live s k" "\<forall>j < k. live s j"
      using kn none(1) a_key_abs(2) [OF f kn] by auto
    obtain b where "create_object key s = Inr (int k + 2, created k b s)" "cstr b = key"
        "length b = 32" "CHR 0x00 \<in> set b"
      using create_object_at [OF files_okD(2) [OF f] k] key by (auto simp: key_ok_def)
    then show ?thesis
      using created_fs [OF inv k(1)] Some by (simp add: implements_def objfs_create_def path_key_def)
  qed
qed

text \<open>A key is found in the code where it is found abstractly.\<close>

lemma slot_of_key_scan:
  assumes "files_ok c s"
  shows "slot_of_key (abs_fs c s) key = scan (has_key s key) 0 n_inodes"
proof -
  have iff: "a_key (abs_fs c s) k = Some key \<longleftrightarrow> has_key s key k" if "k < n_inodes" for k
    using a_key_abs(1) [OF assms] that by (simp add: slots_with_def)
  show ?thesis
  proof (cases "scan (has_key s key) 0 n_inodes")
    case None
    then have "scan (\<lambda>k. a_key (abs_fs c s) k = Some key) 0 n_inodes = None"
      using iff by (simp add: scan_None_iff)
    then show ?thesis using None by (simp add: slot_of_key_def)
  next
    case (Some k)
    then have "scan (\<lambda>k. a_key (abs_fs c s) k = Some key) 0 n_inodes = Some k"
      using iff by (intro scan_SomeI) (auto simp: scan_Some_iff)
    then show ?thesis using Some by (simp add: slot_of_key_def)
  qed
qed

lemma slot_of_key_cases:
  assumes "files_ok c s"
  obtains (missing) "slot_of_key (abs_fs c s) key = None" "slots_with s key = {}"
  | (found) k where "slot_of_key (abs_fs c s) key = Some k" "k < n_inodes" "k \<in> slots_with s key"
      "\<And>j. j \<in> slots_with s key \<Longrightarrow> k \<le> j"
proof (cases "scan (has_key s key) 0 n_inodes")
  case None
  then show ?thesis
    using missing slot_of_key_scan [OF assms] by (auto simp: scan_None_iff slots_with_def)
next
  case (Some k)
  then have "k < n_inodes" "k \<in> slots_with s key" "\<And>j. j \<in> slots_with s key \<Longrightarrow> k \<le> j"
    by (auto simp: scan_Some_iff slots_with_def not_le [symmetric])
  then show ?thesis using found slot_of_key_scan [OF assms] Some by simp
qed

lemma open_implements:
  assumes inv: "fs_inv c s"
  shows "implements c (Open key) s"
proof -
  have f: "files_ok c s" using inv by (simp add: fs_inv_def)
  from f show ?thesis
  proof (cases rule: slot_of_key_cases [where key = key])
    case missing
    then show ?thesis
      using find_object_id_missing inv by (simp add: implements_def objfs_open_def path_key_def Let_def)
  next
    case (found k)
    then show ?thesis
      using open_found [OF files_okD(2) [OF f] found(3,4)] backup_fs [OF inv] by (simp add: implements_def)
  qed
qed

lemma getattr_implements:
  assumes inv: "fs_inv c s"
  shows "implements c (Getattr env key) s"
proof (cases "key = []")
  case True
  then show ?thesis using inv by (simp add: implements_def objfs_getattr_def owned_def Let_def)
next
  case key: False
  have f: "files_ok c s" using inv by (simp add: fs_inv_def)
  from f show ?thesis
  proof (cases rule: slot_of_key_cases [where key = key])
    case missing
    then show ?thesis using getattr_missing [OF missing(2) refl key] inv key by (simp add: implements_def)
  next
    case (found k)
    have "a_len (abs_fs c s) k = o_size (objs s k)" using found(2) by (simp add: abs_fs_def)
    then show ?thesis
      using getattr_found [OF files_okD(2) [OF f] found(3,4) refl key] backup_fs [OF inv] found(1) key
      by (simp add: implements_def file_attr_def owned_def)
  qed
qed

lemma unlink_implements:
  assumes inv: "fs_inv c s" and sv: "served c (Unlink key) s"
  shows "implements c (Unlink key) s"
proof -
  have f: "files_ok c s" and sy: "synced c s" using inv by (simp_all add: fs_inv_def)
  obtain k where scan: "scan (has_key s key) 0 n_inodes = Some k" and un: "unlinkable c s k"
    using sv by (auto split: option.splits)
  then have k: "k < n_inodes" "live s k" by (simp_all add: scan_Some_iff has_key_def)
  obtain u where d: "destroy_object key s = Inr (0, emptied k u)" and fr: "freed c (unlinking k s) (held c s k) u"
    by (rule destroy_unlinkable [OF f scan un])
  note e = emptied_state [OF f k(1) un fr] and snd = emptied_sound [OF f sy k un fr]
  have "fs_inv c (emptied k u)" using snd(1,2) by (simp add: fs_inv_def)
  moreover have "abs_fs c (emptied k u) = snd (spec_step (Unlink key) (abs_fs c s))"
    using slot_of_key_scan [OF f, of key] scan k snd(3)
    by (auto simp: abs_fs_def e(1,2) fun_eq_iff)
  ultimately show ?thesis using d by (simp add: implements_def objfs_unlink_def path_key_def)
qed

lemma write_post_abs:
  assumes post: "write_post c s t k a x" and k: "k < n_inodes"
    and sz: "o_size (objs t k) = o_size (objs s k) + n"
  shows "abs_fs c t = (abs_fs c s)\<lparr>a_len := (a_len (abs_fs c s))(k := a_len (abs_fs c s) k + n),
    a_blk := (a_blk (abs_fs c s))(k := (a_blk (abs_fs c s) k)(a := Some x))\<rparr>"
proof -
  have dir: "inode_bitmap t = inode_bitmap s" "\<And>k'. o_key (objs t k') = o_key (objs s k')"
      "\<And>k'. k' \<noteq> k \<Longrightarrow> objs t k' = objs s k'"
    and blk: "file_block c t k a = Some x"
      "\<And>k' a'. k' < n_inodes \<Longrightarrow> (k', a') \<noteq> (k, a) \<Longrightarrow> file_block c t k' a' = file_block c s k' a'"
    using post by (auto simp: write_post_def)
  have "a_blk (abs_fs c t) = (a_blk (abs_fs c s))(k := (a_blk (abs_fs c s) k)(a := Some x))"
    using blk k by (auto simp: abs_fs_def fun_eq_iff)
  moreover have "a_len (abs_fs c t) = (a_len (abs_fs c s))(k := a_len (abs_fs c s) k + n)"
    using dir(3) sz k by (auto simp: abs_fs_def fun_eq_iff)
  moreover have "a_key (abs_fs c t) = a_key (abs_fs c s)"
    by (simp add: abs_fs_def dir cong: if_cong)
  ultimately show ?thesis by simp
qed

lemma write_implements:
  assumes inv: "fs_inv c s" and w: "served c (Write k a buff) s"
  shows "implements c (Write k a buff) s"
proof -
  have f: "files_ok c s" and sy: "synced c s" using inv by (simp_all add: fs_inv_def)
  have w': "k < n_inodes" "live s k" "a < 4100" "buff \<noteq> []" "has_room s" "in_sequence s k a"
      "fits64 (o_size (objs s k) + int (length buff))" "length buff < 2 ^ 31"
    using w by simp_all
  have off: "0 \<le> 4096 * int a" "4096 * int a div 4096 = int a" by simp_all
  obtain t where t: "objstore_write c (int k + 2) buff (4096 * int a) s = Inr (int (length buff), t)"
    and post: "write_post c s t k a (block_of buff)"
    and sz: "o_size (objs t k) = o_size (objs s k) + int (length buff)"
    using objstore_write_correct [OF f w'(1,2,5,4) off w'(3,6)] by blast
  have "synced c t" by (rule synced_write [OF sy f w'(1,2,5) off w'(3,6,7) t])
  moreover have "files_ok c t" using post by (simp add: write_post_def)
  moreover have "s32 (int (length buff)) = int (length buff)" and "s32 (int k + 2) = int k + 2"
    using w'(1,8) by simp_all
  ultimately show ?thesis
    using t write_post_abs [OF post w'(1) sz] by (simp add: implements_def fs_inv_def objfs_write_def Let_def)
qed

lemma same_files_abs: "same_files c s t \<Longrightarrow> abs_fs c t = abs_fs c s"
  by (auto simp: same_files_def abs_fs_def fun_eq_iff)

lemma read_implements:
  assumes inv: "fs_inv c s" and r: "served c (Read k a n) s"
  shows "implements c (Read k a n) s"
proof -
  have f: "files_ok c s" and sy: "synced c s" using inv by (simp_all add: fs_inv_def)
  have r': "k < n_inodes" "live s k" "a < 4100"
      "\<And>i. i < (n + 4095) div 4096 \<Longrightarrow> file_block c s k (a + i) \<noteq> None" "n < 2 ^ 31"
    using r by simp_all
  obtain t where t: "objstore_read c (int k + 2) n (4096 * int a) s =
      Inr (int n, take n (concat (map (\<lambda>i. the (file_block c s k (a + i)))
        [0 ..< (n + 4095) div 4096])), t)" and same: "same_files c s t"
    using objstore_read_correct [OF f r'(1,2,4,3)] by blast
  have "low_kept c (dev s) (dev t)"
    by (rule objstore_read_low [OF f r'(1,2,4,3) syncedD(3,1) [OF sy] t])
  then have "synced c t" using same synced_dev [OF sy] by (auto simp: same_files_def)
  moreover have "files_ok c t" using same by (simp add: same_files_def)
  moreover have "a_blk (abs_fs c s) k = file_block c s k" using r'(1) by (simp add: abs_fs_def)
  moreover have "s32 (int n) = int n" and "s32 (int k + 2) = int k + 2" using r'(1,5) by simp_all
  ultimately show ?thesis
    using t same_files_abs [OF same] by (simp add: implements_def fs_inv_def objfs_read_def Let_def)
qed


text \<open>A fresh mount of what an unmount wrote is in sync again: nothing is dirty.\<close>

lemma objstore_init_load:
  "i < 22528 \<Longrightarrow> m < 46 \<Longrightarrow>
   objs (objstore_init d) (46 * i + m) = decode_object (take 88 (drop (88 * m) (table_temp d i)))"
  by (simp add: objstore_init_def load_object_def slot_of_table)

lemma remount_synced:
  assumes ok: "files_ok c s" and sy: "synced c s"
  shows "synced c (objstore_init (objstore_destroy s))"
proof -
  let ?d = "objstore_destroy s"
  let ?t = "objstore_init ?d"
  note io = files_okD(1) [OF ok]
  have disk: "disk (dev ?t) = ?d" and clean: "cache_dirty (dev ?t) = (\<lambda>_. 0)"
    by (simp_all add: objstore_init_def fresh_cache_def)
  have dd: "disk_content ?d b \<noteq> None" if "0 \<le> b" "b < 22815" for b
  proof (cases "b \<in> fst ` set (all_writes s)")
    case True
    then show ?thesis using objstore_destroy_disk(2) [OF sy io] by fastforce
  next
    case False
    have "disk_content (disk (dev s)) b = Some (dblock (disk (dev s)) (nat b))"
      using that syncedD(1) [OF sy] by (simp add: disk_content_def)
    then show ?thesis using objstore_destroy_disk(3) [OF sy io False] by simp
  qed
  have n: "22815 \<le> nblocks ?d"
    using dd [of 22814] by (auto simp: disk_content_def split: if_splits)
  have temp: "table_temp ?d i = dblock ?d (287 + i)" if "i < 22528" for i
    using that n table_temp_content [OF objstore_destroy_disk(1) [OF sy io], of i]
    by (simp add: disk_content_def nat_add_distrib)
  have "objs ?t k = objs s k" if "k < 1036288" for k
    by (rule remount_objs [OF sy io that])
  moreover have "objs ?t k = zero_object" if "\<not> k < 1036288" for k
    using that by (auto simp: objstore_init_def load_object_def div_less_iff_less_mult)
  moreover have "representable zero_object"
    by (simp add: representable_def zero_object_def fits32_def fits64_def)
  ultimately have tab: "table_ok (objs ?t)"
    using syncedD(2) [OF sy] unfolding table_ok_def by metis
  show ?thesis
    unfolding synced_def disk clean
    using n tab objstore_init_load temp by auto
qed

lemma remount_implements:
  assumes inv: "fs_inv c s"
  shows "implements c Remount s"
proof -
  have f: "files_ok c s" and sy: "synced c s" using inv by (simp_all add: fs_inv_def)
  note r = remount_files [OF f sy]
  have "abs_fs c (objstore_init (objstore_destroy s)) = abs_fs c s"
    using r(2,3) by (auto simp: abs_fs_def fun_eq_iff)
  then show ?thesis
    using r(1) remount_synced [OF f sy]
    by (simp add: implements_def fs_inv_def objfs_init_def objfs_destroy_def)
qed

lemma served_implements:
  assumes "fs_inv c s" and "served c r s"
  shows "implements c r s"
proof (cases r)
  case (Create key)
  then show ?thesis using assms create_implements by simp
next
  case (Open key)
  then show ?thesis using assms open_implements by simp
next
  case (Getattr env key)
  then show ?thesis using assms getattr_implements by simp
next
  case (Write k a buff)
  then show ?thesis using assms write_implements by blast
next
  case (Read k a n)
  then show ?thesis using assms read_implements by blast
next
  case (Unlink key)
  then show ?thesis using assms unlink_implements by blast
next
  case Remount
  then show ?thesis using assms remount_implements by simp
qed

section \<open>Sequences of requests\<close>

fun spec_run :: "request list \<Rightarrow> afs \<Rightarrow> reply list \<times> afs" where
  "spec_run [] A = ([], A)"
| "spec_run (r # rs) A =
     (case spec_step r A of (o1, A1) \<Rightarrow> case spec_run rs A1 of (os, A2) \<Rightarrow> (o1 # os, A2))"

fun code_run :: "build \<Rightarrow> request list \<Rightarrow> objstore \<Rightarrow> (reply list \<times> objstore) res" where
  "code_run c [] s = Inr ([], s)"
| "code_run c (r # rs) s =
     rbind (code_step c r s) (\<lambda>(o1, s1). rbind (code_run c rs s1) (\<lambda>(os, s2). Inr (o1 # os, s2)))"

text \<open>Every request of the sequence is served when its turn comes.\<close>

fun all_served :: "build \<Rightarrow> request list \<Rightarrow> objstore \<Rightarrow> bool" where
  "all_served c [] s \<longleftrightarrow> True"
| "all_served c (r # rs) s \<longleftrightarrow> served c r s \<and>
     (case code_step c r s of Inl e \<Rightarrow> False | Inr (o1, t) \<Rightarrow> all_served c rs t)"

lemma code_run_refines:
  assumes "fs_inv c s" and "all_served c rs s"
  shows "\<exists>t. code_run c rs s = Inr (fst (spec_run rs (abs_fs c s)), t) \<and> fs_inv c t \<and>
    abs_fs c t = snd (spec_run rs (abs_fs c s))"
  using assms
proof (induction rs arbitrary: s)
  case Nil
  then show ?case by simp
next
  case (Cons r rs)
  obtain t where t: "code_step c r s = Inr (fst (spec_step r (abs_fs c s)), t)" "fs_inv c t"
      "abs_fs c t = snd (spec_step r (abs_fs c s))"
    using served_implements [OF Cons.prems(1)] Cons.prems(2) by (auto simp: implements_def)
  have "all_served c rs t" using Cons.prems(2) t(1) by simp
  from Cons.IH [OF t(2) this] t show ?case by (auto split: prod.splits)
qed

section \<open>The two builds\<close>

text \<open>
  Where blocks go depends on the data bitmap and the references only, never on the block layer,
  so the two builds allocate and release alike.
\<close>

definition places :: "build \<Rightarrow> objstore \<Rightarrow> bitmap \<times> (blkref \<Rightarrow> int)" where
  "places c s = (data_bitmap s, \<lambda>r. if valid_ref r then deref c s r else 0)"

lemma places_eq:
  "places c s = places c' u \<longleftrightarrow> data_bitmap s = data_bitmap u \<and> (\<forall>r. valid_ref r \<longrightarrow> deref c s r = deref c' u r)"
  by (auto simp: places_def fun_eq_iff)

lemma table_places:
  "dev t = dev s \<Longrightarrow> data_bitmap t = data_bitmap s \<Longrightarrow> (\<And>k. o_direct (objs t k) = o_direct (objs s k)) \<Longrightarrow>
   (\<And>k. o_indirect (objs t k) = o_indirect (objs s k)) \<Longrightarrow> places c t = places c s"
  using deref_frame [of t s c] by (simp add: places_def cong: if_cong)

lemma find_object_id_places:
  "find_object_id key s = (r, t) \<Longrightarrow> places c t = places c s"
  by (rule table_places) (auto simp: find_object_id_def split: option.splits)

lemma code_step_places:
  assumes inv: "fs_inv c s" and sv: "served c r s" and run: "code_step c r s = Inr (out, t)"
    and r: "(\<exists>key. r = Create key) \<or> (\<exists>key. r = Open key) \<or> (\<exists>env key. r = Getattr env key) \<or> (\<exists>k a n. r = Read k a n)"
  shows "places c t = places c s"
  using r
proof (elim disjE exE)
  fix key assume "r = Create key"
  then show ?thesis
    using run by (intro table_places)
      (auto simp: objfs_create_def create_object_def create_loop_scan run_simps split: option.splits if_splits)
next
  fix key assume "r = Open key"
  then have "t = snd (find_object_id key s)"
    using run by (auto simp: objfs_open_def path_key_def Let_def split: prod.splits if_splits)
  then show ?thesis using find_object_id_places [of key s] by (metis prod.collapse)
next
  fix env key assume "r = Getattr env key"
  then have "t = s \<or> t = snd (find_object_id key s)"
    using run by (auto simp: objfs_getattr_def path_key_def Let_def split: prod.splits if_splits)
  then show ?thesis using find_object_id_places [of key s] by (metis prod.collapse)
next
  fix k a n assume r: "r = Read k a n"
  have f: "files_ok c s" using inv by (simp add: fs_inv_def)
  have v: "k < n_inodes" "live s k" "a < 4100"
      "\<And>i. i < (n + 4095) div 4096 \<Longrightarrow> file_block c s k (a + i) \<noteq> None"
    using sv r by simp_all
  obtain m data where "objstore_read c (int k + 2) n (4096 * int a) s = Inr (m, data, t)"
    using run r v(1) by (auto simp: run_simps objfs_read_def)
  moreover obtain data' t' where "objstore_read c (int k + 2) n (4096 * int a) s = Inr (int n, data', t')"
      "same_files c s t'"
    using objstore_read_correct [OF f v(1,2,4,3)] by blast
  ultimately show ?thesis by (auto simp: same_files_def places_def)
qed

lemma free_data_block_alloc:
  "data_bitmap s = data_bitmap u \<Longrightarrow> fst (free_data_block s) = fst (free_data_block u) \<and>
   data_bitmap (snd (free_data_block s)) = data_bitmap (snd (free_data_block u))"
  by (auto simp: free_data_block_def split: option.splits)

lemma write_meta_bitmap:
  assumes "data_bitmap s = data_bitmap u"
  shows "data_bitmap (write_meta k n a s) = data_bitmap (write_meta k n a u)"
proof -
  obtain b s1 where s1: "free_data_block (mark_dirty k s) = (b, s1)" by fastforce
  obtain b' u1 where u1: "free_data_block (mark_dirty k u) = (b', u1)" by fastforce
  let ?f = "obj_update k (\<lambda>t. t\<lparr>o_size := o_size t + n\<rparr>)"
  obtain m s3 where s3: "free_data_block (?f s1) = (m, s3)" by fastforce
  obtain m' u3 where u3: "free_data_block (?f u1) = (m', u3)" by fastforce
  have 1: "data_bitmap s1 = data_bitmap u1"
    using free_data_block_alloc [of "mark_dirty k s" "mark_dirty k u"] assms s1 u1 by simp
  have 3: "data_bitmap s3 = data_bitmap u3"
    using free_data_block_alloc [of "?f s1" "?f u1"] 1 s3 u3 by simp
  show ?thesis
    using s1 u1 s3 u3 1 3 by (cases "indirect_range a") (auto simp: write_meta_def Let_def)
qed

lemma write_places:
  assumes "fs_inv c s" and "served c (Write k a buff) s"
    and "code_step c (Write k a buff) s = Inr (out, t)"
  shows "data_bitmap t = data_bitmap (write_meta k (int (length buff)) (s32 (4096 * int a sdiv 4096)) s)"
    and "valid_ref r \<Longrightarrow> deref c t r = written_ref k a (fst (free_data_block s))
      (fst (free_data_block (snd (free_data_block s)))) (deref c s) r"
proof -
  have f: "files_ok c s" using assms(1) by (simp add: fs_inv_def)
  have w: "k < n_inodes" "live s k" "a < 4100" "buff \<noteq> []" "has_room s" "in_sequence s k a"
    using assms(2) by simp_all
  have find: "find_target (int k + 2) True s = (Some k, mark_dirty k s)"
    using find_target_live [OF files_okD(2) [OF f]] w(1,2) by simp
  obtain n where n: "objstore_write c (int k + 2) buff (4096 * int a) s = Inr (n, t)"
    using assms(3) w(1) by (auto simp: run_simps objfs_write_def)
  from objstore_write_meta [OF find n]
  show "data_bitmap t = data_bitmap (write_meta k (int (length buff)) (s32 (4096 * int a sdiv 4096)) s)" by auto
  have "0 \<le> 4096 * int a" "4096 * int a div 4096 = int a" by simp_all
  from objstore_write_refs [OF f w(1,2,5,4) this w(3,6)] n
  show "valid_ref r \<Longrightarrow> deref c t r = written_ref k a (fst (free_data_block s))
      (fst (free_data_block (snd (free_data_block s)))) (deref c s) r" by auto
qed

lemma written_ref_cong:
  "(\<And>r. valid_ref r \<Longrightarrow> D r = D' r) \<Longrightarrow> valid_ref r \<Longrightarrow> written_ref k a b1 b2 D r = written_ref k a b1 b2 D' r"
  by (simp add: written_ref_def)

lemma remount_places:
  assumes "fs_inv c s"
  shows "places c (objstore_init (objstore_destroy s)) =
    (\<lambda>w. if w < 262144 then data_bitmap s w else 0, \<lambda>r. if valid_ref r then deref c s r else 0)"
proof -
  have f: "files_ok c s" and sy: "synced c s" using assms by (simp_all add: fs_inv_def)
  have "data_bitmap (objstore_init (objstore_destroy s)) w = 0" if "\<not> w < 262144" for w
    using that by (auto simp: objstore_init_def load_bitmap_def div_less_iff_less_mult)
  then show ?thesis
    using remount_data_bitmap [OF sy files_okD(1) [OF f]] remount_files(4) [OF f sy]
    by (auto simp: places_def fun_eq_iff)
qed

lemma unlink_places:
  assumes "fs_inv c s" and "served c (Unlink key) s" and "code_step c (Unlink key) s = Inr (out, t)"
  obtains k where "slot_of_key (abs_fs c s) key = Some k" and "k < n_inodes"
    and "\<And>m. bit_set (data_bitmap t) m \<longleftrightarrow> bit_set (data_bitmap s) m \<or> (\<exists>n \<in> held c s k. m = n + 574)"
    and "\<And>r. valid_ref r \<Longrightarrow> deref c t r = (if ref_slot r = k then 0 else deref c s r)"
proof -
  have f: "files_ok c s" using assms(1) by (simp add: fs_inv_def)
  obtain k where scan: "scan (has_key s key) 0 n_inodes = Some k" and un: "unlinkable c s k"
    using assms(2) by (auto split: option.splits)
  then have k: "k < n_inodes" by (simp add: scan_Some_iff)
  obtain u where d: "destroy_object key s = Inr (0, emptied k u)" and fr: "freed c (unlinking k s) (held c s k) u"
    by (rule destroy_unlinkable [OF f scan un])
  have t: "t = emptied k u" using assms(3) d by (simp add: objfs_unlink_def path_key_def)
  show ?thesis
    using that [of k] slot_of_key_scan [OF f, of key] scan k emptied_state(4,6) [OF f k un fr] t by simp
qed

lemma held_cong:
  assumes "k < n_inodes" and "\<And>r. valid_ref r \<Longrightarrow> deref c s r = deref c' u r"
  shows "held c s k = held c' u k"
  using assms by (auto simp: held_def names_def set_slot_refs)

lemma bitmap_eqI:
  assumes "\<And>m. bit_set B m \<longleftrightarrow> bit_set B' m"
  shows "B = B'"
proof (rule ext, rule bit_word_eqI)
  fix w n assume "n < LENGTH(32)"
  then have n: "n < 32" by simp
  define q where "q = 31 - n"
  have "q < 32" and "31 - q = n" using n by (simp_all add: q_def)
  then have "bit (B w) n \<longleftrightarrow> bit_set B (32 * w + q)" and "bit (B' w) n \<longleftrightarrow> bit_set B' (32 * w + q)"
    by (simp_all add: bit_set_iff)
  then show "bit (B w) n \<longleftrightarrow> bit (B' w) n" using assms by simp
qed

definition builds_agree :: "objstore \<Rightarrow> objstore \<Rightarrow> bool" where
  "builds_agree s u \<longleftrightarrow> fs_inv Plain s \<and> fs_inv Cached u \<and>
     abs_fs Plain s = abs_fs Cached u \<and> places Plain s = places Cached u"

lemma builds_agree_served:
  assumes "builds_agree s u" and "served Plain r s" and "\<And>key. r \<noteq> Unlink key"
  shows "served Cached r u"
proof -
  have A: "abs_fs Plain s = abs_fs Cached u" and V: "places Plain s = places Cached u"
    and f: "files_ok Plain s" "files_ok Cached u"
    using assms(1) by (simp_all add: builds_agree_def fs_inv_def)
  have live: "live s k = live u k" if "k < n_inodes" for k
    using a_key_abs(2) [OF f(1) that] a_key_abs(2) [OF f(2) that] A by simp
  have blk: "file_block Plain s k = file_block Cached u k"
    and size: "o_size (objs s k) = o_size (objs u k)" if "k < n_inodes" for k
    using arg_cong [OF A, of "\<lambda>A. a_blk A k"] arg_cong [OF A, of "\<lambda>A. a_len A k"] that
    by (simp_all add: abs_fs_def)
  have bm: "data_bitmap s = data_bitmap u" using V by (simp add: places_eq)
  have ind: "o_indirect (objs s k) ! i = o_indirect (objs u k) ! i" if "k < n_inodes" "i < 4" for k i
    using V that unfolding places_eq by (metis deref.simps(2) valid_ref.simps(2))
  show ?thesis
  proof (cases r)
    case (Write k a buff)
    have "in_sequence s k a = in_sequence u k a" if "k < n_inodes" "a < 4100"
      using ind [OF that(1), of "(a - 4) div 1024"] that(2) by (auto simp: in_sequence_def)
    then show ?thesis
      using Write assms(2) live [of k] size [of k] by (simp add: has_room_def bm)
  next
    case (Read k a n)
    then show ?thesis using assms(2) live [of k] blk [of k] by simp
  qed (use assms(2,3) in simp_all)
qed

lemma builds_agree_step:
  assumes ag: "builds_agree s u" and sv: "served Plain r s" and sv': "served Cached r u"
  shows "\<exists>out t v. code_step Plain r s = Inr (out, t) \<and> code_step Cached r u = Inr (out, v) \<and>
    builds_agree t v"
proof -
  have inv: "fs_inv Plain s" "fs_inv Cached u" and A: "abs_fs Plain s = abs_fs Cached u"
    and V: "places Plain s = places Cached u"
    using ag by (simp_all add: builds_agree_def)
  have bm: "data_bitmap s = data_bitmap u" and D: "\<And>r. valid_ref r \<Longrightarrow> deref Plain s r = deref Cached u r"
    using V by (simp_all add: places_eq)
  obtain t where t: "code_step Plain r s = Inr (fst (spec_step r (abs_fs Plain s)), t)"
      "fs_inv Plain t" "abs_fs Plain t = snd (spec_step r (abs_fs Plain s))"
    using served_implements [OF inv(1) sv] by (auto simp: implements_def)
  obtain v where v: "code_step Cached r u = Inr (fst (spec_step r (abs_fs Cached u)), v)"
      "fs_inv Cached v" "abs_fs Cached v = snd (spec_step r (abs_fs Cached u))"
    using served_implements [OF inv(2) sv'] by (auto simp: implements_def)
  have "places Plain t = places Cached v"
  proof (cases r)
    case (Write k a buff)
    note wt = write_places [OF inv(1) sv [unfolded Write] t(1) [unfolded Write]]
    note wv = write_places [OF inv(2) sv' [unfolded Write] v(1) [unfolded Write]]
    have "fst (free_data_block s) = fst (free_data_block u)"
      and "data_bitmap (snd (free_data_block s)) = data_bitmap (snd (free_data_block u))"
      using free_data_block_alloc [OF bm] by simp_all
    moreover from this(2) have "fst (free_data_block (snd (free_data_block s))) =
        fst (free_data_block (snd (free_data_block u)))"
      using free_data_block_alloc by blast
    ultimately show ?thesis
      using write_meta_bitmap [OF bm] written_ref_cong [OF D] wt wv by (simp add: places_eq)
  next
    case Remount
    then show ?thesis
      using remount_places [OF inv(1)] remount_places [OF inv(2)] t(1) v(1) bm D
      by (auto simp: objfs_init_def objfs_destroy_def fun_eq_iff)
  next
    case (Unlink key)
    obtain k where k: "slot_of_key (abs_fs Plain s) key = Some k" "k < n_inodes"
      and bt: "\<And>m. bit_set (data_bitmap t) m \<longleftrightarrow> bit_set (data_bitmap s) m \<or> (\<exists>n \<in> held Plain s k. m = n + 574)"
      and dt: "\<And>r. valid_ref r \<Longrightarrow> deref Plain t r = (if ref_slot r = k then 0 else deref Plain s r)"
      using unlink_places [OF inv(1) sv [unfolded Unlink] t(1) [unfolded Unlink]] by metis
    obtain k' where k': "slot_of_key (abs_fs Cached u) key = Some k'"
      and bv: "\<And>m. bit_set (data_bitmap v) m \<longleftrightarrow> bit_set (data_bitmap u) m \<or> (\<exists>n \<in> held Cached u k'. m = n + 574)"
      and dv: "\<And>r. valid_ref r \<Longrightarrow> deref Cached v r = (if ref_slot r = k' then 0 else deref Cached u r)"
      using unlink_places [OF inv(2) sv' [unfolded Unlink] v(1) [unfolded Unlink]] by metis
    have "k' = k" using k(1) k' A by simp
    then have "data_bitmap t = data_bitmap v"
      using held_cong [OF k(2) D] bm by (intro bitmap_eqI) (simp add: bt bv)
    then show ?thesis using dt dv D \<open>k' = k\<close> by (simp add: places_eq)
  qed (use code_step_places [OF inv(1) sv t(1)] code_step_places [OF inv(2) sv' v(1)] V in auto)
  then show ?thesis using t v A by (auto simp: builds_agree_def)
qed

text \<open>
  Only a deletion asks more of the build with the cache: the index blocks must have reached the disk.
\<close>

lemma builds_agree_run:
  assumes "builds_agree s u" and "all_served Plain rs s"
    and "all_served Cached rs u \<or> (\<forall>key. Unlink key \<notin> set rs)"
  shows "\<exists>out t v. code_run Plain rs s = Inr (out, t) \<and> code_run Cached rs u = Inr (out, v) \<and>
    builds_agree t v"
  using assms
proof (induction rs arbitrary: s u)
  case Nil
  then show ?case by simp
next
  case (Cons r rs)
  have sv: "served Plain r s" using Cons.prems(2) by simp
  have "served Cached r u"
    using Cons.prems(3) builds_agree_served [OF Cons.prems(1) sv] by auto
  then obtain out t v where 1: "code_step Plain r s = Inr (out, t)" "code_step Cached r u = Inr (out, v)"
      "builds_agree t v"
    using builds_agree_step [OF Cons.prems(1) sv] by blast
  have "all_served Plain rs t" and "all_served Cached rs v \<or> (\<forall>key. Unlink key \<notin> set rs)"
    using Cons.prems(2,3) 1(1,2) by auto
  from Cons.IH [OF 1(3) this] 1 show ?case by auto
qed

end
