(* ===== verification/Store_Properties.thy ===== *)
theory Store_Properties
  imports Store_Refinement
begin

text \<open>
  The properties of the object store of \<open>assignment4\<close> and, for each, a concrete store at
  which its hypotheses hold: an empty disk of 22820 blocks with one empty object, key
  \<open>a\<close>, in slot 0; and the same disk with four empty index blocks in that object.
\<close>

section \<open>A concrete store\<close>

definition ex_disk :: disk where
  "ex_disk = \<lparr>nblocks = 22820, dblock = (\<lambda>_. zero_block), bad = (\<lambda>_. False)\<rparr>"

definition ex_empty :: objstore where
  "ex_empty = \<lparr>dev = fresh_cache ex_disk, inode_bitmap = (\<lambda>_. 0), data_bitmap = (\<lambda>_. 0),
     dirty_array = (\<lambda>_. 0), objs = (\<lambda>_. zero_object), backup = None\<rparr>"

definition ex_key :: "char list" where
  "ex_key = ''a'' @ replicate 31 (CHR 0x00)"

definition ex_store :: objstore where
  "ex_store = created 0 ex_key ex_empty"

definition ex_env :: fs_env where
  "ex_env = (let st = \<lparr>st_ino = 0, st_size = 0, st_blocks = 0, st_uid = 0, st_gid = 0\<rparr>
     in \<lparr>def_fstat = st, def_dirstat = st, uid = 1000, gid = 1000\<rparr>)"

lemma ex_key_facts: "length ex_key = 32" "CHR 0x00 \<in> set ex_key" "cstr ex_key = ''a''"
  by (simp_all add: ex_key_def cstr_def)

lemma ex_disk_content: "0 \<le> b \<Longrightarrow> b < 22820 \<Longrightarrow> disk_content ex_disk b = Some zero_block"
  by (simp add: disk_content_def ex_disk_def)

lemma ex_io: "io_ok c (fresh_cache ex_disk)"
  by (simp add: io_ok_def disk_ok_def cache_ok_def fresh_cache_def ex_disk_def)

lemma ex_empty_inodes: "inodes_ok ex_empty"
  by (simp add: inodes_ok_def ex_empty_def zero_object_def blank_def)

lemma deref_ex_empty: "valid_ref r \<Longrightarrow> deref c ex_empty r = 0"
  by (cases r) (auto simp: ex_empty_def zero_object_def nth_Cons split: nat.split)

lemma ex_empty_files: "files_ok c ex_empty"
  using ex_io ex_empty_inodes deref_ex_empty
  by (auto simp: files_ok_def refs_ok_def ex_empty_def)

lemma zero_bytes_object: "decode_object (replicate 88 0) = zero_object"
  by (simp add: decode_object_def zero_object_def char_of_byte_def char_of_def)

lemma ex_empty_synced: "synced c ex_empty"
proof -
  have "decode_object (take 88 (drop (88 * m) zero_block)) = zero_object" if "m < 46" for m
    using that zero_bytes_object by simp
  moreover have "representable zero_object"
    by (simp add: representable_def zero_object_def fits32_def fits64_def)
  ultimately show ?thesis
    by (simp add: synced_def ex_empty_def fresh_cache_def ex_disk_def table_ok_def)
qed

lemma ex_store_inv: "fs_inv c ex_store"
  unfolding ex_store_def
  using created_fs(1) [of c ex_empty 0 ex_key] ex_empty_files ex_empty_synced ex_key_facts
  by (simp add: fs_inv_def)

lemma ex_store_files: "files_ok c ex_store"
  using ex_store_inv by (simp add: fs_inv_def)

lemma ex_store_fields [simp]:
  "live ex_store k \<longleftrightarrow> k = 0"
  "data_bitmap ex_store = (\<lambda>_. 0)"
  "dev ex_store = fresh_cache ex_disk"
  "o_direct (objs ex_store k) = [0, 0, 0, 0]"
  "o_indirect (objs ex_store k) = [0, 0, 0, 0]"
  "o_size (objs ex_store k) = 0"
  "o_id (objs ex_store 0) = 2"
  "o_key (objs ex_store 0) = ex_key"
  by (auto simp: ex_store_def ex_empty_def zero_object_def)

lemma ex_store_room: "has_room ex_store"
  unfolding has_room_def by (intro exI [of _ 0] exI [of _ 1]) simp

lemma ex_store_slots: "slots_with ex_store key = (if key = ''a'' then {0} else {})"
  by (auto simp: slots_with_def has_key_def ex_key_facts split: if_splits)

lemma ex_content0: "content c (fresh_cache ex_disk) 0 = Some zero_block"
  by (simp add: content_def cached_at_def fresh_cache_def slot_of_def ex_disk_content)


lemma ex_content:
  assumes "0 \<le> b" and "b < 22820"
  shows "content c (fresh_cache ex_disk) b = Some zero_block"
proof -
  have "\<not> cached_at (fresh_cache ex_disk) b"
    using assms(1) pos_imp_zdiv_nonneg_iff [of 32768 b] by (simp add: cached_at_def fresh_cache_def)
  then show ?thesis using ex_disk_content [OF assms] by (simp add: content_def fresh_cache_def)
qed

text \<open>An object with four index blocks, all their entries zero; their blocks are marked.\<close>

definition ex_indexed :: objstore where
  "ex_indexed = obj_update 0 (\<lambda>ob. ob\<lparr>o_indirect := [22815, 22816, 22817, 22818]\<rparr>)
     (ex_store\<lparr>data_bitmap := set_bit_at 0 (set_bit_at 1 (set_bit_at 2 (set_bit_at 3 (\<lambda>_. 0))))\<rparr>)"

lemma ex_indexed_fields [simp]:
  "live ex_indexed k \<longleftrightarrow> k = 0"
  "bit_set (data_bitmap ex_indexed) n \<longleftrightarrow> n < 4"
  "dev ex_indexed = fresh_cache ex_disk"
  "o_direct (objs ex_indexed k) = [0, 0, 0, 0]"
  "o_indirect (objs ex_indexed k) = (if k = 0 then [22815, 22816, 22817, 22818] else [0, 0, 0, 0])"
  "o_key (objs ex_indexed k) = o_key (objs ex_store k)"
  "o_id (objs ex_indexed k) = o_id (objs ex_store k)"
  "inode_bitmap ex_indexed = inode_bitmap ex_store"
  "dirty_array ex_indexed = dirty_array ex_store"
  by (auto simp: ex_indexed_def)

lemma ex_indexed_slots: "slots_with ex_indexed key = slots_with ex_store key"
  by (simp add: slots_with_def has_key_def)

lemma ex_indexed_ok: "inodes_ok ex_indexed"
  using files_okD(2) [OF ex_store_files [of Plain]]
  by (auto simp: inodes_ok_def ex_indexed_def ex_key_facts)

lemma below_4: "i < 4 \<longleftrightarrow> i = 0 \<or> i = 1 \<or> i = 2 \<or> i = (3 :: nat)"
  by auto

lemma zero_block_entry: "get_int zero_block j = 0"
  by (simp add: get_int_def)

definition ex_ref :: "blkref \<Rightarrow> int" where
  "ex_ref r = (case r of Ind k i \<Rightarrow> if k = 0 then 22815 + int i else 0 | _ \<Rightarrow> 0)"

lemma ex_indexed_pointer: "i < 4 \<Longrightarrow> o_indirect (objs ex_indexed k) ! i = (if k = 0 then 22815 + int i else 0)"
  unfolding below_4 by auto

lemma ex_indexed_deref:
  assumes "valid_ref r"
  shows "deref c ex_indexed r = ex_ref r"
proof (cases r)
  case (Dir k i)
  then have "i < 4" using assms by simp
  then show ?thesis unfolding below_4 by (auto simp: Dir ex_ref_def)
next
  case (Ind k i)
  then show ?thesis using assms ex_indexed_pointer by (simp add: ex_ref_def del: ex_indexed_fields)
next
  case (Leaf k i j)
  then have i: "i < 4" using assms by simp
  then have "content c (dev ex_indexed) (22815 + int i) = Some zero_block"
    using ex_content [of "22815 + int i" c] by simp
  then show ?thesis
    unfolding Leaf deref.simps ex_indexed_pointer [OF i] by (simp add: ex_ref_def zero_block_entry)
qed

lemma ex_ref_nonzero: "valid_ref r \<Longrightarrow> ex_ref r \<noteq> 0 \<Longrightarrow> \<exists>i < 4. r = Ind 0 i \<and> ex_ref r = 22815 + int i"
  by (cases r) (auto simp: ex_ref_def split: if_splits)

lemma ex_indexed_inv: "fs_inv c ex_indexed"
proof -
  have "refs_ok (deref c ex_indexed) (data_bitmap ex_indexed) (content c (dev ex_indexed))"
    unfolding refs_ok_def
  proof (intro conjI allI impI)
    fix r assume r: "valid_ref r \<and> deref c ex_indexed r \<noteq> 0"
    then obtain i where i: "r = Ind 0 i" "i < 4" and d: "deref c ex_indexed r = 22815 + int i"
      using ex_indexed_deref [of r c] ex_ref_nonzero [of r] by auto
    then show "\<exists>n < n_dblocks. deref c ex_indexed r = 22815 + int n \<and> bit_set (data_bitmap ex_indexed) n"
      by (intro exI [of _ i]) simp
    show "content c (dev ex_indexed) (deref c ex_indexed r) \<noteq> None"
      using ex_content [of "22815 + int i" c] d i(2) by simp
  next
    fix r q assume "valid_ref r \<and> valid_ref q \<and> deref c ex_indexed r \<noteq> 0 \<and> deref c ex_indexed r = deref c ex_indexed q"
    then show "r = q"
      using ex_indexed_deref [of r c] ex_indexed_deref [of q c] ex_ref_nonzero [of r] ex_ref_nonzero [of q] by auto
  qed
  moreover have "synced c ex_indexed"
  proof (rule synced_step [where s = ex_store])
    show "synced c ex_store" using ex_store_inv by (simp add: fs_inv_def)
    then have "representable (objs ex_store 0)" by (rule synced_representable) simp
    then have rep: "representable ((objs ex_store 0)\<lparr>o_indirect := [22815, 22816, 22817, 22818]\<rparr>)"
      by (simp add: representable_def fits32_def)
    show "table_ok (objs ex_indexed)"
      using table_ok_update [OF syncedD(2) [OF \<open>synced c ex_store\<close>] rep, of 0] by (simp add: ex_indexed_def)
    show "objs ex_indexed (46 * i + m) = objs ex_store (46 * i + m)" if "dirty_array ex_indexed i = 0" for i m
      using that by (cases "i = 0") (auto simp: ex_indexed_def ex_store_def)
  qed (simp_all add: low_kept_refl dirty_high_def fresh_cache_def)
  ultimately show ?thesis using ex_io ex_indexed_ok by (simp add: fs_inv_def files_ok_def)
qed

lemma ex_indexed_files: "files_ok c ex_indexed"
  using ex_indexed_inv by (simp add: fs_inv_def)

lemma ex_indexed_found: "scan (has_key ex_indexed ''a'') 0 n_inodes = Some 0"
  by (rule scan_SomeI) (simp_all add: has_key_def ex_key_facts)

lemma ex_indexed_unlinkable: "unlinkable c ex_indexed 0"
proof -
  have "disk_content ex_disk (22815 + int i) = content c (fresh_cache ex_disk) (22815 + int i)" if "i < 4" for i
    using that ex_content [of "22815 + int i" c] ex_disk_content [of "22815 + int i"] by simp
  then have "o_indirect (objs ex_indexed 0) ! i \<noteq> 0 \<and> disk_content (disk (dev ex_indexed)) (o_indirect (objs ex_indexed 0) ! i) =
      content c (dev ex_indexed) (o_indirect (objs ex_indexed 0) ! i)" if "i < 4" for i
    using that unfolding ex_indexed_pointer [OF that] by (simp add: fresh_cache_def)
  moreover have "deref c ex_indexed r - 22815 + 574 < int n_dblocks \<and>
      \<not> bit_set (data_bitmap ex_indexed) (nat (deref c ex_indexed r - 22815) + 574)"
    if "r \<in> set (slot_refs 0)" "deref c ex_indexed r \<noteq> 0" for r
  proof -
    have v: "valid_ref r" using that(1) set_slot_refs [of 0] by auto
    then have "deref c ex_indexed r < 22819"
      using that(2) ex_ref_nonzero [OF v] unfolding ex_indexed_deref [OF v] by auto
    then show ?thesis by simp
  qed
  ultimately show ?thesis unfolding unlinkable_def by blast
qed

section \<open>The store as a whole\<close>

text \<open>C1: Whatever sequence of create, open, getattr, write, read, unlink and unmount-and-mount
  calls the file system is given, as long as each is one it can serve when its turn comes, no
  call faults, the values handed back are those of the abstract file system, and the invariants
  hold at the end. Served are: keys that fit; writes to a live object with room on the disk, at a
  place that sequential writing reaches; reads of blocks that were written; the deletion of
  objects with four index blocks on the disk whose release marks only free blocks. Rename is not
  among the calls: it has no defined outcome.\<close>

theorem store_refines:
  assumes "fs_inv c s" and "all_served c rs s"
  shows "\<exists>t. code_run c rs s = Inr (fst (spec_run rs (abs_fs c s)), t) \<and> fs_inv c t \<and>
    abs_fs c t = snd (spec_run rs (abs_fs c s))"
  using assms by (rule code_run_refines)

definition ex_requests :: "request list" where
  "ex_requests = [Unlink ''a'', Create ''b'', Write 0 0 [7, 8], Read 0 0 2, Remount, Open ''b'', Getattr ex_env ''b'']"

lemma all_served_step:
  assumes "fs_inv c s" and "served c r s"
    and "\<And>t out. code_step c r s = Inr (out, t) \<Longrightarrow> fs_inv c t \<Longrightarrow> abs_fs c t = snd (spec_step r (abs_fs c s)) \<Longrightarrow>
      all_served c rs t"
  shows "all_served c (r # rs) s"
  using served_implements [OF assms(1,2)] assms(2,3) by (auto simp: implements_def)

lemma ex_indexed_keys: "a_key (abs_fs c ex_indexed) k = (if k = 0 then Some ''a'' else None)"
  by (simp add: abs_fs_def ex_key_facts)

lemma ex_all_served: "all_served c ex_requests ex_indexed"
  unfolding ex_requests_def
proof (rule all_served_step)
  show "fs_inv c ex_indexed" by (rule ex_indexed_inv)
  show un: "served c (Unlink ''a'') ex_indexed" using ex_indexed_found ex_indexed_unlinkable by simp
  fix s1 out assume run: "code_step c (Unlink ''a'') ex_indexed = Inr (out, s1)" and inv1: "fs_inv c s1"
    and abs1: "abs_fs c s1 = snd (spec_step (Unlink ''a'') (abs_fs c ex_indexed))"
  have "slot_of_key (abs_fs c ex_indexed) ''a'' = Some 0"
    using slot_of_key_scan [OF ex_indexed_files] ex_indexed_found by simp
  then have key1: "a_key (abs_fs c s1) k = None" for k using abs1 by (simp add: ex_indexed_keys)
  obtain k where "\<And>m. bit_set (data_bitmap s1) m \<longleftrightarrow>
      bit_set (data_bitmap ex_indexed) m \<or> (\<exists>n \<in> held c ex_indexed k. m = n + 574)"
    using unlink_places [OF ex_indexed_inv un run] by metis
  then have bits1: "\<not> bit_set (data_bitmap s1) 4" "\<not> bit_set (data_bitmap s1) 5" by auto
  show "all_served c [Create ''b'', Write 0 0 [7, 8], Read 0 0 2, Remount, Open ''b'', Getattr ex_env ''b''] s1"
  proof (rule all_served_step [OF inv1])
    show cr: "served c (Create ''b'') s1" by (simp add: key_ok_def)
    fix s2 out assume run: "code_step c (Create ''b'') s1 = Inr (out, s2)" and inv2: "fs_inv c s2"
      and abs2: "abs_fs c s2 = snd (spec_step (Create ''b'') (abs_fs c s1))"
    have "scan (\<lambda>k. a_key (abs_fs c s1) k = None) 0 n_inodes = Some 0"
      by (rule scan_SomeI) (simp_all add: key1)
    then have "a_key (abs_fs c s2) 0 = Some ''b''" using abs2 by simp
    then have live2: "live s2 0" by (simp add: abs_fs_def split: if_splits)
    have "data_bitmap s2 = data_bitmap s1"
      using code_step_places [OF inv1 cr run] by (simp add: places_eq)
    then have room: "has_room s2" unfolding has_room_def using bits1 by (intro exI [of _ 4] exI [of _ 5]) simp
    have size: "fits64 (o_size (objs s2 0) + 2)"
    proof -
      have "a_len (abs_fs c s1) 0 = 0"
        using abs1 \<open>slot_of_key (abs_fs c ex_indexed) ''a'' = Some 0\<close> by simp
      then have "a_len (abs_fs c s2) 0 = 0" using abs2 \<open>scan _ 0 n_inodes = Some 0\<close> by simp
      then show ?thesis by (simp add: abs_fs_def fits64_def)
    qed
    show "all_served c [Write 0 0 [7, 8], Read 0 0 2, Remount, Open ''b'', Getattr ex_env ''b''] s2"
    proof (rule all_served_step [OF inv2])
      show "served c (Write 0 0 [7, 8]) s2" using live2 room size by (simp add: in_sequence_def)
      fix s3 assume inv3: "fs_inv c s3" and abs3: "abs_fs c s3 = snd (spec_step (Write 0 0 [7, 8]) (abs_fs c s2))"
      have "a_blk (abs_fs c s3) 0 0 = Some (block_of [7, 8])" and "a_key (abs_fs c s3) 0 = Some ''b''"
        using abs3 \<open>a_key (abs_fs c s2) 0 = Some ''b''\<close> by simp_all
      then have r: "served c (Read 0 0 2) s3" by (auto simp: abs_fs_def split: if_splits)
      show "all_served c [Read 0 0 2, Remount, Open ''b'', Getattr ex_env ''b''] s3"
        by (rule all_served_step [OF inv3 r], rule all_served_step, assumption, simp,
            rule all_served_step, assumption, simp, rule all_served_step, assumption) simp_all
    qed
  qed
qed

lemma store_refines_witness:
  "fs_inv Cached ex_indexed \<and> all_served Cached ex_requests ex_indexed \<and>
   (\<exists>t. code_run Cached ex_requests ex_indexed =
      Inr (fst (spec_run ex_requests (abs_fs Cached ex_indexed)), t))"
  using store_refines [OF ex_indexed_inv ex_all_served] ex_indexed_inv ex_all_served by blast

text \<open>C2: The build with the block cache and the build without it cannot be told apart by the
  calls they serve: from states that agree (the same files, the same blocks marked, every
  pointer to the same block), a sequence whose calls the plain build serves gives the same
  values in both, and they agree again. Writes out of sequence and reads of holes are not
  served; if the sequence deletes objects, the build with the cache must be able to serve it,
  too, which asks that their index blocks have reached the disk.\<close>

theorem builds_equivalent:
  assumes "builds_agree s u" and "all_served Plain rs s"
    and "all_served Cached rs u \<or> (\<forall>key. Unlink key \<notin> set rs)"
  shows "\<exists>out t v. code_run Plain rs s = Inr (out, t) \<and> code_run Cached rs u = Inr (out, v) \<and>
    builds_agree t v"
  using assms by (rule builds_agree_run)

lemma ex_builds_agree: "builds_agree ex_indexed ex_indexed"
proof -
  have "file_block c ex_indexed k a = None" if "k < n_inodes" for c k a
    using ex_indexed_deref [OF valid_block_ref [OF that, of a], of c]
    by (auto simp: file_block_def ex_ref_def block_ref_def split: if_splits)
  then have "abs_fs Plain ex_indexed = abs_fs Cached ex_indexed"
    by (auto simp: abs_fs_def fun_eq_iff)
  moreover have "places Plain ex_indexed = places Cached ex_indexed"
    by (simp add: places_eq ex_indexed_deref)
  ultimately show ?thesis by (simp add: builds_agree_def ex_indexed_inv)
qed

lemma builds_equivalent_witness:
  "\<exists>out t v. code_run Plain ex_requests ex_indexed = Inr (out, t) \<and>
     code_run Cached ex_requests ex_indexed = Inr (out, v) \<and> builds_agree t v"
  using builds_equivalent [OF ex_builds_agree ex_all_served] ex_all_served by blast

text \<open>C3: Transfers through the cache: any sequence of block reads and writes returns what
  the same sequence returns on a plain map of blocks, whatever is cached, dirty or evicted.\<close>

theorem cache_trace:
  assumes "io_ok c s" and "\<And>b x. 0 \<le> b \<Longrightarrow> C b = Some x \<Longrightarrow> content c s b = Some x"
    and "io_wf ops C"
  shows "\<exists>t. io_run (cache_blk_read c) (cache_blk_write c) ops s = Inr (io_spec ops C, t) \<and> io_ok c t"
  using assms by (rule io.io_trace)

definition ex_ops :: "io_op list" where
  "ex_ops = [IoWrite 5 (block_of [1]), IoWrite 32773 (block_of [2]), IoRead 5]"

lemma cache_trace_witness:
  "\<exists>t. io_run (cache_blk_read Cached) (cache_blk_write Cached) ex_ops (fresh_cache ex_disk) =
    Inr ([block_of [1]], t) \<and> io_ok Cached t"
proof -
  have "io_wf ex_ops (\<lambda>_. None)" and "io_spec ex_ops (\<lambda>_. None) = [block_of [1]]"
    by (simp_all add: ex_ops_def)
  with cache_trace [OF ex_io, of "\<lambda>_. None" Cached ex_ops] show ?thesis by simp
qed

section \<open>Files\<close>

text \<open>C4: A write of \<open>buff\<close> to block \<open>a\<close> of a live object (room on the disk, a place that
  sequential writing reaches) returns its length, grows the size by it, makes that block
  read as the first 4096 bytes of \<open>buff\<close> padded with zeros, and changes no other block of
  any object, no key and no inode.\<close>

theorem write_changes_one_block:
  assumes "files_ok c s" and "k < n_inodes" and "live s k" and "has_room s" and "buff \<noteq> []"
    and "0 \<le> offset" and "offset div 4096 = int a" and "a < 4100" and "in_sequence s k a"
  shows "\<exists>t. objstore_write c (int k + 2) buff offset s = Inr (int (length buff), t) \<and>
    files_ok c t \<and> o_size (objs t k) = o_size (objs s k) + int (length buff) \<and>
    file_block c t k a = Some (take 4096 (buff @ zero_block)) \<and>
    (\<forall>k' a'. k' < n_inodes \<longrightarrow> (k', a') \<noteq> (k, a) \<longrightarrow> file_block c t k' a' = file_block c s k' a') \<and>
    inode_bitmap t = inode_bitmap s \<and> (\<forall>k'. o_key (objs t k') = o_key (objs s k'))"
  using objstore_write_correct [OF assms(1-5,6-9)] by (auto simp: write_post_def block_of_def)

lemma write_changes_one_block_witness:
  "\<exists>t. objstore_write Cached 2 [7, 8] 4100 ex_store = Inr (2, t) \<and>
     file_block Cached t 0 1 = Some (take 4096 ([7, 8] @ zero_block))"
  using write_changes_one_block [OF ex_store_files [of Cached], of 0 "[7, 8]" 4100 1] ex_store_room
  by (auto simp: in_sequence_def)

text \<open>C10: Reading back what was written: after such a write of at most a block at offset
  \<open>4096 * a\<close>, a read of as many bytes at the same offset returns exactly the bytes written,
  and leaves every file as it was.\<close>

theorem write_then_read:
  assumes "files_ok c s" and "k < n_inodes" and "live s k" and "has_room s"
    and "buff \<noteq> []" and "length buff \<le> 4096" and "a < 4100" and "in_sequence s k a"
  shows "\<exists>t u. objstore_write c (int k + 2) buff (4096 * int a) s = Inr (int (length buff), t) \<and>
    objstore_read c (int k + 2) (length buff) (4096 * int a) t = Inr (int (length buff), buff, u) \<and>
    same_files c t u"
proof -
  obtain t where t: "objstore_write c (int k + 2) buff (4096 * int a) s = Inr (int (length buff), t)"
    and post: "write_post c s t k a (block_of buff)"
    using objstore_write_correct [OF assms(1-5), of "4096 * int a" a] assms(7,8) by auto
  have ok: "files_ok c t" and lv: "live t k" and fb: "file_block c t k a = Some (block_of buff)"
    using post assms(3) by (simp_all add: write_post_def)
  have one: "(length buff + 4095) div 4096 = 1" using assms(5,6) by (cases buff) auto
  have "take (length buff) (block_of buff) = buff" using assms(6) by (simp add: block_of_def)
  then show ?thesis
    using t objstore_read_correct [OF ok assms(2) lv, of "length buff" a] assms(7) fb one by auto
qed

lemma write_then_read_witness:
  "\<exists>t u. objstore_write Cached 2 [9] 8192 ex_store = Inr (1, t) \<and>
     objstore_read Cached 2 1 8192 t = Inr (1, [9], u)"
  using write_then_read [OF ex_store_files [of Cached], of 0 "[9]" 2] ex_store_room
  by (auto simp: in_sequence_def)

text \<open>A read of \<open>n\<close> bytes from block \<open>a\<close> on returns the first \<open>n\<close> bytes of the
  consecutive blocks of the file, through the direct and the indirect pointers, and changes
  only which blocks are cached.\<close>

theorem read_returns_blocks:
  assumes "files_ok c s" and "k < n_inodes" and "live s k" and "a < 4100"
    and "\<And>i. i < (n + 4095) div 4096 \<Longrightarrow> file_block c s k (a + i) \<noteq> None"
  shows "\<exists>t. objstore_read c (int k + 2) n (4096 * int a) s =
      Inr (int n, take n (concat (map (\<lambda>i. the (file_block c s k (a + i)))
        [0 ..< (n + 4095) div 4096])), t) \<and> same_files c s t"
  using objstore_read_correct [OF assms(1-3,5,4)] .

lemma read_returns_blocks_witness:
  "\<exists>s t. files_ok Cached s \<and> objstore_read Cached 2 1 (4096 * int 3) s = Inr (1, [9], t)"
proof -
  obtain s where ok: "files_ok Cached s" and lv: "live s 0"
    and fb: "file_block Cached s 0 3 = Some (block_of [9])"
    using objstore_write_correct [OF ex_store_files [of Cached], of 0 "[9]" "4096 * 3" 3] ex_store_room
    by (auto simp: in_sequence_def write_post_def)
  have "take 1 (block_of [9]) = [9]" by (simp add: block_of_def)
  then show ?thesis
    using read_returns_blocks [OF ok _ lv, of 3 1] fb ok by auto
qed


text \<open>C11: Unmounting and mounting again preserves the store: every inode bit, every object
  (key, size and pointers), every bit of the data bitmap and every file block.\<close>

theorem remount_roundtrip:
  assumes "files_ok c s" and "synced c s"
  shows "files_ok c (objstore_init (objstore_destroy s)) \<and>
    (\<forall>k < n_inodes. live (objstore_init (objstore_destroy s)) k = live s k \<and>
       objs (objstore_init (objstore_destroy s)) k = objs s k \<and>
       file_block c (objstore_init (objstore_destroy s)) k = file_block c s k) \<and>
    (\<forall>w < 262144. data_bitmap (objstore_init (objstore_destroy s)) w = data_bitmap s w)"
  using remount_files [OF assms] remount_data_bitmap [OF assms(2) files_okD(1) [OF assms(1)]]
  by (auto simp: fun_eq_iff)

lemma remount_roundtrip_witness:
  "objs (objstore_init (objstore_destroy ex_store)) 0 = objs ex_store 0 \<and>
   live (objstore_init (objstore_destroy ex_store)) 0"
  using remount_roundtrip [of Cached ex_store] ex_store_inv [of Cached] by (simp add: fs_inv_def)

text \<open>Allocation: the least clear bit of the data bitmap is found and set, and the block
  number handed out is the one of that bit; when no bit is clear the answer is -1 and
  nothing changes.\<close>

theorem free_data_block_least:
  "(\<exists>k < n_dblocks. \<not> bit_set (data_bitmap s) k \<and> (\<forall>j < k. bit_set (data_bitmap s) j) \<and>
      fst (free_data_block s) = 22815 + int k \<and>
      (\<forall>j. bit_set (data_bitmap (snd (free_data_block s))) j = (j = k \<or> bit_set (data_bitmap s) j))) \<or>
   (\<forall>k < n_dblocks. bit_set (data_bitmap s) k) \<and> free_data_block s = (-1, s)"
  by (cases s rule: free_data_block_cases) auto

lemma free_data_block_least_witness: "fst (free_data_block ex_empty) = 22815"
proof -
  have none: "\<not> bit_set (data_bitmap ex_empty) j" for j by (simp add: bit_set_def ex_empty_def)
  obtain k where k: "\<forall>j < k. bit_set (data_bitmap ex_empty) j" "fst (free_data_block ex_empty) = 22815 + int k"
    using free_data_block_least [of ex_empty] none [of 0] by fastforce
  have "k = 0" using k(1) none [of 0] by (cases k) auto
  then show ?thesis using k(2) by simp
qed

text \<open>Creation takes the lowest free inode, returns its number plus 2, and the new key
  answers for exactly that slot in addition to the slots it had.\<close>

theorem create_lowest_free:
  assumes "inodes_ok s" and "k < n_inodes" and "\<not> live s k" and "\<forall>j < k. live s j"
    and "length key < 32" and "CHR 0x00 \<notin> set key"
  shows "\<exists>t. create_object key s = Inr (int k + 2, t) \<and> inodes_ok t \<and>
    slots_with t key = insert k (slots_with s key) \<and>
    (\<forall>key'. key' \<noteq> key \<longrightarrow> slots_with t key' = slots_with s key') \<and>
    (\<forall>j. j \<noteq> k \<longrightarrow> objs t j = objs s j)"
proof -
  obtain b where "create_object key s = Inr (int k + 2, created k b s)" "cstr b = key"
      "length b = 32" "CHR 0x00 \<in> set b"
    using create_object_at [OF assms] by blast
  then show ?thesis
    using created_inodes_ok [OF assms(1,2)] slots_with_created [OF assms(1-3)] by auto
qed

lemma create_lowest_free_witness:
  "\<exists>t. create_object ''b'' ex_store = Inr (3, t) \<and> slots_with t ''b'' = {1} \<and>
     slots_with t ''a'' = {0}"
  using create_lowest_free [OF files_okD(2) [OF ex_store_files [of Plain]], of 1 "''b''"]
  by (auto simp: ex_store_slots)

text \<open>With all 1015808 inodes in use creation fails with -1 and changes nothing.\<close>

theorem create_when_full:
  assumes "\<forall>k < n_inodes. live s k"
  shows "create_object key s = Inr (-1, s) \<and> objfs_create path s = Inr (-17, None, s)"
  using create_object_full [OF assms] by (simp add: objfs_create_def)

definition ex_full :: objstore where
  "ex_full = ex_store\<lparr>inode_bitmap := \<lambda>_. - 1\<rparr>"

lemma ex_full_live: "live ex_full k"
  by (simp add: ex_full_def bit_set_iff)

lemma create_when_full_witness: "create_object ''b'' ex_full = Inr (-1, ex_full)"
  using create_when_full [of ex_full "''b''"] ex_full_live by simp

text \<open>What is created can be opened: after creating a file under a name that no object
  has, opening the same path returns the handle that creation returned.\<close>

theorem create_then_open:
  assumes "inodes_ok s" and "k < n_inodes" and "\<not> live s k" and "\<forall>j < k. live s j"
    and "length key < 32" and "CHR 0x00 \<notin> set key" and "slots_with s key = {}"
  shows "\<exists>t u. objfs_create (CHR 0x2F # key) s = Inr (0, Some (int k + 2), t) \<and>
    objfs_open (CHR 0x2F # key) t = (0, Some (int k + 2), u)"
proof -
  obtain b where b: "create_object key s = Inr (int k + 2, created k b s)" "cstr b = key"
      "length b = 32" "CHR 0x00 \<in> set b"
    using create_object_at [OF assms(1-6)] by blast
  have ok: "inodes_ok (created k b s)" using created_inodes_ok [OF assms(1,2) b(3,4)] .
  have "slots_with (created k b s) key = {k}"
    using slots_with_created [OF assms(1-3)] b(2) assms(7) by simp
  then show ?thesis
    using open_found [OF ok, of k key "CHR 0x2F"] b(1)
    by (simp add: objfs_create_def path_key_def)
qed

lemma create_then_open_witness:
  "\<exists>t u. objfs_create ''/b'' ex_store = Inr (0, Some 3, t) \<and> objfs_open ''/b'' t = (0, Some 3, u)"
  using create_then_open [OF files_okD(2) [OF ex_store_files [of Plain]], of 1 "''b''"]
  by (auto simp: ex_store_slots)

text \<open>Lookup returns the number of the least slot that has the key, or -1 when none has.\<close>

theorem lookup_least:
  assumes "inodes_ok s"
  shows "fst (find_object_id key s) =
    (if slots_with s key = {} then -1 else int (LEAST k. k \<in> slots_with s key) + 2)"
proof (cases "slots_with s key = {}")
  case True
  then show ?thesis using find_object_id_missing by simp
next
  case False
  then obtain j where "j \<in> slots_with s key" by blast
  then have "(LEAST k. k \<in> slots_with s key) \<in> slots_with s key" by (rule LeastI)
  then show ?thesis
    using find_object_id_least [OF assms _ Least_le] False by simp
qed

lemma lookup_least_witness:
  "fst (find_object_id ''a'' ex_store) = 2 \<and> fst (find_object_id ''zz'' ex_store) = -1"
  using lookup_least [OF files_okD(2) [OF ex_store_files [of Plain]], of "''a''"]
    lookup_least [OF files_okD(2) [OF ex_store_files [of Plain]], of "''zz''"]
  by (simp add: ex_store_slots)

text \<open>The attributes of a file: its number, its size, the size in 512-byte units rounded
  up, and the owner of the process; a path with no object gives \<open>-ENOENT\<close>.\<close>

theorem getattr_reports:
  assumes "inodes_ok s" and "key \<noteq> []"
  shows "(k \<in> slots_with s key \<and> (\<forall>j \<in> slots_with s key. k \<le> j) \<longrightarrow>
      objfs_getattr env (CHR 0x2F # key) s =
       (0, Some ((def_fstat env)\<lparr>st_ino := int k + 2, st_size := o_size (objs s k),
                   st_blocks := (o_size (objs s k) + 511) div 512,
                   st_uid := uid env, st_gid := gid env\<rparr>), s\<lparr>backup := Some k\<rparr>)) \<and>
    (slots_with s key = {} \<longrightarrow> objfs_getattr env (CHR 0x2F # key) s = (-2, None, s))"
  using getattr_found [OF assms(1) _ _ refl assms(2)] getattr_missing [OF _ refl assms(2)] by blast

lemma getattr_reports_witness:
  "fst (objfs_getattr ex_env ''/a'' ex_store) = 0 \<and> objfs_getattr ex_env ''/zz'' ex_store = (-2, None, ex_store)"
  using getattr_reports [OF files_okD(2) [OF ex_store_files [of Plain]], of "''a''" 0 ex_env]
    getattr_reports [OF files_okD(2) [OF ex_store_files [of Plain]], of "''zz''" 0 ex_env]
  by (simp add: ex_store_slots)


section \<open>Where the store loses data\<close>

text \<open>C12: Rewriting the first block behind an index block installs a fresh index block with
  one entry: the write is reported as a success and the other 1023 blocks of that range are
  gone.\<close>

theorem rewrite_first_leaf_loses:
  assumes ok: "files_ok c s" and k: "k < n_inodes" "live s k" and room: "has_room s"
    and buff: "buff \<noteq> []" and r: "r < 4"
  shows "\<exists>t. objstore_write c (int k + 2) buff (4096 * (4 + 1024 * int r)) s =
      Inr (int (length buff), t) \<and> files_ok c t \<and>
    file_block c t k (4 + 1024 * r) = Some (block_of buff) \<and>
    (\<forall>a'. 4 + 1024 * r < a' \<and> a' < 4 + 1024 * Suc r \<longrightarrow> file_block c t k a' = None)"
proof -
  let ?sz = "int (length buff)" and ?x = "block_of buff" and ?a = "4 + 1024 * r"
  have find: "find_target (int k + 2) True s = (Some k, mark_dirty k s)"
    using find_target_live [OF files_okD(2) [OF ok] k] by simp
  have a32: "s32 (4096 * (4 + 1024 * int r) sdiv 4096) = int ?a" and a4: "\<not> int ?a \<le> 3"
    using r by simp_all
  obtain n m where n: "n < n_dblocks" "\<not> bit_set (data_bitmap s) n"
    and alloc: "free_data_block (mark_dirty k s) =
      (22815 + int n, (mark_dirty k s)\<lparr>data_bitmap := set_bit_at n (data_bitmap s)\<rparr>)"
    and m: "m < n_dblocks" "\<not> bit_set (data_bitmap s) m" "m \<noteq> n"
    and alloc2: "\<And>s2. data_bitmap s2 = set_bit_at n (data_bitmap s) \<Longrightarrow>
      free_data_block s2 = (22815 + int m, s2\<lparr>data_bitmap := set_bit_at m (set_bit_at n (data_bitmap s))\<rparr>)"
    using has_room_alloc [OF room, of "mark_dirty k s"] by auto
  have prep: "obj_update k (\<lambda>t. t\<lparr>o_size := o_size t + ?sz\<rparr>)
      ((mark_dirty k s)\<lparr>data_bitmap := set_bit_at n (data_bitmap s)\<rparr>) = prepared k ?sz n s"
    by (simp add: prepared_def)
  have rng: "indirect_range (int ?a) = Some (r, 4 + 1024 * int r)"
    using indirect_range_int(1) [of ?a] r by simp
  obtain t where run: "write_indirect c k r (4 + 1024 * int r) (int ?a) (22815 + int n) (Some ?x)
      (prepared k ?sz n s) = Inr t"
    and t: "files_ok c t" "content c (dev t) (22815 + int m) = Some ?x"
    and D: "\<And>r'. valid_ref r' \<Longrightarrow> deref c t r' =
      (if r' = Leaf k r 0 then 22815 + int m else if r' = Ind k r then 22815 + int n
       else if \<exists>j. r' = Leaf k r j then 0 else deref c s r')"
    using write_index_block [OF ok k n m alloc2 length_block_of r, of ?sz ?a buff] by fastforce
  have "objstore_write c (int k + 2) buff (4096 * (4 + 1024 * int r)) s = Inr (?sz, t)"
    using run a4
    by (simp only: objstore_write_def find alloc a32 prep write_buffer_some [OF buff] Let_def
        prod.case option.case rng if_False) simp
  moreover have "file_block c t k ?a = Some ?x"
    using D [OF valid_block_ref [OF k(1), of ?a]] r t(2) by (simp add: file_block_def block_ref_def)
  moreover have "file_block c t k a' = None" if "?a < a'" "a' < 4 + 1024 * Suc r" for a'
  proof -
    have "a' < 4100" using that(2) r by simp
    moreover have "block_ref k a' = Leaf k r (a' - ?a)" by (rule block_ref_leaf) (use that in simp_all)
    moreover have "a' - ?a \<noteq> 0" using that(1) by simp
    ultimately show ?thesis
      using D [OF valid_block_ref [OF k(1), of a']] by (simp add: file_block_def)
  qed
  ultimately show ?thesis using t(1) by blast
qed


lemma rewrite_first_leaf_loses_witness:
  "\<exists>t. objstore_write Cached 2 [7] 16384 ex_store = Inr (1, t) \<and>
     file_block Cached t 0 4 = Some (block_of [7]) \<and> file_block Cached t 0 5 = None"
  using rewrite_first_leaf_loses [OF ex_store_files [of Cached], of 0 "[7]" 0] ex_store_room
  by auto

text \<open>C13: A write past block 4099 is reported as a success and the size grows, but no file
  block changes; the data block allocated for it stays marked in the bitmap.\<close>

theorem write_past_limit_dropped:
  assumes "inodes_ok s" and "k < n_inodes" and "live s k"
    and "4100 \<le> a" and "a < 2 ^ 31" and "0 \<le> offset" and "offset div 4096 = a"
  shows "\<exists>t. objstore_write c (int k + 2) buff offset s = Inr (int (length buff), t) \<and>
    o_size (objs t k) = o_size (objs s k) + int (length buff) \<and>
    file_block c t = file_block c s \<and>
    ((\<exists>n < n_dblocks. \<not> bit_set (data_bitmap s) n) \<longrightarrow>
       (\<exists>n < n_dblocks. \<not> bit_set (data_bitmap s) n \<and> bit_set (data_bitmap t) n))"
proof -
  have find: "find_target (int k + 2) True s = (Some k, mark_dirty k s)"
    using find_target_live [OF assms(1-3)] by simp
  have a32: "s32 (offset sdiv 4096) = a" using assms(4-7) by simp
  have none: "indirect_range a = None" using assms(4) by (simp add: indirect_range_def)
  obtain b s1 where b: "free_data_block (mark_dirty k s) = (b, s1)" by fastforce
  note fr = free_data_block_frame [OF b]
  let ?t = "obj_update k (\<lambda>t. t\<lparr>o_size := o_size t + int (length buff)\<rparr>) s1"
  have run: "objstore_write c (int k + 2) buff offset s = Inr (int (length buff), ?t)"
    using find a32 none b assms(4) by (simp add: objstore_write_def Let_def)
  have "deref c ?t = deref c s" by (rule deref_frame) (use fr in simp_all)
  then have fb: "file_block c ?t = file_block c s"
    using fr(2) by (simp add: file_block_def [abs_def] cong: if_cong)
  have "\<exists>n < n_dblocks. \<not> bit_set (data_bitmap s) n \<and> bit_set (data_bitmap s1) n"
    if "\<exists>n < n_dblocks. \<not> bit_set (data_bitmap s) n"
    using that b by (cases "mark_dirty k s" rule: free_data_block_cases) auto
  then show ?thesis using run fb fr(1) by (intro exI [of _ ?t]) simp
qed

text \<open>C14: A write behind an index block that does not exist yet, other than to its first
  entry, updates disk block 0, the first block of the inode bitmap, in place of an index
  block: the entry is overwritten with the number of the data block, and the file block
  still reads as absent.\<close>

theorem sparse_write_hits_block_0:
  assumes ok: "files_ok c s" and k: "k < n_inodes" "live s k" and room: "has_room s"
    and buff: "buff \<noteq> []" and a: "4 \<le> a" "a < 4100" "(a - 4) mod 1024 \<noteq> 0"
    and hole: "o_indirect (objs s k) ! ((a - 4) div 1024) = 0"
    and ib: "content c (dev s) 0 = Some ib"
  shows "\<exists>t n. objstore_write c (int k + 2) buff (4096 * int a) s = Inr (int (length buff), t) \<and>
    content c (dev t) 0 = Some (put_int ib ((a - 4) mod 1024) (22815 + int n)) \<and>
    n < n_dblocks \<and> file_block c t k a = None"
proof -
  let ?sz = "int (length buff)" and ?r = "(a - 4) div 1024" and ?j = "(a - 4) mod 1024"
  have find: "find_target (int k + 2) True s = (Some k, mark_dirty k s)"
    using find_target_live [OF files_okD(2) [OF ok] k] by simp
  have a32: "s32 (4096 * int a sdiv 4096) = int a" using a by simp
  note ir = indirect_range_int [OF a(1,2)]
  obtain n where n: "n < n_dblocks"
    and alloc: "free_data_block (mark_dirty k s) =
      (22815 + int n, (mark_dirty k s)\<lparr>data_bitmap := set_bit_at n (data_bitmap s)\<rparr>)"
    using has_room_alloc [OF room, of "mark_dirty k s"] by auto
  let ?s2 = "prepared k ?sz n s"
  have io: "io_ok c (dev s)" by (rule files_okD(1) [OF ok])
  obtain d where d: "dev_rmw c 0 ?j (22815 + int n) ?s2 = Inr (?s2\<lparr>dev := d\<rparr>)" "io_ok c d"
      "content c d 0 = Some (put_int ib ?j (22815 + int n))"
    using dev_rmw_ok [of c ?s2 0 ib ?j "22815 + int n"] io ib by fastforce
  have "io_ok c (dev (?s2\<lparr>dev := d\<rparr>))" using d(2) by simp
  from dev_write_ok [OF this, of "22815 + int n" "block_of buff"]
  obtain e where e: "dev_write c (22815 + int n) (Some (block_of buff)) (?s2\<lparr>dev := d\<rparr>) =
        Inr (?s2\<lparr>dev := e\<rparr>)"
      "\<forall>b y. 0 \<le> b \<longrightarrow> b \<noteq> 22815 + int n \<longrightarrow> content c d b = Some y \<longrightarrow> content c e b = Some y"
    by auto
  let ?t = "?s2\<lparr>dev := e\<rparr>"
  have base: "int a \<noteq> 4 + 1024 * int ?r" using ir(3) a(3) by simp
  have "write_indirect c k ?r (4 + 1024 * int ?r) (int a) (22815 + int n) (write_buffer buff) ?s2 = Inr ?t"
    using base hole d(1) e(1) ir(2) write_buffer_some [OF buff] by (simp add: write_indirect_def)
  then have run: "objstore_write c (int k + 2) buff (4096 * int a) s = Inr (?sz, ?t)"
    using find a32 alloc ir(1) a(1) by (simp add: objstore_write_def Let_def prepared_def)
  have "content c (dev ?t) 0 = Some (put_int ib ?j (22815 + int n))" using d(3) e(2) by simp
  moreover have "file_block c ?t k a = None"
    using hole a(1,2) by (simp add: file_block_def block_ref_def)
  ultimately show ?thesis using run n by blast
qed

lemma sparse_write_hits_block_0_witness:
  "\<exists>t n. objstore_write Plain 2 [7] 20480 ex_store = Inr (1, t) \<and>
     content Plain (dev t) 0 = Some (put_int zero_block 1 (22815 + int n)) \<and>
     file_block Plain t 0 5 = None"
  using sparse_write_hits_block_0 [OF ex_store_files [of Plain], of 0 "[7]" 5 zero_block]
    ex_store_room ex_content [of 0 Plain] by auto

lemma write_past_limit_dropped_witness:
  "\<exists>t. objstore_write Plain 2 [7] 16793600 ex_store = Inr (1, t) \<and>
     file_block Plain t = file_block Plain ex_store"
  using write_past_limit_dropped [OF files_okD(2) [OF ex_store_files [of Plain]], of 0 4100 16793600 Plain "[7]"]
  by auto

text \<open>Reading a block that was never written returns disk block 0, the start of the
  inode bitmap, instead of zeros or an error.\<close>

theorem hole_reads_block_0:
  assumes ok: "files_ok c s" and k: "k < n_inodes" "live s k" and a: "a < 4"
    and hole: "o_direct (objs s k) ! a = 0" and x: "content c (dev s) 0 = Some x"
    and n: "0 < n" "n \<le> 4096"
  shows "\<exists>t. objstore_read c (int k + 2) n (4096 * int a) s = Inr (int n, take n x, t)"
proof -
  have find: "find_target (int k + 2) False s = (Some k, s)"
    using find_target_live [OF files_okD(2) [OF ok] k] by simp
  have a32: "s32 (4096 * int a) = 4096 * int a" using a by simp
  have one: "(n + 4095) div 4096 = Suc 0" using n by (cases n) auto
  obtain t where t: "dev_read c 0 s = Inr (x, t)"
    using dev_read_ok [OF files_okD(1) [OF ok] _ x] by auto
  then have "read_loop c (Some k) (Suc 0) (4096 * int a) [] s = Inr (x, t)"
    using a hole by (simp add: read_one_def)
  then show ?thesis
    using find a32 one by (auto simp: objstore_read_def add.commute [of 4095] simp del: read_loop.simps)
qed

lemma hole_reads_block_0_witness:
  "\<exists>t. objstore_read Cached 2 8 4096 ex_store = Inr (8, take 8 zero_block, t)"
  using hole_reads_block_0 [OF ex_store_files [of Cached], of 0 1 zero_block 8] ex_content [of 0 Cached]
  by auto


section \<open>Renaming\<close>

text \<open>With the loop counter starting at zero, renaming the only object called \<open>key\<close>
  moves exactly its slot from the old name to the new one and returns its number.\<close>

theorem rename_moves_slot:
  assumes "inodes_ok s" and "slots_with s key = {k}"
    and "length newname < 32" and "CHR 0x00 \<notin> set newname" and "newname \<noteq> key"
  shows "\<exists>t. rename_object 0 key newname s = Inr (int k + 2, t) \<and>
    slots_with t key = {} \<and> slots_with t newname = insert k (slots_with s newname) \<and>
    (\<forall>other. other \<noteq> key \<and> other \<noteq> newname \<longrightarrow> slots_with t other = slots_with s other)"
proof -
  obtain b where b: "rename_object 0 key newname s = Inr (int k + 2, renamed k b s)" "cstr b = newname"
    using rename_object_unique [OF assms] by blast
  have k: "k \<in> slots_with s key" using assms(2) by simp
  then have key: "cstr (o_key (objs s k)) = key" by (simp add: slots_with_def has_key_def)
  have "k \<notin> slots_with s other" if "other \<noteq> key" for other
    using key that by (auto simp: slots_with_def has_key_def)
  then show ?thesis
    using b k key assms(2,5) slots_with_renamed [of k b s] by auto
qed

lemma rename_moves_slot_witness:
  "\<exists>t. rename_object 0 ''a'' ''b'' ex_store = Inr (2, t) \<and> slots_with t ''b'' = {0}"
  using rename_moves_slot [OF files_okD(2) [OF ex_store_files [of Plain]], of "''a''" 0 "''b''"]
  by (auto simp: ex_store_slots)

text \<open>Started at \<open>d\<close>, the loop examines object \<open>pos + d\<close> at bit \<open>pos\<close>.\<close>

lemma rename_loop_shifted:
  assumes "pos + n + d \<le> n_slots" and "0 < pos"
    and "\<And>j. pos \<le> j \<Longrightarrow> j < pos + n \<Longrightarrow> live s j \<Longrightarrow> cstr (o_key (objs s (j + d))) \<noteq> key"
  shows "rename_loop key new pos n (int (pos + d)) (int (pos + d)) actual s = Inr (None, actual, s)"
  using assms
proof (induction n arbitrary: pos)
  case 0
  then show ?case by simp
next
  case (Suc n)
  have "rename_loop key new (Suc pos) n (int (Suc pos + d)) (int (Suc pos + d)) actual s =
      Inr (None, actual, s)"
    using Suc.prems by (intro Suc.IH) auto
  moreover have "s32 (int (pos + d) + 1) = int (Suc pos + d)" using Suc.prems(1) by simp
  moreover have "cstr (o_key (objs s (nat (int (pos + d))))) \<noteq> key" if "live s pos"
    using Suc.prems(3) [of pos] that by (simp only: nat_int) simp
  moreover have "\<not> int (pos + d) < 0" "\<not> int n_slots \<le> int (pos + d)"
    using Suc.prems(1) by simp_all
  ultimately show ?case by (simp only: rename_loop.simps) simp
qed

text \<open>The counter of \<open>rename_object\<close> is never initialised. When the indeterminate value
  is some \<open>d > 0\<close>, the loop looks \<open>d\<close> slots past every object but the first: an object that
  is there under the old name is not found and the function returns through an
  uninitialised pointer.\<close>

theorem rename_uninitialised_counter:
  assumes "d \<le> 32768" and "k \<in> slots_with s key" and "0 < k"
    and "live s 0" and "cstr (o_key (objs s 0)) \<noteq> key"
    and "\<And>j. 0 < j \<Longrightarrow> j < n_inodes \<Longrightarrow> live s j \<Longrightarrow> cstr (o_key (objs s (j + d))) \<noteq> key"
  shows "rename_object (int d) key newname s = Inl Uninitialised"
proof -
  have n: "n_inodes = Suc 1015807" by simp
  have "rename_loop key newname 1 1015807 (int (1 + d)) (int (1 + d)) None s = Inr (None, None, s)"
    by (rule rename_loop_shifted) (use assms(1,6) in auto)
  moreover have "s32 (int d + 1) = int (1 + d)" using assms(1) by simp
  ultimately have "rename_loop key newname 0 n_inodes (int d) 0 None s = Inr (None, None, s)"
    using assms(4,5) unfolding n by (simp only: rename_loop.simps) simp
  then show ?thesis by (simp add: rename_object_def)
qed

definition ex_two :: objstore where
  "ex_two = created 1 (''b'' @ replicate 31 (CHR 0x00)) ex_store"

lemma rename_uninitialised_counter_witness:
  "1 \<in> slots_with ex_two ''b'' \<and> rename_object 1 ''b'' ''c'' ex_two = Inl Uninitialised"
proof
  show slot: "1 \<in> slots_with ex_two ''b''"
    by (simp add: ex_two_def slots_with_def has_key_def cstr_def)
  have far: "objs ex_two j = zero_object" if "1 < j" for j
    using that by (auto simp: ex_two_def ex_store_def ex_empty_def)
  have "cstr (o_key (objs ex_two (j + 1))) \<noteq> ''b''" if "0 < j" for j
    using far [of "j + 1"] that by (simp add: zero_object_def cstr_def)
  moreover have "live ex_two 0" and "cstr (o_key (objs ex_two 0)) \<noteq> ''b''"
    by (simp_all add: ex_two_def ex_key_facts)
  ultimately show "rename_object 1 ''b'' ''c'' ex_two = Inl Uninitialised"
    using rename_uninitialised_counter [OF _ slot, of 1] by simp
qed

section \<open>Deletion\<close>

text \<open>A deletion that returns has returned 0, freed exactly the inode of the object
  found, blanked it, and left every other object alone.\<close>

theorem destroy_empties_slot:
  assumes "inodes_ok s" and "k \<in> slots_with s key" and "\<forall>j \<in> slots_with s key. k \<le> j"
    and "destroy_object key s = Inr (r, t)"
  shows "r = 0 \<and> inodes_ok t \<and> slots_with t key = slots_with s key - {k} \<and>
    (\<forall>j. j \<noteq> k \<longrightarrow> live t j = live s j \<and> objs t j = objs s j)"
proof -
  have "scan (has_key s key) 0 n_inodes = Some k"
  proof (rule scan_SomeI)
    show "\<not> has_key s key j" if "j < k" for j
    proof
      assume "has_key s key j"
      then have "j \<in> slots_with s key" using assms(2) that by (simp add: slots_with_def)
      then show False using assms(3) that by fastforce
    qed
  qed (use assms(2) in \<open>simp_all add: slots_with_def\<close>)
  from destroy_object_success [OF assms(1) this assms(4)]
  have d: "r = 0" "inodes_ok t" "\<not> live t k"
      "\<And>j. j \<noteq> k \<Longrightarrow> live t j = live s j \<and> objs t j = objs s j" by auto
  have "has_key t key j \<longleftrightarrow> j \<noteq> k \<and> has_key s key j" for j
    using d(3) d(4) [of j] by (cases "j = k") (simp_all add: has_key_def)
  then show ?thesis using d by (auto simp: slots_with_def)
qed

lemma ex_indexed_destroy: "\<exists>r t. destroy_object ''a'' ex_indexed = Inr (r, t)"
  using destroy_unlinkable [OF ex_indexed_files ex_indexed_found ex_indexed_unlinkable] by metis

lemma destroy_empties_slot_witness:
  "\<exists>t. destroy_object ''a'' ex_indexed = Inr (0, t) \<and> slots_with t ''a'' = {}"
proof -
  obtain r t where "destroy_object ''a'' ex_indexed = Inr (r, t)" using ex_indexed_destroy by blast
  with destroy_empties_slot [OF ex_indexed_ok, of 0 "''a''" r t] show ?thesis
    by (auto simp: ex_indexed_slots ex_store_slots)
qed

text \<open>C15: An object that leaves any of its four indirect pointers unused, every file below
  about 12 MB, cannot be deleted: the deletion toggles a bit in word -695 of the array of the data
  bitmap, outside it, in place of releasing a block. Files of at most four blocks leave the first
  pointer unused; where an earlier pointer is used, its index block must have reached the disk.\<close>

theorem destroy_small_file_faults:
  assumes "files_ok c s" and "k \<in> slots_with s key" and "\<forall>j \<in> slots_with s key. k \<le> j"
    and "i < 4" and "o_indirect (objs s k) ! i = 0"
    and "\<forall>j < i. disk_content (disk (dev s)) (o_indirect (objs s k) ! j) =
      content c (dev s) (o_indirect (objs s k) ! j)"
  shows "destroy_object key s = Inl OutOfBounds \<and> objfs_unlink (CHR 0x2F # key) s = Inl OutOfBounds \<and>
    (o_indirect (objs s k) ! i - 22528 + 287) sdiv 32 = -695 \<and>
    (\<forall>u. o_indirect (objs u k) = o_indirect (objs s k) \<longrightarrow> free_indirect k i u = Inl OutOfBounds)"
proof -
  have "scan (has_key s key) 0 n_inodes = Some k"
  proof (rule scan_SomeI)
    show "\<not> has_key s key j" if "j < k" for j
    proof
      assume "has_key s key j"
      then have "j \<in> slots_with s key" using assms(2) that by (simp add: slots_with_def)
      then show False using assms(3) that by fastforce
    qed
  qed (use assms(2) in \<open>simp_all add: slots_with_def\<close>)
  from destroy_unused [OF assms(1) this assms(4,5)] assms(6) have "destroy_object key s = Inl OutOfBounds" by blast
  then show ?thesis
    using assms(5) free_indirect_unused
    by (simp add: objfs_unlink_def path_key_def signed_divide_int_def)
qed

lemma destroy_small_file_faults_witness: "objfs_unlink ''/a'' ex_store = Inl OutOfBounds"
  using destroy_small_file_faults [OF ex_store_files [of Plain], of 0 "''a''" 0] by (auto simp: ex_store_slots)

text \<open>Deleting a name that no object has dereferences a null pointer.\<close>

theorem destroy_missing_faults:
  assumes "slots_with s key = {}"
  shows "destroy_object key s = Inl NullDeref \<and> objfs_unlink (CHR 0x2F # key) s = Inl NullDeref"
  using destroy_object_missing [OF assms] by (simp add: objfs_unlink_def path_key_def)

lemma destroy_missing_faults_witness: "objfs_unlink ''/zz'' ex_store = Inl NullDeref"
  using destroy_missing_faults [of ex_store "''zz''"] by (simp add: ex_store_slots)

text \<open>Releasing the direct block \<open>n\<close> of a deleted object does not clear bit \<open>n\<close> of the
  data bitmap: it flips bit \<open>n + 574\<close>, which marks a free block as used or hands out a block
  that another file owns.\<close>

theorem release_flips_wrong_bit:
  assumes "o_direct (objs s k) ! i = 22815 + int n" and "n + 574 < n_dblocks"
  shows "\<exists>t. free_direct k i s = Inr t \<and>
    (\<forall>m. bit_set (data_bitmap t) m \<longleftrightarrow> (m = n + 574) \<noteq> bit_set (data_bitmap s) m)"
proof -
  have "\<exists>s1. drop_cached (22815 + int n) s = Inr s1"
    by (auto simp: drop_cached_def Let_def)
  then have "\<exists>t. free_direct k i s = Inr t"
    using assms(1) toggle_released_block [OF assms(2)] by (auto simp: free_direct_def Let_def)
  then show ?thesis using free_direct_flips [OF assms] by blast
qed

lemma release_flips_wrong_bit_witness:
  "\<exists>t. free_direct 0 0 (obj_update 0 (\<lambda>ob. ob\<lparr>o_direct := [22815, 0, 0, 0]\<rparr>) ex_store) = Inr t \<and>
     bit_set (data_bitmap t) 574 \<and> \<not> bit_set (data_bitmap t) 0"
  using release_flips_wrong_bit
    [of "obj_update 0 (\<lambda>ob. ob\<lparr>o_direct := [22815, 0, 0, 0]\<rparr>) ex_store" 0 0 0] by auto

end
