(* ===== verification/Callback_Types.thy ===== *)
theory Callback_Types
  imports Store_Properties
begin

text \<open>
  The object table stays well-typed under every sequence of FUSE callbacks, whatever their
  arguments: the invariant \<open>inodes_ok\<close> holds after each call that returns, those that fail
  included, and every handle given out is the number of a slot of the table.
\<close>

section \<open>Calls\<close>

datatype fs_call =
    CallGetattr string
  | CallUnlink string
  | CallRename int string string
  | CallCreate string
  | CallOpen string
  | CallRead int nat int
  | CallWrite int "byte list" int

text \<open>A call of the table \<open>objfs_operations\<close>, with the handle that it gives out.\<close>

fun fs_call_run :: "fs_env \<Rightarrow> build \<Rightarrow> fs_call \<Rightarrow> objstore \<Rightarrow> (int option \<times> objstore) res" where
  "fs_call_run env c (CallGetattr path) s = (case objfs_getattr env path s of (_, _, t) \<Rightarrow> Inr (None, t))"
| "fs_call_run env c (CallUnlink path) s = rbind (objfs_unlink path s) (\<lambda>(_, t). Inr (None, t))"
| "fs_call_run env c (CallRename ctr old new) s = rbind (objfs_rename_key ctr old new s) (\<lambda>(_, t). Inr (None, t))"
| "fs_call_run env c (CallCreate path) s = rbind (objfs_create path s) (\<lambda>(_, h, t). Inr (h, t))"
| "fs_call_run env c (CallOpen path) s = (case objfs_open path s of (_, h, t) \<Rightarrow> Inr (h, t))"
| "fs_call_run env c (CallRead fh n off) s = rbind (objfs_read c fh n off s) (\<lambda>(_, _, t). Inr (None, t))"
| "fs_call_run env c (CallWrite fh buf off) s = rbind (objfs_write c fh buf off s) (\<lambda>(_, t). Inr (None, t))"

fun fs_calls_run :: "fs_env \<Rightarrow> build \<Rightarrow> fs_call list \<Rightarrow> objstore \<Rightarrow> (int option list \<times> objstore) res" where
  "fs_calls_run env c [] s = Inr ([], s)"
| "fs_calls_run env c (x # xs) s =
     rbind (fs_call_run env c x s) (\<lambda>(h, t). rbind (fs_calls_run env c xs t) (\<lambda>(hs, u). Inr (h # hs, u)))"

definition handle_ok :: "objstore \<Rightarrow> int \<Rightarrow> bool" where
  "handle_ok s h \<longleftrightarrow> 2 \<le> h \<and> h < int n_inodes + 2 \<and> live s (nat (h - 2))"

lemma handle_okI: "k < n_inodes \<Longrightarrow> live s k \<Longrightarrow> handle_ok s (int k + 2)"
  by (simp add: handle_ok_def)

section \<open>The table operations\<close>

lemma strcpy_typed:
  assumes "strcpy buf src = Inr b"
  shows "length b = length buf" and "CHR 0x00 \<in> set b"
  using assms by (auto simp: strcpy_def split: if_splits)

lemma inodes_ok_rekey:
  assumes "inodes_ok s" and "strcpy (o_key (objs s k)) new = Inr b"
  shows "inodes_ok (obj_update k (\<lambda>ob. ob\<lparr>o_key := b\<rparr>) (s\<lparr>dirty_array := d\<rparr>))"
  using assms(1) strcpy_typed [OF assms(2)] by (auto simp: inodes_ok_def blank_def)

lemma find_object_id_typed:
  assumes "inodes_ok s" and "find_object_id key s = (r, t)"
  shows "inodes_ok t" and "r = -1 \<or> handle_ok t r"
  using assms inodes_okD(5) [OF assms(1)]
  by (auto simp: find_object_id_def scan_Some_iff has_key_def handle_ok_def inodes_ok_def split: option.splits)

lemma create_object_typed:
  assumes ok: "inodes_ok s" and run: "create_object key s = Inr (r, t)"
  shows "inodes_ok t" and "r = -1 \<or> handle_ok t r"
proof -
  have "inodes_ok t \<and> (r = -1 \<or> handle_ok t r)"
  proof (cases "scan (\<lambda>k. \<not> live s k) 0 n_inodes")
    case None
    then show ?thesis using ok run by (simp add: create_object_def create_loop_scan)
  next
    case (Some k)
    then have k: "k < n_inodes" by (simp add: scan_Some_iff)
    obtain b where b: "strcpy (o_key (objs s k)) key = Inr b" and rt: "r = int k + 2" "t = created k b s"
      using Some run by (auto simp: create_object_def create_loop_scan created_def run_simps)
    have "inodes_ok t"
      unfolding rt by (rule created_inodes_ok [OF ok k]) (use strcpy_typed [OF b] inodes_okD(3) [OF ok k] in simp_all)
    then show ?thesis using k by (simp add: rt handle_okI)
  qed
  then show "inodes_ok t" "r = -1 \<or> handle_ok t r" by blast+
qed

lemma rename_loop_typed:
  "rename_loop key new pos n ctr obj actual s = Inr (e, a, t) \<Longrightarrow> inodes_ok s \<Longrightarrow> inodes_ok t"
proof (induction key new pos n ctr obj actual s rule: rename_loop.induct)
  case (1 key new pos ctr obj actual s)
  then show ?case by simp
next
  case (2 key new pos n ctr obj actual s)
  show ?case
  proof (cases "live s pos \<and> \<not> (obj < 0 \<or> int n_slots \<le> obj) \<and> cstr (o_key (objs s (nat obj))) = key \<and>
      actual = None \<and> \<not> (ctr sdiv 46 < 0 \<or> 22528 \<le> ctr sdiv 46)")
    case False
    then show ?thesis using 2 by (auto split: if_splits)
  next
    case True
    with 2(4) obtain b where b: "strcpy (o_key (objs s (nat obj))) new = Inr b"
        "rename_loop key new (Suc pos) n (s32 (ctr + 1)) (s32 (ctr + 1)) (Some (nat obj))
            (obj_update (nat obj) (\<lambda>ob. ob\<lparr>o_key := b\<rparr>)
              (s\<lparr>dirty_array := (dirty_array s)(nat (ctr sdiv 46) := 1)\<rparr>)) = Inr (e, a, t)"
      by (auto simp: run_simps)
    have "inodes_ok (obj_update (nat obj) (\<lambda>ob. ob\<lparr>o_key := b\<rparr>)
        (s\<lparr>dirty_array := (dirty_array s)(nat (ctr sdiv 46) := 1)\<rparr>))"
      by (rule inodes_ok_rekey [OF 2(5) b(1)])
    then show ?thesis using 2(3) [OF _ _ _ _ _ b(2)] True by simp
  qed
qed

lemma rename_object_typed:
  "rename_object ctr key new s = Inr (r, t) \<Longrightarrow> inodes_ok s \<Longrightarrow> inodes_ok t"
  using rename_loop_typed by (fastforce simp: rename_object_def run_simps split: option.splits)

lemma destroy_object_typed:
  assumes "destroy_object key s = Inr (r, t)" and "inodes_ok s"
  shows "inodes_ok t"
proof (cases "scan (has_key s key) 0 n_inodes")
  case None
  then show ?thesis using assms(1) by (simp add: destroy_object_def)
next
  case (Some k)
  from destroy_object_success [OF assms(2) this assms(1)] show ?thesis by blast
qed

section \<open>Reading and writing\<close>

lemma find_target_typed:
  assumes "find_target objid d s = (x, t)"
  shows "objs t = objs s" and "inode_bitmap t = inode_bitmap s" and "x = Some k \<Longrightarrow> k < n_inodes \<and> live s k"
  using assms by (auto simp: find_target_def scan_Some_iff split: option.splits if_splits)

lemma dev_read_table:
  "dev_read c blk s = Inr (x, t) \<Longrightarrow> objs t = objs s \<and> inode_bitmap t = inode_bitmap s"
  by (auto simp: dev_read_def run_simps)

lemma dev_write_table:
  "dev_write c blk x s = Inr t \<Longrightarrow> objs t = objs s \<and> inode_bitmap t = inode_bitmap s"
  by (auto simp: dev_write_def run_simps)

lemma dev_rmw_table:
  "dev_rmw c ind j v s = Inr t \<Longrightarrow> objs t = objs s \<and> inode_bitmap t = inode_bitmap s"
  by (auto simp: dev_rmw_def run_simps)

lemma read_one_table:
  "read_one c target a s = Inr (x, t) \<Longrightarrow> objs t = objs s \<and> inode_bitmap t = inode_bitmap s"
  by (auto simp: read_one_def run_simps split: if_splits option.splits dest!: dev_read_table)

lemma read_loop_table:
  "read_loop c target n pos acc s = Inr (data, t) \<Longrightarrow> objs t = objs s \<and> inode_bitmap t = inode_bitmap s"
proof (induction n arbitrary: pos acc s)
  case 0
  then show ?case by simp
next
  case (Suc n)
  then obtain x s1 where "read_one c target (pos sdiv 4096) s = Inr (x, s1)"
    and "(case x of None \<Rightarrow> Inr (acc @ replicate (4096 * Suc n) 0, s1)
          | Some b \<Rightarrow> read_loop c target n (s32 (pos + 4096)) (acc @ b) s1) = Inr (data, t)"
    by (auto simp: run_simps)
  with Suc.IH read_one_table show ?case by (cases x) fastforce+
qed

lemma objstore_read_typed:
  assumes run: "objstore_read c fh n off s = Inr (r, data, t)" and ok: "inodes_ok s"
  shows "inodes_ok t"
proof -
  obtain x s1 where f: "find_target fh False s = (x, s1)" by (cases "find_target fh False s")
  obtain d where "read_loop c x ((n + 4096 - 1) div 4096) (s32 off) [] s1 = Inr (d, t)"
    using run f by (auto simp: objstore_read_def run_simps)
  from read_loop_table [OF this] show ?thesis
    using ok inodes_ok_cong [of t s] find_target_typed(1,2) [OF f] by simp
qed

lemma free_data_block_table:
  assumes "free_data_block s = (n, t)"
  shows "objs t = objs s" and "inode_bitmap t = inode_bitmap s"
  using assms by (auto simp: free_data_block_def split: option.splits)

text \<open>A table that differs in the pointers and the length of a live slot only.\<close>

lemma inodes_ok_slot:
  assumes "inodes_ok s" and "live s k" and "inode_bitmap t = inode_bitmap s"
    and "objs t = (objs s)(k := ob)" and "o_id ob = o_id (objs s k)" and "o_key ob = o_key (objs s k)"
    and "length (o_direct ob) = length (o_direct (objs s k))" and "length (o_indirect ob) = length (o_indirect (objs s k))"
  shows "inodes_ok t"
  using assms unfolding inodes_ok_def by auto

lemma write_indirect_typed:
  assumes run: "write_indirect c k r base a data_1 temp s = Inr t" and ok: "inodes_ok s" and k: "live s k"
  shows "inodes_ok t"
proof (cases "a = base")
  case True
  obtain d2 s1 where f: "free_data_block s = (d2, s1)" by (cases "free_data_block s")
  let ?s2 = "obj_update k (\<lambda>t. t\<lparr>o_indirect := (o_indirect t)[r := data_1]\<rparr>) s1"
  obtain s3 where "dev_write c data_1 (Some (put_int zero_block 0 d2)) ?s2 = Inr s3" "dev_write c d2 temp s3 = Inr t"
    using run True f by (auto simp: write_indirect_def run_simps)
  from this [THEN dev_write_table] have "objs t = objs ?s2" "inode_bitmap t = inode_bitmap ?s2" by simp_all
  then show ?thesis
    using inodes_ok_slot [OF ok k, of t "(objs s k)\<lparr>o_indirect := (o_indirect (objs s k))[r := data_1]\<rparr>"]
      free_data_block_table [OF f] by simp
next
  case False
  then obtain s1 where "dev_rmw c (o_indirect (objs s k) ! r) (nat (a - base)) data_1 s = Inr s1"
      "dev_write c data_1 temp s1 = Inr t"
    using run by (auto simp: write_indirect_def run_simps)
  from dev_rmw_table [OF this(1)] dev_write_table [OF this(2)] ok show ?thesis
    using inodes_ok_cong [of t s] by simp
qed

lemma objstore_write_typed:
  assumes run: "objstore_write c fh buf off s = Inr (r, t)" and ok: "inodes_ok s"
  shows "inodes_ok t"
proof -
  obtain x s0 where f: "find_target fh True s = (x, s0)" by (cases "find_target fh True s")
  have ok0: "inodes_ok s0" using ok inodes_ok_cong [of s0 s] find_target_typed(1,2) [OF f] by simp
  show ?thesis
  proof (cases x)
    case None
    then show ?thesis using run f ok0 by (simp add: objstore_write_def)
  next
    case (Some k)
    then have k: "live s0 k" using find_target_typed [OF f] by simp
    obtain d1 s1 where b: "free_data_block s0 = (d1, s1)" by (cases "free_data_block s0")
    let ?s2 = "obj_update k (\<lambda>t. t\<lparr>o_size := o_size t + int (length buf)\<rparr>) s1"
    have ok2: "inodes_ok ?s2" and k2: "live ?s2 k"
      using inodes_ok_slot [OF ok0 k, of ?s2 "(objs s0 k)\<lparr>o_size := o_size (objs s0 k) + int (length buf)\<rparr>"]
        free_data_block_table [OF b] k by simp_all
    have "inodes_ok (obj_update k (\<lambda>t. t\<lparr>o_direct := (o_direct t)[j := d1]\<rparr>) s3)"
      if "dev_write c d1 temp ?s2 = Inr s3" for s3 temp j
      using inodes_ok_slot [OF ok2 k2, of "obj_update k (\<lambda>t. t\<lparr>o_direct := (o_direct t)[j := d1]\<rparr>) s3"
          "(objs s3 k)\<lparr>o_direct := (o_direct (objs s3 k))[j := d1]\<rparr>"] dev_write_table [OF that] by simp
    then show ?thesis
      using run f Some b ok2 write_indirect_typed [OF _ ok2 k2]
      by (auto simp: objstore_write_def run_simps split: if_splits option.splits)
  qed
qed

section \<open>The callbacks\<close>

lemma s32_handle: "handle_ok s h \<Longrightarrow> s32 h = h"
  by (rule s32_id) (simp_all add: handle_ok_def)

lemma fs_call_typed:
  assumes run: "fs_call_run env c x s = Inr (h, t)" and ok: "inodes_ok s"
  shows "inodes_ok t \<and> (\<forall>v. h = Some v \<longrightarrow> handle_ok t v)"
proof (cases x)
  case (CallGetattr path)
  obtain r u where f: "find_object_id (path_key path) s = (r, u)" by (cases "find_object_id (path_key path) s")
  then show ?thesis
    using run ok find_object_id_typed(1) [OF ok f]
    by (auto simp: CallGetattr objfs_getattr_def Let_def split: if_splits prod.splits)
next
  case (CallUnlink path)
  then show ?thesis using run destroy_object_typed [OF _ ok] by (auto simp: objfs_unlink_def run_simps)
next
  case (CallRename ctr old new)
  then show ?thesis using run rename_object_typed [OF _ ok] by (auto simp: objfs_rename_key_def run_simps)
next
  case (CallCreate path)
  then obtain r u where "create_object (path_key path) s = Inr (r, u)"
      "(if r < 0 then (- EEXIST, None, u) else (0, Some r, u)) = (fst (if r < 0 then (- EEXIST, None, u) else (0, Some r, u)), h, t)"
    using run by (auto simp: objfs_create_def run_simps)
  with create_object_typed [OF ok this(1)] show ?thesis by (auto split: if_splits)
next
  case (CallOpen path)
  obtain r u where f: "find_object_id (path_key path) s = (r, u)" by (cases "find_object_id (path_key path) s")
  with run have "t = u" "h = Some (s32 r) \<and> \<not> s32 r < 0 \<or> h = None"
    by (auto simp: CallOpen objfs_open_def Let_def split: if_splits)
  moreover note find_object_id_typed [OF ok f]
  ultimately show ?thesis using s32_handle [of u r] by auto
next
  case (CallRead fh n off)
  then show ?thesis using run objstore_read_typed [OF _ ok] by (auto simp: objfs_read_def run_simps)
next
  case (CallWrite fh buf off)
  then show ?thesis using run objstore_write_typed [OF _ ok] by (auto simp: objfs_write_def run_simps)
qed

section \<open>The property\<close>

text \<open>
  C7: in every state that the callbacks can bring the store to, the object table is well-typed:
  each object has its four direct and four indirect pointers and a terminated key in 32
  characters, a live slot has its own number and a free slot is empty. Every handle that a call
  gave out is the number of a slot. Nothing is assumed of the arguments, and calls that report
  an error are among those.
\<close>

theorem callbacks_well_typed:
  assumes "fs_calls_run env c xs s = Inr (hs, t)" and "inodes_ok s"
  shows "inodes_ok t \<and> (\<forall>v. Some v \<in> set hs \<longrightarrow> 2 \<le> v \<and> v < int n_inodes + 2)"
  using assms
proof (induction xs arbitrary: s hs)
  case Nil
  then show ?case by simp
next
  case (Cons x xs)
  then obtain h u hs' where x: "fs_call_run env c x s = Inr (h, u)" "fs_calls_run env c xs u = Inr (hs', t)" "hs = h # hs'"
    by (auto simp: run_simps)
  from fs_call_typed [OF x(1) Cons.prems(2)] Cons.IH [OF x(2)] show ?case
    by (auto simp: x(3) handle_ok_def)
qed

theorem callbacks_well_typed_witness:
  "\<exists>t. fs_calls_run ex_env Plain [CallCreate ''/b'', CallOpen ''/b''] ex_store = Inr ([Some 3, Some 3], t) \<and> inodes_ok t"
proof -
  note ok = files_okD(2) [OF ex_store_files [of Plain]]
  obtain t u where "objfs_create ''/b'' ex_store = Inr (0, Some 3, t)" "objfs_open ''/b'' t = (0, Some 3, u)"
    using create_then_open [OF ok, of 1 "''b''"] by (auto simp: ex_store_slots)
  then have "fs_calls_run ex_env Plain [CallCreate ''/b'', CallOpen ''/b''] ex_store = Inr ([Some 3, Some 3], u)" by simp
  then show ?thesis using callbacks_well_typed [OF _ ok] by blast
qed

end
