(* ===== verification/Kvstore.thy ===== *)
theory Kvstore
  imports Inodes
begin

text \<open>
  The clients of the object stores: the key-value library of the test cases,
  \<open>assignment4/testcases/lib/kvstore.c\<close>, the variant of \<open>assignment4/example/test/kvstore.c\<close>,
  and the programs over them. They use the file calls of the C library, which is a parameter,
  a record of functions on a state \<open>'w\<close>; what they rely on is the locale \<open>key_files\<close>.
  Messages to the standard error stream are left out.
\<close>

section \<open>The calls of the C library\<close>

text \<open>
  Results as in C: \<open>-1\<close> for a failure. \<open>c_stat\<close> and \<open>c_fstat\<close> give the buffer they fill,
  \<open>c_read\<close> the bytes it stores.
\<close>

record 'w posix =
  c_stat :: "string \<Rightarrow> 'w \<Rightarrow> (int \<times> stat \<times> 'w) res"
  c_open :: "string \<Rightarrow> int \<Rightarrow> 'w \<Rightarrow> (int \<times> 'w) res"
  c_fstat :: "int \<Rightarrow> 'w \<Rightarrow> (int \<times> stat \<times> 'w) res"
  c_write :: "int \<Rightarrow> byte list \<Rightarrow> 'w \<Rightarrow> (int \<times> 'w) res"
  c_read :: "int \<Rightarrow> nat \<Rightarrow> 'w \<Rightarrow> (int \<times> byte list \<times> 'w) res"
  c_close :: "int \<Rightarrow> 'w \<Rightarrow> (int \<times> 'w) res"
  c_rename :: "string \<Rightarrow> string \<Rightarrow> 'w \<Rightarrow> (int \<times> 'w) res"
  c_unlink :: "string \<Rightarrow> 'w \<Rightarrow> (int \<times> 'w) res"

abbreviation (input) O_RDWR :: int where "O_RDWR \<equiv> 2"
abbreviation (input) O_CREAT :: int where "O_CREAT \<equiv> 64"
abbreviation (input) O_EXCL :: int where "O_EXCL \<equiv> 128"

section \<open>The library\<close>

definition mnt_path :: "string \<Rightarrow> string" where
  "mnt_path key = ''../mnt/'' @ key"

text \<open>\<open>MAKE_KEY\<close> into an array of 512 characters.\<close>

definition make_key :: "string \<Rightarrow> string res" where
  "make_key key = (if 512 < 7 + length key + 1 then Inl BufferOverflow else Inr (mnt_path key))"

definition lookup_key :: "'w posix \<Rightarrow> string \<Rightarrow> 'w \<Rightarrow> (int \<times> 'w) res" where
  "lookup_key P key w =
     rbind (make_key key) (\<lambda>actual_key.
     rbind (c_stat P actual_key w) (\<lambda>(r, sbuf, w1).
       Inr (if r < 0 then -1 else st_size sbuf, w1)))"

text \<open>What \<open>write\<close> takes from the buffer \<open>val\<close>; a negative size is a huge \<open>size_t\<close>.\<close>

definition taken_bytes :: "byte list \<Rightarrow> int \<Rightarrow> byte list res" where
  "taken_bytes val n = (if n < 0 \<or> int (length val) < n then Inl OutOfBounds else Inr (take (nat n) val))"

definition put_key :: "'w posix \<Rightarrow> string \<Rightarrow> byte list \<Rightarrow> int \<Rightarrow> 'w \<Rightarrow> (int \<times> 'w) res" where
  "put_key P key val n w =
     rbind (make_key key) (\<lambda>actual_key.
     rbind (c_open P actual_key (O_RDWR + O_CREAT + O_EXCL) w) (\<lambda>(fd, w1).
       if fd < 0 then Inr (-1, w1)
       else rbind (taken_bytes val n) (\<lambda>buf.
         rbind (c_write P fd buf w1) (\<lambda>(r, w2).
           if r < 0 then rbind (c_close P fd w2) (\<lambda>(_, w3). Inr (-1, w3))
           else rbind (c_close P fd w2) (\<lambda>(_, w3). Inr (0, w3))))))"

text \<open>
  \<open>get_key\<close> reads at least a block into \<open>val\<close>, an array of \<open>cap\<close> bytes; the result has the
  bytes stored there.
\<close>

definition get_key :: "'w posix \<Rightarrow> nat \<Rightarrow> string \<Rightarrow> 'w \<Rightarrow> (int \<times> byte list \<times> 'w) res" where
  "get_key P cap key w =
     rbind (make_key key) (\<lambda>actual_key.
     rbind (c_open P actual_key O_RDWR w) (\<lambda>(fd, w1).
       if fd < 0 then Inr (-1, [], w1)
       else rbind (c_fstat P fd w1) (\<lambda>(r, sbuf, w2).
         if r < 0 then rbind (c_close P fd w2) (\<lambda>(_, w3). Inr (-1, [], w3))
         else
           let n = (if s32 (st_size sbuf) < 4096 then 4096 else s32 (st_size sbuf)) in
           rbind (c_read P fd (nat n) w2) (\<lambda>(r', data, w3).
             if cap < length data then Inl BufferOverflow
             else if r' < 0 then rbind (c_close P fd w3) (\<lambda>(_, w4). Inr (-1, data, w4))
             else rbind (c_close P fd w3) (\<lambda>(_, w4). Inr (0, data, w4))))))"

definition rename_key :: "'w posix \<Rightarrow> string \<Rightarrow> string \<Rightarrow> 'w \<Rightarrow> (int \<times> 'w) res" where
  "rename_key P oldkey newkey w =
     rbind (make_key oldkey) (\<lambda>actual_old.
     rbind (make_key newkey) (\<lambda>actual_new. c_rename P actual_old actual_new w))"

definition delete_key :: "'w posix \<Rightarrow> string \<Rightarrow> 'w \<Rightarrow> (int \<times> 'w) res" where
  "delete_key P key w = rbind (make_key key) (\<lambda>actual_key. c_unlink P actual_key w)"

text \<open>
  The variant of the example: files stay open after a failed transfer, and when \<open>fstat\<close> fails
  the process exits. Its other functions are those above.
\<close>

datatype 'a flow = Return 'a | Exit int

definition put_key_x :: "'w posix \<Rightarrow> string \<Rightarrow> byte list \<Rightarrow> int \<Rightarrow> 'w \<Rightarrow> (int \<times> 'w) res" where
  "put_key_x P key val n w =
     rbind (make_key key) (\<lambda>actual_key.
     rbind (c_open P actual_key (O_RDWR + O_CREAT + O_EXCL) w) (\<lambda>(fd, w1).
       if fd < 0 then Inr (-1, w1)
       else rbind (taken_bytes val n) (\<lambda>buf.
         rbind (c_write P fd buf w1) (\<lambda>(r, w2).
           if r < 0 then Inr (-1, w2)
           else rbind (c_close P fd w2) (\<lambda>(_, w3). Inr (0, w3))))))"

definition get_key_x :: "'w posix \<Rightarrow> nat \<Rightarrow> string \<Rightarrow> 'w \<Rightarrow> ((int \<times> byte list) flow \<times> 'w) res" where
  "get_key_x P cap key w =
     rbind (make_key key) (\<lambda>actual_key.
     rbind (c_open P actual_key O_RDWR w) (\<lambda>(fd, w1).
       if fd < 0 then Inr (Return (-1, []), w1)
       else rbind (c_fstat P fd w1) (\<lambda>(r, sbuf, w2).
         if r < 0 then Inr (Exit (-1), w2)
         else
           let n = (if s32 (st_size sbuf) < 4096 then 4096 else s32 (st_size sbuf)) in
           rbind (c_read P fd (nat n) w2) (\<lambda>(r', data, w3).
             if cap < length data then Inl BufferOverflow
             else if r' < 0 then Inr (Return (-1, data), w3)
             else rbind (c_close P fd w3) (\<lambda>(_, w4). Inr (Return (0, data), w4))))))"

section \<open>The programs of the test cases\<close>

text \<open>
  They are compiled without \<open>DEBUG_PRINT\<close> and without \<open>ALLOC\<close>: \<open>dprintf\<close> prints nothing, and
  the value stored is the argument itself. A program returns its exit status; \<open>argv\<close> has the
  name of the program first.
\<close>

definition bytes_of :: "string \<Rightarrow> byte list" where
  "bytes_of xs = map (\<lambda>c. word_of_nat (of_char c)) xs"

definition put_argument :: "'w posix \<Rightarrow> string \<Rightarrow> string \<Rightarrow> 'w \<Rightarrow> (int \<times> 'w) res" where
  "put_argument P key val w = put_key P key (bytes_of val @ [0]) (s32 (int (length val))) w"

definition create_main :: "'w posix \<Rightarrow> string list \<Rightarrow> 'w \<Rightarrow> (int \<times> 'w) res" where
  "create_main P argv w =
     (if length argv \<noteq> 3 then Inr (100, w)
      else rbind (put_argument P (argv ! 1) (argv ! 2) w)
             (\<lambda>(r, w1). Inr (if r < 0 then 10 else 0, w1)))"

text \<open>\<open>if (argv[1])\<close>: without an argument it is the null pointer that ends \<open>argv\<close>.\<close>

definition delete_main :: "'w posix \<Rightarrow> string list \<Rightarrow> 'w \<Rightarrow> (int \<times> 'w) res" where
  "delete_main P argv w =
     (if length argv \<le> 1 then Inr (100, w)
      else rbind (delete_key P (argv ! 1) w) (\<lambda>(r, w1). Inr (if r < 0 then 10 else 0, w1)))"

definition rename_main :: "'w posix \<Rightarrow> string list \<Rightarrow> 'w \<Rightarrow> (int \<times> 'w) res" where
  "rename_main P argv w =
     (if length argv \<noteq> 3 then Inr (100, w)
      else rbind (rename_key P (argv ! 1) (argv ! 2) w)
             (\<lambda>(r, w1). Inr (if r < 0 then 10 else 0, w1)))"

definition update_main :: "'w posix \<Rightarrow> string list \<Rightarrow> 'w \<Rightarrow> (int \<times> 'w) res" where
  "update_main P argv w =
     (if length argv \<noteq> 3 then Inr (100, w)
      else rbind (delete_key P (argv ! 1) w) (\<lambda>(r, w1).
        if r < 0 then Inr (10, w1)
        else rbind (put_argument P (argv ! 1) (argv ! 2) w1)
               (\<lambda>(r', w2). Inr (if r' < 0 then 11 else 0, w2))))"

text \<open>\<open>atoi\<close>: spaces, a sign, digits; a value that no \<open>int\<close> has is undefined.\<close>

definition digit_value :: "char \<Rightarrow> int" where
  "digit_value c = int (of_char c) - 48"

fun digits_value :: "int \<Rightarrow> string \<Rightarrow> int" where
  "digits_value v [] = v"
| "digits_value v (c # cs) =
     (if 0 \<le> digit_value c \<and> digit_value c \<le> 9 then digits_value (10 * v + digit_value c) cs else v)"

definition atoi :: "string \<Rightarrow> int res" where
  "atoi xs =
     (let cs = dropWhile (\<lambda>c. c \<in> set [CHR 0x20, CHR 0x09, CHR 0x0A, CHR 0x0B, CHR 0x0C, CHR 0x0D]) xs;
          v = (case cs of
                 [] \<Rightarrow> 0
               | c # ds \<Rightarrow> if c = CHR 0x2D then - digits_value 0 ds
                           else if c = CHR 0x2B then digits_value 0 ds else digits_value 0 cs)
      in if v < - (2 ^ 31) \<or> 2 ^ 31 \<le> v then Inl SignedOverflow else Inr v)"

text \<open>What \<open>printf\<close> prints of an array of bytes; \<open>filled\<close> of them have been set.\<close>

definition print_string :: "byte list \<Rightarrow> byte list res" where
  "print_string buf = (if 0 \<in> set buf then Inr (takeWhile (\<lambda>b. b \<noteq> 0) buf) else Inl OutOfBounds)"

text \<open>
  The size of the buffer is an argument, \<open>malloc\<close> of a negative one gives the null pointer, and
  the other allocations succeed. The result has the bytes printed, too.
\<close>

definition read_main :: "'w posix \<Rightarrow> string list \<Rightarrow> 'w \<Rightarrow> (int \<times> byte list \<times> 'w) res" where
  "read_main P argv w =
     (if length argv \<noteq> 3 then Inr (100, [], w)
      else rbind (atoi (argv ! 2)) (\<lambda>v.
        if 2 ^ 31 \<le> v + 1 then Inl SignedOverflow
        else if v + 1 < 0 then Inl NullDeref
        else rbind (get_key P (nat (v + 1)) (argv ! 1) w) (\<lambda>(r, data, w1).
          if r < 0 then Inr (10, [], w1)
          else rbind (print_string (data @ replicate (nat (v + 1) - length data) 0))
                 (\<lambda>out. Inr (0, out, w1)))))"

section \<open>The programs of the example\<close>

fun decimal :: "nat \<Rightarrow> string" where
  "decimal n = (if n < 10 then [char_of (48 + n)] else decimal (n div 10) @ [char_of (48 + n mod 10)])"

declare decimal.simps [simp del]

text \<open>\<open>sprintf\<close> into an array with the contents \<open>buf\<close>.\<close>

definition sprintf_to :: "byte list \<Rightarrow> string \<Rightarrow> byte list res" where
  "sprintf_to buf txt =
     (if length txt < length buf then Inr (bytes_of txt @ [0] @ drop (length txt + 1) buf)
      else Inl BufferOverflow)"

definition example_key :: "nat \<Rightarrow> string" where
  "example_key ctr = ''CS330###'' @ decimal ctr"

definition registered :: "nat \<Rightarrow> string" where
  "registered ctr = ''I am '' @ decimal ctr @ ''. Registered to CS330.''"

text \<open>
  The loop bodies; \<open>junk ctr\<close> is what the array \<open>value\<close> holds when it comes into being in
  round \<open>ctr\<close>. The first component of the state is what has been printed.
\<close>

definition create_round_x :: "'w posix \<Rightarrow> (nat \<Rightarrow> byte list) \<Rightarrow> nat \<Rightarrow> string \<times> 'w \<Rightarrow> (string \<times> 'w) res" where
  "create_round_x P junk ctr = (\<lambda>(out, w).
     rbind (sprintf_to (take 32 (junk ctr)) (registered ctr)) (\<lambda>val.
     rbind (put_key_x P (example_key ctr) val 32 w) (\<lambda>(r, w1).
       Inr (if r < 0 then out @ ''Create error'' @ [CHR 0x0A] else out, w1))))"

definition create_main_x :: "'w posix \<Rightarrow> (nat \<Rightarrow> byte list) \<Rightarrow> 'w \<Rightarrow> (string \<times> 'w) res" where
  "create_main_x P junk w = rfold (create_round_x P junk) [1 ..< 9] ([], w)"

text \<open>
  \<open>find_and_read.c\<close> prints the array whether or not it was filled: bytes that were not read
  are indeterminate.
\<close>

definition print_filled :: "byte list \<Rightarrow> byte list res" where
  "print_filled data =
     (if 0 \<in> set data then Inr (takeWhile (\<lambda>b. b \<noteq> 0) data)
      else if length data < 4096 then Inl Uninitialised else Inl OutOfBounds)"

text \<open>The state of its loop is the output, and the exit status once the process has ended.\<close>

definition read_round_x :: "'w posix \<Rightarrow> nat \<Rightarrow> byte list \<times> int option \<times> 'w \<Rightarrow> (byte list \<times> int option \<times> 'w) res" where
  "read_round_x P ctr = (\<lambda>(out, ended, w).
     if ended \<noteq> None then Inr (out, ended, w)
     else rbind (get_key_x P 4096 (example_key ctr) w) (\<lambda>(f, w1).
       case f of
         Exit code \<Rightarrow> Inr (out, Some code, w1)
       | Return (r, data) \<Rightarrow>
           rbind (print_filled data) (\<lambda>val.
             Inr (out @ (if r < 0 then bytes_of (''Get error'' @ [CHR 0x0A]) else []) @
                  bytes_of (''For key = '' @ example_key ctr @ '' value='') @ val @ [0x0A], None, w1))))"

definition find_and_read_main :: "'w posix \<Rightarrow> 'w \<Rightarrow> (byte list \<times> int option \<times> 'w) res" where
  "find_and_read_main P w = rfold (read_round_x P) [1 ..< 9] ([], None, w)"

definition delete_main_x :: "'w posix \<Rightarrow> string list \<Rightarrow> 'w \<Rightarrow> (int \<times> string \<times> 'w) res" where
  "delete_main_x P argv w =
     (if length argv \<le> 1
      then Inr (0, ''Usage: '' @ argv ! 0 @ '' <key>'' @ [CHR 0x0A], w)
      else rbind (delete_key P (argv ! 1) w) (\<lambda>(r, w1).
        Inr (0, if r < 0 then ''Delete error'' @ [CHR 0x0A] else [], w1)))"

text \<open>The array of 64 bytes for the new value has the contents \<open>junk\<close>.\<close>

definition update_main_x :: "'w posix \<Rightarrow> byte list \<Rightarrow> string list \<Rightarrow> 'w \<Rightarrow> (int \<times> string \<times> 'w) res" where
  "update_main_x P junk argv w =
     (if length argv \<le> 1
      then Inr (-1, ''Usage: '' @ argv ! 0 @ '' <key>'' @ [CHR 0x0A], w)
      else rbind (delete_key P (argv ! 1) w) (\<lambda>(r, w1).
        let out = (if r < 0 then ''Update error'' @ [CHR 0x0A] else []) in
        rbind (sprintf_to (take 64 junk) (''I am [updated] '' @ argv ! 1 @ ''. Registered to CS330.'')) (\<lambda>val.
        rbind (put_key_x P (argv ! 1) val 64 w1) (\<lambda>(r', w2).
          Inr (0, out @ (if r' < 0 then ''Create error'' @ [CHR 0x0A] else []), w2)))))"

section \<open>What the clients rely on\<close>

text \<open>
  The store below the mount point as the clients see it: a map from keys to contents, and a
  number of files and of blocks that it certainly still has room for.
\<close>

record key_view =
  contents :: "string \<Rightarrow> byte list option"
  slots :: nat
  blocks :: nat

text \<open>
  The contract: \<open>good\<close> is an invariant of the state, \<open>pos w fd\<close> the key and the position of an
  open descriptor, \<open>name_ok\<close> says which names the file system takes. A file is written by one
  call, of at most a block, and read by one; files that are removed are not open.
\<close>

locale key_files =
  fixes P :: "'w posix" and good :: "'w \<Rightarrow> bool" and view :: "'w \<Rightarrow> key_view"
    and pos :: "'w \<Rightarrow> int \<Rightarrow> (string \<times> nat) option" and name_ok :: "string \<Rightarrow> bool"
  assumes open_new: "good w \<Longrightarrow> name_ok key \<Longrightarrow> contents (view w) key = None \<Longrightarrow> 0 < slots (view w) \<Longrightarrow>
      \<exists>fd w'. c_open P (mnt_path key) (O_RDWR + O_CREAT + O_EXCL) w = Inr (fd, w') \<and> 0 \<le> fd \<and> good w' \<and>
        contents (view w') = (contents (view w))(key \<mapsto> []) \<and> slots (view w) \<le> Suc (slots (view w')) \<and>
        blocks (view w') = blocks (view w) \<and> pos w' = (pos w)(fd \<mapsto> (key, 0))"
    and open_taken: "good w \<Longrightarrow> name_ok key \<Longrightarrow> contents (view w) key = Some xs \<Longrightarrow>
      \<exists>w'. c_open P (mnt_path key) (O_RDWR + O_CREAT + O_EXCL) w = Inr (-1, w') \<and> good w' \<and> view w' = view w \<and>
        pos w' = pos w"
    and open_found: "good w \<Longrightarrow> name_ok key \<Longrightarrow> contents (view w) key = Some xs \<Longrightarrow>
      \<exists>fd w'. c_open P (mnt_path key) O_RDWR w = Inr (fd, w') \<and> 0 \<le> fd \<and> good w' \<and> view w' = view w \<and>
        pos w' fd = Some (key, 0)"
    and open_missing: "good w \<Longrightarrow> name_ok key \<Longrightarrow> contents (view w) key = None \<Longrightarrow>
      \<exists>w'. c_open P (mnt_path key) O_RDWR w = Inr (-1, w') \<and> good w' \<and> view w' = view w"
    and stat_found: "good w \<Longrightarrow> name_ok key \<Longrightarrow> contents (view w) key = Some xs \<Longrightarrow>
      \<exists>sb w'. c_stat P (mnt_path key) w = Inr (0, sb, w') \<and> good w' \<and> view w' = view w \<and>
        st_size sb = int (length xs)"
    and stat_missing: "good w \<Longrightarrow> name_ok key \<Longrightarrow> contents (view w) key = None \<Longrightarrow>
      \<exists>sb w'. c_stat P (mnt_path key) w = Inr (-1, sb, w') \<and> good w' \<and> view w' = view w"
    and fstat_open: "good w \<Longrightarrow> pos w fd = Some (key, i) \<Longrightarrow> contents (view w) key = Some xs \<Longrightarrow>
      \<exists>sb w'. c_fstat P fd w = Inr (0, sb, w') \<and> good w' \<and> view w' = view w \<and> pos w' fd = pos w fd \<and>
        st_size sb = int (length xs)"
    and write_first: "good w \<Longrightarrow> pos w fd = Some (key, 0) \<Longrightarrow> contents (view w) key = Some [] \<Longrightarrow>
      xs \<noteq> [] \<Longrightarrow> length xs \<le> 4096 \<Longrightarrow> 0 < blocks (view w) \<Longrightarrow>
      \<exists>w'. c_write P fd xs w = Inr (int (length xs), w') \<and> good w' \<and>
        contents (view w') = (contents (view w))(key \<mapsto> xs) \<and> slots (view w') = slots (view w) \<and>
        blocks (view w) \<le> Suc (blocks (view w')) \<and> (\<exists>i. pos w' = (pos w)(fd \<mapsto> (key, i)))"
    and read_first: "good w \<Longrightarrow> pos w fd = Some (key, 0) \<Longrightarrow> contents (view w) key = Some xs \<Longrightarrow>
      xs \<noteq> [] \<Longrightarrow> length xs \<le> 4096 \<Longrightarrow>
      \<exists>r ys w'. c_read P fd 4096 w = Inr (r, ys, w') \<and> 0 \<le> r \<and> length ys \<le> 4096 \<and>
        take (length xs) ys = xs \<and> good w' \<and> view w' = view w \<and> pos w' fd \<noteq> None"
    and close_open: "good w \<Longrightarrow> pos w fd \<noteq> None \<Longrightarrow>
      \<exists>r w'. c_close P fd w = Inr (r, w') \<and> good w' \<and> view w' = view w \<and> pos w' = (pos w)(fd := None)"
begin

lemma lookup_key_found:
  assumes "good w" and "name_ok key" and "length key \<le> 504" and "contents (view w) key = Some xs"
  shows "\<exists>w'. lookup_key P key w = Inr (int (length xs), w') \<and> good w' \<and> view w' = view w"
  using stat_found [OF assms(1,2,4)] assms(3) by (auto simp: lookup_key_def make_key_def)

lemma lookup_key_missing:
  assumes "good w" and "name_ok key" and "length key \<le> 504" and "contents (view w) key = None"
  shows "\<exists>w'. lookup_key P key w = Inr (-1, w') \<and> good w' \<and> view w' = view w"
  using stat_missing [OF assms(1,2,4)] assms(3) by (auto simp: lookup_key_def make_key_def)

lemma put_key_new:
  assumes w: "good w" "name_ok key" "length key \<le> 504" "contents (view w) key = None"
      "0 < slots (view w)" "0 < blocks (view w)"
    and val: "0 < n" "n \<le> 4096" "n \<le> length val"
  shows "\<exists>w'. put_key P key val (int n) w = Inr (0, w') \<and> put_key_x P key val (int n) w = Inr (0, w') \<and>
    good w' \<and> contents (view w') = (contents (view w))(key \<mapsto> take n val) \<and>
    slots (view w) \<le> Suc (slots (view w')) \<and> blocks (view w) \<le> Suc (blocks (view w')) \<and>
    (\<forall>fd. pos w' fd = None \<or> pos w' fd = pos w fd)"
proof -
  obtain fd w1 where o: "c_open P (mnt_path key) (O_RDWR + O_CREAT + O_EXCL) w = Inr (fd, w1)" "0 \<le> fd" "good w1"
      "contents (view w1) = (contents (view w))(key \<mapsto> [])" "slots (view w) \<le> Suc (slots (view w1))"
      "blocks (view w1) = blocks (view w)" "pos w1 = (pos w)(fd \<mapsto> (key, 0))"
    using open_new [OF w(1,2,4,5)] by blast
  have at: "pos w1 fd = Some (key, 0)" using o(7) by simp
  have xs: "take n val \<noteq> []" "length (take n val) = n" using val by auto
  obtain i w2 where wr: "c_write P fd (take n val) w1 = Inr (int n, w2)" "good w2"
      "contents (view w2) = (contents (view w1))(key \<mapsto> take n val)" "slots (view w2) = slots (view w1)"
      "blocks (view w1) \<le> Suc (blocks (view w2))" "pos w2 = (pos w1)(fd \<mapsto> (key, i))"
    using write_first [OF o(3) at _ xs(1)] o(4,6) xs(2) val(2) w(6) by auto
  then have "pos w2 fd \<noteq> None" by simp
  then obtain r w3 where cl: "c_close P fd w2 = Inr (r, w3)" "good w3" "view w3 = view w2"
      "pos w3 = (pos w2)(fd := None)"
    using close_open [OF wr(2)] by blast
  have "taken_bytes val (int n) = Inr (take n val)" using val by (simp add: taken_bytes_def)
  then have "put_key P key val (int n) w = Inr (0, w3)" and "put_key_x P key val (int n) w = Inr (0, w3)"
    using o(1,2) wr(1) cl(1) w(3) by (simp_all add: put_key_def put_key_x_def make_key_def)
  moreover have "\<forall>fd'. pos w3 fd' = None \<or> pos w3 fd' = pos w fd'"
    using cl(4) wr(6) o(7) by simp
  ultimately show ?thesis using cl(2,3) wr(3-5) o(4-6) by auto
qed

lemma put_key_taken:
  assumes "good w" and "name_ok key" and "length key \<le> 504" and "contents (view w) key = Some xs"
  shows "\<exists>w'. put_key P key val n w = Inr (-1, w') \<and> good w' \<and> view w' = view w \<and> pos w' = pos w"
  using open_taken [OF assms(1,2,4)] assms(3) by (auto simp: put_key_def make_key_def)

lemma get_key_found:
  assumes w: "good w" "name_ok key" "length key \<le> 504" "contents (view w) key = Some xs"
    and xs: "xs \<noteq> []" "length xs \<le> 4096" and cap: "4096 \<le> cap"
  shows "\<exists>ys w'. get_key P cap key w = Inr (0, ys, w') \<and> get_key_x P cap key w = Inr (Return (0, ys), w') \<and>
    length ys \<le> 4096 \<and> take (length xs) ys = xs \<and> good w' \<and> view w' = view w"
proof -
  obtain fd w1 where o: "c_open P (mnt_path key) O_RDWR w = Inr (fd, w1)" "0 \<le> fd" "good w1" "view w1 = view w"
      "pos w1 fd = Some (key, 0)"
    using open_found [OF w(1,2,4)] by blast
  then obtain sb w2 where s: "c_fstat P fd w1 = Inr (0, sb, w2)" "good w2" "view w2 = view w1" "pos w2 fd = pos w1 fd"
      "st_size sb = int (length xs)"
    using fstat_open [OF o(3,5)] w(4) by metis
  then have at: "pos w2 fd = Some (key, 0)" "contents (view w2) key = Some xs" using o w(4) by simp_all
  obtain r ys w3 where rd: "c_read P fd 4096 w2 = Inr (r, ys, w3)" "0 \<le> r" "length ys \<le> 4096"
      "take (length xs) ys = xs" "good w3" "view w3 = view w2" "pos w3 fd \<noteq> None"
    using read_first [OF s(2) at xs] by blast
  obtain r' w4 where cl: "c_close P fd w3 = Inr (r', w4)" "good w4" "view w4 = view w3"
    using close_open [OF rd(5,7)] by blast
  have n: "s32 (st_size sb) = int (length xs)" using s(5) xs(2) by simp
  have "nat (if s32 (st_size sb) < 4096 then 4096 else s32 (st_size sb)) = 4096"
    using xs(2) unfolding n by auto
  then have "get_key P cap key w = Inr (0, ys, w4)" and "get_key_x P cap key w = Inr (Return (0, ys), w4)"
    using o(1,2) s(1) rd(1-3) cl(1) w(3) cap
    unfolding get_key_def get_key_x_def make_key_def Let_def by simp_all
  then show ?thesis using cl rd s o by auto
qed

lemma get_key_missing:
  assumes "good w" and "name_ok key" and "length key \<le> 504" and "contents (view w) key = None"
  shows "\<exists>w'. get_key P cap key w = Inr (-1, [], w') \<and> good w' \<and> view w' = view w"
  using open_missing [OF assms(1,2,4)] assms(3) by (auto simp: get_key_def make_key_def)

text \<open>What was put is found and read back; every other key is as before.\<close>

lemma put_gives_value:
  assumes w: "good w" "name_ok key" "length key \<le> 504" "contents (view w) key = None"
      "0 < slots (view w)" "0 < blocks (view w)"
    and val: "0 < n" "n \<le> 4096" "n \<le> length val" and cap: "4096 \<le> cap"
  shows "\<exists>w1 w2 w3 ys. put_key P key val (int n) w = Inr (0, w1) \<and> lookup_key P key w1 = Inr (int n, w2) \<and>
    get_key P cap key w2 = Inr (0, ys, w3) \<and> take n ys = take n val \<and> good w3 \<and>
    contents (view w3) = (contents (view w))(key \<mapsto> take n val)"
proof -
  obtain w1 where p: "put_key P key val (int n) w = Inr (0, w1)" "good w1"
      "contents (view w1) = (contents (view w))(key \<mapsto> take n val)"
    using put_key_new [OF w val] by blast
  have len: "length (take n val) = n" "take n val \<noteq> []" using val by auto
  obtain w2 where l: "lookup_key P key w1 = Inr (int n, w2)" "good w2" "view w2 = view w1"
    using lookup_key_found [OF p(2) w(2,3), of "take n val"] p(3) len(1) by auto
  have "contents (view w2) key = Some (take n val)" "length (take n val) \<le> 4096"
    using p(3) l(3) len(1) val(2) by simp_all
  from get_key_found [OF l(2) w(2,3) this(1) len(2) this(2) cap] obtain ys w3 where
      r: "get_key P cap key w2 = Inr (0, ys, w3)" "take (length (take n val)) ys = take n val"
        "good w3" "view w3 = view w2" by blast
  then show ?thesis using p(1,3) l(1,3) len(1) by metis
qed

text \<open>
  The program \<open>create\<close> of the test cases: it stores its argument; run again for the same key
  it fails and leaves the value alone.
\<close>

lemma create_twice:
  assumes w: "good w" "name_ok key" "length key \<le> 504"
      "contents (view w) key = None" "0 < slots (view w)" "0 < blocks (view w)"
    and val: "val \<noteq> []" "length val \<le> 4096" and cap: "4096 \<le> cap"
  shows "\<exists>w1 w2 w3 w4 ys. create_main P [prog, key, val] w = Inr (0, w1) \<and>
    create_main P [prog, key, val'] w1 = Inr (10, w2) \<and>
    lookup_key P key w2 = Inr (int (length val), w3) \<and> get_key P cap key w3 = Inr (0, ys, w4) \<and>
    take (length val) ys = bytes_of val \<and>
    contents (view w4) = (contents (view w))(key \<mapsto> bytes_of val)"
proof -
  have arg: "s32 (int (length val)) = int (length val)" "0 < length val" "length val \<le> length (bytes_of val @ [0])"
      "take (length val) (bytes_of val @ [0]) = bytes_of val" "length (bytes_of val) = length val"
    using val by (simp_all add: bytes_of_def)
  obtain w1 where p: "put_key P key (bytes_of val @ [0]) (int (length val)) w = Inr (0, w1)" "good w1"
      "contents (view w1) = (contents (view w))(key \<mapsto> take (length val) (bytes_of val @ [0]))"
    using put_key_new [OF w arg(2) val(2) arg(3)] by blast
  then have c1: "contents (view w1) = (contents (view w))(key \<mapsto> bytes_of val)" using arg(4) by simp
  obtain w2 where t: "put_key P key (bytes_of val' @ [0]) (s32 (int (length val'))) w1 = Inr (-1, w2)" "good w2"
      "view w2 = view w1"
    using put_key_taken [OF p(2) w(2,3), of "bytes_of val"] c1 by auto
  have c2: "contents (view w2) key = Some (bytes_of val)" using c1 t(3) by simp
  obtain w3 where l: "lookup_key P key w2 = Inr (int (length val), w3)" "good w3" "view w3 = view w2"
    using lookup_key_found [OF t(2) w(2,3) c2] arg(5) by auto
  have c3: "contents (view w3) key = Some (bytes_of val)" using c2 l(3) by simp
  have "bytes_of val \<noteq> []" "length (bytes_of val) \<le> 4096" using val arg(5) by auto
  from get_key_found [OF l(2) w(2,3) c3 this cap] obtain ys w4 where
      g: "get_key P cap key w3 = Inr (0, ys, w4)" "take (length val) ys = bytes_of val" "view w4 = view w3"
    using arg(5) by auto
  then show ?thesis
    using p(1) t(1,3) l(1,3) arg(1) c1
    by (intro exI [of _ w1] exI [of _ w2] exI [of _ w3] exI [of _ w4] exI [of _ ys])
      (simp add: create_main_def put_argument_def)
qed

end

text \<open>File systems with an unlink.\<close>

locale removing_files = key_files +
  assumes unlink_found: "good w \<Longrightarrow> name_ok key \<Longrightarrow> contents (view w) key = Some xs \<Longrightarrow>
      (\<And>fd i. pos w fd \<noteq> Some (key, i)) \<Longrightarrow>
      \<exists>w'. c_unlink P (mnt_path key) w = Inr (0, w') \<and> good w' \<and>
        contents (view w') = (contents (view w))(key := None) \<and> slots (view w') = Suc (slots (view w)) \<and>
        blocks (view w') = blocks (view w)"
begin

text \<open>\<open>update.c\<close> of the example gives the key its new value.\<close>

lemma update_replaces:
  assumes w: "good w" "name_ok key" "length key < 27" "contents (view w) key = Some xs" "0 < blocks (view w)"
    and junk: "length junk = 64" and closed: "\<And>fd i. pos w fd \<noteq> Some (key, i)"
  shows "\<exists>w'. update_main_x P junk [prog, key] w = Inr (0, [], w') \<and> good w' \<and>
    contents (view w') = (contents (view w))(key \<mapsto>
      bytes_of (''I am [updated] '' @ key @ ''. Registered to CS330.'') @ [0] @ drop (length key + 38) junk)"
proof -
  let ?txt = "''I am [updated] '' @ key @ ''. Registered to CS330.''"
  let ?val = "bytes_of ?txt @ [0] @ drop (length key + 38) junk"
  obtain w1 where d: "delete_key P key w = Inr (0, w1)" "good w1"
      "contents (view w1) = (contents (view w))(key := None)" "0 < slots (view w1)" "0 < blocks (view w1)"
    using unlink_found [OF w(1,2,4) closed] w(3,5) by (auto simp: delete_key_def make_key_def)
  have t: "length ?txt = length key + 37" by simp
  have s: "sprintf_to (take 64 junk) ?txt = Inr ?val"
    unfolding sprintf_to_def t using w(3) junk by (simp add: add.commute)
  have len: "length ?val = 64" using w(3) junk by (simp add: bytes_of_def)
  have pre: "length key \<le> 504" "contents (view w1) key = None" using w(3) d(3) by simp_all
  obtain w2 where "put_key_x P key ?val (int 64) w1 = Inr (0, w2)" "good w2"
      "contents (view w2) = (contents (view w1))(key \<mapsto> take 64 ?val)"
    using put_key_new [OF d(2) w(2) pre d(4,5), of 64 ?val] len by auto
  moreover have "take 64 ?val = ?val" using len by simp
  ultimately show ?thesis
    using d(1,3) s by (intro exI [of _ w2]) (simp add: update_main_x_def Let_def)
qed

end

text \<open>The programs of the example, one after the other: eight keys are stored and printed.\<close>

lemma decimal_digit: "n < 10 \<Longrightarrow> decimal n = [char_of (48 + n)]"
  by (simp add: decimal.simps)

lemma example_key_inject: "i < 10 \<Longrightarrow> j < 10 \<Longrightarrow> example_key i = example_key j \<longleftrightarrow> i = j"
proof -
  assume "i < 10" and "j < 10"
  moreover have "(char_of (48 + i) = (char_of (48 + j) :: char)) = (i = j)"
  proof
    assume "char_of (48 + i) = (char_of (48 + j) :: char)"
    then have "(of_char (char_of (48 + i) :: char) :: nat) = of_char (char_of (48 + j) :: char)" by simp
    then show "i = j" using \<open>i < 10\<close> \<open>j < 10\<close> by (simp add: take_bit_eq_mod)
  qed simp
  ultimately show ?thesis by (simp add: example_key_def decimal_digit)
qed

definition registered_bytes :: "(nat \<Rightarrow> byte list) \<Rightarrow> nat \<Rightarrow> byte list" where
  "registered_bytes junk ctr = bytes_of (registered ctr) @ [0] @ drop 29 (take 32 (junk ctr))"

lemma length_bytes_of [simp]: "length (bytes_of xs) = length xs"
  by (simp add: bytes_of_def)

lemma length_registered: "ctr < 10 \<Longrightarrow> length (registered ctr) = 28"
  by (simp add: registered_def decimal_digit)

lemma registered_val:
  assumes "ctr < 10" and "32 \<le> length (junk ctr)"
  shows "sprintf_to (take 32 (junk ctr)) (registered ctr) = Inr (registered_bytes junk ctr)"
    and "length (registered_bytes junk ctr) = 32"
  using assms length_registered [OF assms(1)]
  by (simp_all add: registered_bytes_def sprintf_to_def)

definition example_line :: "nat \<Rightarrow> byte list" where
  "example_line ctr = bytes_of (''For key = '' @ example_key ctr @ '' value='') @ bytes_of (registered ctr) @ [0x0A]"

lemma bytes_of_nonzero: "CHR 0x00 \<notin> set xs \<Longrightarrow> 0 \<notin> set (bytes_of xs)"
proof
  assume "CHR 0x00 \<notin> set xs" and "0 \<in> set (bytes_of xs)"
  then obtain c where c: "c \<in> set xs" and z: "(word_of_nat (of_char c) :: byte) = 0"
    by (auto simp: bytes_of_def)
  have "(of_char c :: nat) < 256" by simp
  then have "unat (word_of_nat (of_char c) :: byte) = of_char c" by (simp add: unat_of_nat)
  then have "of_char c = (0 :: nat)" using z by simp
  moreover have "of_char (CHR 0x00) = (0 :: nat)" by simp
  ultimately have "(of_char c :: nat) = of_char (CHR 0x00)" by (simp only:)
  then have "c = CHR 0x00" by (simp only: of_char_eq_iff)
  then show False using c \<open>CHR 0x00 \<notin> set xs\<close> by simp
qed

lemma registered_nonzero: "ctr < 10 \<Longrightarrow> 0 \<notin> set (bytes_of (registered ctr))"
proof (rule bytes_of_nonzero)
  assume c: "ctr < 10"
  have "(of_char (char_of (48 + ctr) :: char) :: nat) \<noteq> of_char (CHR 0x00)"
    using c by (simp add: take_bit_eq_mod)
  then have "char_of (48 + ctr) \<noteq> CHR 0x00" by metis
  then show "CHR 0x00 \<notin> set (registered ctr)" using c by (simp add: registered_def decimal_digit)
qed

lemma print_registered:
  assumes "ctr < 10" and "32 \<le> length (junk ctr)"
    and "take (length (registered_bytes junk ctr)) ys = registered_bytes junk ctr"
  shows "print_filled ys = Inr (bytes_of (registered ctr))"
proof -
  have ys: "ys = bytes_of (registered ctr) @ 0 # drop 29 (take 32 (junk ctr)) @ drop (length (registered_bytes junk ctr)) ys"
    using assms(3) append_take_drop_id [of "length (registered_bytes junk ctr)" ys]
    by (simp add: registered_bytes_def)
  have "0 \<in> set ys" by (subst ys) simp
  moreover have "takeWhile (\<lambda>b. b \<noteq> 0) ys = bytes_of (registered ctr)"
    using registered_nonzero [OF assms(1)] by (subst ys) (subst takeWhile_append2; force)
  ultimately show ?thesis by (simp add: print_filled_def)
qed

context key_files
begin

lemma create_all:
  assumes w: "good w" and names: "\<And>i. i < 10 \<Longrightarrow> name_ok (example_key i)"
    and new: "\<And>i. i < 10 \<Longrightarrow> contents (view w) (example_key i) = None"
    and room: "n \<le> slots (view w)" "n \<le> blocks (view w)" and n: "n < 10" and junk: "\<And>i. 32 \<le> length (junk i)"
  shows "\<exists>w'. rfold (create_round_x P junk) [1 ..< Suc n] (out, w) = Inr (out, w') \<and> good w' \<and>
    slots (view w) \<le> n + slots (view w') \<and> blocks (view w) \<le> n + blocks (view w') \<and>
    contents (view w') = (\<lambda>key. if \<exists>i \<in> {1 .. n}. key = example_key i
      then Some (registered_bytes junk (THE i. i < 10 \<and> key = example_key i)) else contents (view w) key)"
  using room n
proof (induction n)
  case 0
  then show ?case using w by simp
next
  case (Suc n)
  define f where "f m = (\<lambda>key. if \<exists>i \<in> {1 .. m}. key = example_key i
      then Some (registered_bytes junk (THE i. i < 10 \<and> key = example_key i)) else contents (view w) key)" for m
  obtain w1 where w1: "rfold (create_round_x P junk) [1 ..< Suc n] (out, w) = Inr (out, w1)" "good w1"
      "slots (view w) \<le> n + slots (view w1)" "blocks (view w) \<le> n + blocks (view w1)" "contents (view w1) = f n"
    using Suc unfolding f_def by auto
  let ?k = "Suc n"
  have k: "?k < 10" using Suc.prems by simp
  have fresh: "contents (view w1) (example_key ?k) = None"
    using new [OF k] example_key_inject [OF k] k by (auto simp: w1(5) f_def)
  have len: "length (example_key ?k) \<le> 504" using k by (simp add: example_key_def decimal_digit)
  have room: "0 < slots (view w1)" "0 < blocks (view w1)" using w1(3,4) Suc.prems by simp_all
  note val = registered_val [where junk = junk, OF k junk]
  obtain w2 where w2: "put_key_x P (example_key ?k) (registered_bytes junk ?k) (int 32) w1 = Inr (0, w2)" "good w2"
      "contents (view w2) = (contents (view w1))(example_key ?k \<mapsto> take 32 (registered_bytes junk ?k))"
      "slots (view w1) \<le> Suc (slots (view w2))" "blocks (view w1) \<le> Suc (blocks (view w2))"
    using put_key_new [OF w1(2) names [OF k] len fresh room, of 32 "registered_bytes junk ?k"] val(2) by auto
  have the: "(THE i. i < 10 \<and> example_key ?k = example_key i) = ?k"
    using k example_key_inject [OF k] by (intro the_equality) auto
  have "f ?k key = ((f n)(example_key ?k \<mapsto> registered_bytes junk ?k)) key" for key
  proof (cases "key = example_key ?k")
    case True
    have "\<exists>i \<in> {1 .. ?k}. key = example_key i" using True by (intro bexI [of _ ?k]) simp_all
    then show ?thesis using the True by (simp add: f_def)
  next
    case False
    then have "(\<exists>i \<in> {1 .. ?k}. key = example_key i) = (\<exists>i \<in> {1 .. n}. key = example_key i)"
      by (auto simp: le_Suc_eq)
    then show ?thesis using False by (simp add: f_def)
  qed
  then have "f ?k = (f n)(example_key ?k \<mapsto> registered_bytes junk ?k)" by blast
  then have c: "contents (view w2) = f ?k" using w2(3) w1(5) val(2) by simp
  have "[1 ..< Suc ?k] = [1 ..< Suc n] @ [?k]" by simp
  then have "rfold (create_round_x P junk) [1 ..< Suc ?k] (out, w) = create_round_x P junk ?k (out, w1)"
    using w1(1) by (simp only: rfold_append) (simp add: rbind_def split: sum.split)
  also have "\<dots> = Inr (out, w2)" using val(1) w2(1) by (simp add: create_round_x_def)
  finally show ?case using w2 w1(3,4) c unfolding f_def by auto
qed

lemma print_all:
  assumes w: "good w" and names: "\<And>i. i < 10 \<Longrightarrow> name_ok (example_key i)" and n: "n < 10"
    and val: "\<And>i. 1 \<le> i \<Longrightarrow> i \<le> n \<Longrightarrow> contents (view w) (example_key i) = Some (registered_bytes junk i)"
    and junk: "\<And>i. 32 \<le> length (junk i)"
  shows "\<exists>w'. rfold (read_round_x P) [1 ..< Suc n] (out, None, w) =
      Inr (out @ concat (map example_line [1 ..< Suc n]), None, w') \<and> good w' \<and> view w' = view w"
  using n val
proof (induction n)
  case 0
  then show ?case using w by simp
next
  case (Suc n)
  let ?k = "Suc n"
  have k: "?k < 10" using Suc.prems by simp
  obtain w1 where w1: "rfold (read_round_x P) [1 ..< Suc n] (out, None, w) =
      Inr (out @ concat (map example_line [1 ..< Suc n]), None, w1)" "good w1" "view w1 = view w"
    using Suc by auto
  have len: "length (example_key ?k) \<le> 504" using k by (simp add: example_key_def decimal_digit)
  have c: "contents (view w1) (example_key ?k) = Some (registered_bytes junk ?k)" using Suc.prems w1(3) by simp
  have ne: "registered_bytes junk ?k \<noteq> []" "length (registered_bytes junk ?k) \<le> 4096"
    using registered_val(2) [where junk = junk, OF k junk] by auto
  obtain ys w2 where g: "get_key_x P 4096 (example_key ?k) w1 = Inr (Return (0, ys), w2)"
      "take (length (registered_bytes junk ?k)) ys = registered_bytes junk ?k" "good w2" "view w2 = view w1"
    using get_key_found [OF w1(2) names [OF k] len c ne, of 4096] by blast
  have "[1 ..< Suc ?k] = [1 ..< Suc n] @ [?k]" by simp
  then have "rfold (read_round_x P) [1 ..< Suc ?k] (out, None, w) =
      read_round_x P ?k (out @ concat (map example_line [1 ..< Suc n]), None, w1)"
    using w1(1) by (simp only: rfold_append) (simp add: rbind_def split: sum.split)
  also have "\<dots> = Inr (out @ concat (map example_line [1 ..< Suc ?k]), None, w2)"
    using g(1) print_registered [where junk = junk, OF k junk g(2)] by (simp add: read_round_x_def example_line_def)
  finally show ?case using g w1(3) by auto
qed

lemma create_then_print:
  assumes w: "good w" and names: "\<And>i. i < 10 \<Longrightarrow> name_ok (example_key i)"
    and new: "\<And>i. i < 10 \<Longrightarrow> contents (view w) (example_key i) = None"
    and room: "8 \<le> slots (view w)" "8 \<le> blocks (view w)" and junk: "\<And>i. 32 \<le> length (junk i)"
  shows "\<exists>w1 w2. create_main_x P junk w = Inr ([], w1) \<and>
    find_and_read_main P w1 = Inr (concat (map example_line [1 ..< 9]), None, w2)"
proof -
  define f where "f = (\<lambda>key. if \<exists>i \<in> {1 .. 8}. key = example_key i
      then Some (registered_bytes junk (THE i. i < 10 \<and> key = example_key i)) else contents (view w) key)"
  have nine: "Suc 8 = 9" by simp
  obtain w1 where w1: "rfold (create_round_x P junk) [1 ..< 9] ([], w) = Inr ([], w1)" "good w1"
      "contents (view w1) = f"
    using create_all [where out = "[]" and junk = junk, OF w names new room _ junk] unfolding nine f_def by auto
  have "contents (view w1) (example_key i) = Some (registered_bytes junk i)" if "1 \<le> i" "i \<le> 8" for i
  proof -
    have "(THE j. j < 10 \<and> example_key i = example_key j) = i"
      using that example_key_inject [of i] by (intro the_equality) auto
    then show ?thesis using that by (auto simp: w1(3) f_def)
  qed
  then obtain w2 where "rfold (read_round_x P) [1 ..< 9] ([], None, w1) =
      Inr (concat (map example_line [1 ..< 9]), None, w2)"
    using print_all [where out = "[]" and n = 8 and junk = junk, OF w1(2) names _ _ junk] unfolding nine by auto
  then show ?thesis using w1(1) by (simp add: create_main_x_def find_and_read_main_def)
qed

end

end
