(* ===== verification/Example_Store.thy ===== *)
theory Example_Store
  imports Objfs
begin

text \<open>
  The object store that the assignment hands out as an example, \<open>assignment4/example\<close>: at most
  16 objects of one block each, in a table that is block 0 of the disk; object \<open>id\<close> has block
  \<open>id\<close>. With \<open>CACHE\<close> the block of an object is kept in a page of the cache and written back
  at the end, without it every call goes to the disk. Both builds implement the interface
  \<open>object_pages\<close>.
\<close>

section \<open>State\<close>

text \<open>\<open>struct object\<close>, 88 bytes.\<close>

record xobject =
  x_id :: int
  x_size :: int
  x_cache_index :: int
  x_dirty :: int
  x_key :: "char list"

text \<open>
  The disk, the pages of \<open>objfs->cache\<close>, and what \<open>objs\<close> points to: a page, of which the first
  16 objects are the table. The page holds 46 objects and the first 48 bytes of one more.
\<close>

record xstore =
  xdisk :: disk
  xcache :: "nat \<Rightarrow> block"
  xobjs :: "nat \<Rightarrow> xobject"

abbreviation (input) MAX_OBJS :: nat where "MAX_OBJS \<equiv> 16"
abbreviation (input) page_objs :: nat where "page_objs \<equiv> 47"
abbreviation (input) cache_pages :: nat where "cache_pages \<equiv> 32768"

definition upd_x :: "nat \<Rightarrow> (xobject \<Rightarrow> xobject) \<Rightarrow> xstore \<Rightarrow> xstore" where
  "upd_x k f s = s\<lparr>xobjs := (xobjs s)(k := f (xobjs s k))\<rparr>"

lemma upd_x_simps [simp]:
  "xdisk (upd_x k f s) = xdisk s" "xcache (upd_x k f s) = xcache s"
  "xobjs (upd_x k f s) j = (if j = k then f (xobjs s k) else xobjs s j)"
  by (simp_all add: upd_x_def)

section \<open>Transfers of blocks\<close>

text \<open>\<open>lseek\<close> refuses a negative offset; the transfer starts where it leaves the file.\<close>

definition lseek_x :: "int \<Rightarrow> int" where
  "lseek_x off = (if off < 0 then -1 else off)"

definition read_block_x :: "disk \<Rightarrow> int \<Rightarrow> 64 word \<Rightarrow> block \<Rightarrow> int \<times> block" where
  "read_block_x d block_offset addr buf =
     (if push_bit 12 (drop_bit 12 addr) \<noteq> addr then (-1, buf)
      else if lseek_x (block_offset * 4096) < 0 then (-1, buf)
      else (case pread_block d (lseek_x (block_offset * 4096)) buf of
              (n, buf') \<Rightarrow> if n < 0 then (-1, buf') else (0, buf')))"

definition write_block_x :: "disk \<Rightarrow> int \<Rightarrow> 64 word \<Rightarrow> block \<Rightarrow> int \<times> disk" where
  "write_block_x d block_offset addr buf =
     (if push_bit 12 (drop_bit 12 addr) \<noteq> addr then (-1, d)
      else if lseek_x (block_offset * 4096) < 0 then (-1, d)
      else (case pwrite_block d (lseek_x (block_offset * 4096)) (Some buf) of
              (n, d') \<Rightarrow> if n < 0 then (-1, d') else (0, d')))"

text \<open>They do what those of the solution do with \<open>pread\<close> and \<open>pwrite\<close>.\<close>

lemma read_block_x: "read_block_x = read_block"
  by (simp add: fun_eq_iff read_block_x_def read_block_def lseek_x_def pread_block_def)

lemma write_block_x: "write_block_x d b a x = write_block d b a (Some x)"
  by (simp add: write_block_x_def write_block_def lseek_x_def pwrite_block_def)

section \<open>The cache\<close>

definition init_object_cached_x :: "build \<Rightarrow> xobject \<Rightarrow> xobject" where
  "init_object_cached_x c obj =
     (case c of Plain \<Rightarrow> obj | Cached \<Rightarrow> obj\<lparr>x_cache_index := -1, x_dirty := 0\<rparr>)"

definition remove_object_cached_x :: "build \<Rightarrow> xobject \<Rightarrow> xobject" where
  "remove_object_cached_x c obj =
     (case c of Plain \<Rightarrow> obj | Cached \<Rightarrow> obj\<lparr>x_cache_index := -1, x_dirty := 0\<rparr>)"

text \<open>
  The page of an object is brought into the cache if its index is negative; the result is
  \<open>False\<close> when the disk fails.
\<close>

definition fill_x :: "nat \<Rightarrow> xstore \<Rightarrow> bool \<times> xstore" where
  "fill_x k s =
     (let i = x_id (xobjs s k) in
      if x_cache_index (xobjs s k) < 0 then
        (case read_block_x (xdisk s) i (word_of_int (4096 * i)) (xcache s (nat i)) of
           (r, buf) \<Rightarrow>
             let s1 = s\<lparr>xcache := (xcache s)(nat i := buf)\<rparr> in
             if r < 0 then (False, s1)
             else (True, upd_x k (\<lambda>obj. obj\<lparr>x_cache_index := s32 i\<rparr>) s1))
      else (True, s))"

text \<open>
  \<open>find_read_cached\<close>: the copy of \<open>size\<close> bytes leaves the page of the buffer, or the cache,
  when \<open>size\<close> is too large; a negative \<open>size\<close> is a huge number for \<open>memcpy\<close>.
\<close>

definition find_read_cached_x :: "build \<Rightarrow> nat \<Rightarrow> int \<Rightarrow> xstore \<Rightarrow> (int \<times> byte list \<times> xstore) res" where
  "find_read_cached_x c k nbytes s =
     (let i = x_id (xobjs s k) in
      case c of
        Plain \<Rightarrow>
          (case read_block_x (xdisk s) i 0 zero_block of
             (r, ptr) \<Rightarrow>
               if r < 0 then Inr (-1, [], s)
               else if nbytes < 0 \<or> 4096 < nbytes then Inl OutOfBounds
               else Inr (0, take (nat nbytes) ptr, s))
      | Cached \<Rightarrow>
          if i < 0 \<or> int cache_pages \<le> i then Inl OutOfBounds
          else
            (case fill_x k s of
               (False, s1) \<Rightarrow> Inr (-1, [], s1)
             | (True, s1) \<Rightarrow>
                 if nbytes < 0 \<or> 4096 * int cache_pages < 4096 * i + nbytes then Inl OutOfBounds
                 else Inr (0, take (nat nbytes)
                        (concat (map (xcache s1) [nat i ..< nat i + nat nbytes div 4096 + 1])), s1)))"

text \<open>\<open>find_write_cached\<close>; the caller has checked that the buffer fits a block.\<close>

definition find_write_cached_x :: "build \<Rightarrow> nat \<Rightarrow> byte list \<Rightarrow> xstore \<Rightarrow> (int \<times> xstore) res" where
  "find_write_cached_x c k user_buf s =
     (let i = x_id (xobjs s k) in
      case c of
        Plain \<Rightarrow>
          (case write_block_x (xdisk s) i 0 (user_buf @ drop (length user_buf) zero_block) of
             (r, d) \<Rightarrow> Inr (if r < 0 then -1 else 0, s\<lparr>xdisk := d\<rparr>))
      | Cached \<Rightarrow>
          if i < 0 \<or> int cache_pages \<le> i then Inl OutOfBounds
          else
            (case fill_x k s of
               (False, s1) \<Rightarrow> Inr (-1, s1)
             | (True, s1) \<Rightarrow>
                 Inr (0, upd_x k (\<lambda>obj. obj\<lparr>x_dirty := 1\<rparr>)
                       (s1\<lparr>xcache := (xcache s1)(nat i :=
                          user_buf @ drop (length user_buf) (xcache s1 (nat i)))\<rparr>))))"

definition obj_sync_x :: "build \<Rightarrow> nat \<Rightarrow> xstore \<Rightarrow> (int \<times> xstore) res" where
  "obj_sync_x c k s =
     (let i = x_id (xobjs s k) in
      case c of
        Plain \<Rightarrow> Inr (0, s)
      | Cached \<Rightarrow>
          if x_dirty (xobjs s k) = 0 then Inr (0, s)
          else if i < 0 \<or> int cache_pages \<le> i then Inl OutOfBounds
          else
            (case write_block_x (xdisk s) i (word_of_int (4096 * i)) (xcache s (nat i)) of
               (r, d) \<Rightarrow>
                 if r < 0 then Inr (-1, s\<lparr>xdisk := d\<rparr>)
                 else Inr (0, upd_x k (\<lambda>obj. obj\<lparr>x_dirty := 0\<rparr>) (s\<lparr>xdisk := d\<rparr>))))"

section \<open>Operations\<close>

definition has_key_x :: "string \<Rightarrow> xstore \<Rightarrow> nat \<Rightarrow> bool" where
  "has_key_x key s k \<longleftrightarrow> x_id (xobjs s k) \<noteq> 0 \<and> cstr (x_key (xobjs s k)) = key"

definition find_object_id_x :: "string \<Rightarrow> xstore \<Rightarrow> int" where
  "find_object_id_x key s =
     (case scan (has_key_x key s) 0 MAX_OBJS of
        Some k \<Rightarrow> x_id (xobjs s k)
      | None \<Rightarrow> -1)"

text \<open>
  The loop of \<open>create_object\<close>: the first free slot is given its id at once, and the search for
  the key goes on; \<open>True\<close> when the key is found.
\<close>

fun create_loop_x :: "string \<Rightarrow> nat \<Rightarrow> nat \<Rightarrow> nat option \<Rightarrow> xstore \<Rightarrow> bool \<times> nat option \<times> xstore" where
  "create_loop_x key ctr 0 free s = (False, free, s)"
| "create_loop_x key ctr (Suc n) free s =
     (if x_id (xobjs s ctr) = 0 \<and> free = None
      then create_loop_x key (Suc ctr) n (Some ctr) (upd_x ctr (\<lambda>obj. obj\<lparr>x_id := int ctr + 2\<rparr>) s)
      else if has_key_x key s ctr then (True, free, s)
      else create_loop_x key (Suc ctr) n free s)"

text \<open>
  After the loop \<open>obj\<close> points behind the table: it is object 16 of the page, not the new one,
  that is marked as not cached.
\<close>

definition create_object_x :: "build \<Rightarrow> string \<Rightarrow> xstore \<Rightarrow> (int \<times> xstore) res" where
  "create_object_x c key s =
     (case create_loop_x key 0 MAX_OBJS None s of
        (True, _, s1) \<Rightarrow> Inr (-1, s1)
      | (False, None, s1) \<Rightarrow> Inr (-1, s1)
      | (False, Some k, s1) \<Rightarrow>
          rbind (strcpy (x_key (xobjs s1 k)) key) (\<lambda>b.
            let s2 = upd_x MAX_OBJS (init_object_cached_x c) (upd_x k (\<lambda>obj. obj\<lparr>x_key := b\<rparr>) s1)
            in Inr (x_id (xobjs s2 k), s2)))"

definition release_object_x :: "int \<Rightarrow> xstore \<Rightarrow> int" where
  "release_object_x objid s = 0"

definition destroy_object_x :: "build \<Rightarrow> string \<Rightarrow> xstore \<Rightarrow> int \<times> xstore" where
  "destroy_object_x c key s =
     (case scan (has_key_x key s) 0 MAX_OBJS of
        Some k \<Rightarrow> (0, upd_x k (\<lambda>obj. (remove_object_cached_x c obj)\<lparr>x_id := 0, x_size := 0\<rparr>) s)
      | None \<Rightarrow> (-1, s))"

definition rename_object_x :: "string \<Rightarrow> string \<Rightarrow> xstore \<Rightarrow> int" where
  "rename_object_x key newname s = -1"

text \<open>\<open>objs + objid - 2\<close>: the object must lie in the page.\<close>

definition objstore_write_x :: "build \<Rightarrow> int \<Rightarrow> byte list \<Rightarrow> xstore \<Rightarrow> (int \<times> xstore) res" where
  "objstore_write_x c objid buf s =
     (if objid < 2 \<or> int page_objs + 2 \<le> objid then Inl OutOfBounds
      else let k = nat (objid - 2) in
        if x_id (xobjs s k) \<noteq> objid then Inr (-1, s)
        else if 4096 < length buf then Inr (-1, s)
        else rbind (find_write_cached_x c k buf s) (\<lambda>(r, s1).
          if r < 0 then Inr (-1, s1)
          else Inr (int (length buf), upd_x k (\<lambda>obj. obj\<lparr>x_size := int (length buf)\<rparr>) s1)))"

definition objstore_read_x :: "build \<Rightarrow> int \<Rightarrow> int \<Rightarrow> xstore \<Rightarrow> (int \<times> byte list \<times> xstore) res" where
  "objstore_read_x c objid nbytes s =
     (if objid < 2 then Inr (-1, [], s)
      else if int page_objs + 2 \<le> objid then Inl OutOfBounds
      else let k = nat (objid - 2) in
        if x_id (xobjs s k) \<noteq> objid then Inr (-1, [], s)
        else rbind (find_read_cached_x c k nbytes s) (\<lambda>(r, buf, s1).
          if r < 0 then Inr (-1, [], s1) else Inr (nbytes, buf, s1)))"

definition fillup_size_details_x :: "stat \<Rightarrow> xstore \<Rightarrow> (int \<times> stat) res" where
  "fillup_size_details_x buf s =
     (if st_ino buf < 2 then Inr (-1, buf)
      else if int page_objs + 2 \<le> st_ino buf then Inl OutOfBounds
      else let obj = xobjs s (nat (st_ino buf - 2)) in
        if x_id obj \<noteq> st_ino buf then Inr (-1, buf)
        else Inr (0, buf\<lparr>st_size := x_size obj, st_blocks := x_size obj div 512 +
               (if x_size obj div 512 * 512 \<noteq> x_size obj then 1 else 0)\<rparr>))"

section \<open>Mounting and unmounting\<close>

definition encode_xobject :: "xobject \<Rightarrow> byte list" where
  "encode_xobject ob =
     le64 (x_id ob) @ le64 (x_size ob) @ le32 (x_cache_index ob) @ le32 (x_dirty ob) @
     map byte_of_char (x_key ob)"

definition decode_xobject :: "byte list \<Rightarrow> xobject" where
  "decode_xobject bs =
     \<lparr>x_id = s64 (le_val (take 8 bs)), x_size = s64 (le_val (take 8 (drop 8 bs))),
      x_cache_index = get_int bs 4, x_dirty = get_int bs 5,
      x_key = map char_of_byte (take 64 (drop 24 bs))\<rparr>"

definition encode_xtable :: "(nat \<Rightarrow> xobject) \<Rightarrow> block" where
  "encode_xtable os = take 4096 (concat (map (\<lambda>k. encode_xobject (os k)) [0 ..< page_objs]))"

text \<open>Behind the page, which no access reaches, the model has zeros.\<close>

definition decode_xtable :: "block \<Rightarrow> nat \<Rightarrow> xobject" where
  "decode_xtable b k = decode_xobject (take 88 (drop (88 * k) (b @ replicate 88 0)))"

definition objstore_init_x :: "build \<Rightarrow> disk \<Rightarrow> int \<times> xstore" where
  "objstore_init_x c d =
     (case read_block_x d 0 0 zero_block of
        (r, page) \<Rightarrow>
          let s = \<lparr>xdisk = d, xcache = (\<lambda>_. zero_block), xobjs = decode_xtable page\<rparr> in
          if r < 0 then (-1, s)
          else (0, s\<lparr>xobjs := (\<lambda>k. if k < MAX_OBJS \<and> x_id (xobjs s k) \<noteq> 0
                                 then init_object_cached_x c (xobjs s k) else xobjs s k)\<rparr>))"

definition sync_step_x :: "build \<Rightarrow> nat \<Rightarrow> xstore \<Rightarrow> xstore res" where
  "sync_step_x c k s =
     (if x_id (xobjs s k) \<noteq> 0 then rbind (obj_sync_x c k s) (\<lambda>(_, s1). Inr s1) else Inr s)"

definition objstore_destroy_x :: "build \<Rightarrow> xstore \<Rightarrow> (int \<times> disk) res" where
  "objstore_destroy_x c s =
     rbind (rfold (sync_step_x c) [0 ..< MAX_OBJS] s) (\<lambda>s1.
       case write_block_x (xdisk s1) 0 0 (encode_xtable (xobjs s1)) of
         (r, d) \<Rightarrow> Inr (if r < 0 then -1 else 0, d))"

section \<open>The callbacks of FUSE\<close>

definition objfs_getattr_x :: "fs_env \<Rightarrow> string \<Rightarrow> xstore \<Rightarrow> (int \<times> stat option) res" where
  "objfs_getattr_x env key s =
     (let own = (\<lambda>st. st\<lparr>st_uid := uid env, st_gid := gid env\<rparr>) in
      if key = ''/'' then Inr (0, Some (own ((def_dirstat env)\<lparr>st_ino := 1\<rparr>)))
      else
        let retval = s32 (find_object_id_x (path_key key) s) in
        if retval < 0 then Inr (- ENOENT, None)
        else rbind (fillup_size_details_x ((def_fstat env)\<lparr>st_ino := retval\<rparr>) s) (\<lambda>(rc, st).
          if rc < 0 then Inr (- EBADF, None) else Inr (0, Some (own st))))"

definition objfs_unlink_x :: "build \<Rightarrow> string \<Rightarrow> xstore \<Rightarrow> int \<times> xstore" where
  "objfs_unlink_x c key s = (0, snd (destroy_object_x c (path_key key) s))"

definition objfs_rename_key_x :: "string \<Rightarrow> string \<Rightarrow> xstore \<Rightarrow> int" where
  "objfs_rename_key_x oldkey newkey s = (let r = rename_object_x oldkey newkey s in - EINVAL)"

definition objfs_create_x :: "build \<Rightarrow> string \<Rightarrow> xstore \<Rightarrow> (int \<times> int option \<times> xstore) res" where
  "objfs_create_x c key s =
     rbind (create_object_x c (path_key key) s)
       (\<lambda>(r, s1). Inr (if r < 0 then (- EEXIST, None, s1) else (0, Some r, s1)))"

definition objfs_open_x :: "string \<Rightarrow> xstore \<Rightarrow> int \<times> int option" where
  "objfs_open_x key s =
     (let retval = s32 (find_object_id_x (path_key key) s) in
      if retval < 0 then (- ENOENT, None) else (0, Some retval))"

definition objfs_read_x :: "build \<Rightarrow> int \<Rightarrow> int \<Rightarrow> xstore \<Rightarrow> (int \<times> byte list \<times> xstore) res" where
  "objfs_read_x c fh nbytes s =
     rbind (objstore_read_x c (s32 fh) (s32 nbytes) s)
       (\<lambda>(r, data, s1). let retval = s32 r in
          Inr (if retval < 0 then - EINVAL else retval, data, s1))"

definition objfs_write_x :: "build \<Rightarrow> int \<Rightarrow> byte list \<Rightarrow> xstore \<Rightarrow> (int \<times> xstore) res" where
  "objfs_write_x c fh buf s =
     rbind (objstore_write_x c (s32 fh) buf s)
       (\<lambda>(r, s1). let retval = s32 r in Inr (if retval < 0 then - EINVAL else retval, s1))"

definition objfs_release_x :: "int \<Rightarrow> xstore \<Rightarrow> int" where
  "objfs_release_x fh s = (let r = release_object_x (s32 fh) s in - EINVAL)"

definition objfs_init_x :: "build \<Rightarrow> disk \<Rightarrow> xstore" where
  "objfs_init_x c d = snd (objstore_init_x c d)"

definition objfs_destroy_x :: "build \<Rightarrow> xstore \<Rightarrow> disk res" where
  "objfs_destroy_x c s = rbind (objstore_destroy_x c s) (\<lambda>(_, d). Inr d)"

section \<open>Pages of objects\<close>

text \<open>
  What \<open>objstore_read\<close> and \<open>objstore_write\<close> need of the layer below: fetching returns the
  beginning of the page of an object and changes no page, storing changes the beginning of one
  page, and the size of an object has nothing to do with the pages.
\<close>

locale object_pages =
  fixes fetch :: "nat \<Rightarrow> int \<Rightarrow> 's \<Rightarrow> (int \<times> byte list \<times> 's) res"
    and store :: "nat \<Rightarrow> byte list \<Rightarrow> 's \<Rightarrow> (int \<times> 's) res"
    and resize :: "nat \<Rightarrow> int \<Rightarrow> 's \<Rightarrow> 's"
    and page :: "'s \<Rightarrow> nat \<Rightarrow> byte list" and valid :: "'s \<Rightarrow> nat \<Rightarrow> bool" and ok :: "'s \<Rightarrow> bool"
  assumes fetch_page: "ok s \<Longrightarrow> valid s k \<Longrightarrow> n \<le> 4096 \<Longrightarrow>
      \<exists>t. fetch k (int n) s = Inr (0, take n (page s k), t) \<and> ok t \<and> valid t = valid s \<and>
        (\<forall>j. valid s j \<longrightarrow> page t j = page s j)"
    and store_page: "ok s \<Longrightarrow> valid s k \<Longrightarrow> length x \<le> 4096 \<Longrightarrow>
      \<exists>t. store k x s = Inr (0, t) \<and> ok t \<and> valid t = valid s \<and> take (length x) (page t k) = x \<and>
        (\<forall>j. valid s j \<longrightarrow> j \<noteq> k \<longrightarrow> page t j = page s j)"
    and resize_page: "ok (resize k m s) = ok s" "valid (resize k m s) = valid s" "page (resize k m s) = page s"
begin

lemma store_then_fetch:
  assumes "ok s" and "valid s k" and "length x \<le> 4096"
  shows "\<exists>t u. store k x s = Inr (0, t) \<and> fetch k (int (length x)) (resize k m t) = Inr (0, x, u)"
proof -
  obtain t where t: "store k x s = Inr (0, t)" "ok t" "valid t = valid s" "take (length x) (page t k) = x"
    using store_page [OF assms] by blast
  then show ?thesis using fetch_page [of "resize k m t" k "length x"] assms resize_page by auto
qed

lemma store_elsewhere:
  assumes "ok s" and "valid s k" and "length x \<le> 4096" and "valid s j" and "j \<noteq> k" and "n \<le> 4096"
  shows "\<exists>t u v. store k x s = Inr (0, t) \<and> fetch j (int n) (resize k m t) = Inr (0, take n (page s j), u) \<and>
    fetch j (int n) s = Inr (0, take n (page s j), v)"
proof -
  obtain t where t: "store k x s = Inr (0, t)" "ok t" "valid t = valid s" "page t j = page s j"
    using store_page [OF assms(1-3)] assms(4,5) by blast
  then show ?thesis
    using fetch_page [of "resize k m t" j n] fetch_page [of s j n] assms resize_page by auto
qed

end

text \<open>The page of an object, the objects in use, and a sane store.\<close>

definition disk_page :: "xstore \<Rightarrow> nat \<Rightarrow> block" where
  "disk_page s k = dblock (xdisk s) (k + 2)"

definition page_x :: "build \<Rightarrow> xstore \<Rightarrow> nat \<Rightarrow> block" where
  "page_x c s k =
     (if c = Cached \<and> 0 \<le> x_cache_index (xobjs s k) then xcache s (k + 2) else disk_page s k)"

definition valid_x :: "xstore \<Rightarrow> nat \<Rightarrow> bool" where
  "valid_x s k \<longleftrightarrow> k < MAX_OBJS \<and> x_id (xobjs s k) = int k + 2"

definition ok_x :: "xstore \<Rightarrow> bool" where
  "ok_x s \<longleftrightarrow> disk_ok (xdisk s) \<and> 18 \<le> nblocks (xdisk s) \<and> (\<forall>i < 18. length (xcache s i) = 4096)"

lemma read_page:
  assumes "ok_x s" and "k < MAX_OBJS" and "page_aligned a"
  shows "read_block (xdisk s) (int k + 2) a buf = (0, disk_page s k)" and "length (disk_page s k) = 4096"
proof -
  have k: "disk_content (xdisk s) (int k + 2) = Some (disk_page s k)"
    using assms by (simp add: disk_content_def ok_x_def disk_page_def nat_add_distrib)
  show "read_block (xdisk s) (int k + 2) a buf = (0, disk_page s k)"
    using read_block_content [OF _ assms(3) k] assms(1) by (simp add: ok_x_def)
  show "length (disk_page s k) = 4096" using disk_content_length [OF _ k] assms(1) by (simp add: ok_x_def)
qed

lemma write_page:
  assumes "ok_x s" and "b < 18" and "page_aligned a" and "length x = 4096"
  shows "\<exists>d. write_block (xdisk s) (int b) a (Some x) = (0, d) \<and> disk_ok d \<and> 18 \<le> nblocks d \<and>
    (\<forall>i < 18. dblock d i = (if i = b then x else dblock (xdisk s) i))"
proof -
  have "Suc b \<le> nblocks (xdisk s)" using assms(1,2) by (simp add: ok_x_def)
  then show ?thesis
    using assms by (auto simp: write_block_def pwrite_block_def page_aligned_def ok_x_def disk_ok_def Let_def
      max_def)
qed

lemma word_slot: "(word_of_int (4096 * (int k + 2)) :: 64 word) = word_of_nat (4096 * (k + 2))"
  by (simp add: algebra_simps)

lemma fill_page:
  assumes "ok_x s" and "valid_x s k"
  shows "\<exists>t. fill_x k s = (True, t) \<and> ok_x t \<and> valid_x t = valid_x s \<and> xcache t (k + 2) = page_x Cached s k \<and>
    (\<forall>j. valid_x s j \<longrightarrow> page_x Cached t j = page_x Cached s j) \<and> 0 \<le> x_cache_index (xobjs t k) \<and>
    x_id (xobjs t k) = int k + 2"
proof (cases "x_cache_index (xobjs s k) < 0")
  case True
  have k: "k < 16" "x_id (xobjs s k) = int k + 2" using assms(2) by (simp_all add: valid_x_def)
  note rd = read_page [OF assms(1) k(1) page_aligned_slot [of "k + 2"], folded word_slot]
  have "fill_x k s = (True, upd_x k (\<lambda>obj. obj\<lparr>x_cache_index := int k + 2\<rparr>)
      (s\<lparr>xcache := (xcache s)(k + 2 := disk_page s k)\<rparr>))"
    using True k rd by (simp add: fill_x_def Let_def read_block_x nat_add_distrib)
  then show ?thesis
    using True k rd(2) assms(1)
    by (auto simp: ok_x_def valid_x_def page_x_def disk_page_def fun_eq_iff)
next
  case False
  then show ?thesis using assms by (simp add: fill_x_def Let_def page_x_def valid_x_def)
qed

lemma page_length: "ok_x s \<Longrightarrow> valid_x s k \<Longrightarrow> length (page_x c s k) = 4096"
  using read_page(2) [of s k 0] by (auto simp: page_x_def ok_x_def valid_x_def)

text \<open>Both builds provide the interface.\<close>

interpretation plain: object_pages "find_read_cached_x Plain" "find_write_cached_x Plain"
  "\<lambda>k m. upd_x k (\<lambda>obj. obj\<lparr>x_size := m\<rparr>)" "page_x Plain" valid_x ok_x
proof (unfold_locales, goal_cases)
  case (1 s k n)
  then have k: "k < 16" "x_id (xobjs s k) = int k + 2" by (simp_all add: valid_x_def)
  show ?case
    using 1 k read_page(1) [OF 1(1) k(1) page_aligned_0]
    by (simp add: find_read_cached_x_def Let_def read_block_x page_x_def)
next
  case (2 s k x)
  then have k: "k < 16" "x_id (xobjs s k) = int k + 2" by (simp_all add: valid_x_def)
  let ?x = "x @ drop (length x) zero_block"
  have k2: "k + 2 < 18" and len: "length ?x = 4096" using k 2(3) by simp_all
  have "int (k + 2) = int k + 2" by simp
  then obtain d where
    d: "write_block (xdisk s) (int k + 2) 0 (Some ?x) = (0, d)" "disk_ok d" "18 \<le> nblocks d"
      "\<forall>i < 18. dblock d i = (if i = k + 2 then ?x else dblock (xdisk s) i)"
    using write_page [OF 2(1) k2 page_aligned_0 len] by metis
  let ?t = "s\<lparr>xdisk := d\<rparr>"
  have "find_write_cached_x Plain k x s = Inr (0, ?t)"
    using d(1) k by (simp add: find_write_cached_x_def write_block_x)
  moreover have "ok_x ?t" using d(2,3) 2(1) by (simp add: ok_x_def)
  moreover have "valid_x ?t = valid_x s" by (simp add: valid_x_def fun_eq_iff)
  moreover have "page_x Plain ?t j = (if j = k then ?x else page_x Plain s j)" if "j < 16" for j
    using d(4) that by (simp add: page_x_def disk_page_def)
  moreover have "j < 16" if "valid_x s j" for j using that by (simp add: valid_x_def)
  ultimately show ?case using k(1) by (intro exI [of _ ?t] conjI) simp_all
next
  case (3 k m s)
  then show ?case by (simp add: ok_x_def)
next
  case (4 k m s)
  then show ?case by (auto simp: valid_x_def fun_eq_iff)
next
  case (5 k m s)
  then show ?case by (auto simp: page_x_def disk_page_def fun_eq_iff)
qed

interpretation cached: object_pages "find_read_cached_x Cached" "find_write_cached_x Cached"
  "\<lambda>k m. upd_x k (\<lambda>obj. obj\<lparr>x_size := m\<rparr>)" "page_x Cached" valid_x ok_x
proof (unfold_locales, goal_cases)
  case (1 s k n)
  then have k: "k < 16" "x_id (xobjs s k) = int k + 2" by (simp_all add: valid_x_def)
  obtain t where t: "fill_x k s = (True, t)" "ok_x t" "valid_x t = valid_x s" "xcache t (k + 2) = page_x Cached s k"
      "\<forall>j. valid_x s j \<longrightarrow> page_x Cached t j = page_x Cached s j"
    using fill_page [OF 1(1,2)] by blast
  have "take n (concat (map (xcache t) [k + 2 ..< k + 2 + n div 4096 + 1])) = take n (page_x Cached s k)"
    using page_length [OF 1(1,2), of Cached] 1(3) t(4) by (subst upt_conv_Cons) simp_all
  then show ?case
    using t k 1(3) by (simp add: find_read_cached_x_def Let_def nat_add_distrib)
next
  case (2 s k x)
  then have k: "k < 16" "x_id (xobjs s k) = int k + 2" by (simp_all add: valid_x_def)
  obtain t where t: "fill_x k s = (True, t)" "ok_x t" "valid_x t = valid_x s" "xcache t (k + 2) = page_x Cached s k"
      "\<forall>j. valid_x s j \<longrightarrow> page_x Cached t j = page_x Cached s j" "0 \<le> x_cache_index (xobjs t k)"
    using fill_page [OF 2(1,2)] by blast
  have len: "length (xcache t (k + 2)) = 4096" using page_length [OF 2(1,2), of Cached] t(4) by simp
  define v where "v = upd_x k (\<lambda>obj. obj\<lparr>x_dirty := 1\<rparr>)
    (t\<lparr>xcache := (xcache t)(k + 2 := x @ drop (length x) (xcache t (k + 2)))\<rparr>)"
  have "find_write_cached_x Cached k x s = Inr (0, v)"
    using t(1) k by (simp add: find_write_cached_x_def v_def nat_add_distrib)
  moreover have "ok_x v" using t(2) len 2(3) by (simp add: ok_x_def v_def)
  moreover have "valid_x v = valid_x s"
    unfolding t(3) [symmetric] by (auto simp: valid_x_def v_def fun_eq_iff)
  moreover have "take (length x) (page_x Cached v k) = x" using t(6) by (simp add: page_x_def v_def)
  moreover have "page_x Cached v j = page_x Cached t j" if "j \<noteq> k" for j
    using that by (simp add: page_x_def disk_page_def v_def)
  ultimately show ?case using t(5) by (intro exI [of _ v] conjI) simp_all
next
  case (3 k m s)
  then show ?case by (simp add: ok_x_def)
next
  case (4 k m s)
  then show ?case by (auto simp: valid_x_def fun_eq_iff)
next
  case (5 k m s)
  then show ?case by (auto simp: page_x_def disk_page_def fun_eq_iff)
qed

end
