(* ===== verification/Mount.thy ===== *)
theory Mount
  imports Kvstore Objfs Example_Store Store_Refinement
begin

text \<open>
  The way from the clients to the object stores. The kernel and the FUSE library turn the file
  calls below the mount point into calls of the functions that a file system registers in its
  \<open>struct fuse_operations\<close>; they are not in the repository, and the locale \<open>fuse_mount\<close> states
  what \<open>fuse.h\<close> and the manual pages say of them, for one process that makes one call after
  the other. What the functions of a store do is the locale \<open>object_files\<close>. Together they give
  the clients the contract \<open>key_files\<close>.
\<close>

section \<open>The functions of a file system\<close>

record 's fuse_operations =
  op_getattr :: "string \<Rightarrow> 's \<Rightarrow> (int \<times> stat option \<times> 's) res"
  op_create :: "string \<Rightarrow> 's \<Rightarrow> (int \<times> int option \<times> 's) res"
  op_unlink :: "string \<Rightarrow> 's \<Rightarrow> (int \<times> 's) res"
  op_open :: "string \<Rightarrow> 's \<Rightarrow> (int \<times> int option \<times> 's) res"
  op_read :: "int \<Rightarrow> nat \<Rightarrow> int \<Rightarrow> 's \<Rightarrow> (int \<times> byte list \<times> 's) res"
  op_write :: "int \<Rightarrow> byte list \<Rightarrow> int \<Rightarrow> 's \<Rightarrow> (int \<times> 's) res"
  op_release :: "int \<Rightarrow> 's \<Rightarrow> int"
  op_init :: "disk \<Rightarrow> 's"
  op_destroy :: "'s \<Rightarrow> disk res"
  op_rename :: "(string \<Rightarrow> string \<Rightarrow> 's \<Rightarrow> (int \<times> 's) res) option"

text \<open>
  The table of the example has no entry for \<open>rename\<close>. The indeterminate value \<open>ctr0\<close> that the
  counter of \<open>rename_object\<close> starts from is a parameter.
\<close>

definition objfs_operations :: "int \<Rightarrow> build \<Rightarrow> fs_env \<Rightarrow> objstore fuse_operations" where
  "objfs_operations ctr0 c env =
     \<lparr>op_getattr = (\<lambda>path s. Inr (objfs_getattr env path s)),
      op_create = objfs_create,
      op_unlink = objfs_unlink,
      op_open = (\<lambda>path s. Inr (objfs_open path s)),
      op_read = objfs_read c,
      op_write = objfs_write c,
      op_release = objfs_release,
      op_init = objfs_init,
      op_destroy = (\<lambda>s. Inr (objfs_destroy s)),
      op_rename = Some (objfs_rename_key ctr0)\<rparr>"

definition objfs_operations_x :: "build \<Rightarrow> fs_env \<Rightarrow> xstore fuse_operations" where
  "objfs_operations_x c env =
     \<lparr>op_getattr = (\<lambda>path s. rbind (objfs_getattr_x env path s) (\<lambda>(r, a). Inr (r, a, s))),
      op_create = objfs_create_x c,
      op_unlink = (\<lambda>path s. Inr (objfs_unlink_x c path s)),
      op_open = (\<lambda>path s. case objfs_open_x path s of (r, h) \<Rightarrow> Inr (r, h, s)),
      op_read = (\<lambda>h n offset. objfs_read_x c h (int n)),
      op_write = (\<lambda>h buf offset. objfs_write_x c h buf),
      op_release = objfs_release_x,
      op_init = objfs_init_x c,
      op_destroy = objfs_destroy_x c,
      op_rename = None\<rparr>"

section \<open>The kernel and FUSE\<close>

text \<open>The names that a directory entry may have.\<close>

definition plain_key :: "string \<Rightarrow> bool" where
  "plain_key key \<longleftrightarrow> key \<noteq> [] \<and> CHR 0x2F \<notin> set key \<and> CHR 0x00 \<notin> set key \<and>
     key \<noteq> ''.'' \<and> key \<noteq> ''..'' \<and> length key \<le> 255"

text \<open>
  \<open>server w\<close> is the state of the file system's process; \<open>fds w\<close> gives the open descriptors: key,
  handle and position. Names are looked up with \<open>getattr\<close> first. A read may end at the size that
  \<open>getattr\<close> reports.
\<close>

locale fuse_mount =
  fixes P :: "'w posix" and F :: "'s fuse_operations" and server :: "'w \<Rightarrow> 's"
    and fds :: "'w \<Rightarrow> int \<Rightarrow> (string \<times> int \<times> nat) option"
  assumes stat_call: "plain_key key \<Longrightarrow> op_getattr F (CHR 0x2F # key) (server w) = Inr (r, so, s) \<Longrightarrow>
      \<exists>sb w'. c_stat P (mnt_path key) w = Inr (if r = 0 then 0 else -1, sb, w') \<and> server w' = s \<and>
        fds w' = fds w \<and> (r = 0 \<longrightarrow> so = Some sb \<or> so = None)"
    and fstat_call: "fds w fd = Some (key, h, i) \<Longrightarrow> op_getattr F (CHR 0x2F # key) (server w) = Inr (0, Some sb, s) \<Longrightarrow>
      \<exists>w'. c_fstat P fd w = Inr (0, sb, w') \<and> server w' = s \<and> fds w' = fds w"
    and open_absent: "plain_key key \<Longrightarrow> op_getattr F (CHR 0x2F # key) (server w) = Inr (r, so, s) \<Longrightarrow> r \<noteq> 0 \<Longrightarrow>
      \<exists>w'. c_open P (mnt_path key) O_RDWR w = Inr (-1, w') \<and> server w' = s \<and> fds w' = fds w"
    and open_present: "plain_key key \<Longrightarrow> op_getattr F (CHR 0x2F # key) (server w) = Inr (0, so, s) \<Longrightarrow>
      op_open F (CHR 0x2F # key) s = Inr (0, Some h, s') \<Longrightarrow>
      \<exists>fd w'. c_open P (mnt_path key) O_RDWR w = Inr (fd, w') \<and> 0 \<le> fd \<and> server w' = s' \<and>
        fds w' = (fds w)(fd \<mapsto> (key, h, 0))"
    and create_present: "plain_key key \<Longrightarrow> op_getattr F (CHR 0x2F # key) (server w) = Inr (0, so, s) \<Longrightarrow>
      \<exists>w'. c_open P (mnt_path key) (O_RDWR + O_CREAT + O_EXCL) w = Inr (-1, w') \<and> server w' = s \<and> fds w' = fds w"
    and create_absent: "plain_key key \<Longrightarrow> op_getattr F (CHR 0x2F # key) (server w) = Inr (r, so, s) \<Longrightarrow> r \<noteq> 0 \<Longrightarrow>
      op_create F (CHR 0x2F # key) s = Inr (0, Some h, s') \<Longrightarrow>
      \<exists>fd w'. c_open P (mnt_path key) (O_RDWR + O_CREAT + O_EXCL) w = Inr (fd, w') \<and> 0 \<le> fd \<and> server w' = s' \<and>
        fds w' = (fds w)(fd \<mapsto> (key, h, 0))"
    and write_call: "fds w fd = Some (key, h, i) \<Longrightarrow> xs \<noteq> [] \<Longrightarrow> length xs \<le> 4096 \<Longrightarrow>
      op_write F h xs (int i) (server w) = Inr (int (length xs), s) \<Longrightarrow>
      \<exists>w'. c_write P fd xs w = Inr (int (length xs), w') \<and> server w' = s \<and>
        fds w' = (fds w)(fd \<mapsto> (key, h, i + length xs))"
    and read_call: "fds w fd = Some (key, h, i) \<Longrightarrow> 0 < n \<Longrightarrow> n \<le> 4096 \<Longrightarrow>
      op_getattr F (CHR 0x2F # key) (server w) = Inr (0, Some sb, s0) \<Longrightarrow>
      op_read F h n (int i) (server w) = Inr (int n, ys, s) \<Longrightarrow>
      \<exists>m w'. c_read P fd n w = Inr (int m, take m ys, w') \<and> m \<le> n \<and> min n (nat (st_size sb) - i) \<le> m \<and>
        server w' = s \<and> fds w' = (fds w)(fd \<mapsto> (key, h, i + m))"
    and close_call: "fds w fd = Some d \<Longrightarrow>
      \<exists>r w'. c_close P fd w = Inr (r, w') \<and> server w' = server w \<and> fds w' = (fds w)(fd := None)"
    and rename_call: "plain_key old \<Longrightarrow> plain_key new \<Longrightarrow> (\<And>fd h i. fds w fd \<noteq> Some (old, h, i)) \<Longrightarrow>
      (\<And>fd h i. fds w fd \<noteq> Some (new, h, i)) \<Longrightarrow> op_getattr F (CHR 0x2F # old) (server w) = Inr (0, so, s) \<Longrightarrow>
      op_getattr F (CHR 0x2F # new) s = Inr (r, so', s') \<Longrightarrow> r \<noteq> 0 \<Longrightarrow>
      op_rename F = Some rename \<Longrightarrow> rename (CHR 0x2F # old) (CHR 0x2F # new) s' = Inr (0, t) \<Longrightarrow>
      \<exists>w'. c_rename P (mnt_path old) (mnt_path new) w = Inr (0, w') \<and> server w' = t \<and> fds w' = fds w"
    and unlink_call: "plain_key key \<Longrightarrow> (\<And>fd h i. fds w fd \<noteq> Some (key, h, i)) \<Longrightarrow>
      op_getattr F (CHR 0x2F # key) (server w) = Inr (0, so, s) \<Longrightarrow>
      op_unlink F (CHR 0x2F # key) s = Inr (0, t) \<Longrightarrow>
      \<exists>w'. c_unlink P (mnt_path key) w = Inr (0, w') \<and> server w' = t \<and> fds w' = fds w"
begin
end

section \<open>What a store offers\<close>

text \<open>\<open>handle s key\<close> is the handle under which the object of \<open>key\<close> is open.\<close>

locale object_files =
  fixes F :: "'s fuse_operations" and ok :: "'s \<Rightarrow> bool" and sview :: "'s \<Rightarrow> key_view"
    and handle :: "'s \<Rightarrow> string \<Rightarrow> int option" and name_ok :: "string \<Rightarrow> bool"
  assumes name_plain: "name_ok key \<Longrightarrow> plain_key key"
    and handle_file: "ok s \<Longrightarrow> handle s key \<noteq> None \<Longrightarrow> contents (sview s) key \<noteq> None"
    and getattr_file: "ok s \<Longrightarrow> name_ok key \<Longrightarrow> contents (sview s) key = Some xs \<Longrightarrow>
      \<exists>a s'. op_getattr F (CHR 0x2F # key) s = Inr (0, Some a, s') \<and> st_size a = int (length xs) \<and>
        ok s' \<and> sview s' = sview s \<and> handle s' = handle s"
    and getattr_none: "ok s \<Longrightarrow> name_ok key \<Longrightarrow> contents (sview s) key = None \<Longrightarrow>
      \<exists>r s'. op_getattr F (CHR 0x2F # key) s = Inr (r, None, s') \<and> r \<noteq> 0 \<and>
        ok s' \<and> sview s' = sview s \<and> handle s' = handle s"
    and create_file: "ok s \<Longrightarrow> name_ok key \<Longrightarrow> contents (sview s) key = None \<Longrightarrow> 0 < slots (sview s) \<Longrightarrow>
      \<exists>h s'. op_create F (CHR 0x2F # key) s = Inr (0, Some h, s') \<and> ok s' \<and>
        contents (sview s') = (contents (sview s))(key \<mapsto> []) \<and> slots (sview s) \<le> Suc (slots (sview s')) \<and>
        blocks (sview s') = blocks (sview s) \<and> handle s' = (handle s)(key \<mapsto> h)"
    and open_file: "ok s \<Longrightarrow> name_ok key \<Longrightarrow> contents (sview s) key = Some xs \<Longrightarrow>
      \<exists>h s'. op_open F (CHR 0x2F # key) s = Inr (0, Some h, s') \<and> handle s key = Some h \<and>
        ok s' \<and> sview s' = sview s \<and> handle s' = handle s"
    and write_file: "ok s \<Longrightarrow> handle s key = Some h \<Longrightarrow> contents (sview s) key = Some [] \<Longrightarrow>
      xs \<noteq> [] \<Longrightarrow> length xs \<le> 4096 \<Longrightarrow> 0 < blocks (sview s) \<Longrightarrow>
      \<exists>s'. op_write F h xs 0 s = Inr (int (length xs), s') \<and> ok s' \<and>
        contents (sview s') = (contents (sview s))(key \<mapsto> xs) \<and> slots (sview s') = slots (sview s) \<and>
        blocks (sview s) \<le> Suc (blocks (sview s')) \<and> handle s' = handle s"
    and read_file: "ok s \<Longrightarrow> handle s key = Some h \<Longrightarrow> contents (sview s) key = Some xs \<Longrightarrow>
      xs \<noteq> [] \<Longrightarrow> length xs \<le> 4096 \<Longrightarrow>
      \<exists>ys s'. op_read F h 4096 0 s = Inr (4096, ys, s') \<and> length ys = 4096 \<and> take (length xs) ys = xs \<and>
        ok s' \<and> sview s' = sview s \<and> handle s' = handle s"
begin
end

locale object_files_unlink = object_files +
  assumes unlink_file: "ok s \<Longrightarrow> name_ok key \<Longrightarrow> contents (sview s) key = Some xs \<Longrightarrow>
      \<exists>s'. op_unlink F (CHR 0x2F # key) s = Inr (0, s') \<and> ok s' \<and>
        contents (sview s') = (contents (sview s))(key := None) \<and> slots (sview s') = Suc (slots (sview s)) \<and>
        blocks (sview s') = blocks (sview s) \<and> (\<forall>key'. key' \<noteq> key \<longrightarrow> handle s' key' = handle s key')"
begin
end

section \<open>The clients' contract\<close>

definition mount_pos :: "('w \<Rightarrow> int \<Rightarrow> (string \<times> int \<times> nat) option) \<Rightarrow> 'w \<Rightarrow> int \<Rightarrow> (string \<times> nat) option" where
  "mount_pos fds w fd = map_option (\<lambda>(k, h, i). (k, i)) (fds w fd)"

text \<open>A sane store, and open files whose handles are those of their keys.\<close>

definition mount_good ::
    "('s \<Rightarrow> bool) \<Rightarrow> ('s \<Rightarrow> string \<Rightarrow> int option) \<Rightarrow> (string \<Rightarrow> bool) \<Rightarrow> ('w \<Rightarrow> 's) \<Rightarrow>
     ('w \<Rightarrow> int \<Rightarrow> (string \<times> int \<times> nat) option) \<Rightarrow> 'w \<Rightarrow> bool" where
  "mount_good ok handle name_ok server fds w \<longleftrightarrow> ok (server w) \<and>
     (\<forall>fd k h i. fds w fd = Some (k, h, i) \<longrightarrow> name_ok k \<and> handle (server w) k = Some h)"

lemma mount_pos_Some: "mount_pos fds w fd = Some (k, i) \<longleftrightarrow> (\<exists>h. fds w fd = Some (k, h, i))"
  by (auto simp: mount_pos_def)

lemma mount_pos_same: "fds w' = fds w \<Longrightarrow> mount_pos fds w' = mount_pos fds w"
  by (simp add: mount_pos_def fun_eq_iff)

lemma mount_pos_upd:
  "fds w' = (fds w)(fd := d) \<Longrightarrow> mount_pos fds w' = (mount_pos fds w)(fd := map_option (\<lambda>(k, h, i). (k, i)) d)"
  by (simp add: mount_pos_def fun_eq_iff)

lemma mount_goodD:
  assumes "mount_good ok handle name_ok server fds w"
  shows "ok (server w)" "fds w fd = Some (k, h, i) \<Longrightarrow> name_ok k"
    "fds w fd = Some (k, h, i) \<Longrightarrow> handle (server w) k = Some h"
  using assms by (auto simp: mount_good_def)

lemma mount_good_same:
  assumes "mount_good ok handle name_ok server fds w" and "ok (server w')"
    and "handle (server w') = handle (server w)" and "fds w' = fds w"
  shows "mount_good ok handle name_ok server fds w'"
  using assms by (simp add: mount_good_def)

lemma mount_good_open:
  assumes "mount_good ok handle name_ok server fds w" and "ok (server w')"
    and "\<And>k. k \<noteq> key \<Longrightarrow> handle (server w') k = handle (server w) k"
    and "handle (server w) key = None \<or> handle (server w') key = handle (server w) key"
    and "fds w' = (fds w)(fd := d)"
    and "\<And>k h i. d = Some (k, h, i) \<Longrightarrow> name_ok k \<and> handle (server w') k = Some h"
  shows "mount_good ok handle name_ok server fds w'"
proof -
  have "name_ok k \<and> handle (server w') k = Some h" if "fds w' fd' = Some (k, h, i)" for fd' k h i
  proof (cases "fd' = fd")
    case True
    then show ?thesis using that assms(5,6) by simp
  next
    case False
    then have "fds w fd' = Some (k, h, i)" using that assms(5) by simp
    then show ?thesis using mount_goodD(2,3) [OF assms(1)] assms(3) [of k] assms(4) by (cases "k = key") auto
  qed
  then show ?thesis using assms(2) by (auto simp: mount_good_def)
qed

locale fuse_files = fuse_mount P F server fds + object_files F ok sview handle name_ok
  for P :: "'w posix" and F :: "'s fuse_operations" and server fds ok sview handle name_ok
begin
end

sublocale fuse_files \<subseteq> key_files P "mount_good ok handle name_ok server fds" "\<lambda>w. sview (server w)"
  "mount_pos fds" name_ok
proof (unfold_locales, goal_cases)
  case (1 w key)
  note g = mount_goodD [OF 1(1)] and plain = name_plain [OF 1(2)]
  obtain r s where a: "op_getattr F (CHR 0x2F # key) (server w) = Inr (r, None, s)" "r \<noteq> 0" "ok s"
      "sview s = sview (server w)" "handle s = handle (server w)"
    using getattr_none [OF g(1) 1(2,3)] by blast
  obtain h t where c: "op_create F (CHR 0x2F # key) s = Inr (0, Some h, t)" "ok t"
      "contents (sview t) = (contents (sview s))(key \<mapsto> [])" "slots (sview s) \<le> Suc (slots (sview t))"
      "blocks (sview t) = blocks (sview s)" "handle t = (handle s)(key \<mapsto> h)"
    using create_file [OF a(3) 1(2)] 1(3,4) a(4) by auto
  obtain fd w' where w': "c_open P (mnt_path key) (O_RDWR + O_CREAT + O_EXCL) w = Inr (fd, w')" "0 \<le> fd"
      "server w' = t" "fds w' = (fds w)(fd \<mapsto> (key, h, 0))"
    using create_absent [OF plain a(1,2) c(1)] by blast
  have "handle (server w) key = None" using handle_file [OF g(1)] 1(3) by blast
  then have "mount_good ok handle name_ok server fds w'"
    using c w' a 1(2) by (intro mount_good_open [OF 1(1)]) auto
  then show ?case using w' c a(4) by (auto simp: mount_pos_def)
next
  case (2 w key xs)
  note g = mount_goodD [OF 2(1)] and plain = name_plain [OF 2(2)]
  obtain a s where a: "op_getattr F (CHR 0x2F # key) (server w) = Inr (0, Some a, s)" "ok s"
      "sview s = sview (server w)" "handle s = handle (server w)"
    using getattr_file [OF g(1) 2(2,3)] by blast
  obtain w' where w': "c_open P (mnt_path key) (O_RDWR + O_CREAT + O_EXCL) w = Inr (-1, w')" "server w' = s"
      "fds w' = fds w"
    using create_present [OF plain a(1)] by blast
  have "mount_good ok handle name_ok server fds w'"
    by (rule mount_good_same [OF 2(1)]) (use a w' in simp_all)
  then show ?case using w' a(3) mount_pos_same [OF w'(3)] by auto
next
  case (3 w key xs)
  note g = mount_goodD [OF 3(1)] and plain = name_plain [OF 3(2)]
  obtain a s where a: "op_getattr F (CHR 0x2F # key) (server w) = Inr (0, Some a, s)" "ok s"
      "sview s = sview (server w)" "handle s = handle (server w)"
    using getattr_file [OF g(1) 3(2,3)] by blast
  obtain h t where o: "op_open F (CHR 0x2F # key) s = Inr (0, Some h, t)" "handle s key = Some h" "ok t"
      "sview t = sview s" "handle t = handle s"
    using open_file [OF a(2) 3(2)] 3(3) a(3) by auto
  obtain fd w' where w': "c_open P (mnt_path key) O_RDWR w = Inr (fd, w')" "0 \<le> fd" "server w' = t"
      "fds w' = (fds w)(fd \<mapsto> (key, h, 0))"
    using open_present [OF plain a(1) o(1)] by blast
  have "mount_good ok handle name_ok server fds w'"
    using o w' a 3(2) by (intro mount_good_open [OF 3(1)]) auto
  then show ?case using w' o a by (auto simp: mount_pos_def)
next
  case (4 w key)
  note g = mount_goodD [OF 4(1)] and plain = name_plain [OF 4(2)]
  obtain r s where a: "op_getattr F (CHR 0x2F # key) (server w) = Inr (r, None, s)" "r \<noteq> 0" "ok s"
      "sview s = sview (server w)" "handle s = handle (server w)"
    using getattr_none [OF g(1) 4(2,3)] by blast
  then show ?case using open_absent [OF plain a(1,2)] mount_good_same [OF 4(1)] by fastforce
next
  case (5 w key xs)
  note g = mount_goodD [OF 5(1)] and plain = name_plain [OF 5(2)]
  obtain a s where a: "op_getattr F (CHR 0x2F # key) (server w) = Inr (0, Some a, s)" "st_size a = int (length xs)"
      "ok s" "sview s = sview (server w)" "handle s = handle (server w)"
    using getattr_file [OF g(1) 5(2,3)] by blast
  then show ?case using stat_call [OF plain a(1)] mount_good_same [OF 5(1)] by fastforce
next
  case (6 w key)
  note g = mount_goodD [OF 6(1)] and plain = name_plain [OF 6(2)]
  obtain r s where a: "op_getattr F (CHR 0x2F # key) (server w) = Inr (r, None, s)" "r \<noteq> 0" "ok s"
      "sview s = sview (server w)" "handle s = handle (server w)"
    using getattr_none [OF g(1) 6(2,3)] by blast
  then show ?case using stat_call [OF plain a(1)] mount_good_same [OF 6(1)] by fastforce
next
  case (7 w fd key i xs)
  then obtain h where fd: "fds w fd = Some (key, h, i)" by (auto simp: mount_pos_Some)
  note g = mount_goodD [OF 7(1)]
  obtain a s where a: "op_getattr F (CHR 0x2F # key) (server w) = Inr (0, Some a, s)" "st_size a = int (length xs)"
      "ok s" "sview s = sview (server w)" "handle s = handle (server w)"
    using getattr_file [OF g(1) g(2) [OF fd] 7(3)] by blast
  then show ?case
    using fstat_call [OF fd a(1)] mount_good_same [OF 7(1)] by (fastforce simp: mount_pos_def)
next
  case (8 w fd key xs)
  then obtain h where fd: "fds w fd = Some (key, h, 0)" by (auto simp: mount_pos_Some)
  note g = mount_goodD [OF 8(1)]
  obtain t where t: "op_write F h xs 0 (server w) = Inr (int (length xs), t)" "ok t"
      "contents (sview t) = (contents (sview (server w)))(key \<mapsto> xs)" "slots (sview t) = slots (sview (server w))"
      "blocks (sview (server w)) \<le> Suc (blocks (sview t))" "handle t = handle (server w)"
    using write_file [OF g(1) g(3) [OF fd] 8(3-6)] by blast
  obtain w' where w': "c_write P fd xs w = Inr (int (length xs), w')" "server w' = t"
      "fds w' = (fds w)(fd \<mapsto> (key, h, 0 + length xs))"
    using write_call [OF fd 8(4,5)] t(1) by auto
  have "mount_good ok handle name_ok server fds w'"
    using g(2,3) [OF fd] t w' by (intro mount_good_open [OF 8(1), where key = key]) auto
  moreover have "mount_pos fds w' = (mount_pos fds w)(fd \<mapsto> (key, length xs))"
    using mount_pos_upd [OF w'(3)] by simp
  ultimately show ?case using w' t by blast
next
  case (9 w fd key xs)
  then obtain h where fd: "fds w fd = Some (key, h, 0)" by (auto simp: mount_pos_Some)
  note g = mount_goodD [OF 9(1)]
  obtain a s where a: "op_getattr F (CHR 0x2F # key) (server w) = Inr (0, Some a, s)" "st_size a = int (length xs)"
    using getattr_file [OF g(1) g(2) [OF fd] 9(3)] by blast
  obtain ys t where t: "op_read F h 4096 0 (server w) = Inr (4096, ys, t)" "length ys = 4096"
      "take (length xs) ys = xs" "ok t" "sview t = sview (server w)" "handle t = handle (server w)"
    using read_file [OF g(1) g(3) [OF fd] 9(3-5)] by blast
  obtain m w' where w': "c_read P fd 4096 w = Inr (int m, take m ys, w')" "m \<le> 4096"
      "min 4096 (nat (st_size a) - 0) \<le> m" "server w' = t" "fds w' = (fds w)(fd \<mapsto> (key, h, 0 + m))"
    using read_call [OF fd _ _ a(1), of 4096 ys t] t(1) by auto
  have "length xs \<le> m" using w'(3) a(2) 9(5) by simp
  then have "take (length xs) (take m ys) = xs" using t(3) by (simp add: min_def)
  moreover have "mount_good ok handle name_ok server fds w'"
    using g(2,3) [OF fd] t w' by (intro mount_good_open [OF 9(1), where key = key]) auto
  ultimately show ?case using w' t by (auto simp: mount_pos_def)
next
  case (10 w fd)
  then obtain d where fd: "fds w fd = Some d" by (auto simp: mount_pos_def)
  obtain r w' where w': "c_close P fd w = Inr (r, w')" "server w' = server w" "fds w' = (fds w)(fd := None)"
    using close_call [OF fd] by blast
  have "mount_good ok handle name_ok server fds w'"
    using mount_goodD(1) [OF 10(1)] w' by (intro mount_good_open [OF 10(1), where d = None]) auto
  then show ?case using w' mount_pos_upd [OF w'(3)] by auto
qed

context fuse_files
begin

lemma as_key_files:
  "key_files P (mount_good ok handle name_ok server fds) (\<lambda>w. sview (server w)) (mount_pos fds) name_ok"
  by unfold_locales

end

locale fuse_files_unlink = fuse_files P F server fds ok sview handle name_ok +
    object_files_unlink F ok sview handle name_ok
  for P :: "'w posix" and F :: "'s fuse_operations" and server fds ok sview handle name_ok
begin
end

sublocale fuse_files_unlink \<subseteq> removing_files P "mount_good ok handle name_ok server fds"
  "\<lambda>w. sview (server w)" "mount_pos fds" name_ok
proof (unfold_locales, goal_cases)
  case (1 w key xs)
  note g = mount_goodD [OF 1(1)]
  have closed: "fds w fd \<noteq> Some (key, h, i)" for fd h i
    using 1(4) [of fd i] by (auto simp: mount_pos_Some)
  obtain a s where a: "op_getattr F (CHR 0x2F # key) (server w) = Inr (0, Some a, s)" "ok s"
      "sview s = sview (server w)" "handle s = handle (server w)"
    using getattr_file [OF g(1) 1(2,3)] by blast
  obtain t where t: "op_unlink F (CHR 0x2F # key) s = Inr (0, t)" "ok t"
      "contents (sview t) = (contents (sview s))(key := None)" "slots (sview t) = Suc (slots (sview s))"
      "blocks (sview t) = blocks (sview s)" "\<forall>key'. key' \<noteq> key \<longrightarrow> handle t key' = handle s key'"
    using unlink_file [OF a(2) 1(2)] 1(3) a(3) by auto
  obtain w' where w': "c_unlink P (mnt_path key) w = Inr (0, w')" "server w' = t" "fds w' = fds w"
    using unlink_call [OF name_plain [OF 1(2)] closed a(1) t(1)] by blast
  have "name_ok k \<and> handle t k = Some h" if "fds w fd = Some (k, h, i)" for fd k h i
    using g(2,3) [OF that] closed that t(6) a(4) by (metis (no_types, lifting))
  then have "mount_good ok handle name_ok server fds w'" using w' t(2) by (auto simp: mount_good_def)
  then show ?case using w' t(3-5) a(3) by simp
qed

context fuse_files_unlink
begin

lemma as_removing_files:
  "removing_files P (mount_good ok handle name_ok server fds) (\<lambda>w. sview (server w)) (mount_pos fds) name_ok"
  by unfold_locales

end

end
