(* ===== verification/Store_Files.thy ===== *)
theory Store_Files
  imports Mount
begin

text \<open>
  The object store offers the clients' contract: the files are those of the abstract file
  system, as long as keys are unique and every file is at most a block.
\<close>

section \<open>Files by key\<close>

definition key_slot :: "afs \<Rightarrow> string \<Rightarrow> nat option" where
  "key_slot A key = scan (\<lambda>k. a_key A k = Some key) 0 n_inodes"

definition keys_once :: "afs \<Rightarrow> bool" where
  "keys_once A \<longleftrightarrow> (\<forall>j k key. j < n_inodes \<longrightarrow> k < n_inodes \<longrightarrow> a_key A j = Some key \<longrightarrow> a_key A k = Some key \<longrightarrow> j = k)"

definition bytes_at :: "afs \<Rightarrow> nat \<Rightarrow> byte list" where
  "bytes_at A k = (if a_len A k = 0 then [] else take (nat (a_len A k)) (the (a_blk A k 0)))"

definition one_block :: "afs \<Rightarrow> nat \<Rightarrow> bool" where
  "one_block A k \<longleftrightarrow> 0 \<le> a_len A k \<and> a_len A k \<le> 4096 \<and>
     (a_len A k \<noteq> 0 \<longrightarrow> (\<exists>b. a_blk A k 0 = Some b \<and> length b = 4096))"

definition files_of :: "afs \<Rightarrow> string \<Rightarrow> byte list option" where
  "files_of A key = map_option (bytes_at A) (key_slot A key)"

definition small_files :: "afs \<Rightarrow> bool" where
  "small_files A \<longleftrightarrow> keys_once A \<and> (\<forall>k < n_inodes. one_block A k \<and> (a_key A k = None \<longrightarrow> a_len A k = 0))"

lemma small_filesD:
  assumes "small_files A" and "k < n_inodes"
  shows "one_block A k" and "a_key A k = None \<Longrightarrow> a_len A k = 0"
  using assms unfolding small_files_def by blast+

lemma keys_onceD:
  "keys_once A \<Longrightarrow> j < n_inodes \<Longrightarrow> k < n_inodes \<Longrightarrow> a_key A j = Some key \<Longrightarrow> a_key A k = Some key \<Longrightarrow> j = k"
  unfolding keys_once_def by blast

lemma key_slot_iff:
  assumes "keys_once A"
  shows "key_slot A key = Some k \<longleftrightarrow> k < n_inodes \<and> a_key A k = Some key"
proof
  assume "k < n_inodes \<and> a_key A k = Some key"
  moreover from this have "a_key A j \<noteq> Some key" if "j < k" for j
    using keys_onceD [OF assms, of j k key] that by auto
  ultimately show "key_slot A key = Some k" by (simp add: key_slot_def scan_Some_iff)
qed (simp add: key_slot_def scan_Some_iff)

lemma key_slot_None: "key_slot A key = None \<longleftrightarrow> (\<forall>k < n_inodes. a_key A k \<noteq> Some key)"
  by (auto simp: key_slot_def scan_None_iff)

lemma key_slot_same_keys: "a_key B = a_key A \<Longrightarrow> key_slot B = key_slot A"
  by (simp add: key_slot_def fun_eq_iff)

lemma files_of_None: "files_of A key = None \<longleftrightarrow> key_slot A key = None"
  by (simp add: files_of_def)

lemma length_bytes_at: "one_block A k \<Longrightarrow> length (bytes_at A k) = nat (a_len A k)"
  by (auto simp: one_block_def bytes_at_def)

text \<open>A slot gets a key that is new.\<close>

lemma rekey:
  assumes A: "small_files A" and k: "k < n_inodes" and new: "key_slot A key = None"
  defines "B \<equiv> A\<lparr>a_key := (a_key A)(k := Some key)\<rparr>"
  shows "small_files B" and "key_slot B key' = (if key' = key then Some k
      else if a_key A k = Some key' then None else key_slot A key')"
proof -
  have once: "keys_once A" using A by (simp add: small_files_def)
  have none: "a_key A j \<noteq> Some key" if "j < n_inodes" for j using new that by (simp add: key_slot_None)
  have B: "keys_once B"
    unfolding keys_once_def
  proof (intro allI impI)
    fix i j l
    assume "i < n_inodes" "j < n_inodes" "a_key B i = Some l" "a_key B j = Some l"
    then show "i = j"
      using none keys_onceD [OF once, of i j l] by (simp add: B_def split: if_splits)
  qed
  moreover have "one_block B j \<and> (a_key B j = None \<longrightarrow> a_len B j = 0)" if "j < n_inodes" for j
    using small_filesD [OF A that] by (simp add: B_def one_block_def split: if_splits)
  ultimately show "small_files B" unfolding small_files_def by blast
  show "key_slot B key' = (if key' = key then Some k
      else if a_key A k = Some key' then None else key_slot A key')"
  proof (cases "key' = key")
    case True
    then show ?thesis using key_slot_iff [OF B, of key k] k by (simp add: B_def)
  next
    case False
    show ?thesis
    proof (cases "a_key A k = Some key'")
      case True
      have "key_slot B key' = None"
        unfolding key_slot_None
      proof (intro allI impI notI)
        fix j assume "j < n_inodes" and "a_key B j = Some key'"
        then show False using keys_onceD [OF once, of j k key'] True k False by (simp add: B_def split: if_splits)
      qed
      then show ?thesis using True False by simp
    next
      case other: False
      have "(a_key B j = Some key') = (a_key A j = Some key')" for j
        using False other by (simp add: B_def)
      then have "key_slot B key' = key_slot A key'" by (simp add: key_slot_def)
      then show ?thesis using False other by simp
    qed
  qed
qed

lemma bytes_at_rekey: "bytes_at (A\<lparr>a_key := f\<rparr>) = bytes_at A"
  by (simp add: bytes_at_def fun_eq_iff)

lemma write_small:
  assumes A: "small_files A" and k: "a_key A k = Some key" "k < n_inodes" and len: "a_len A k = 0"
    and xs: "xs \<noteq> []" "length xs \<le> 4096"
  defines "B \<equiv> snd (spec_step (Write k 0 xs) A)"
  shows "small_files B" and "files_of B = (files_of A)(key \<mapsto> xs)" and "key_slot B = key_slot A"
proof -
  have once: "keys_once A" using A by (simp add: small_files_def)
  show sl: "key_slot B = key_slot A" by (rule key_slot_same_keys) (simp add: B_def)
  have "keys_once B" using once by (simp add: keys_once_def B_def)
  moreover have "one_block B j \<and> (a_key B j = None \<longrightarrow> a_len B j = 0)" if "j < n_inodes" for j
  proof (cases "j = k")
    case True
    have "length (block_of xs) = 4096" by (simp add: block_of_def)
    then show ?thesis using True k(1) len xs by (simp add: B_def one_block_def)
  next
    case False
    then show ?thesis using small_filesD [OF A that] by (simp add: B_def one_block_def)
  qed
  ultimately show "small_files B" unfolding small_files_def by blast
  have bk: "bytes_at B k = xs" using xs len by (simp add: B_def bytes_at_def block_of_def)
  have bj: "bytes_at B j = bytes_at A j" if "j \<noteq> k" for j using that by (simp add: B_def bytes_at_def)
  have s: "key_slot A key = Some k" using key_slot_iff [OF once] k by simp
  show "files_of B = (files_of A)(key \<mapsto> xs)"
  proof
    fix key'
    show "files_of B key' = ((files_of A)(key \<mapsto> xs)) key'"
    proof (cases "key' = key")
      case True
      then show ?thesis using s bk by (simp add: files_of_def sl)
    next
      case False
      then have "key_slot A key' \<noteq> Some k" using key_slot_iff [OF once] k by auto
      then show ?thesis using False bj by (cases "key_slot A key'") (auto simp: files_of_def sl)
    qed
  qed
qed

section \<open>The object store as a file system\<close>

definition store_ok :: "build \<Rightarrow> objstore \<Rightarrow> bool" where
  "store_ok c s \<longleftrightarrow> fs_inv c s \<and> small_files (abs_fs c s)"

definition store_view :: "build \<Rightarrow> objstore \<Rightarrow> key_view" where
  "store_view c s =
     \<lparr>contents = files_of (abs_fs c s),
      slots = (if \<forall>k < n_inodes. live s k then 0 else 1),
      blocks = (if has_room s then 1 else 0)\<rparr>"

definition store_handle :: "build \<Rightarrow> objstore \<Rightarrow> string \<Rightarrow> int option" where
  "store_handle c s key = map_option (\<lambda>k. int k + 2) (key_slot (abs_fs c s) key)"

definition store_name :: "string \<Rightarrow> bool" where
  "store_name key \<longleftrightarrow> key_ok key \<and> plain_key key"

lemma store_okD:
  assumes "store_ok c s"
  shows "fs_inv c s" "files_ok c s" "inodes_ok s" "small_files (abs_fs c s)" "keys_once (abs_fs c s)"
  using assms by (simp_all add: store_ok_def fs_inv_def small_files_def files_ok_def)

lemma key_slot_slots:
  assumes "store_ok c s"
  shows "key_slot (abs_fs c s) key = Some k \<longleftrightarrow> slots_with s key = {k}"
    and "key_slot (abs_fs c s) key = None \<longleftrightarrow> slots_with s key = {}"
proof -
  note ok = store_okD [OF assms]
  have m: "j < n_inodes \<and> a_key (abs_fs c s) j = Some key \<longleftrightarrow> j \<in> slots_with s key" for j
    using a_key_abs(1) [OF ok(2), of j key] by (auto simp: slots_with_def)
  show "key_slot (abs_fs c s) key = Some k \<longleftrightarrow> slots_with s key = {k}"
    unfolding key_slot_iff [OF ok(5)] m using m keys_onceD [OF ok(5), of _ k key] by blast
  show "key_slot (abs_fs c s) key = None \<longleftrightarrow> slots_with s key = {}"
    unfolding key_slot_None using m by blast
qed

text \<open>A state that differs in the backup pointer or in what is cached is the same file system.\<close>

lemma store_same:
  assumes "store_ok c s" and "fs_inv c t" and "abs_fs c t = abs_fs c s"
    and "inode_bitmap t = inode_bitmap s" and "data_bitmap t = data_bitmap s"
  shows "store_ok c t" "store_view c t = store_view c s" "store_handle c t = store_handle c s"
  using assms by (simp_all add: store_ok_def store_view_def store_handle_def [abs_def] has_room_def)

lemma store_backup:
  assumes "store_ok c s"
  shows "store_ok c (s\<lparr>backup := b\<rparr>)" "store_view c (s\<lparr>backup := b\<rparr>) = store_view c s"
    "store_handle c (s\<lparr>backup := b\<rparr>) = store_handle c s"
  using store_same [OF assms, of "s\<lparr>backup := b\<rparr>"] backup_fs [OF store_okD(1) [OF assms], of b] by simp_all

lemma store_file:
  assumes "store_ok c s" and "contents (store_view c s) key = Some xs"
  obtains k where "slots_with s key = {k}" "k < n_inodes" "live s k" "a_key (abs_fs c s) k = Some key"
    "xs = bytes_at (abs_fs c s) k" "o_size (objs s k) = int (length xs)" "one_block (abs_fs c s) k"
proof -
  note ok = store_okD [OF assms(1)]
  obtain k where sl: "key_slot (abs_fs c s) key = Some k" and xs: "xs = bytes_at (abs_fs c s) k"
    using assms(2) by (auto simp: store_view_def files_of_def)
  have k: "k < n_inodes" "a_key (abs_fs c s) k = Some key" using sl key_slot_iff [OF ok(5)] by simp_all
  have one: "one_block (abs_fs c s) k" using small_filesD(1) [OF ok(4) k(1)] .
  have "live s k" using k(2) by (auto simp: abs_fs_def split: if_splits)
  moreover have "o_size (objs s k) = int (length xs)"
    using length_bytes_at [OF one] one k(1) unfolding xs by (simp add: one_block_def abs_fs_def)
  moreover have "slots_with s key = {k}" using key_slot_slots(1) [OF assms(1)] sl by simp
  ultimately show ?thesis using that k xs one by blast
qed

section \<open>Its functions\<close>

lemma operations_simps [simp]:
  "op_getattr (objfs_operations ctr0 c env) path s = Inr (objfs_getattr env path s)"
  "op_create (objfs_operations ctr0 c env) = objfs_create"
  "op_unlink (objfs_operations ctr0 c env) = objfs_unlink"
  "op_open (objfs_operations ctr0 c env) path s = Inr (objfs_open path s)"
  "op_read (objfs_operations ctr0 c env) = objfs_read c"
  "op_write (objfs_operations ctr0 c env) = objfs_write c"
  "op_rename (objfs_operations ctr0 c env) = Some (objfs_rename_key ctr0)"
  by (simp_all add: objfs_operations_def)

lemma store_create:
  assumes s: "store_ok c s" and key: "store_name key" and none: "contents (store_view c s) key = None"
    and room: "0 < slots (store_view c s)"
  shows "\<exists>h s'. objfs_create (CHR 0x2F # key) s = Inr (0, Some h, s') \<and> store_ok c s' \<and>
    contents (store_view c s') = (contents (store_view c s))(key \<mapsto> []) \<and>
    slots (store_view c s) \<le> Suc (slots (store_view c s')) \<and>
    blocks (store_view c s') = blocks (store_view c s) \<and>
    store_handle c s' = (store_handle c s)(key \<mapsto> h)"
proof -
  note ok = store_okD [OF s]
  let ?A = "abs_fs c s"
  have "\<not> (\<forall>k < n_inodes. live s k)" using room by (auto simp: store_view_def split: if_splits)
  then obtain k where k: "k < n_inodes" "\<not> live s k" "\<forall>j < k. live s j"
    using exists_least_iff [of "\<lambda>k. k < n_inodes \<and> \<not> live s k"] by (meson order.strict_trans)
  obtain b where cr: "create_object key s = Inr (int k + 2, created k b s)" and b: "cstr b = key" "length b = 32"
      "CHR 0x00 \<in> set b"
    using create_object_at [OF ok(3) k] key by (auto simp: store_name_def key_ok_def)
  let ?t = "created k b s"
  have inv: "fs_inv c ?t" and abs: "abs_fs c ?t = ?A\<lparr>a_key := (a_key ?A)(k := Some key)\<rparr>"
    using created_fs [OF ok(1) k(1) b(2,3)] b(1) by simp_all
  have new: "key_slot ?A key = None" using none by (simp add: store_view_def files_of_None)
  have kn: "a_key ?A k = None" using k by (simp add: abs_fs_def)
  note re = rekey [OF ok(4) k(1) new, folded abs]
  have sl: "key_slot (abs_fs c ?t) = (key_slot ?A)(key \<mapsto> k)" using re(2) kn by (simp add: fun_eq_iff)
  have empty: "bytes_at ?A k = []" using small_filesD(2) [OF ok(4) k(1) kn] by (simp add: bytes_at_def)
  have "files_of (abs_fs c ?t) = (files_of ?A)(key \<mapsto> [])"
    using empty by (simp add: files_of_def sl fun_eq_iff) (simp add: abs bytes_at_rekey)
  moreover have "objfs_create (CHR 0x2F # key) s = Inr (0, Some (int k + 2), ?t)"
    using cr by (simp add: objfs_create_def path_key_def)
  moreover have "store_handle c ?t = (store_handle c s)(key \<mapsto> int k + 2)"
    by (simp add: store_handle_def sl fun_eq_iff)
  moreover have "has_room ?t = has_room s" by (simp add: has_room_def)
  ultimately show ?thesis using inv re(1) by (simp add: store_ok_def store_view_def)
qed

lemma store_write:
  assumes s: "store_ok c s" and h: "store_handle c s key = Some h" and c0: "contents (store_view c s) key = Some []"
    and xs: "xs \<noteq> []" "length xs \<le> 4096" and room: "0 < blocks (store_view c s)"
  shows "\<exists>s'. objfs_write c h xs 0 s = Inr (int (length xs), s') \<and> store_ok c s' \<and>
    contents (store_view c s') = (contents (store_view c s))(key \<mapsto> xs) \<and>
    slots (store_view c s') = slots (store_view c s) \<and>
    blocks (store_view c s) \<le> Suc (blocks (store_view c s')) \<and> store_handle c s' = store_handle c s"
proof -
  note ok = store_okD [OF s]
  let ?A = "abs_fs c s"
  obtain k where k: "slots_with s key = {k}" "k < n_inodes" "live s k" "a_key ?A k = Some key"
      "o_size (objs s k) = 0"
    using store_file [OF s c0] by auto
  have hk: "h = int k + 2" "s32 h = int k + 2"
    using h key_slot_slots(1) [OF s, of key k] k(1,2) by (simp_all add: store_handle_def)
  have "has_room s" using room by (simp add: store_view_def split: if_splits)
  then have sv: "served c (Write k 0 xs) s" using k xs by (simp add: in_sequence_def fits64_def)
  obtain t where run: "objfs_write c (int k + 2) xs 0 s = Inr (int (length xs), t)" and "fs_inv c t"
      "abs_fs c t = snd (spec_step (Write k 0 xs) ?A)"
    using write_implements [OF ok(1) sv] by (auto simp: implements_def run_simps)
  obtain u where "objstore_write c (int k + 2) xs 0 s = Inr (int (length xs), u)"
    using objstore_write_correct [OF ok(2) k(2,3) \<open>has_room s\<close> xs(1), of 0 0] by (auto simp: in_sequence_def)
  then have t: "objstore_write c (int k + 2) xs 0 s = Inr (int (length xs), t)" "fs_inv c t"
      "abs_fs c t = snd (spec_step (Write k 0 xs) ?A)"
    using run k(2) \<open>fs_inv c t\<close> \<open>abs_fs c t = _\<close> by (simp_all add: objfs_write_def Let_def)
  have len: "a_len ?A k = 0" using k(2,5) by (simp add: abs_fs_def)
  note w = write_small [OF ok(4) k(4,2) len xs, folded t(3)]
  have live: "inode_bitmap t = inode_bitmap s"
    using objstore_write_meta t(1) ok k xs \<open>has_room s\<close> objstore_write_correct [OF ok(2) k(2,3) \<open>has_room s\<close> xs(1), of 0 0]
    by (auto simp: in_sequence_def write_post_def)
  have "objfs_write c h xs 0 s = Inr (int (length xs), t)"
    using t(1) hk(2) xs(2) by (simp add: objfs_write_def)
  then show ?thesis
    using t(2) w live by (intro exI [of _ t]) (simp add: store_ok_def store_view_def store_handle_def [abs_def])
qed

lemma store_read:
  assumes s: "store_ok c s" and h: "store_handle c s key = Some h" and cx: "contents (store_view c s) key = Some xs"
    and xs: "xs \<noteq> []"
  shows "\<exists>ys s'. objfs_read c h 4096 0 s = Inr (4096, ys, s') \<and> length ys = 4096 \<and> take (length xs) ys = xs \<and>
    store_ok c s' \<and> store_view c s' = store_view c s \<and> store_handle c s' = store_handle c s"
proof -
  note ok = store_okD [OF s]
  let ?A = "abs_fs c s"
  obtain k where k: "slots_with s key = {k}" "k < n_inodes" "live s k" "xs = bytes_at ?A k"
      "o_size (objs s k) = int (length xs)" "one_block ?A k"
    using store_file [OF s cx] by blast
  have hk: "s32 h = int k + 2"
    using h key_slot_slots(1) [OF s, of key k] k(1,2) by (auto simp: store_handle_def)
  have len: "a_len ?A k = int (length xs)" "length xs \<noteq> 0" using k(2,5) xs by (simp_all add: abs_fs_def)
  then obtain b where b: "a_blk ?A k 0 = Some b" "length b = 4096" using k(6) by (auto simp: one_block_def)
  have fb: "file_block c s k 0 = Some b" using b(1) k(2) by (simp add: abs_fs_def)
  have bx: "take (length xs) b = xs" using k(4) len b(1) by (simp add: bytes_at_def)
  obtain t where t: "objstore_read c (int k + 2) 4096 0 s = Inr (4096, b, t)" and same: "same_files c s t"
    using objstore_read_correct [OF ok(2) k(2,3), of 4096 0] fb b(2) by auto
  have sv: "served c (Read k 0 4096) s" using k fb by simp
  obtain u where "code_step c (Read k 0 4096) s = Inr (Data 4096 b, u)" "fs_inv c u" "abs_fs c u = ?A"
    using read_implements [OF ok(1) sv] b by (auto simp: implements_def)
  then have u: "fs_inv c t" "abs_fs c t = ?A" using t k(2) by (simp_all add: objfs_read_def Let_def)
  have "inode_bitmap t = inode_bitmap s" "data_bitmap t = data_bitmap s"
    using same by (auto simp: same_files_def)
  note st = store_same [OF s u this]
  have "objfs_read c h 4096 0 s = Inr (4096, b, t)" using t hk by (simp add: objfs_read_def)
  then show ?thesis using st b(2) bx by blast
qed

interpretation store: object_files "objfs_operations ctr0 c env" "store_ok c" "store_view c" "store_handle c" store_name
  for ctr0 c env
proof (unfold_locales, goal_cases)
  case (1 key)
  then show ?case by (simp add: store_name_def)
next
  case (2 s key)
  then show ?case by (simp add: store_handle_def store_view_def files_of_def)
next
  case (3 s key xs)
  obtain k where k: "slots_with s key = {k}" "o_size (objs s k) = int (length xs)"
    using store_file [OF 3(1,3)] by blast
  have "key \<noteq> []" using 3(2) by (simp add: store_name_def plain_key_def)
  then show ?case
    using getattr_found [OF store_okD(3) [OF 3(1)], of k key _ env] k store_backup [OF 3(1)] by auto
next
  case (4 s key)
  have "slots_with s key = {}"
    using 4(3) key_slot_slots(2) [OF 4(1)] by (simp add: store_view_def files_of_None)
  moreover have "key \<noteq> []" using 4(2) by (simp add: store_name_def plain_key_def)
  ultimately show ?case using 4(1) getattr_missing [of s key] by auto
next
  case (5 s key)
  then show ?case using store_create by simp
next
  case (6 s key xs)
  obtain k where k: "slots_with s key = {k}" using store_file [OF 6(1,3)] by blast
  then have "objfs_open (CHR 0x2F # key) s = (0, Some (int k + 2), s\<lparr>backup := Some k\<rparr>)"
    by (intro open_found [OF store_okD(3) [OF 6(1)]]) auto
  then show ?case
    using k key_slot_slots(1) [OF 6(1)] store_backup [OF 6(1)] by (simp add: store_handle_def)
next
  case (7 s key h xs)
  then show ?case using store_write by simp
next
  case (8 s key h xs)
  then show ?case using store_read by simp
qed

end
