(* ===== verification/Example_Properties.thy ===== *)
theory Example_Properties
  imports Example_Store
begin

text \<open>
  What the example store guarantees in both builds, and the error in its \<open>create_object\<close>.
\<close>

section \<open>The table on the disk\<close>

definition representable_x :: "xobject \<Rightarrow> bool" where
  "representable_x ob \<longleftrightarrow> fits64 (x_id ob) \<and> fits64 (x_size ob) \<and> fits32 (x_cache_index ob) \<and>
     fits32 (x_dirty ob) \<and> length (x_key ob) = 64"

lemma length_encode_xobject: "representable_x ob \<Longrightarrow> length (encode_xobject ob) = 88"
  by (simp add: encode_xobject_def representable_x_def)

lemma decode_encode_xobject: "representable_x ob \<Longrightarrow> decode_xobject (encode_xobject ob) = ob"
  by (simp add: representable_x_def fits32_def fits64_def decode_xobject_def encode_xobject_def
      get_int_def le_val_le32 le_val_le64 comp_def)

lemma decode_encode_xtable:
  assumes r: "\<And>k. k < 47 \<Longrightarrow> representable_x (os k)"
  shows "length (encode_xtable os) = 4096"
    and "k < 46 \<Longrightarrow> decode_xtable (encode_xtable os) k = os k"
proof -
  let ?f = "\<lambda>m. if m < 47 then encode_xobject (os m) else replicate 88 0"
  have f: "length (?f m) = 88" for m using length_encode_xobject r by simp
  have c: "concat (map (\<lambda>k. encode_xobject (os k)) [0 ..< 47]) = concat (map ?f [0 ..< 47])"
    by (intro arg_cong [where f = concat] map_cong) auto
  have len: "length (concat (map ?f [0 ..< 47])) = 4136"
    using f by (simp add: length_concat_map [where w = 88])
  then show l: "length (encode_xtable os) = 4096" unfolding encode_xtable_def c by simp
  assume k: "k < 46"
  have "take 88 (drop (88 * k) (concat (map ?f [0 ..< 47]))) = encode_xobject (os k)"
    using k take_drop_concat [of ?f 88 k "[0 ..< 47]", OF f] by simp
  moreover have "take 88 (drop (88 * k) (take 4096 xs @ ys)) = take 88 (drop (88 * k) xs)"
    if "length xs = 4136" for xs ys :: "byte list"
  proof -
    have "88 \<le> 4096 - 88 * k" using k by linarith
    then show ?thesis using that by (simp add: drop_take min_def)
  qed
  ultimately have "take 88 (drop (88 * k) (encode_xtable os @ replicate 88 0)) = encode_xobject (os k)"
    using len unfolding encode_xtable_def c by (metis (no_types, lifting))
  then show "decode_xtable (encode_xtable os) k = os k"
    using decode_encode_xobject [OF r] k by (simp add: decode_xtable_def)
qed

section \<open>Unmounting\<close>

text \<open>A page in the cache that is not dirty is what the disk has; a dirty one is in the cache.\<close>

definition clean_x :: "build \<Rightarrow> xstore \<Rightarrow> bool" where
  "clean_x c s \<longleftrightarrow> (c = Cached \<longrightarrow> (\<forall>k. valid_x s k \<longrightarrow>
     (if x_dirty (xobjs s k) = 0 then disk_page s k = page_x Cached s k
      else 0 \<le> x_cache_index (xobjs s k))))"

definition ids_x :: "xstore \<Rightarrow> bool" where
  "ids_x s \<longleftrightarrow> (\<forall>k < MAX_OBJS. x_id (xobjs s k) = 0 \<or> valid_x s k)"

text \<open>What the objects keep when they are written back.\<close>

definition same_but_dirty :: "xstore \<Rightarrow> xstore \<Rightarrow> bool" where
  "same_but_dirty s t \<longleftrightarrow> xcache t = xcache s \<and>
     (\<forall>k. \<exists>b. xobjs t k = (xobjs s k)\<lparr>x_dirty := b\<rparr> \<and> (b = x_dirty (xobjs s k) \<or> b = 0))"

lemma same_but_dirtyD:
  assumes "same_but_dirty s t"
  shows "x_id (xobjs t k) = x_id (xobjs s k)" "x_size (xobjs t k) = x_size (xobjs s k)"
    "x_key (xobjs t k) = x_key (xobjs s k)" "x_cache_index (xobjs t k) = x_cache_index (xobjs s k)"
    "xcache t = xcache s" "representable_x (xobjs s k) \<Longrightarrow> representable_x (xobjs t k)"
proof -
  obtain b where "xobjs t k = (xobjs s k)\<lparr>x_dirty := b\<rparr>" "b = x_dirty (xobjs s k) \<or> b = 0"
    using assms unfolding same_but_dirty_def by blast
  then show "x_id (xobjs t k) = x_id (xobjs s k)" "x_size (xobjs t k) = x_size (xobjs s k)"
    "x_key (xobjs t k) = x_key (xobjs s k)" "x_cache_index (xobjs t k) = x_cache_index (xobjs s k)"
    "representable_x (xobjs s k) \<Longrightarrow> representable_x (xobjs t k)"
    by (auto simp: representable_x_def fits32_def)
  show "xcache t = xcache s" using assms by (simp add: same_but_dirty_def)
qed

lemma sync_page:
  assumes ok: "ok_x s" and k: "valid_x s k"
  shows "\<exists>t. obj_sync_x Cached k s = Inr (0, t) \<and> ok_x t \<and> same_but_dirty s t \<and>
    (\<forall>j < 16. disk_page t j = (if j = k \<and> x_dirty (xobjs s k) \<noteq> 0 then xcache s (k + 2) else disk_page s j)) \<and>
    (\<forall>j. j \<noteq> k \<longrightarrow> xobjs t j = xobjs s j)"
proof (cases "x_dirty (xobjs s k) = 0")
  case True
  have "\<exists>b. xobjs s j = (xobjs s j)\<lparr>x_dirty := b\<rparr> \<and> (b = x_dirty (xobjs s j) \<or> b = 0)" for j
    by (rule exI [of _ "x_dirty (xobjs s j)"]) simp
  then show ?thesis using True ok by (simp add: obj_sync_x_def same_but_dirty_def)
next
  case False
  have kk: "k < 16" "x_id (xobjs s k) = int k + 2" using k by (simp_all add: valid_x_def)
  have "k + 2 < 18" "length (xcache s (k + 2)) = 4096" using kk ok by (simp_all add: ok_x_def)
  moreover have "int (k + 2) = int k + 2" by simp
  ultimately obtain d where
    d: "write_block (xdisk s) (int k + 2) (word_of_nat (4096 * (k + 2))) (Some (xcache s (k + 2))) = (0, d)"
      "disk_ok d" "18 \<le> nblocks d" "\<forall>i < 18. dblock d i = (if i = k + 2 then xcache s (k + 2) else dblock (xdisk s) i)"
    using write_page [OF ok _ page_aligned_slot [of "k + 2"]] by metis
  let ?t = "upd_x k (\<lambda>obj. obj\<lparr>x_dirty := 0\<rparr>) (s\<lparr>xdisk := d\<rparr>)"
  have "obj_sync_x Cached k s = Inr (0, ?t)"
    using False kk d(1) [folded word_slot]
    by (simp add: obj_sync_x_def Let_def write_block_x nat_add_distrib algebra_simps)
  moreover have "ok_x ?t" using d ok by (simp add: ok_x_def)
  moreover have "\<exists>b. xobjs ?t j = (xobjs s j)\<lparr>x_dirty := b\<rparr> \<and> (b = x_dirty (xobjs s j) \<or> b = 0)" for j
    by (rule exI [of _ "if j = k then 0 else x_dirty (xobjs s j)"]) simp
  moreover have "disk_page ?t j = (if j = k then xcache s (k + 2) else disk_page s j)" if "j < 16" for j
    using d(4) that by (simp add: disk_page_def)
  ultimately show ?thesis using False by (intro exI [of _ ?t]) (simp add: same_but_dirty_def)
qed

lemma same_but_dirty_trans: "same_but_dirty s t \<Longrightarrow> same_but_dirty t u \<Longrightarrow> same_but_dirty s u"
proof -
  assume a: "same_but_dirty s t" "same_but_dirty t u"
  have "\<exists>b. xobjs u k = (xobjs s k)\<lparr>x_dirty := b\<rparr> \<and> (b = x_dirty (xobjs s k) \<or> b = 0)" for k
  proof -
    obtain b where "xobjs t k = (xobjs s k)\<lparr>x_dirty := b\<rparr>" "b = x_dirty (xobjs s k) \<or> b = 0"
      using a(1) unfolding same_but_dirty_def by blast
    moreover obtain c where "xobjs u k = (xobjs t k)\<lparr>x_dirty := c\<rparr>" "c = x_dirty (xobjs t k) \<or> c = 0"
      using a(2) unfolding same_but_dirty_def by blast
    ultimately show ?thesis by (intro exI [of _ c]) auto
  qed
  then show ?thesis using a by (simp add: same_but_dirty_def)
qed

lemma sync_all:
  assumes ok: "ok_x s" and ids: "ids_x s" and "n \<le> 16"
  shows "\<exists>t. rfold (sync_step_x Cached) [0 ..< n] s = Inr t \<and> ok_x t \<and> same_but_dirty s t \<and>
    (\<forall>j < 16. disk_page t j =
      (if j < n \<and> valid_x s j \<and> x_dirty (xobjs s j) \<noteq> 0 then xcache s (j + 2) else disk_page s j)) \<and>
    (\<forall>j. n \<le> j \<longrightarrow> xobjs t j = xobjs s j)"
  using assms(3)
proof (induction n)
  case 0
  have "\<exists>b. xobjs s j = (xobjs s j)\<lparr>x_dirty := b\<rparr> \<and> (b = x_dirty (xobjs s j) \<or> b = 0)" for j
    by (rule exI [of _ "x_dirty (xobjs s j)"]) simp
  then show ?case using ok by (simp add: same_but_dirty_def)
next
  case (Suc n)
  then obtain t where t: "rfold (sync_step_x Cached) [0 ..< n] s = Inr t" "ok_x t" "same_but_dirty s t"
      "\<forall>j < 16. disk_page t j =
        (if j < n \<and> valid_x s j \<and> x_dirty (xobjs s j) \<noteq> 0 then xcache s (j + 2) else disk_page s j)"
      "\<forall>j. n \<le> j \<longrightarrow> xobjs t j = xobjs s j" by auto
  have f: "rfold (sync_step_x Cached) [0 ..< Suc n] s = sync_step_x Cached n t"
    using t(1) by (simp add: rfold_append rbind_def split: sum.split)
  show ?case
  proof (cases "x_id (xobjs s n) = 0")
    case True
    then have "sync_step_x Cached n t = Inr t" using t(5) by (simp add: sync_step_x_def)
    moreover have "\<not> valid_x s n" using True by (simp add: valid_x_def)
    ultimately show ?thesis using t f by (auto simp: less_Suc_eq)
  next
    case False
    have "n < 16" using Suc.prems by simp
    then have v: "valid_x s n" using ids False unfolding ids_x_def by blast
    then have vt: "valid_x t n" using t(5) by (simp add: valid_x_def)
    from sync_page [OF t(2) vt] obtain u where u: "obj_sync_x Cached n t = Inr (0, u)" "ok_x u" "same_but_dirty t u"
      "\<forall>j < 16. disk_page u j = (if j = n \<and> x_dirty (xobjs t n) \<noteq> 0 then xcache t (n + 2) else disk_page t j)"
      "\<forall>j. j \<noteq> n \<longrightarrow> xobjs u j = xobjs t j" by blast
    have "sync_step_x Cached n t = Inr u" using u(1) False t(5) by (simp add: sync_step_x_def)
    moreover have "same_but_dirty s u" using same_but_dirty_trans [OF t(3) u(3)] .
    moreover have "xobjs t n = xobjs s n" "xcache t = xcache s" using t(3,5) by (simp_all add: same_but_dirty_def)
    ultimately show ?thesis
      using f u(2,4,5) t(4,5) v by (intro exI [of _ u]) (auto simp: less_Suc_eq)
  qed
qed

text \<open>The store after an unmount and a mount.\<close>

lemma unmount:
  assumes ok: "ok_x s" and ids: "ids_x s" and cl: "clean_x c s"
    and rep: "\<forall>k < 47. representable_x (xobjs s k)"
  shows "\<exists>d u. objstore_destroy_x c s = Inr (0, d) \<and> same_but_dirty s u \<and> ok_x (s\<lparr>xdisk := d\<rparr>) \<and>
    dblock d 0 = encode_xtable (xobjs u) \<and>
    (\<forall>k. valid_x s k \<longrightarrow> dblock d (k + 2) = page_x c s k)"
proof -
  obtain u where u: "rfold (sync_step_x c) [0 ..< 16] s = Inr u" "ok_x u" "same_but_dirty s u"
    "\<forall>k. valid_x s k \<longrightarrow> disk_page u k = page_x c s k"
  proof (cases c)
    case Plain
    have "rfold (sync_step_x Plain) ks s = Inr s" for ks
      by (induction ks) (simp_all add: sync_step_x_def obj_sync_x_def Let_def)
    moreover have "\<exists>b. xobjs s j = (xobjs s j)\<lparr>x_dirty := b\<rparr> \<and> (b = x_dirty (xobjs s j) \<or> b = 0)" for j
      by (rule exI [of _ "x_dirty (xobjs s j)"]) simp
    ultimately show ?thesis
      using that [of s] ok Plain by (simp add: page_x_def same_but_dirty_def)
  next
    case Cached
    from sync_all [OF ok ids, of 16] obtain t where t: "rfold (sync_step_x Cached) [0 ..< 16] s = Inr t" "ok_x t"
      "same_but_dirty s t" "\<forall>j < 16. disk_page t j =
        (if j < 16 \<and> valid_x s j \<and> x_dirty (xobjs s j) \<noteq> 0 then xcache s (j + 2) else disk_page s j)"
      by blast
    have "disk_page t k = page_x Cached s k" if v: "valid_x s k" for k
    proof -
      have "k < 16" using v by (simp add: valid_x_def)
      then show ?thesis
        using t(4) cl v Cached by (cases "x_dirty (xobjs s k) = 0") (auto simp: clean_x_def page_x_def)
    qed
    then show ?thesis using that t Cached by blast
  qed
  have len: "length (encode_xtable (xobjs u)) = 4096"
    using rep same_but_dirtyD(6) [OF u(3)] by (intro decode_encode_xtable(1)) blast
  obtain d where d: "write_block (xdisk u) (int 0) 0 (Some (encode_xtable (xobjs u))) = (0, d)" "disk_ok d"
      "18 \<le> nblocks d" "\<forall>i < 18. dblock d i = (if i = 0 then encode_xtable (xobjs u) else dblock (xdisk u) i)"
    using write_page [OF u(2) _ page_aligned_0 len, of 0] by auto
  have "dblock d (k + 2) = page_x c s k" if "valid_x s k" for k
    using u(4) d(4) that by (simp add: disk_page_def valid_x_def)
  then show ?thesis
    using u d ok by (intro exI [of _ d] exI [of _ u]) (simp add: objstore_destroy_x_def write_block_x ok_x_def)
qed

section \<open>A small store\<close>

text \<open>Objects \<open>a\<close> and \<open>b\<close>, the first of them in the cache and dirty; slot 2 is free, object \<open>d\<close> follows.\<close>

definition ex_xobject :: "nat \<Rightarrow> xobject" where
  "ex_xobject k =
     \<lparr>x_id = (if k = 0 then 2 else if k = 1 then 3 else if k = 3 then 5 else 0), x_size = 0,
      x_cache_index = (if k = 0 then 2 else -1), x_dirty = (if k = 0 then 1 else 0),
      x_key = (if k = 0 then CHR ''a'' else if k = 1 then CHR ''b'' else CHR ''d'') # replicate 63 (CHR 0x00)\<rparr>"

definition ex_xstore :: xstore where
  "ex_xstore = \<lparr>xdisk = \<lparr>nblocks = 18, dblock = (\<lambda>_. zero_block), bad = (\<lambda>_. False)\<rparr>,
     xcache = (\<lambda>_. replicate 4096 7), xobjs = ex_xobject\<rparr>"

lemma ex_xstore:
  "ok_x ex_xstore" "ids_x ex_xstore" "clean_x c ex_xstore" "valid_x ex_xstore 0" "valid_x ex_xstore 1"
  "\<forall>k < 47. representable_x (xobjs ex_xstore k)"
  by (auto simp: ex_xstore_def ex_xobject_def ok_x_def disk_ok_def ids_x_def valid_x_def clean_x_def
    page_x_def representable_x_def fits32_def fits64_def)

section \<open>Properties\<close>

text \<open>In both builds of the example store, reading an object just written returns the bytes
  written, and every other object reads as before.\<close>

theorem example_write_then_read:
  assumes "ok_x s" and "valid_x s k" and "length x \<le> 4096"
    and "valid_x s j" and "j \<noteq> k" and "n \<le> 4096"
  shows "\<exists>t u v w ys. objstore_write_x c (int k + 2) x s = Inr (int (length x), t) \<and>
    objstore_read_x c (int k + 2) (int (length x)) t = Inr (int (length x), x, u) \<and>
    objstore_read_x c (int j + 2) (int n) t = Inr (int n, ys, v) \<and>
    objstore_read_x c (int j + 2) (int n) s = Inr (int n, ys, w)"
proof -
  have k: "k < 16" "x_id (xobjs s k) = int k + 2" and j: "j < 16" "x_id (xobjs s j) = int j + 2"
    using assms by (simp_all add: valid_x_def)
  let ?r = "upd_x k (\<lambda>obj. obj\<lparr>x_size := int (length x)\<rparr>)"
  obtain t u v w where st: "find_write_cached_x c k x s = Inr (0, t)"
    and rd: "find_read_cached_x c k (int (length x)) (?r t) = Inr (0, x, u)"
    and el: "find_read_cached_x c j (int n) (?r t) = Inr (0, take n (page_x c s j), v)"
      "find_read_cached_x c j (int n) s = Inr (0, take n (page_x c s j), w)"
    and val: "valid_x t = valid_x s"
  proof (cases c)
    case Plain
    show ?thesis
      using plain.store_then_fetch [OF assms(1-3), of "int (length x)"] plain.store_page [OF assms(1-3)]
        plain.store_elsewhere [OF assms(1-3) assms(4-6), of "int (length x)"] that Plain by auto
  next
    case Cached
    show ?thesis
      using cached.store_then_fetch [OF assms(1-3), of "int (length x)"] cached.store_page [OF assms(1-3)]
        cached.store_elsewhere [OF assms(1-3) assms(4-6), of "int (length x)"] that Cached by auto
  qed
  have ids: "x_id (xobjs (?r t) k) = int k + 2" "x_id (xobjs (?r t) j) = int j + 2"
    using val assms(2,4) unfolding fun_eq_iff valid_x_def by auto
  have "objstore_write_x c (int k + 2) x s = Inr (int (length x), ?r t)"
    using st k assms(3) by (simp add: objstore_write_x_def Let_def)
  moreover have "objstore_read_x c (int k + 2) (int (length x)) (?r t) = Inr (int (length x), x, u)"
    using rd k ids by (simp add: objstore_read_x_def Let_def)
  moreover have "objstore_read_x c (int j + 2) (int n) (?r t) = Inr (int n, take n (page_x c s j), v)"
    using el(1) j ids by (simp add: objstore_read_x_def Let_def)
  moreover have "objstore_read_x c (int j + 2) (int n) s = Inr (int n, take n (page_x c s j), w)"
    using el(2) j by (simp add: objstore_read_x_def Let_def)
  ultimately show ?thesis by blast
qed

theorem example_write_then_read_witness:
  "\<exists>t u. objstore_write_x Cached 2 [1, 2, 3] ex_xstore = Inr (3, t) \<and>
    objstore_read_x Cached 2 3 t = Inr (3, [1, 2, 3], u)"
  using example_write_then_read [of ex_xstore 0 "[1, 2, 3]" 1 0 Cached] ex_xstore by fastforce

text \<open>C39: After an unmount and a mount the example store has the same objects, with the same keys,
  sizes and contents.\<close>

theorem example_remount:
  assumes ok: "ok_x s" and "ids_x s" and "clean_x c s" and rep: "\<forall>k < 47. representable_x (xobjs s k)"
  shows "\<exists>d t. objstore_destroy_x c s = Inr (0, d) \<and> objstore_init_x c d = (0, t) \<and>
    (\<forall>k < MAX_OBJS. x_id (xobjs t k) = x_id (xobjs s k) \<and> x_size (xobjs t k) = x_size (xobjs s k) \<and>
      x_key (xobjs t k) = x_key (xobjs s k)) \<and>
    (\<forall>k n. valid_x s k \<longrightarrow> n \<le> 4096 \<longrightarrow> (\<exists>ys u v. objstore_read_x c (int k + 2) (int n) s = Inr (int n, ys, u) \<and>
      objstore_read_x c (int k + 2) (int n) t = Inr (int n, ys, v)))"
proof -
  obtain d u where d: "objstore_destroy_x c s = Inr (0, d)" "same_but_dirty s u" "ok_x (s\<lparr>xdisk := d\<rparr>)"
      "dblock d 0 = encode_xtable (xobjs u)" "\<forall>k. valid_x s k \<longrightarrow> dblock d (k + 2) = page_x c s k"
    using unmount [OF assms] by blast
  note sd = same_but_dirtyD [OF d(2)]
  have tab: "decode_xtable (dblock d 0) k = xobjs u k" if "k < 46" for k
    unfolding d(4) using rep sd(6) that by (intro decode_encode_xtable(2)) blast+
  have ok_d: "disk_ok d" "18 \<le> nblocks d" using d(3) by (simp_all add: ok_x_def)
  then have "disk_content d 0 = Some (dblock d 0)" by (simp add: disk_content_def)
  from read_block_content [OF ok_d(1) page_aligned_0 this] obtain t where
    t: "objstore_init_x c d = (0, t)" "xdisk t = d" "xcache t = (\<lambda>_. zero_block)"
      "\<And>k. k < 16 \<Longrightarrow> xobjs t k = (if x_id (decode_xtable (dblock d 0) k) \<noteq> 0
        then init_object_cached_x c (decode_xtable (dblock d 0) k) else decode_xtable (dblock d 0) k)"
    by (simp add: objstore_init_x_def read_block_x Let_def)
  have objs: "x_id (xobjs t k) = x_id (xobjs s k) \<and> x_size (xobjs t k) = x_size (xobjs s k) \<and>
      x_key (xobjs t k) = x_key (xobjs s k)" if "k < 16" for k
    using t(4) [OF that] tab [of k] that sd(1-3)
    by (cases c) (simp_all add: init_object_cached_x_def)
  have page: "page_x c t k = page_x c s k" if v: "valid_x s k" for k
  proof -
    have k: "k < 16" "x_id (xobjs s k) \<noteq> 0" using v by (simp_all add: valid_x_def)
    have "c = Cached \<Longrightarrow> x_cache_index (xobjs t k) = -1"
      using t(4) [OF k(1)] tab [of k] k sd(1) by (simp add: init_object_cached_x_def)
    then have "page_x c t k = dblock d (k + 2)" by (cases c) (simp_all add: page_x_def disk_page_def t(2))
    then show ?thesis using d(5) v by simp
  qed
  have okt: "ok_x t" using ok_d t(2,3) by (simp add: ok_x_def)
  have read: "\<exists>v. objstore_read_x c (int k + 2) (int n) r = Inr (int n, take n (page_x c r k), v)"
    if "ok_x r" "valid_x r k" "n \<le> 4096" for r k n
    using plain.fetch_page [OF that] cached.fetch_page [OF that] that(2)
    by (cases c) (auto simp: objstore_read_x_def valid_x_def)
  have "valid_x t k" if "valid_x s k" for k using that objs by (simp add: valid_x_def)
  then have "\<exists>ys u v. objstore_read_x c (int k + 2) (int n) s = Inr (int n, ys, u) \<and>
      objstore_read_x c (int k + 2) (int n) t = Inr (int n, ys, v)" if "valid_x s k" "n \<le> 4096" for k n
    using read [OF ok that] read [OF okt _ that(2), of k] page [OF that(1)] that(1) by auto
  then show ?thesis using d(1) t(1) objs by blast
qed

theorem example_remount_witness:
  "\<exists>d t. objstore_destroy_x Cached ex_xstore = Inr (0, d) \<and> objstore_init_x Cached d = (0, t) \<and>
    x_id (xobjs t 3) = 5"
  using example_remount [of ex_xstore Cached] ex_xstore
  by (auto simp: ex_xstore_def ex_xobject_def)

text \<open>C40: Creating an object under a key that is in use, while a slot before it is free, reports
  failure but takes the free slot: an object appears there, with whatever key and size the slot
  had last.\<close>

theorem example_duplicate_leaks:
  assumes "has_key_x key s k" and "i < k" and "k < MAX_OBJS" and "x_id (xobjs s i) = 0"
    and "\<forall>j < k. x_id (xobjs s j) = 0 \<longrightarrow> i \<le> j" and "\<forall>j < k. \<not> has_key_x key s j"
  shows "create_object_x c key s = Inr (-1, upd_x i (\<lambda>obj. obj\<lparr>x_id := int i + 2\<rparr>) s)"
proof -
  have loop: "create_loop_x key ctr n (Some i) t = (True, Some i, t)"
    if "has_key_x key t k" "ctr \<le> k" "k < ctr + n" "\<forall>j < k. ctr \<le> j \<longrightarrow> \<not> has_key_x key t j" for ctr n t
    using that
  proof (induction n arbitrary: ctr)
    case (Suc n)
    then show ?case by (cases "ctr = k") (auto simp: less_Suc_eq_le)
  qed simp
  have "create_loop_x key ctr n None s =
      (True, Some i, upd_x i (\<lambda>obj. obj\<lparr>x_id := int i + 2\<rparr>) s)" if "ctr \<le> i" "ctr + n = 16" for ctr n
    using that
  proof (induction n arbitrary: ctr)
    case 0
    then show ?case using assms(2,3) by simp
  next
    case (Suc n)
    let ?t = "upd_x i (\<lambda>obj. obj\<lparr>x_id := int i + 2\<rparr>) s"
    show ?case
    proof (cases "ctr = i")
      case True
      have "has_key_x key ?t j = has_key_x key s j" if "j \<noteq> i" for j
        using that by (simp add: has_key_x_def)
      then have "create_loop_x key (Suc ctr) n (Some i) ?t = (True, Some i, ?t)"
        using assms(1-3,6) Suc.prems True by (intro loop) auto
      then show ?thesis using True assms(4) by simp
    next
      case False
      then have c: "ctr < i" using Suc.prems by simp
      then have "ctr < k" using assms(2) by simp
      moreover from this have "x_id (xobjs s ctr) \<noteq> 0" using assms(5) c by (meson not_le)
      ultimately show ?thesis using Suc False assms(6) by auto
    qed
  qed
  from this [of 0 16] show ?thesis by (simp add: create_object_x_def)
qed

theorem example_duplicate_leaks_witness:
  "create_object_x Plain ''d'' ex_xstore = Inr (-1, upd_x 2 (\<lambda>obj. obj\<lparr>x_id := 4\<rparr>) ex_xstore)"
  using example_duplicate_leaks [of "''d''" ex_xstore 3 2 Plain]
  by (simp add: ex_xstore_def ex_xobject_def has_key_x_def cstr_def less_Suc_eq numeral_3_eq_3)

end
