(* ===== verification/Example_Files.thy ===== *)
theory Example_Files
  imports Mount Example_Properties
begin

text \<open>
  The example store offers the clients' contract, too, and its files can be removed and stored
  again.
\<close>

section \<open>Files by key\<close>

definition key_slot_x :: "xstore \<Rightarrow> string \<Rightarrow> nat option" where
  "key_slot_x s key = scan (has_key_x key s) 0 MAX_OBJS"

definition keys_once_x :: "xstore \<Rightarrow> bool" where
  "keys_once_x s \<longleftrightarrow> (\<forall>j k key. j < MAX_OBJS \<longrightarrow> k < MAX_OBJS \<longrightarrow> has_key_x key s j \<longrightarrow> has_key_x key s k \<longrightarrow> j = k)"

definition slots_ok_x :: "xstore \<Rightarrow> bool" where
  "slots_ok_x s \<longleftrightarrow> (\<forall>k < MAX_OBJS. (x_id (xobjs s k) = 0 \<or> x_id (xobjs s k) = int k + 2) \<and>
     length (x_key (xobjs s k)) = 64 \<and> 0 \<le> x_size (xobjs s k) \<and> x_size (xobjs s k) \<le> 4096 \<and>
     (x_id (xobjs s k) = 0 \<longrightarrow> x_size (xobjs s k) = 0))"

definition store_ok_x :: "xstore \<Rightarrow> bool" where
  "store_ok_x s \<longleftrightarrow> ok_x s \<and> keys_once_x s \<and> slots_ok_x s"

definition bytes_x :: "build \<Rightarrow> xstore \<Rightarrow> nat \<Rightarrow> byte list" where
  "bytes_x c s k = take (nat (x_size (xobjs s k))) (page_x c s k)"

definition free_slots_x :: "xstore \<Rightarrow> nat set" where
  "free_slots_x s = {k. k < MAX_OBJS \<and> x_id (xobjs s k) = 0}"

text \<open>Every object has its block: there is room for as many blocks as there are objects.\<close>

definition store_view_x :: "build \<Rightarrow> xstore \<Rightarrow> key_view" where
  "store_view_x c s =
     \<lparr>contents = (\<lambda>key. map_option (bytes_x c s) (key_slot_x s key)),
      slots = card (free_slots_x s), blocks = MAX_OBJS\<rparr>"

definition store_handle_x :: "xstore \<Rightarrow> string \<Rightarrow> int option" where
  "store_handle_x s key = map_option (\<lambda>k. int k + 2) (key_slot_x s key)"

definition store_name_x :: "string \<Rightarrow> bool" where
  "store_name_x key \<longleftrightarrow> length key < 64 \<and> plain_key key"

lemma store_ok_xD:
  assumes "store_ok_x s"
  shows "ok_x s" "keys_once_x s" "slots_ok_x s"
  using assms by (simp_all add: store_ok_x_def)

lemma slots_ok_xD:
  assumes "slots_ok_x s" and "k < MAX_OBJS"
  shows "x_id (xobjs s k) \<noteq> 0 \<Longrightarrow> x_id (xobjs s k) = int k + 2" "length (x_key (xobjs s k)) = 64"
    "0 \<le> x_size (xobjs s k)" "x_size (xobjs s k) \<le> 4096" "x_id (xobjs s k) = 0 \<Longrightarrow> x_size (xobjs s k) = 0"
  using assms unfolding slots_ok_x_def by blast+

lemma keys_once_xD:
  "keys_once_x s \<Longrightarrow> has_key_x key s j \<Longrightarrow> has_key_x key s k \<Longrightarrow> j < MAX_OBJS \<Longrightarrow> k < MAX_OBJS \<Longrightarrow> j = k"
  unfolding keys_once_x_def by blast

lemma key_slot_x_iff:
  assumes "keys_once_x s"
  shows "key_slot_x s key = Some k \<longleftrightarrow> k < MAX_OBJS \<and> has_key_x key s k"
proof
  assume k: "k < MAX_OBJS \<and> has_key_x key s k"
  have "\<not> has_key_x key s j" if "j < k" for j
    using keys_once_xD [OF assms, of key j k] that k by auto
  then show "key_slot_x s key = Some k" using k by (simp add: key_slot_x_def scan_Some_iff)
qed (simp add: key_slot_x_def scan_Some_iff)

lemma key_slot_x_None: "key_slot_x s key = None \<longleftrightarrow> (\<forall>k < MAX_OBJS. \<not> has_key_x key s k)"
  by (simp add: key_slot_x_def scan_None_iff)

lemma file_x:
  assumes "store_ok_x s" and "contents (store_view_x c s) key = Some xs"
  obtains k where "key_slot_x s key = Some k" "k < MAX_OBJS" "has_key_x key s k" "x_id (xobjs s k) = int k + 2"
    "valid_x s k" "xs = bytes_x c s k" "x_size (xobjs s k) = int (length xs)"
proof -
  note ok = store_ok_xD [OF assms(1)]
  obtain k where k: "key_slot_x s key = Some k" "xs = bytes_x c s k"
    using assms(2) by (auto simp: store_view_x_def)
  then have k': "k < MAX_OBJS" "has_key_x key s k" using key_slot_x_iff [OF ok(2)] by simp_all
  then have id: "x_id (xobjs s k) = int k + 2" using slots_ok_xD(1) [OF ok(3)] by (simp add: has_key_x_def)
  then have v: "valid_x s k" using k'(1) by (simp add: valid_x_def)
  have "length (page_x c s k) = 4096" by (rule page_length [OF ok(1) v])
  then have "x_size (xobjs s k) = int (length xs)"
    using slots_ok_xD(3,4) [OF ok(3) k'(1)] by (simp add: k(2) bytes_x_def)
  then show ?thesis using that k k' id v by blast
qed

text \<open>States that differ in the cache, its fields in the objects, and the disk only.\<close>

definition same_slots_x :: "xstore \<Rightarrow> xstore \<Rightarrow> bool" where
  "same_slots_x s t \<longleftrightarrow> (\<forall>k. x_id (xobjs t k) = x_id (xobjs s k) \<and> x_size (xobjs t k) = x_size (xobjs s k) \<and>
     x_key (xobjs t k) = x_key (xobjs s k))"

lemma same_slots_key: "same_slots_x s t \<Longrightarrow> has_key_x key t = has_key_x key s"
  by (simp add: same_slots_x_def has_key_x_def fun_eq_iff)

lemma fill_same_slots: "fill_x k s = (b, t) \<Longrightarrow> same_slots_x s t"
  by (auto simp: fill_x_def same_slots_x_def Let_def split: if_splits prod.splits)

lemma transfer_same_slots:
  "find_read_cached_x c k n s = Inr (r, ys, t) \<Longrightarrow> same_slots_x s t"
  "find_write_cached_x c k x s = Inr (r', t') \<Longrightarrow> same_slots_x s t'"
proof -
  assume a: "find_read_cached_x c k n s = Inr (r, ys, t)"
  show "same_slots_x s t"
  proof (cases c)
    case Plain
    then show ?thesis using a by (auto simp: find_read_cached_x_def same_slots_x_def Let_def split: if_splits prod.splits)
  next
    case Cached
    then show ?thesis
      using a fill_same_slots [of k s] by (auto simp: find_read_cached_x_def Let_def split: if_splits prod.splits bool.splits)
  qed
next
  assume a: "find_write_cached_x c k x s = Inr (r', t')"
  show "same_slots_x s t'"
  proof (cases c)
    case Plain
    then show ?thesis using a by (auto simp: find_write_cached_x_def same_slots_x_def Let_def split: if_splits prod.splits)
  next
    case Cached
    obtain b u where u: "fill_x k s = (b, u)" by fastforce
    from fill_same_slots [OF u] show ?thesis
      using a u Cached by (auto simp: find_write_cached_x_def Let_def same_slots_x_def split: if_splits bool.splits)
  qed
qed

lemma store_x_same:
  assumes s: "store_ok_x s" and t: "ok_x t" "same_slots_x s t"
  shows "store_ok_x t" "store_handle_x t = store_handle_x s" "key_slot_x t = key_slot_x s"
    "free_slots_x t = free_slots_x s"
  using s t same_slots_key [OF t(2)]
  by (simp_all add: store_ok_x_def keys_once_x_def slots_ok_x_def store_handle_x_def [abs_def] key_slot_x_def [abs_def]
      free_slots_x_def same_slots_x_def)

lemma key_slot_x_valid:
  assumes "store_ok_x s" and "key_slot_x s key = Some k"
  shows "valid_x s k" "k < MAX_OBJS" "x_id (xobjs s k) = int k + 2"
proof -
  note ok = store_ok_xD [OF assms(1)]
  show k: "k < MAX_OBJS" using key_slot_x_iff [OF ok(2)] assms(2) by simp
  show id: "x_id (xobjs s k) = int k + 2"
    using key_slot_x_iff [OF ok(2)] assms(2) slots_ok_xD(1) [OF ok(3) k] by (simp add: has_key_x_def)
  show "valid_x s k" using k id by (simp add: valid_x_def)
qed

text \<open>The two transfers of the interface, for the build at hand.\<close>

lemma fetch_x:
  assumes "ok_x s" and "valid_x s k" and "n \<le> 4096"
  shows "\<exists>t. find_read_cached_x c k (int n) s = Inr (0, take n (page_x c s k), t) \<and> ok_x t \<and>
    (\<forall>j. valid_x s j \<longrightarrow> page_x c t j = page_x c s j)"
  using plain.fetch_page [OF assms] cached.fetch_page [OF assms] by (cases c) blast+

lemma store_x:
  assumes "ok_x s" and "valid_x s k" and "length x \<le> 4096"
  shows "\<exists>t. find_write_cached_x c k x s = Inr (0, t) \<and> ok_x t \<and> take (length x) (page_x c t k) = x \<and>
    (\<forall>j. valid_x s j \<longrightarrow> j \<noteq> k \<longrightarrow> page_x c t j = page_x c s j)"
  using plain.store_page [OF assms] cached.store_page [OF assms] by (cases c) blast+

section \<open>The functions of the example\<close>

lemma operations_x_simps [simp]:
  "op_getattr (objfs_operations_x c env) path s = rbind (objfs_getattr_x env path s) (\<lambda>(r, a). Inr (r, a, s))"
  "op_create (objfs_operations_x c env) = objfs_create_x c"
  "op_unlink (objfs_operations_x c env) path s = Inr (objfs_unlink_x c path s)"
  "op_open (objfs_operations_x c env) path s = (case objfs_open_x path s of (r, h) \<Rightarrow> Inr (r, h, s))"
  "op_read (objfs_operations_x c env) h n offset = objfs_read_x c h (int n)"
  "op_write (objfs_operations_x c env) h buf offset = objfs_write_x c h buf"
  by (simp_all add: objfs_operations_x_def)

lemma find_object_id_x_slot:
  assumes "store_ok_x s"
  shows "find_object_id_x key s = (case key_slot_x s key of None \<Rightarrow> -1 | Some k \<Rightarrow> int k + 2)"
  using key_slot_x_valid(3) [OF assms, of key]
  by (simp add: find_object_id_x_def key_slot_x_def [symmetric] split: option.split)

lemma getattr_x:
  assumes s: "store_ok_x s" and key: "key \<noteq> []"
  shows "contents (store_view_x c s) key = Some xs \<Longrightarrow>
      \<exists>a. objfs_getattr_x env (CHR 0x2F # key) s = Inr (0, Some a) \<and> st_size a = int (length xs)"
    and "contents (store_view_x c s) key = None \<Longrightarrow> objfs_getattr_x env (CHR 0x2F # key) s = Inr (-2, None)"
proof -
  assume "contents (store_view_x c s) key = Some xs"
  then obtain k where k: "key_slot_x s key = Some k" "k < MAX_OBJS" "x_id (xobjs s k) = int k + 2"
      "x_size (xobjs s k) = int (length xs)"
    using file_x [OF s] by metis
  then have "s32 (find_object_id_x key s) = int k + 2" using find_object_id_x_slot [OF s] by simp
  then show "\<exists>a. objfs_getattr_x env (CHR 0x2F # key) s = Inr (0, Some a) \<and> st_size a = int (length xs)"
    using key k(2-4) by (simp add: objfs_getattr_x_def path_key_def fillup_size_details_x_def Let_def)
next
  assume "contents (store_view_x c s) key = None"
  then have "find_object_id_x key s = -1"
    using find_object_id_x_slot [OF s, of key] by (simp add: store_view_x_def)
  then show "objfs_getattr_x env (CHR 0x2F # key) s = Inr (-2, None)"
    using key by (simp add: objfs_getattr_x_def path_key_def)
qed

lemma open_x:
  assumes s: "store_ok_x s" and "contents (store_view_x c s) key = Some xs"
  shows "\<exists>h. objfs_open_x (CHR 0x2F # key) s = (0, Some h) \<and> store_handle_x s key = Some h"
proof -
  obtain k where k: "key_slot_x s key = Some k" "k < MAX_OBJS" using file_x [OF assms] by metis
  then have "s32 (find_object_id_x key s) = int k + 2" using find_object_id_x_slot [OF s] by simp
  then show ?thesis using k by (simp add: objfs_open_x_def path_key_def store_handle_x_def Let_def)
qed

lemma read_x:
  assumes s: "store_ok_x s" and h: "store_handle_x s key = Some h" and cx: "contents (store_view_x c s) key = Some xs"
  shows "\<exists>ys t. objfs_read_x c h 4096 s = Inr (4096, ys, t) \<and> length ys = 4096 \<and> take (length xs) ys = xs \<and>
    store_ok_x t \<and> store_view_x c t = store_view_x c s \<and> store_handle_x t = store_handle_x s"
proof -
  note ok = store_ok_xD [OF s]
  obtain k where k: "key_slot_x s key = Some k" "k < MAX_OBJS" "x_id (xobjs s k) = int k + 2"
    "valid_x s k" "xs = bytes_x c s k" "x_size (xobjs s k) = int (length xs)"
    using file_x [OF s cx] by metis
  have hk: "s32 h = int k + 2" using h k(1,2) by (auto simp: store_handle_x_def)
  have len: "length (page_x c s k) = 4096" by (rule page_length [OF ok(1) k(4)])
  obtain t where t: "find_read_cached_x c k (int 4096) s = Inr (0, take 4096 (page_x c s k), t)" "ok_x t"
      "\<forall>j. valid_x s j \<longrightarrow> page_x c t j = page_x c s j"
    using fetch_x [OF ok(1) k(4), of 4096 c] by blast
  note same = transfer_same_slots(1) [OF t(1)]
  note st = store_x_same [OF s t(2) same]
  have "bytes_x c t j = bytes_x c s j" if "key_slot_x s key' = Some j" for key' j
    using t(3) key_slot_x_valid(1) [OF s that] same by (simp add: bytes_x_def same_slots_x_def)
  then have "map_option (bytes_x c t) (key_slot_x s key') = map_option (bytes_x c s) (key_slot_x s key')" for key'
    by (cases "key_slot_x s key'") simp_all
  then have "store_view_x c t = store_view_x c s" by (simp add: store_view_x_def st)
  moreover have "take (length xs) (page_x c s k) = xs" using k(5,6) by (simp add: bytes_x_def)
  moreover have "objfs_read_x c h 4096 s = Inr (4096, page_x c s k, t)"
    using t(1) hk k(2,3) len by (simp add: objfs_read_x_def objstore_read_x_def Let_def)
  ultimately show ?thesis using st(1,2) len by blast
qed

lemma write_x:
  assumes s: "store_ok_x s" and h: "store_handle_x s key = Some h" and xs: "length xs \<le> 4096"
  shows "\<exists>t. objfs_write_x c h xs s = Inr (int (length xs), t) \<and> store_ok_x t \<and>
    contents (store_view_x c t) = (contents (store_view_x c s))(key \<mapsto> xs) \<and>
    slots (store_view_x c t) = slots (store_view_x c s) \<and> store_handle_x t = store_handle_x s"
proof -
  note ok = store_ok_xD [OF s]
  obtain k where k: "key_slot_x s key = Some k" "h = int k + 2" using h by (auto simp: store_handle_x_def)
  note kv = key_slot_x_valid [OF s k(1)]
  obtain u where u: "find_write_cached_x c k xs s = Inr (0, u)" "ok_x u" "take (length xs) (page_x c u k) = xs"
      "\<forall>j. valid_x s j \<longrightarrow> j \<noteq> k \<longrightarrow> page_x c u j = page_x c s j"
    using store_x [OF ok(1) kv(1) xs, of c] by blast
  note same = transfer_same_slots(2) [OF u(1)]
  note su = store_x_same [OF s u(2) same]
  let ?t = "upd_x k (\<lambda>obj. obj\<lparr>x_size := int (length xs)\<rparr>) u"
  have w: "objfs_write_x c h xs s = Inr (int (length xs), ?t)"
    using u(1) k(2) kv(2,3) xs by (simp add: objfs_write_x_def objstore_write_x_def Let_def)
  have page: "page_x c ?t j = page_x c u j" for j by (auto simp: page_x_def disk_page_def)
  have hk: "has_key_x key' ?t = has_key_x key' u" for key' by (simp add: has_key_x_def fun_eq_iff)
  then have sl: "key_slot_x ?t = key_slot_x s" using su(3) by (simp add: key_slot_x_def [abs_def])
  have once: "keys_once_x ?t" using store_ok_xD(2) [OF su(1)] by (simp add: keys_once_x_def hk)
  have "x_id (xobjs u k) = int k + 2" using same kv(3) by (simp add: same_slots_x_def)
  then have "slots_ok_x ?t" using store_ok_xD(3) [OF su(1)] xs kv(2) by (simp add: slots_ok_x_def)
  then have "store_ok_x ?t" using u(2) once by (simp add: store_ok_x_def ok_x_def)
  moreover have "contents (store_view_x c ?t) = (contents (store_view_x c s))(key \<mapsto> xs)"
  proof
    fix key'
    show "contents (store_view_x c ?t) key' = ((contents (store_view_x c s))(key \<mapsto> xs)) key'"
    proof (cases "key_slot_x s key'")
      case None
      then show ?thesis using k(1) by (auto simp: store_view_x_def sl)
    next
      case (Some j)
      note jv = key_slot_x_valid [OF s Some]
      have "has_key_x key' s j" "has_key_x key s k" using Some k(1) key_slot_x_iff [OF ok(2)] by simp_all
      then have "j = k \<longleftrightarrow> key' = key"
        using keys_once_xD [OF ok(2), of key j k] jv(2) kv(2) by (auto simp: has_key_x_def)
      then show ?thesis
        using Some u(3,4) jv same by (auto simp: store_view_x_def sl bytes_x_def page same_slots_x_def)
    qed
  qed
  moreover have "free_slots_x ?t = free_slots_x s"
    using su(4) by (auto simp: free_slots_x_def)
  moreover have "store_handle_x ?t = store_handle_x s" by (simp add: store_handle_x_def [abs_def] sl)
  ultimately show ?thesis using w by (simp add: store_view_x_def)
qed

section \<open>Creating and removing\<close>

lemma create_loop_x_taken:
  assumes "\<And>j. ctr \<le> j \<Longrightarrow> j < ctr + n \<Longrightarrow> \<not> has_key_x key s j"
  shows "create_loop_x key ctr n (Some k) s = (False, Some k, s)"
  using assms by (induction n arbitrary: ctr) simp_all

lemma create_loop_x_free:
  assumes "ctr \<le> k" and "k < ctr + n" and "x_id (xobjs s k) = 0"
    and "\<And>j. ctr \<le> j \<Longrightarrow> j < k \<Longrightarrow> x_id (xobjs s j) \<noteq> 0"
    and "\<And>j. ctr \<le> j \<Longrightarrow> j < ctr + n \<Longrightarrow> \<not> has_key_x key s j"
  shows "create_loop_x key ctr n None s = (False, Some k, upd_x k (\<lambda>obj. obj\<lparr>x_id := int k + 2\<rparr>) s)"
  using assms
proof (induction n arbitrary: ctr)
  case 0
  then show ?case by simp
next
  case (Suc n)
  show ?case
  proof (cases "ctr = k")
    case True
    let ?t = "upd_x k (\<lambda>obj. obj\<lparr>x_id := int k + 2\<rparr>) s"
    have "\<not> has_key_x key ?t j" if "Suc k \<le> j" "j < Suc k + n" for j
      using Suc.prems(5) [of j] that True by (simp add: has_key_x_def)
    then have "create_loop_x key (Suc k) n (Some k) ?t = (False, Some k, ?t)"
      by (rule create_loop_x_taken)
    then show ?thesis using True Suc.prems(3) by simp
  next
    case False
    then have "x_id (xobjs s ctr) \<noteq> 0" and "\<not> has_key_x key s ctr" and "Suc ctr \<le> k"
      using Suc.prems(1,4,5) by auto
    then show ?thesis using Suc by simp
  qed
qed

text \<open>An object is given another id, key or size; what the fields of the cache say is kept.\<close>

lemma page_x_upd:
  assumes "j \<noteq> k \<or> x_cache_index (f (xobjs s k)) = x_cache_index (xobjs s k)"
  shows "page_x c (upd_x k f s) j = page_x c s j"
  using assms by (auto simp: page_x_def disk_page_def)

lemma ok_x_upd [simp]: "ok_x (upd_x k f s) = ok_x s"
  by (simp add: ok_x_def)

lemma upd_x_beyond:
  assumes "MAX_OBJS \<le> m"
  shows "keys_once_x (upd_x m f s) = keys_once_x s" "slots_ok_x (upd_x m f s) = slots_ok_x s"
    "key_slot_x (upd_x m f s) = key_slot_x s" "free_slots_x (upd_x m f s) = free_slots_x s"
proof -
  have o: "xobjs (upd_x m f s) k = xobjs s k" if "k < MAX_OBJS" for k using that assms by simp
  then have hk: "has_key_x key (upd_x m f s) k = has_key_x key s k" if "k < MAX_OBJS" for key k
    using that by (simp only: has_key_x_def)
  show "keys_once_x (upd_x m f s) = keys_once_x s"
    unfolding keys_once_x_def using hk by metis
  show "slots_ok_x (upd_x m f s) = slots_ok_x s"
    unfolding slots_ok_x_def using o by metis
  have "scan (has_key_x key (upd_x m f s)) 0 MAX_OBJS = scan (has_key_x key s) 0 MAX_OBJS" for key
    by (rule scan_cong) (simp add: hk)
  then show "key_slot_x (upd_x m f s) = key_slot_x s" by (simp add: key_slot_x_def fun_eq_iff)
  show "free_slots_x (upd_x m f s) = free_slots_x s" unfolding free_slots_x_def by (rule Collect_cong) (metis o)
qed

text \<open>The new object: its slot is the first free one, and its key and id are set there.\<close>

definition new_x :: "nat \<Rightarrow> string \<Rightarrow> xstore \<Rightarrow> xstore" where
  "new_x k key s = upd_x k (\<lambda>obj. obj\<lparr>x_id := int k + 2, x_key := key\<rparr>) s"

lemma new_x_objs [simp]:
  "xobjs (new_x k b s) j = (if j = k then (xobjs s k)\<lparr>x_id := int k + 2, x_key := b\<rparr> else xobjs s j)"
  by (simp add: new_x_def)

lemma create_new_x:
  assumes s: "store_ok_x s" and key: "store_name_x key" and none: "contents (store_view_x c s) key = None"
    and room: "0 < slots (store_view_x c s)"
  obtains k b where "k < MAX_OBJS" "x_id (xobjs s k) = 0" "cstr b = key" "length b = 64"
    "objfs_create_x c (CHR 0x2F # key) s =
      Inr (0, Some (int k + 2), upd_x MAX_OBJS (init_object_cached_x c) (new_x k b s))"
proof -
  have none': "\<not> has_key_x key s j" if "j < MAX_OBJS" for j
    using none that by (simp add: store_view_x_def key_slot_x_None)
  have "free_slots_x s \<noteq> {}" using room by (auto simp: store_view_x_def)
  then obtain k where k: "k < MAX_OBJS" "x_id (xobjs s k) = 0" "\<And>j. j < k \<Longrightarrow> x_id (xobjs s j) \<noteq> 0"
    using exists_least_iff [of "\<lambda>k. k < MAX_OBJS \<and> x_id (xobjs s k) = 0"]
    by (auto simp: free_slots_x_def)
  have loop: "create_loop_x key 0 MAX_OBJS None s =
      (False, Some k, upd_x k (\<lambda>obj. obj\<lparr>x_id := int k + 2\<rparr>) s)"
    by (rule create_loop_x_free) (use k none' in auto)
  have "length (x_key (xobjs s k)) = 64" using slots_ok_xD(2) [OF store_ok_xD(3) [OF s] k(1)] .
  moreover have "length key < 64" "CHR 0x00 \<notin> set key"
    using key by (simp_all add: store_name_x_def plain_key_def)
  ultimately obtain b where b: "strcpy (x_key (xobjs s k)) key = Inr b" "cstr b = key" "length b = 64"
    using strcpy_ok [of key "x_key (xobjs s k)"] by auto
  have "upd_x k (\<lambda>obj. obj\<lparr>x_key := b\<rparr>) (upd_x k (\<lambda>obj. obj\<lparr>x_id := int k + 2\<rparr>) s) = new_x k b s"
    by (simp add: new_x_def upd_x_def)
  then have "objfs_create_x c (CHR 0x2F # key) s =
      Inr (0, Some (int k + 2), upd_x MAX_OBJS (init_object_cached_x c) (new_x k b s))"
    using loop b(1) k(1) by (simp add: objfs_create_x_def create_object_x_def path_key_def Let_def)
  then show ?thesis using that k(1,2) b(2,3) by blast
qed

lemma new_x_keys:
  assumes ok: "keys_once_x s" "slots_ok_x s" and k: "k < MAX_OBJS" "x_id (xobjs s k) = 0"
    and none: "\<And>j. j < MAX_OBJS \<Longrightarrow> \<not> has_key_x key s j" and b: "cstr b = key" "length b = 64"
  shows "keys_once_x (new_x k b s)" and "slots_ok_x (new_x k b s)"
    and "key_slot_x (new_x k b s) = (key_slot_x s)(key \<mapsto> k)"
proof -
  have hk: "has_key_x key' (new_x k b s) j = (if j = k then key' = key else has_key_x key' s j)" for key' j
    using b(1) by (auto simp: has_key_x_def)
  have nk: "\<not> has_key_x key' s k" for key' using k(2) by (simp add: has_key_x_def)
  show once: "keys_once_x (new_x k b s)"
    unfolding keys_once_x_def
  proof (intro allI impI)
    fix i j l
    assume "i < MAX_OBJS" "j < MAX_OBJS" "has_key_x l (new_x k b s) i" "has_key_x l (new_x k b s) j"
    then show "i = j" using keys_once_xD [OF ok(1), of l i j] none by (auto simp: hk split: if_splits)
  qed
  show "slots_ok_x (new_x k b s)"
    using ok(2) b(2) slots_ok_xD(5) [OF ok(2) k] by (simp add: slots_ok_x_def)
  show "key_slot_x (new_x k b s) = (key_slot_x s)(key \<mapsto> k)"
  proof
    fix key'
    show "key_slot_x (new_x k b s) key' = ((key_slot_x s)(key \<mapsto> k)) key'"
    proof (cases "key' = key")
      case True
      then show ?thesis using key_slot_x_iff [OF once, of key k] k(1) by (simp add: hk)
    next
      case False
      then have "has_key_x key' (new_x k b s) = has_key_x key' s" using nk by (auto simp: hk fun_eq_iff)
      then show ?thesis using False by (simp add: key_slot_x_def)
    qed
  qed
qed

lemma new_x_bytes:
  assumes ok: "slots_ok_x s" and k: "k < MAX_OBJS" "x_id (xobjs s k) = 0" and j: "j < MAX_OBJS"
  shows "bytes_x c (upd_x MAX_OBJS (init_object_cached_x c) (new_x k b s)) j = (if j = k then [] else bytes_x c s j)"
proof (cases "j = k")
  case True
  then show ?thesis using slots_ok_xD(5) [OF ok k] k(1) by (simp add: bytes_x_def)
next
  case False
  then show ?thesis using j page_x_upd by (simp add: bytes_x_def new_x_def)
qed

lemma create_x:
  assumes s: "store_ok_x s" and key: "store_name_x key" and none: "contents (store_view_x c s) key = None"
    and room: "0 < slots (store_view_x c s)"
  shows "\<exists>h t. objfs_create_x c (CHR 0x2F # key) s = Inr (0, Some h, t) \<and> store_ok_x t \<and>
    contents (store_view_x c t) = (contents (store_view_x c s))(key \<mapsto> []) \<and>
    slots (store_view_x c s) = Suc (slots (store_view_x c t)) \<and> store_handle_x t = (store_handle_x s)(key \<mapsto> h)"
proof -
  obtain k b where k: "k < MAX_OBJS" "x_id (xobjs s k) = 0" and b: "cstr b = key" "length b = 64"
    and cr: "objfs_create_x c (CHR 0x2F # key) s =
      Inr (0, Some (int k + 2), upd_x MAX_OBJS (init_object_cached_x c) (new_x k b s))"
    using create_new_x [OF s key none room] by blast
  define u where "u = new_x k b s"
  define t where "t = upd_x MAX_OBJS (init_object_cached_x c) u"
  note ok = store_ok_xD [OF s]
  have none': "\<not> has_key_x key s j" if "j < MAX_OBJS" for j
    using none that by (simp add: store_view_x_def key_slot_x_None)
  note keys = new_x_keys [OF ok(2,3) k none' b, folded u_def]
  note bytes = new_x_bytes [OF ok(3) k, of _ c b, folded u_def, folded t_def]
  note ut = upd_x_beyond [of MAX_OBJS "init_object_cached_x c" u, folded t_def, OF order_refl]
  have "contents (store_view_x c t) key' = ((contents (store_view_x c s))(key \<mapsto> [])) key'" for key'
  proof (cases "key' = key")
    case True
    then show ?thesis using k(1) by (simp add: store_view_x_def ut keys(3) bytes)
  next
    case False
    have "j \<noteq> k \<and> j < MAX_OBJS" if "key_slot_x s key' = Some j" for j
      using key_slot_x_valid [OF s that] k(2) by auto
    then show ?thesis
      using False by (cases "key_slot_x s key'") (simp_all add: store_view_x_def ut keys(3) bytes)
  qed
  then have "contents (store_view_x c t) = (contents (store_view_x c s))(key \<mapsto> [])" by blast
  moreover have "store_ok_x t" using keys(1,2) ok(1) ut by (simp add: store_ok_x_def t_def u_def new_x_def)
  moreover have "free_slots_x s = insert k (free_slots_x t)" "k \<notin> free_slots_x t" "finite (free_slots_x t)"
    using k unfolding ut by (auto simp: free_slots_x_def u_def)
  moreover have "store_handle_x t = (store_handle_x s)(key \<mapsto> int k + 2)"
    by (simp add: store_handle_x_def [abs_def] ut keys(3) fun_eq_iff)
  ultimately show ?thesis using cr by (auto simp: store_view_x_def t_def u_def)
qed

lemma unlink_x:
  assumes s: "store_ok_x s" and c1: "contents (store_view_x c s) key = Some xs"
  shows "\<exists>t. objfs_unlink_x c (CHR 0x2F # key) s = (0, t) \<and> store_ok_x t \<and>
    contents (store_view_x c t) = (contents (store_view_x c s))(key := None) \<and>
    slots (store_view_x c t) = Suc (slots (store_view_x c s)) \<and>
    (\<forall>key'. key' \<noteq> key \<longrightarrow> store_handle_x t key' = store_handle_x s key')"
proof -
  note ok = store_ok_xD [OF s]
  obtain k where k: "key_slot_x s key = Some k" "k < MAX_OBJS" "has_key_x key s k" "x_id (xobjs s k) = int k + 2"
    using file_x [OF s c1] by metis
  define t where "t = upd_x k (\<lambda>obj. (remove_object_cached_x c obj)\<lparr>x_id := 0, x_size := 0\<rparr>) s"
  have un: "objfs_unlink_x c (CHR 0x2F # key) s = (0, t)"
    using k(1) by (simp add: objfs_unlink_x_def destroy_object_x_def path_key_def key_slot_x_def t_def)
  have o: "x_id (xobjs t j) = (if j = k then 0 else x_id (xobjs s j))"
      "x_size (xobjs t j) = (if j = k then 0 else x_size (xobjs s j))" "x_key (xobjs t j) = x_key (xobjs s j)" for j
    by (cases c; simp add: t_def remove_object_cached_x_def)+
  have hk: "has_key_x key' t j = (j \<noteq> k \<and> has_key_x key' s j)" for key' j by (simp add: has_key_x_def o)
  have once: "keys_once_x t" using ok(2) unfolding keys_once_x_def hk by blast
  have so: "slots_ok_x t" using ok(3) by (simp add: slots_ok_x_def o)
  have sl: "key_slot_x t = (key_slot_x s)(key := None)"
  proof
    fix key'
    show "key_slot_x t key' = ((key_slot_x s)(key := None)) key'"
    proof (cases "key' = key")
      case True
      then show ?thesis
        using keys_once_xD [OF ok(2) k(3)] k(2) by (auto simp: key_slot_x_None hk)
    next
      case False
      then have "\<not> has_key_x key' s k" using k(3) by (auto simp: has_key_x_def)
      then have "has_key_x key' t = has_key_x key' s" by (auto simp: hk fun_eq_iff)
      then show ?thesis using False by (simp add: key_slot_x_def)
    qed
  qed
  have bytes: "bytes_x c t j = bytes_x c s j" if "j \<noteq> k" for j
    using that by (simp add: bytes_x_def o) (simp add: t_def page_x_upd)
  have "contents (store_view_x c t) = (contents (store_view_x c s))(key := None)"
  proof
    fix key'
    have "j \<noteq> k" if "key_slot_x s key' = Some j" "key' \<noteq> key" for j
      using that k(3) key_slot_x_iff [OF ok(2)] by (auto simp: has_key_x_def)
    then show "contents (store_view_x c t) key' = ((contents (store_view_x c s))(key := None)) key'"
      by (cases "key_slot_x s key'") (auto simp: store_view_x_def sl bytes)
  qed
  moreover have "store_ok_x t" using once so ok(1) by (simp add: store_ok_x_def t_def)
  moreover have "free_slots_x t = insert k (free_slots_x s)" "k \<notin> free_slots_x s" "finite (free_slots_x s)"
    using k by (auto simp: free_slots_x_def o)
  ultimately show ?thesis using un by (auto simp: store_view_x_def store_handle_x_def sl)
qed

interpretation example: object_files_unlink "objfs_operations_x c env" store_ok_x "store_view_x c" store_handle_x
  store_name_x for c env
proof (unfold_locales, goal_cases)
  case (1 key)
  then show ?case by (simp add: store_name_x_def)
next
  case (2 s key)
  then show ?case by (simp add: store_handle_x_def store_view_x_def)
next
  case (3 s key xs)
  then have "key \<noteq> []" by (simp add: store_name_x_def plain_key_def)
  then show ?case using getattr_x(1) [OF 3(1) _ 3(3), of env] 3(1) by auto
next
  case (4 s key)
  then have "key \<noteq> []" by (simp add: store_name_x_def plain_key_def)
  then show ?case using getattr_x(2) [OF 4(1) _ 4(3), of env] 4(1) by simp
next
  case (5 s key)
  obtain h t where "objfs_create_x c (CHR 0x2F # key) s = Inr (0, Some h, t)" "store_ok_x t"
    "contents (store_view_x c t) = (contents (store_view_x c s))(key \<mapsto> [])"
    "slots (store_view_x c s) = Suc (slots (store_view_x c t))" "store_handle_x t = (store_handle_x s)(key \<mapsto> h)"
    using create_x [OF 5] by blast
  then show ?case by (simp add: store_view_x_def)
next
  case (6 s key xs)
  then show ?case using open_x [OF 6(1,3)] by auto
next
  case (7 s key h xs)
  obtain t where "objfs_write_x c h xs s = Inr (int (length xs), t)" "store_ok_x t"
    "contents (store_view_x c t) = (contents (store_view_x c s))(key \<mapsto> xs)"
    "slots (store_view_x c t) = slots (store_view_x c s)" "store_handle_x t = store_handle_x s"
    using write_x [OF 7(1,2,5), of c] by blast
  then show ?case by (simp add: store_view_x_def)
next
  case (8 s key h xs)
  then show ?case using read_x [OF 8(1-3)] by simp
next
  case (9 s key xs)
  obtain t where "objfs_unlink_x c (CHR 0x2F # key) s = (0, t)" "store_ok_x t"
    "contents (store_view_x c t) = (contents (store_view_x c s))(key := None)"
    "slots (store_view_x c t) = Suc (slots (store_view_x c s))"
    "\<forall>key'. key' \<noteq> key \<longrightarrow> store_handle_x t key' = store_handle_x s key'"
    using unlink_x [OF 9(1,3)] by blast
  then show ?case by (simp add: store_view_x_def)
qed

end
