(* ===== verification/Client_Properties.thy ===== *)
theory Client_Properties
  imports Store_Files Example_Files Store_Properties
begin

text \<open>
  What the clients can count on, over each of the two stores, and a kernel that shows that the
  assumptions on the file calls can be met: it caches nothing and passes every call on.
\<close>

section \<open>A kernel that passes calls on\<close>

record 's mount =
  m_server :: 's
  m_fds :: "int \<Rightarrow> (string \<times> int \<times> nat) option"
  m_next :: nat

definition inner_path :: "string \<Rightarrow> string" where
  "inner_path path = drop 6 path"

lemma inner_mnt_path [simp]: "inner_path (mnt_path key) = CHR 0x2F # key"
  by (simp add: inner_path_def mnt_path_def)

definition zero_stat :: stat where
  "zero_stat = \<lparr>st_ino = 0, st_size = 0, st_blocks = 0, st_uid = 0, st_gid = 0\<rparr>"

definition lookup_call :: "'s fuse_operations \<Rightarrow> string \<Rightarrow> 's mount \<Rightarrow> (int \<times> stat \<times> 's mount) res" where
  "lookup_call F path w =
     rbind (op_getattr F path (m_server w)) (\<lambda>(r, so, s).
       Inr (if r = 0 then 0 else -1, case so of None \<Rightarrow> zero_stat | Some a \<Rightarrow> a, w\<lparr>m_server := s\<rparr>))"

definition opened :: "string \<Rightarrow> int \<times> int option \<times> 's \<Rightarrow> 's mount \<Rightarrow> int \<times> 's mount" where
  "opened key = (\<lambda>(r, h, s) w.
     case h of
       None \<Rightarrow> (-1, w\<lparr>m_server := s\<rparr>)
     | Some h' \<Rightarrow> (int (m_next w), w\<lparr>m_server := s, m_next := Suc (m_next w),
         m_fds := (m_fds w)(int (m_next w) \<mapsto> (key, h', 0))\<rparr>))"

definition open_call :: "'s fuse_operations \<Rightarrow> string \<Rightarrow> int \<Rightarrow> 's mount \<Rightarrow> (int \<times> 's mount) res" where
  "open_call F path flags w =
     rbind (lookup_call F path w) (\<lambda>(r, _, w1).
       if flags = O_RDWR
       then if r \<noteq> 0 then Inr (-1, w1)
            else rbind (op_open F path (m_server w1)) (\<lambda>x. Inr (opened (tl path) x w1))
       else if r = 0 then Inr (-1, w1)
            else rbind (op_create F path (m_server w1)) (\<lambda>x. Inr (opened (tl path) x w1)))"

definition direct_calls :: "'s fuse_operations \<Rightarrow> 's mount posix" where
  "direct_calls F =
     \<lparr>c_stat = (\<lambda>path. lookup_call F (inner_path path)),
      c_open = (\<lambda>path. open_call F (inner_path path)),
      c_fstat = (\<lambda>fd w. case m_fds w fd of
          None \<Rightarrow> Inr (-1, zero_stat, w)
        | Some (key, _, _) \<Rightarrow> lookup_call F (CHR 0x2F # key) w),
      c_write = (\<lambda>fd buf w. case m_fds w fd of
          None \<Rightarrow> Inr (-1, w)
        | Some (key, h, i) \<Rightarrow> rbind (op_write F h buf (int i) (m_server w)) (\<lambda>(r, s).
            if r < 0 then Inr (-1, w\<lparr>m_server := s\<rparr>)
            else Inr (r, w\<lparr>m_server := s, m_fds := (m_fds w)(fd \<mapsto> (key, h, i + nat r))\<rparr>))),
      c_read = (\<lambda>fd n w. case m_fds w fd of
          None \<Rightarrow> Inr (-1, [], w)
        | Some (key, h, i) \<Rightarrow> rbind (op_read F h n (int i) (m_server w)) (\<lambda>(r, ys, s).
            if r < 0 then Inr (-1, [], w\<lparr>m_server := s\<rparr>)
            else Inr (r, take (nat r) ys, w\<lparr>m_server := s, m_fds := (m_fds w)(fd \<mapsto> (key, h, i + nat r))\<rparr>))),
      c_close = (\<lambda>fd w. case m_fds w fd of
          None \<Rightarrow> Inr (-1, w)
        | Some (key, h, i) \<Rightarrow> let r = op_release F h (m_server w) in
            Inr (0, w\<lparr>m_fds := (m_fds w)(fd := None)\<rparr>)),
      c_rename = (\<lambda>old new w. rbind (lookup_call F (inner_path old) w) (\<lambda>(r, _, w1).
          if r \<noteq> 0 then Inr (-1, w1)
          else rbind (lookup_call F (inner_path new) w1) (\<lambda>(_, _, w2).
            case op_rename F of
              None \<Rightarrow> Inr (-1, w2)
            | Some rename \<Rightarrow> rbind (rename (inner_path old) (inner_path new) (m_server w2)) (\<lambda>(r', s).
                Inr (if r' < 0 then -1 else 0, w2\<lparr>m_server := s\<rparr>))))),
      c_unlink = (\<lambda>path w. rbind (lookup_call F (inner_path path) w) (\<lambda>(r, _, w1).
          if r \<noteq> 0 then Inr (-1, w1)
          else rbind (op_unlink F (inner_path path) (m_server w1)) (\<lambda>(r', s).
            Inr (if r' < 0 then -1 else 0, w1\<lparr>m_server := s\<rparr>))))\<rparr>"

interpretation direct: fuse_mount "direct_calls F" F m_server m_fds for F :: "'s fuse_operations"
  by unfold_locales
    (auto simp: direct_calls_def lookup_call_def open_call_def opened_def split: option.split)

lemma direct_good:
  "ok s \<Longrightarrow> mount_good ok handle name_ok m_server m_fds \<lparr>m_server = s, m_fds = Map.empty, m_next = 3\<rparr>"
  by (simp add: mount_good_def)

section \<open>Two mounted stores\<close>

lemma store_mount:
  assumes "fuse_mount P (objfs_operations ctr c env) server fds"
  shows "key_files P (mount_good (store_ok c) (store_handle c) store_name server fds)
      (\<lambda>w. store_view c (server w)) (mount_pos fds) store_name"
  by (rule fuse_files.as_key_files [OF fuse_files.intro [OF assms store.object_files_axioms]])

lemma example_mount:
  assumes "fuse_mount P (objfs_operations_x c env) server fds"
  shows "key_files P (mount_good store_ok_x store_handle_x store_name_x server fds)
      (\<lambda>w. store_view_x c (server w)) (mount_pos fds) store_name_x"
    and "removing_files P (mount_good store_ok_x store_handle_x store_name_x server fds)
      (\<lambda>w. store_view_x c (server w)) (mount_pos fds) store_name_x"
proof -
  note f = fuse_files.intro [OF assms example.object_files_axioms]
  show "key_files P (mount_good store_ok_x store_handle_x store_name_x server fds)
      (\<lambda>w. store_view_x c (server w)) (mount_pos fds) store_name_x"
    by (rule fuse_files.as_key_files [OF f])
  show "removing_files P (mount_good store_ok_x store_handle_x store_name_x server fds)
      (\<lambda>w. store_view_x c (server w)) (mount_pos fds) store_name_x"
    by (rule fuse_files_unlink.as_removing_files [OF fuse_files_unlink.intro [OF f example.object_files_unlink_axioms]])
qed

section \<open>The object store\<close>

text \<open>A store with an empty file \<open>a\<close> and room for more, mounted.\<close>

definition ex_mount :: "objstore mount" where
  "ex_mount = \<lparr>m_server = ex_store, m_fds = Map.empty, m_next = 3\<rparr>"

lemma ex_store_keys: "a_key (abs_fs c ex_store) k = (if k = 0 then Some ''a'' else None)"
  by (simp add: abs_fs_def ex_key_facts)

lemma ex_store_ok: "store_ok c ex_store"
proof -
  have "keys_once (abs_fs c ex_store)" by (simp add: keys_once_def ex_store_keys)
  moreover have "a_len (abs_fs c ex_store) k = 0" for k by (simp add: abs_fs_def)
  ultimately show ?thesis using ex_store_inv by (simp add: store_ok_def small_files_def one_block_def)
qed

lemma ex_mount_good: "mount_good (store_ok c) (store_handle c) store_name m_server m_fds ex_mount"
  unfolding ex_mount_def by (rule direct_good) (rule ex_store_ok)

lemma ex_store_view:
  "slots (store_view c ex_store) = 1" "blocks (store_view c ex_store) = 1"
  "key \<noteq> ''a'' \<Longrightarrow> contents (store_view c ex_store) key = None"
proof -
  have "\<not> (\<forall>k < n_inodes. live ex_store k)" by (auto intro!: exI [of _ 1])
  then show "slots (store_view c ex_store) = 1" by (simp add: store_view_def)
  show "blocks (store_view c ex_store) = 1" using ex_store_room by (simp add: store_view_def)
  show "key \<noteq> ''a'' \<Longrightarrow> contents (store_view c ex_store) key = None"
    by (simp add: store_view_def files_of_None key_slot_None ex_store_keys)
qed

lemma ex_names: "store_name ''b''" "store_name ''c''"
  by (simp_all add: store_name_def key_ok_def plain_key_def)

text \<open>C5: A client that puts a value of at most a block under a new key finds the key with that
  size, reads the value back, and no other key has changed: through the file calls, FUSE, the
  callbacks, the object table, the block cache and the disk, in both builds.\<close>

theorem put_then_get:
  assumes "fuse_mount P (objfs_operations ctr c env) server fds"
    and "mount_good (store_ok c) (store_handle c) store_name server fds w"
    and "store_name key" and "contents (store_view c (server w)) key = None"
    and "0 < slots (store_view c (server w))" and "0 < blocks (store_view c (server w))"
    and "0 < n" and "n \<le> 4096" and "n \<le> length val" and "4096 \<le> cap"
  shows "\<exists>w1 w2 w3 ys. put_key P key val (int n) w = Inr (0, w1) \<and> lookup_key P key w1 = Inr (int n, w2) \<and>
    get_key P cap key w2 = Inr (0, ys, w3) \<and> take n ys = take n val \<and>
    contents (store_view c (server w3)) = (contents (store_view c (server w)))(key \<mapsto> take n val)"
proof -
  have "length key \<le> 504" using assms(3) by (simp add: store_name_def key_ok_def)
  then show ?thesis
    using key_files.put_gives_value [OF store_mount [OF assms(1)] assms(2,3) _ assms(4-10)] by blast
qed

theorem put_then_get_witness:
  "\<exists>w1 w2 w3 ys. put_key (direct_calls (objfs_operations 77 Cached ex_env)) ''b'' [7, 8] 2 ex_mount = Inr (0, w1) \<and>
    lookup_key (direct_calls (objfs_operations 77 Cached ex_env)) ''b'' w1 = Inr (2, w2) \<and>
    get_key (direct_calls (objfs_operations 77 Cached ex_env)) 4096 ''b'' w2 = Inr (0, ys, w3) \<and> take 2 ys = [7, 8]"
  using put_then_get [OF direct.fuse_mount_axioms ex_mount_good ex_names(1), where c = Cached and n = 2 and val = "[7, 8]"
      and cap = 4096 and env = ex_env and ctr = 77]
  by (auto simp: ex_mount_def ex_store_view)



text \<open>What a client has put is there after an unmount and a mount.\<close>

theorem put_survives_remount:
  assumes "fuse_mount P (objfs_operations ctr c env) server fds"
    and "mount_good (store_ok c) (store_handle c) store_name server fds w"
    and "store_name key" and "contents (store_view c (server w)) key = None"
    and "0 < slots (store_view c (server w))" and "0 < blocks (store_view c (server w))"
    and "0 < n" and "n \<le> 4096" and "n \<le> length val"
  shows "\<exists>w1. put_key P key val (int n) w = Inr (0, w1) \<and>
    store_ok c (objfs_init (objfs_destroy (server w1))) \<and>
    contents (store_view c (objfs_init (objfs_destroy (server w1)))) =
      (contents (store_view c (server w)))(key \<mapsto> take n val)"
proof -
  have "length key \<le> 504" using assms(3) by (simp add: store_name_def key_ok_def)
  then obtain w1 where w1: "put_key P key val (int n) w = Inr (0, w1)"
      "mount_good (store_ok c) (store_handle c) store_name server fds w1"
      "contents (store_view c (server w1)) = (contents (store_view c (server w)))(key \<mapsto> take n val)"
    using key_files.put_key_new [OF store_mount [OF assms(1)] assms(2,3) _ assms(4-9)] by blast
  let ?t = "objfs_init (objfs_destroy (server w1))"
  have s: "store_ok c (server w1)" by (rule mount_goodD(1) [OF w1(2)])
  have "fs_inv c ?t" and abs: "abs_fs c ?t = abs_fs c (server w1)"
    using remount_implements [OF store_okD(1) [OF s]]
    by (simp_all add: implements_def objfs_init_def objfs_destroy_def)
  then have "store_ok c ?t" using s by (simp add: store_ok_def)
  then show ?thesis using w1(1,3) abs by (auto simp: store_view_def)
qed

theorem put_survives_remount_witness:
  "\<exists>w1. put_key (direct_calls (objfs_operations 77 Cached ex_env)) ''b'' [7, 8] 2 ex_mount = Inr (0, w1) \<and>
    contents (store_view Cached (objfs_init (objfs_destroy (m_server w1)))) ''b'' = Some [7, 8]"
  using put_survives_remount [OF direct.fuse_mount_axioms ex_mount_good ex_names(1), where c = Cached and n = 2 and val = "[7, 8]" and env = ex_env and ctr = 77]
  by (auto simp: ex_mount_def ex_store_view)

section \<open>The example\<close>

definition ex_mount_x :: "xstore mount" where
  "ex_mount_x = \<lparr>m_server = ex_xstore, m_fds = Map.empty, m_next = 3\<rparr>"

lemma ex_xkey: "cstr (x_key (xobjs ex_xstore k)) = (if k = 0 then ''a'' else if k = 1 then ''b'' else ''d'')"
  by (simp add: ex_xstore_def ex_xobject_def cstr_def)

lemma ex_xid: "x_id (xobjs ex_xstore k) \<noteq> 0 \<longleftrightarrow> k \<in> {0, 1, 3}"
  by (simp add: ex_xstore_def ex_xobject_def)

lemma ex_xhas: "has_key_x key ex_xstore k \<longleftrightarrow>
    k = 0 \<and> key = ''a'' \<or> k = 1 \<and> key = ''b'' \<or> k = 3 \<and> key = ''d''"
  unfolding has_key_x_def ex_xid ex_xkey by auto

lemma ex_xstore_ok: "store_ok_x ex_xstore"
proof -
  have "keys_once_x ex_xstore" unfolding keys_once_x_def ex_xhas by auto
  moreover have "slots_ok_x ex_xstore" by (auto simp: slots_ok_x_def ex_xstore_def ex_xobject_def)
  ultimately show ?thesis using ex_xstore(1) by (simp add: store_ok_x_def)
qed

lemma ex_mount_x_good: "mount_good store_ok_x store_handle_x store_name_x m_server m_fds ex_mount_x"
  unfolding ex_mount_x_def by (rule direct_good) (rule ex_xstore_ok)

lemma ex_xcontents_None: "key \<notin> {''a'', ''b'', ''d''} \<Longrightarrow> contents (store_view_x c ex_xstore) key = None"
  by (auto simp: store_view_x_def key_slot_x_None ex_xhas)

lemma ex_xslots: "slots (store_view_x c ex_xstore) = 13"
proof -
  have "free_slots_x ex_xstore = {..< 16} - {0, 1, 3}"
    by (auto simp: free_slots_x_def ex_xstore_def ex_xobject_def)
  then show ?thesis by (simp add: store_view_x_def card_Diff_subset)
qed

lemma example_key_name: "i < 10 \<Longrightarrow> store_name_x (example_key i)"
proof -
  assume i: "i < 10"
  have "(of_char (char_of (48 + i) :: char) :: nat) \<noteq> of_char (CHR 0x2F)"
    and "(of_char (char_of (48 + i) :: char) :: nat) \<noteq> of_char (CHR 0x00)"
    using i by (simp_all add: take_bit_eq_mod)
  then have "char_of (48 + i) \<noteq> CHR 0x2F" "char_of (48 + i) \<noteq> CHR 0x00" by metis+
  then show ?thesis using i by (simp add: store_name_x_def plain_key_def example_key_def decimal_digit)
qed

text \<open>The programs of the example over the example store, in both builds: \<open>create\<close> stores its
  eight keys without an error, and \<open>find_and_read\<close> then prints the eight lines.\<close>

theorem example_programs:
  assumes "fuse_mount P (objfs_operations_x c env) server fds"
    and "mount_good store_ok_x store_handle_x store_name_x server fds w"
    and "\<And>i. i < 10 \<Longrightarrow> contents (store_view_x c (server w)) (example_key i) = None"
    and "8 \<le> slots (store_view_x c (server w))" and "\<And>i. 32 \<le> length (junk i)"
  shows "\<exists>w1 w2. create_main_x P junk w = Inr ([], w1) \<and>
    find_and_read_main P w1 = Inr (concat (map example_line [1 ..< 9]), None, w2)"
  by (rule key_files.create_then_print [OF example_mount(1) [OF assms(1)] assms(2) example_key_name assms(3,4) _ assms(5)])
    (simp_all add: store_view_x_def)

theorem example_programs_witness:
  "\<exists>w1 w2. create_main_x (direct_calls (objfs_operations_x Cached ex_env)) (\<lambda>_. replicate 32 7) ex_mount_x = Inr ([], w1) \<and>
    find_and_read_main (direct_calls (objfs_operations_x Cached ex_env)) w1 =
      Inr (concat (map example_line [1 ..< 9]), None, w2)"
proof -
  have "contents (store_view_x Cached ex_xstore) (example_key i) = None" for i
    by (rule ex_xcontents_None) (simp add: example_key_def)
  then show ?thesis
    using example_programs [OF direct.fuse_mount_axioms ex_mount_x_good, of Cached "\<lambda>_. replicate 32 7" ex_env]
    by (simp add: ex_mount_x_def ex_xslots)
qed

text \<open>\<open>update\<close> of the example over the example store replaces the value of an existing key by the
  new text, ended by a NUL byte and followed by what its array held, and changes no other key.\<close>

theorem update_program:
  assumes "fuse_mount P (objfs_operations_x c env) server fds"
    and "mount_good store_ok_x store_handle_x store_name_x server fds w"
    and "store_name_x key" and "length key < 27"
    and "contents (store_view_x c (server w)) key = Some xs"
    and "\<And>fd h i. fds w fd \<noteq> Some (key, h, i)" and "length junk = 64"
  shows "\<exists>w'. update_main_x P junk [prog, key] w = Inr (0, [], w') \<and>
    contents (store_view_x c (server w')) = (contents (store_view_x c (server w)))(key \<mapsto>
      bytes_of (''I am [updated] '' @ key @ ''. Registered to CS330.'') @ [0] @ drop (length key + 38) junk)"
proof -
  have "mount_pos fds w fd \<noteq> Some (key, i)" for fd i using assms(6) by (auto simp: mount_pos_Some)
  moreover have "0 < blocks (store_view_x c (server w))" by (simp add: store_view_x_def)
  ultimately show ?thesis
    using removing_files.update_replaces [OF example_mount(2) [OF assms(1)] assms(2-5) _ assms(7)] by blast
qed

theorem update_program_witness:
  "\<exists>w'. update_main_x (direct_calls (objfs_operations_x Cached ex_env)) (replicate 64 9) [''update'', ''a''] ex_mount_x =
      Inr (0, [], w') \<and>
    contents (store_view_x Cached (m_server w')) ''a'' = Some
      (bytes_of (''I am [updated] '' @ ''a'' @ ''. Registered to CS330.'') @ [0] @ replicate 25 9)"
proof -
  have "key_slot_x ex_xstore ''a'' = Some 0"
    using key_slot_x_iff [OF store_ok_xD(2) [OF ex_xstore_ok]] ex_xhas by simp
  then have "contents (store_view_x Cached ex_xstore) ''a'' = Some (bytes_x Cached ex_xstore 0)"
    by (simp add: store_view_x_def)
  moreover have "store_name_x ''a''" by (simp add: store_name_x_def plain_key_def)
  ultimately show ?thesis
    using update_program [OF direct.fuse_mount_axioms ex_mount_x_good, where key = "''a''" and c = Cached and
        junk = "replicate 64 9" and prog = "''update''" and env = ex_env]
    by (auto simp: ex_mount_x_def)
qed

end
