(* ===== verification/Paging.thy ===== *)
theory Paging
  imports Prelude "HOL-Library.Sublist"
begin

text \<open>
  Four-level page tables as the memory code of assignments 1 and 2 builds and walks them.
  A machine is the contents of every physical frame seen as a table of 512 entries, and the
  state of the frame allocator. The allocator (\<open>os_pfn_alloc\<close>, \<open>os_pfn_free\<close>) and
  \<open>osmap\<close> are outside the repository: the first two are parameters, with their documented
  behaviour in \<open>allocator_ok\<close>; \<open>osmap\<close> gives access to a frame, so a table is named by its
  frame number. \<open>access\<close> is what the processor does with the tables: the frame a path of
  indices leads to, and whether every level allows user access and writing.
\<close>

section \<open>Frames\<close>

type_synonym pfn = "32 word"

datatype region = OS_DS_REG | OS_PT_REG | USER_REG

definition get_mem_region :: "pfn \<Rightarrow> region option" where
  "get_mem_region pfn =
     (let address = push_bit 12 (ucast pfn :: 64 word) in
      if address < 0x800000 \<or> 0x20000000 < address then None
      else if 0x800000 \<le> address \<and> address < 0x2000000 then Some OS_DS_REG
      else if 0x2000000 \<le> address \<and> address < 0x6400000 then Some OS_PT_REG
      else Some USER_REG)"

text \<open>The allocator, a parameter: its operations over a state of its own.\<close>

record 'o frame_ops =
  os_pfn_alloc :: "region \<Rightarrow> 'o \<Rightarrow> pfn \<times> 'o"
  os_pfn_free :: "region \<Rightarrow> 64 word \<Rightarrow> 'o \<Rightarrow> 'o"

text \<open>
  What the code relies on: while frames are left, an allocation returns a frame of the
  region asked for that is not in use and puts it in use; a release of a frame in use
  takes it out of use.
\<close>

definition allocator_ok ::
    "'o frame_ops \<Rightarrow> ('o \<Rightarrow> pfn set) \<Rightarrow> ('o \<Rightarrow> nat) \<Rightarrow> bool" where
  "allocator_ok A used left \<longleftrightarrow>
     (\<forall>reg st a st'. 0 < left st \<longrightarrow> os_pfn_alloc A reg st = (a, st') \<longrightarrow>
        a \<notin> used st \<and> get_mem_region a = Some reg \<and> used st' = insert a (used st) \<and>
        left st \<le> Suc (left st')) \<and>
     (\<forall>reg st a. a \<in> used st \<longrightarrow> get_mem_region a = Some reg \<longrightarrow>
        used (os_pfn_free A reg (ucast a) st) = used st - {a} \<and>
        left st \<le> left (os_pfn_free A reg (ucast a) st))"

record 'o machine =
  mem :: "pfn \<Rightarrow> nat \<Rightarrow> 64 word"
  os :: 'o

text \<open>The segments of an address space (\<open>context.h\<close>).\<close>

datatype mm_seg = MM_SEG_CODE | MM_SEG_RODATA | MM_SEG_DATA | MM_SEG_STACK

record mm_segment =
  seg_start :: "64 word"
  seg_end :: "64 word"
  access_flags :: "32 word"

section \<open>Entries and indices\<close>

definition l1_index :: "64 word \<Rightarrow> nat" where
  "l1_index v = unat (drop_bit 12 v AND 0x1FF)"

definition l2_index :: "64 word \<Rightarrow> nat" where
  "l2_index v = unat (drop_bit 21 v AND 0x1FF)"

definition l3_index :: "64 word \<Rightarrow> nat" where
  "l3_index v = unat (drop_bit 30 v AND 0x1FF)"

text \<open>The top index is not masked: above \<open>2 ^ 48\<close> it leaves the table.\<close>

definition l4_index :: "64 word \<Rightarrow> nat" where
  "l4_index v = unat (ucast (drop_bit 39 v) :: 32 word)"

definition present :: "64 word \<Rightarrow> bool" where
  "present e \<longleftrightarrow> e AND 1 = 1"

definition entry_frame :: "64 word \<Rightarrow> pfn" where
  "entry_frame e = ucast (drop_bit 12 e)"

text \<open>\<open>e |= a<<12; e |= 0x5\<close>, the shift in 32 bits.\<close>

definition link :: "64 word \<Rightarrow> pfn \<Rightarrow> 64 word" where
  "link e a = e OR ucast (push_bit 12 a) OR 5"

definition allow_write :: "32 word \<Rightarrow> 64 word \<Rightarrow> 64 word" where
  "allow_write flag e = (if flag AND 2 = 2 then e OR 2 else e)"

definition set_entry :: "pfn \<Rightarrow> nat \<Rightarrow> 64 word \<Rightarrow> 'o machine \<Rightarrow> 'o machine" where
  "set_entry t i e m = m\<lparr>mem := (mem m)(t := (mem m t)(i := e))\<rparr>"

definition zero_table :: "pfn \<Rightarrow> 'o machine \<Rightarrow> 'o machine" where
  "zero_table a m = m\<lparr>mem := (mem m)(a := (\<lambda>i. if i < 512 then 0 else mem m a i))\<rparr>"

section \<open>Mapping a page\<close>

text \<open>
  One of levels 4 to 2: the table behind entry \<open>i\<close> of table \<open>t\<close>, created empty when the
  entry is absent; the write permission is added to the entry in both cases.
\<close>

definition walk_level ::
    "'o frame_ops \<Rightarrow> 32 word \<Rightarrow> pfn \<Rightarrow> nat \<Rightarrow> 'o machine \<Rightarrow> pfn \<times> 'o machine" where
  "walk_level A flag t i m =
     (case (if mem m t i AND 1 = 0
            then (case os_pfn_alloc A OS_PT_REG (os m) of (a, os') \<Rightarrow>
                    let m1 = zero_table a (m\<lparr>os := os'\<rparr>)
                    in (a, set_entry t i (link (mem m1 t i) a) m1))
            else (entry_frame (mem m t i), m))
      of (child, m2) \<Rightarrow> (child, set_entry t i (allow_write flag (mem m2 t i)) m2))"

text \<open>
  The whole walk. At level 1 a present entry ends it; otherwise \<open>leaf\<close> provides the frame.
\<close>

definition map_page ::
    "'o frame_ops \<Rightarrow> ('o machine \<Rightarrow> pfn \<times> 'o machine) \<Rightarrow> 32 word \<Rightarrow> pfn \<Rightarrow> 64 word \<Rightarrow>
     'o machine \<Rightarrow> 'o machine res" where
  "map_page A leaf flag l4 v m =
     (if 512 \<le> l4_index v then Inl OutOfBounds
      else
        case walk_level A flag l4 (l4_index v) m of (l3, m1) \<Rightarrow>
        case walk_level A flag l3 (l3_index v) m1 of (l2, m2) \<Rightarrow>
        case walk_level A flag l2 (l2_index v) m2 of (l1, m3) \<Rightarrow>
          if mem m3 l1 (l1_index v) AND 1 = 1 then Inr m3
          else
            case leaf m3 of (a, m4) \<Rightarrow>
              let m5 = set_entry l1 (l1_index v) (link (mem m4 l1 (l1_index v)) a) m4
              in Inr (set_entry l1 (l1_index v)
                       (allow_write flag (mem m5 l1 (l1_index v))) m5))"

text \<open>A leaf frame from the user region.\<close>

definition fresh_leaf :: "'o frame_ops \<Rightarrow> 'o machine \<Rightarrow> pfn \<times> 'o machine" where
  "fresh_leaf A m = (case os_pfn_alloc A USER_REG (os m) of (a, os') \<Rightarrow> (a, m\<lparr>os := os'\<rparr>))"

section \<open>What the processor sees\<close>

fun access :: "(pfn \<Rightarrow> nat \<Rightarrow> 64 word) \<Rightarrow> pfn \<Rightarrow> nat list \<Rightarrow> (pfn \<times> bool \<times> bool) option" where
  "access M t [] = Some (t, True, True)"
| "access M t (i # is) =
     (if present (M t i)
      then (case access M (entry_frame (M t i)) is of
              None \<Rightarrow> None
            | Some (f, u, w) \<Rightarrow> Some (f, u \<and> bit (M t i) 2, w \<and> bit (M t i) 1))
      else None)"

definition node :: "(pfn \<Rightarrow> nat \<Rightarrow> 64 word) \<Rightarrow> pfn \<Rightarrow> nat list \<Rightarrow> pfn option" where
  "node M r p = map_option fst (access M r p)"

definition page_path :: "64 word \<Rightarrow> nat list" where
  "page_path v = [l4_index v, l3_index v, l2_index v, l1_index v]"

definition path_ok :: "nat list \<Rightarrow> bool" where
  "path_ok p \<longleftrightarrow> (\<forall>i \<in> set p. i < 512)"

text \<open>The address space below root \<open>r\<close>: frame, user access and write access of every page.\<close>

definition vmap :: "'o machine \<Rightarrow> pfn \<Rightarrow> nat list \<Rightarrow> (pfn \<times> bool \<times> bool) option" where
  "vmap m r p = (if path_ok p \<and> length p = 4 then access (mem m) r p else None)"

section \<open>Bits\<close>

lemma present_bit: "present e \<longleftrightarrow> bit e 0"
  unfolding present_def by (metis and_one_eq one_neq_zero bit_0 mod_2_eq_odd odd_iff_mod_2_eq_one)

lemma absent_iff: "e AND 1 = 0 \<longleftrightarrow> \<not> present e"
  unfolding present_def by (simp add: and_one_eq)

lemma bit_2: "bit (2 :: 'a :: len word) n \<longleftrightarrow> n = 1 \<and> 1 < LENGTH('a)"
proof -
  have "bit (push_bit 1 1 :: 'a word) n \<longleftrightarrow> n = 1 \<and> 1 < LENGTH('a)"
    by (auto simp only: bit_push_bit_iff bit_1_iff) (auto simp: bit_1_iff)
  then show ?thesis by simp
qed

lemma bit_5: "bit (5 :: 64 word) n \<longleftrightarrow> n = 0 \<or> n = 2"
proof -
  have "bit (push_bit 0 1 OR push_bit 2 1 :: 64 word) n \<longleftrightarrow> n = 0 \<or> n = 2"
    by (auto simp: bit_or_iff bit_push_bit_iff bit_1_iff simp del: push_bit_of_1)
  then show ?thesis by simp
qed

lemma flag_writes: "flag AND 2 = (2 :: 32 word) \<longleftrightarrow> bit flag 1"
proof
  assume "flag AND 2 = (2 :: 32 word)"
  then have "bit (flag AND 2) 1 = bit (2 :: 32 word) 1" by (rule arg_cong)
  then show "bit flag 1" by (simp add: bit_and_iff bit_2)
next
  assume "bit flag 1"
  show "flag AND 2 = (2 :: 32 word)"
  proof (rule bit_word_eqI)
    fix n :: nat
    have "bit (2 :: 32 word) n \<longleftrightarrow> n = 1" using bit_2 [of n, where 'a = 32] by simp
    then show "bit (flag AND 2) n = bit (2 :: 32 word) n"
      using \<open>bit flag 1\<close> by (auto simp: bit_and_iff)
  qed
qed

lemma present_link [simp]: "present (link e a)"
  by (simp add: present_bit link_def bit_or_iff bit_5)

lemma bit2_link [simp]: "bit (link e a) 2"
  by (simp add: link_def bit_or_iff bit_5)

lemma present_allow [simp]: "present (allow_write flag e) = present e"
  by (simp add: present_bit allow_write_def bit_or_iff bit_2)

lemma bit2_allow [simp]: "bit (allow_write flag e) 2 = bit e 2"
  by (simp add: allow_write_def bit_or_iff bit_2)

lemma bit1_allow [simp]: "bit (allow_write flag e) 1 = (bit flag 1 \<or> bit e 1)"
  by (auto simp: allow_write_def flag_writes bit_or_iff bit_2)

lemmas bit1_allow' [simp] = bit1_allow [unfolded One_nat_def]

lemma frame_allow [simp]: "entry_frame (allow_write flag e) = entry_frame e"
  by (auto intro!: bit_word_eqI simp: entry_frame_def allow_write_def bit_simps bit_2)

lemma bit1_link_zero [simp]: "\<not> bit (link 0 a) 1"
  by (auto simp: link_def bit_or_iff bit_5 bit_simps)

lemmas bit1_link_zero' [simp] = bit1_link_zero [unfolded One_nat_def]

lemma uint_below: "uint (a :: pfn) < 2 ^ 20 \<longleftrightarrow> unat a < 2 ^ 20"
proof -
  have "int (unat a) < 1048576 \<longleftrightarrow> unat a < 1048576" by linarith
  then show ?thesis by simp
qed

lemma frame_link_zero:
  assumes "unat a < 2 ^ 20"
  shows "entry_frame (link 0 a) = a"
proof -
  have high: "\<not> bit a n" if "20 \<le> n" for n
  proof
    assume "bit a n"
    then have "bit (uint a) n" using bit_imp_le_length [of a n] by (simp add: bit_uint_iff)
    moreover have "uint a < 2 ^ n"
    proof -
      have "uint a < 2 ^ 20" using assms by (simp only: uint_below)
      also have "(2 :: int) ^ 20 \<le> 2 ^ n" using that by (rule power_increasing) simp
      finally show ?thesis .
    qed
    ultimately show False by (simp add: bit_iff_odd)
  qed
  show ?thesis
    by (rule bit_word_eqI)
      (use high in \<open>auto simp: entry_frame_def link_def bit_simps bit_5 not_less [symmetric]\<close>)
qed

lemma index_bounds [simp]: "l1_index v < 512" "l2_index v < 512" "l3_index v < 512"
proof -
  have "unat (x AND 0x1FF) < 512" for x :: "64 word"
  proof -
    have "x AND 0x1FF \<le> 0x1FF" by (rule word_and_le1)
    then show ?thesis by (simp add: word_le_nat_alt)
  qed
  then show "l1_index v < 512" "l2_index v < 512" "l3_index v < 512"
    by (simp_all add: l1_index_def l2_index_def l3_index_def)
qed




lemma region_small:
  assumes "get_mem_region a = Some reg"
  shows "unat a < 2 ^ 20"
proof -
  have "uint (push_bit 12 (ucast a :: 64 word)) = uint a * 4096"
  proof -
    have "uint a < 2 ^ 32" using uint_lt2p [of a] by simp
    then show ?thesis
      by (simp add: push_bit_eq_mult uint_word_ariths(3) uint_up_ucast is_up)
  qed
  moreover have "\<not> 0x20000000 < push_bit 12 (ucast a :: 64 word)"
    using assms by (auto simp: get_mem_region_def Let_def split: if_splits)
  ultimately have "uint a * 4096 \<le> 0x20000000"
    by (simp add: word_less_def)
  then have "uint a < 2 ^ 20" by simp
  then show ?thesis by (simp only: uint_below)
qed

lemma frame_link: "get_mem_region a = Some reg \<Longrightarrow> entry_frame (link 0 a) = a"
  using frame_link_zero region_small by blast

text \<open>No bits above those of a 32-bit frame number.\<close>

definition small_entry :: "64 word \<Rightarrow> bool" where
  "small_entry e \<longleftrightarrow> drop_bit 44 e = 0"

lemma small_link [simp]: "small_entry (link 0 a)"
  unfolding small_entry_def by (rule bit_word_eqI) (auto simp: link_def bit_simps bit_5)

lemma small_allow [simp]: "small_entry (allow_write flag e) = small_entry e"
proof -
  have "drop_bit 44 (allow_write flag e) = drop_bit 44 e"
    by (auto intro!: bit_word_eqI simp: allow_write_def bit_simps bit_2)
  then show ?thesis by (simp add: small_entry_def)
qed

lemma small_entry_frame:
  assumes "small_entry e"
  shows "drop_bit 12 e = ucast (entry_frame e)"
proof (rule bit_word_eqI)
  fix n assume "n < LENGTH(64)"
  have "\<not> bit e (12 + n)" if "32 \<le> n"
  proof -
    have "bit (drop_bit 44 e) (n - 32) = bit e (12 + n)" using that by (simp add: bit_drop_bit_eq)
    then show ?thesis using assms by (simp add: small_entry_def)
  qed
  then show "bit (drop_bit 12 e) n = bit (ucast (entry_frame e) :: 64 word) n"
    using \<open>n < LENGTH(64)\<close> by (cases "n < 32") (auto simp: entry_frame_def bit_simps)
qed

section \<open>Access along a path\<close>

lemma access_append:
  "access M r (p @ q) =
     (case access M r p of
        None \<Rightarrow> None
      | Some (t, u, w) \<Rightarrow>
          (case access M t q of
             None \<Rightarrow> None
           | Some (f, u', w') \<Rightarrow> Some (f, u \<and> u', w \<and> w')))"
  by (induction p arbitrary: r) (auto split: option.splits)

lemma access_snoc:
  "access M r (p @ [i]) =
     (case access M r p of
        None \<Rightarrow> None
      | Some (t, u, w) \<Rightarrow>
          if present (M t i) then Some (entry_frame (M t i), u \<and> bit (M t i) 2, w \<and> bit (M t i) 1)
          else None)"
  by (auto simp: access_append split: option.splits)

lemma node_Some: "node M r p = Some t \<longleftrightarrow> (\<exists>u w. access M r p = Some (t, u, w))"
  by (auto simp: node_def)

lemma access_node: "access M r p = Some (t, u, w) \<Longrightarrow> node M r p = Some t"
  by (simp add: node_def)

lemma node_snoc:
  "node M r (p @ [i]) =
     (case node M r p of None \<Rightarrow> None
      | Some t \<Rightarrow> if present (M t i) then Some (entry_frame (M t i)) else None)"
  by (auto simp: node_def access_snoc split: option.splits)

lemma path_ok_simps [simp]:
  "path_ok []" "path_ok (i # p) \<longleftrightarrow> i < 512 \<and> path_ok p" "path_ok (p @ q) \<longleftrightarrow> path_ok p \<and> path_ok q"
  by (auto simp: path_ok_def)

declare access.simps(2) [simp del]

section \<open>The tree invariant\<close>

text \<open>
  \<open>S\<close> is the set of frames in use. Every table of the tree below \<open>r\<close> is a frame of its own
  in the page-table region, with absent entries zero and present ones user accessible; a
  writable entry is below writable ones; every mapped page has a frame of its own in the
  user region.
\<close>

definition tables_ok :: "(pfn \<Rightarrow> nat \<Rightarrow> 64 word) \<Rightarrow> pfn \<Rightarrow> pfn set \<Rightarrow> bool" where
  "tables_ok M r S \<longleftrightarrow>
     (\<forall>p t. path_ok p \<and> length p \<le> 3 \<and> node M r p = Some t \<longrightarrow>
        t \<in> S \<and> get_mem_region t = Some OS_PT_REG \<and>
        (\<forall>i < 512. if present (M t i) then bit (M t i) 2 \<and> small_entry (M t i) else M t i = 0))"

definition tables_apart :: "(pfn \<Rightarrow> nat \<Rightarrow> 64 word) \<Rightarrow> pfn \<Rightarrow> bool" where
  "tables_apart M r \<longleftrightarrow>
     (\<forall>p q t. path_ok p \<and> path_ok q \<and> length p \<le> 3 \<and> length q \<le> 3 \<and>
        node M r p = Some t \<and> node M r q = Some t \<longrightarrow> p = q)"

definition writes_ok :: "(pfn \<Rightarrow> nat \<Rightarrow> 64 word) \<Rightarrow> pfn \<Rightarrow> bool" where
  "writes_ok M r \<longleftrightarrow>
     (\<forall>p t i j. path_ok p \<and> length p \<le> 2 \<and> node M r p = Some t \<and> i < 512 \<and> j < 512 \<and>
        present (M t i) \<and> present (M (entry_frame (M t i)) j) \<and> bit (M (entry_frame (M t i)) j) 1 \<longrightarrow>
        bit (M t i) 1)"

definition pages_ok :: "(pfn \<Rightarrow> nat \<Rightarrow> 64 word) \<Rightarrow> pfn \<Rightarrow> pfn set \<Rightarrow> bool" where
  "pages_ok M r S \<longleftrightarrow>
     (\<forall>p f. path_ok p \<and> length p = 4 \<and> node M r p = Some f \<longrightarrow>
        f \<in> S \<and> get_mem_region f = Some USER_REG \<and>
        (\<forall>q. path_ok q \<and> length q = 4 \<and> node M r q = Some f \<longrightarrow> q = p))"

definition tree_ok :: "(pfn \<Rightarrow> nat \<Rightarrow> 64 word) \<Rightarrow> pfn \<Rightarrow> pfn set \<Rightarrow> bool" where
  "tree_ok M r S \<longleftrightarrow> tables_ok M r S \<and> tables_apart M r \<and> writes_ok M r \<and> pages_ok M r S"

lemma tree_okD:
  assumes "tree_ok M r S"
  shows "path_ok p \<Longrightarrow> length p \<le> 3 \<Longrightarrow> node M r p = Some t \<Longrightarrow> t \<in> S"
    and "path_ok p \<Longrightarrow> length p \<le> 3 \<Longrightarrow> node M r p = Some t \<Longrightarrow> get_mem_region t = Some OS_PT_REG"
    and "path_ok p \<Longrightarrow> length p \<le> 3 \<Longrightarrow> node M r p = Some t \<Longrightarrow> i < 512 \<Longrightarrow> present (M t i) \<Longrightarrow> bit (M t i) 2"
    and "path_ok p \<Longrightarrow> length p \<le> 3 \<Longrightarrow> node M r p = Some t \<Longrightarrow> i < 512 \<Longrightarrow> \<not> present (M t i) \<Longrightarrow> M t i = 0"
    and "path_ok p \<Longrightarrow> path_ok q \<Longrightarrow> length p \<le> 3 \<Longrightarrow> length q \<le> 3 \<Longrightarrow> node M r p = Some t \<Longrightarrow>
      node M r q = Some t \<Longrightarrow> p = q"
    and "path_ok p \<Longrightarrow> length p \<le> 3 \<Longrightarrow> node M r p = Some t \<Longrightarrow> i < 512 \<Longrightarrow> present (M t i) \<Longrightarrow>
      small_entry (M t i)"
  using assms unfolding tree_ok_def tables_ok_def tables_apart_def
  by (blast, blast, metis, metis, blast, metis)

text \<open>
  Changing entry \<open>i\<close> of the table at path \<open>p\<close> (and frames outside the tree) changes only
  what lies below \<open>p @ [i]\<close>.
\<close>

lemma access_elsewhere:
  assumes ok: "tree_ok M r S" and p: "path_ok p" "length p \<le> 3" "node M r p = Some t"
    and M': "\<And>u j. u \<in> S \<Longrightarrow> (u, j) \<noteq> (t, i) \<Longrightarrow> j < 512 \<Longrightarrow> M' u j = M u j"
    and q: "path_ok q" "length q \<le> 4" "\<not> prefix (p @ [i]) q"
  shows "access M' r q = access M r q"
  using q
proof (induction q rule: rev_induct)
  case Nil
  then show ?case by simp
next
  case (snoc j q)
  have pre: "\<not> prefix (p @ [i]) q" using snoc.prems(3) by (auto simp: prefix_snoc)
  have q: "path_ok q" "length q \<le> 3" "j < 512" using snoc.prems by auto
  have IH: "access M' r q = access M r q" using snoc.IH q pre by simp
  show ?case
  proof (cases "access M r q")
    case None
    then show ?thesis using IH by (simp add: access_snoc)
  next
    case (Some x)
    obtain u us w where x: "x = (u, us, w)" by (cases x)
    then have nq: "node M r q = Some u" using Some by (simp add: access_node)
    have "(u, j) \<noteq> (t, i)"
    proof
      assume "(u, j) = (t, i)"
      then have "q = p" using tree_okD(5) [OF ok q(1) p(1) q(2) p(2) nq] p(3) by simp
      then show False using \<open>(u, j) = (t, i)\<close> snoc.prems(3) by simp
    qed
    then have "M' u j = M u j" using M' tree_okD(1) [OF ok q(1,2) nq] q(3) by blast
    then show ?thesis using IH Some x by (simp add: access_snoc)
  qed
qed


lemma node_elsewhere:
  assumes "tree_ok M r S" and "path_ok p" and "length p \<le> 3" and "node M r p = Some t"
    and "\<And>u j. u \<in> S \<Longrightarrow> (u, j) \<noteq> (t, i) \<Longrightarrow> j < 512 \<Longrightarrow> M' u j = M u j"
    and "path_ok q" and "length q \<le> 4" and "\<not> prefix (p @ [i]) q"
  shows "node M' r q = node M r q"
  using access_elsewhere [OF assms] by (simp add: node_def)

lemma tree_ok_mono: "tree_ok M r S \<Longrightarrow> S \<subseteq> S' \<Longrightarrow> tree_ok M r S'"
  unfolding tree_ok_def tables_ok_def pages_ok_def by blast

lemma tree_ok_writes:
  assumes "tree_ok M r S" and "path_ok p" and "length p \<le> 2" and "node M r p = Some t"
    and "i < 512" and "j < 512" and "present (M t i)" and "present (M (entry_frame (M t i)) j)"
    and "bit (M (entry_frame (M t i)) j) 1"
  shows "bit (M t i) 1"
  using assms unfolding tree_ok_def writes_ok_def by blast

lemma tree_ok_pages:
  assumes "tree_ok M r S" and "path_ok p" and "length p = 4" and "node M r p = Some f"
  shows "f \<in> S" and "get_mem_region f = Some USER_REG"
    and "path_ok q \<Longrightarrow> length q = 4 \<Longrightarrow> node M r q = Some f \<Longrightarrow> q = p"
  using assms unfolding tree_ok_def pages_ok_def by blast+

text \<open>In a good tree the last entry of a path decides what it grants.\<close>

lemma access_last:
  assumes ok: "tree_ok M r S" and q: "path_ok q" "length q \<le> 3" "j < 512"
  shows "access M r (q @ [j]) =
    (case node M r q of
       None \<Rightarrow> None
     | Some u \<Rightarrow> if present (M u j) then Some (entry_frame (M u j), True, bit (M u j) 1) else None)"
  using q
proof (induction q arbitrary: j rule: rev_induct)
  case Nil
  then show ?case
    using tree_okD(3) [OF ok, of "[]" r j] by (auto simp: node_def access.simps(2))
next
  case (snoc k q)
  have q: "path_ok q" "length q \<le> 2" "k < 512" using snoc.prems by auto
  have IH: "access M r (q @ [k]) =
    (case node M r q of
       None \<Rightarrow> None
     | Some u \<Rightarrow> if present (M u k) then Some (entry_frame (M u k), True, bit (M u k) 1) else None)"
    using snoc.IH [of k] q by simp
  show ?case
  proof (cases "access M r (q @ [k])")
    case None
    then show ?thesis using access_snoc [of M r "q @ [k]" j] by (simp add: node_def)
  next
    case (Some x)
    then obtain u where u: "node M r q = Some u" "present (M u k)"
      and x: "x = (entry_frame (M u k), True, bit (M u k) 1)"
      using IH by (auto split: option.splits if_splits)
    let ?c = "entry_frame (M u k)"
    have nc: "node M r (q @ [k]) = Some ?c" using Some x by (simp add: node_def)
    have user: "present (M ?c j) \<Longrightarrow> bit (M ?c j) 2"
      using tree_okD(3) [OF ok _ _ nc snoc.prems(3)] snoc.prems by simp
    have "present (M ?c j) \<Longrightarrow> bit (M ?c j) 1 \<Longrightarrow> bit (M u k) 1"
      using tree_ok_writes [OF ok q(1,2) u(1) q(3) snoc.prems(3) u(2)] by blast
    then show ?thesis
      using Some x nc user access_snoc [of M r "q @ [k]" j] by auto
  qed
qed

lemma last_path:
  assumes "length q = Suc n"
  obtains q' j where "q = q' @ [j]" and "length q' = n"
  using assms by (metis length_Suc_conv_rev)

subsection \<open>Granting writes through an upper entry\<close>

lemma node_same:
  assumes "\<And>u j. present (M' u j) = present (M u j)"
    and "\<And>u j. present (M u j) \<Longrightarrow> entry_frame (M' u j) = entry_frame (M u j)"
  shows "node M' r q = node M r q"
proof (induction q rule: rev_induct)
  case Nil
  then show ?case by (simp add: node_def)
next
  case (snoc j q)
  then show ?case using assms by (auto simp: node_snoc split: option.splits)
qed

lemma grant_same:
  fixes M :: "pfn \<Rightarrow> nat \<Rightarrow> 64 word"
  defines "M' \<equiv> \<lambda>t i flag. M(t := (M t)(i := allow_write flag (M t i)))"
  shows "present (M' t i flag u j) = present (M u j)" "entry_frame (M' t i flag u j) = entry_frame (M u j)"
    "bit (M' t i flag u j) 2 = bit (M u j) 2" "small_entry (M' t i flag u j) = small_entry (M u j)"
    "bit (M u j) 1 \<Longrightarrow> bit (M' t i flag u j) 1" "node (M' t i flag) r q = node M r q"
proof -
  show pr: "present (M' t i flag u j) = present (M u j)" and fr: "entry_frame (M' t i flag u j) = entry_frame (M u j)"
    and "bit (M' t i flag u j) 2 = bit (M u j) 2" "small_entry (M' t i flag u j) = small_entry (M u j)"
    for u j
    by (simp_all add: M'_def)
  show "bit (M u j) 1 \<Longrightarrow> bit (M' t i flag u j) 1" by (auto simp: M'_def)
  show "node (M' t i flag) r q = node M r q" by (rule node_same) (simp_all only: pr fr)
qed

lemma grant_writes:
  assumes ok: "tree_ok M r S" and acc: "access M r p = Some (t, True, w)"
    and p: "path_ok p" "length p \<le> 2" "i < 512" and w: "bit flag 1 \<longrightarrow> w"
  defines "M' \<equiv> M(t := (M t)(i := allow_write flag (M t i)))"
  shows "writes_ok M' r"
  unfolding writes_ok_def grant_same [where M = M and t = t and i = i and flag = flag, folded M'_def]
proof (intro allI impI)
  fix q u k j
  assume q: "path_ok q \<and> length q \<le> 2 \<and> node M r q = Some u \<and> k < 512 \<and> j < 512 \<and>
    present (M u k) \<and> present (M (entry_frame (M u k)) j) \<and> bit (M' (entry_frame (M u k)) j) 1"
  let ?c = "entry_frame (M u k)"
  have up: "bit (M u k) 1 \<Longrightarrow> bit (M' u k) 1" by (auto simp: M'_def)
  have np: "node M r p = Some t" using acc by (simp add: node_def)
  show "bit (M' u k) 1"
  proof (cases "(?c, j) = (t, i) \<and> \<not> bit (M t i) 1")
    case False
    then have "bit (M ?c j) 1" using q by (auto simp: M'_def split: if_splits)
    then show ?thesis using tree_ok_writes [OF ok, of q u k j] q up by blast
  next
    case True
    have "node M r (q @ [k]) = Some t" using q True by (simp add: node_snoc)
    then have "q @ [k] = p"
      using tree_okD(5) [OF ok, of "q @ [k]" p t] q p np by simp
    moreover have "bit flag 1" using q True by (simp add: M'_def)
    ultimately have "access M r (q @ [k]) = Some (t, True, True)" using w acc by simp
    then have "bit (M u k) 1"
      using access_last [OF ok, of q k] q by (auto split: if_splits)
    then show ?thesis by (rule up)
  qed
qed

lemma grant_entry:
  assumes ok: "tree_ok M r S" and acc: "access M r p = Some (t, True, w)"
    and p: "path_ok p" "length p \<le> 2" "i < 512" and pr: "present (M t i)"
    and w: "bit flag 1 \<Longrightarrow> w"
  defines "M' \<equiv> M(t := (M t)(i := allow_write flag (M t i)))"
  shows "tree_ok M' r S" and "node M' r q = node M r q"
proof -
  note same = grant_same [where M = M and t = t and i = i and flag = flag, folded M'_def]
  show "node M' r q = node M r q" by (rule same)
  have zero: "M' u j = 0" if "M u j = 0" "\<not> present (M u j)" for u j
    using that pr by (auto simp: M'_def)
  have tables: "tables_ok M' r S"
    unfolding tables_ok_def same(6)
  proof (intro allI impI conjI)
    fix q u j assume q: "path_ok q \<and> length q \<le> 3 \<and> node M r q = Some u"
    then show "u \<in> S" and "get_mem_region u = Some OS_PT_REG"
      using tree_okD(1,2) [OF ok] by blast+
    show "if present (M' u j) then bit (M' u j) 2 \<and> small_entry (M' u j) else M' u j = 0" if "j < 512"
      using q that zero [of u j] tree_okD(3,4,6) [OF ok, of q u j] by (auto simp: same)
  qed
  have "bit flag 1 \<longrightarrow> w" using w by blast
  from grant_writes [OF ok acc p this, folded M'_def] show "tree_ok M' r S"
    using ok tables unfolding tree_ok_def tables_apart_def pages_ok_def same(6) by simp
qed


text \<open>What an upper entry grants does not change what any page grants.\<close>

lemma grant_entry_access:
  assumes ok: "tree_ok M r S" and acc: "access M r p = Some (t, True, w)"
    and p: "path_ok p" "length p \<le> 2" "i < 512" and pr: "present (M t i)"
    and w: "bit flag 1 \<Longrightarrow> w"
  defines "M' \<equiv> M(t := (M t)(i := allow_write flag (M t i)))"
  shows "path_ok q \<Longrightarrow> length q = 4 \<Longrightarrow> access M' r q = access M r q"
    and "\<exists>w'. access M' r (p @ [i]) = Some (entry_frame (M t i), True, w') \<and> (bit flag 1 \<longrightarrow> w')"
proof -
  have g: "tree_ok M' r S" "\<And>q. node M' r q = node M r q"
    unfolding M'_def by (rule grant_entry [OF ok acc p pr]; use w in simp)+
  have np: "node M r p = Some t" using acc by (simp add: node_def)
  show "access M' r q = access M r q" if q: "path_ok q" "length q = 4"
  proof -
    obtain q' j where q': "q = q' @ [j]" "length q' = 3"
      using q(2) by (auto intro: last_path [of q 3])
    then have q3: "path_ok q'" "length q' \<le> 3" "j < 512" using q by auto
    have "M' u j = M u j" if u: "node M r q' = Some u" for u
    proof -
      have "u \<noteq> t"
      proof
        assume "u = t"
        then have "q' = p" using tree_okD(5) [OF ok q3(1) p(1) q3(2) _ u] np p(2) by simp
        then show False using q'(2) p(2) by simp
      qed
      then show ?thesis by (simp add: M'_def)
    qed
    then show ?thesis
      unfolding q'(1) access_last [OF ok q3] access_last [OF g(1) q3] g(2)
      by (auto split: option.splits)
  qed
  have p3: "length p \<le> 3" using p(2) by simp
  show "\<exists>w'. access M' r (p @ [i]) = Some (entry_frame (M t i), True, w') \<and> (bit flag 1 \<longrightarrow> w')"
  proof -
    have "M' t i = allow_write flag (M t i)" by (simp add: M'_def)
    then show ?thesis using np pr by (simp add: access_last [OF g(1) p(1) p3 p(3)] g(2))
  qed
qed

subsection \<open>A new table\<close>

text \<open>
  \<open>M'\<close> is \<open>M\<close> with the frame \<open>a\<close>, which was not in use, cleared and linked from entry \<open>i\<close> of the
  table \<open>t\<close> at path \<open>p\<close>, where nothing was.
\<close>

definition table_added ::
    "(pfn \<Rightarrow> nat \<Rightarrow> 64 word) \<Rightarrow> (pfn \<Rightarrow> nat \<Rightarrow> 64 word) \<Rightarrow> pfn \<Rightarrow> pfn set \<Rightarrow> nat list \<Rightarrow> nat \<Rightarrow> pfn \<Rightarrow> pfn \<Rightarrow> bool" where
  "table_added M M' r S p i t a \<longleftrightarrow> tree_ok M r S \<and> path_ok p \<and> length p \<le> 2 \<and> i < 512 \<and>
     node M r p = Some t \<and> \<not> present (M t i) \<and> a \<notin> S \<and> get_mem_region a = Some OS_PT_REG \<and>
     (\<forall>u \<in> S. \<forall>j. (u, j) \<noteq> (t, i) \<longrightarrow> M' u j = M u j) \<and> (\<forall>j < 512. M' a j = 0) \<and> M' t i = link 0 a"

lemma table_addedD:
  assumes "table_added M M' r S p i t a"
  shows "tree_ok M r S" "path_ok p" "length p \<le> 2" "length p \<le> 3" "i < 512" "node M r p = Some t"
    "\<not> present (M t i)" "a \<notin> S" "get_mem_region a = Some OS_PT_REG"
    "u \<in> S \<Longrightarrow> (u, j) \<noteq> (t, i) \<Longrightarrow> M' u j = M u j" "j < 512 \<Longrightarrow> M' a j = 0" "M' t i = link 0 a"
    "entry_frame (M' t i) = a" "\<not> present (M' a j) \<or> 512 \<le> j"
  using assms frame_link [of a OS_PT_REG] unfolding table_added_def by (auto simp: present_def not_less)

lemma added_elsewhere:
  assumes ta: "table_added M M' r S p i t a" and q: "path_ok q" "length q \<le> 4" "\<not> prefix (p @ [i]) q"
  shows "access M' r q = access M r q" "node M' r q = node M r q"
proof -
  note D = table_addedD [OF ta]
  show "access M' r q = access M r q"
    by (rule access_elsewhere [OF D(1,2,4,6) _ q]) (use D(10) in blast)
  then show "node M' r q = node M r q" by (simp add: node_def)
qed

lemma added_below:
  assumes ta: "table_added M M' r S p i t a"
  shows "node M' r (p @ [i]) = Some a"
    and "j < 512 \<Longrightarrow> access M' r (p @ [i] @ j # q) = None"
    and "access M r (p @ [i] @ q) = None"
proof -
  note D = table_addedD [OF ta]
  have "node M' r p = Some t" using added_elsewhere(2) [OF ta D(2)] D(4,6) by simp
  then show new: "node M' r (p @ [i]) = Some a" 
    using D(12,13) by (simp add: node_snoc)
  show "access M' r (p @ [i] @ j # q) = None" if "j < 512"
    using new D(11) [OF that]
    by (auto simp: access_append [of M' r "p @ [i]" "j # q", simplified] node_def present_def
        access.simps(2) split: option.splits)
  show "access M r (p @ [i] @ q) = None"
    using D(6,7) by (auto simp: access_append [of M r p] node_def access.simps(2) split: option.splits)
qed

text \<open>Below \<open>p @ [i]\<close> there is nothing, before and after.\<close>

lemma added_access:
  assumes ta: "table_added M M' r S p i t a" and q: "path_ok q" "length q \<le> 4" "q \<noteq> p @ [i]"
  shows "access M' r q = access M r q"
proof (cases "prefix (p @ [i]) q")
  case True
  then obtain x where "q = p @ [i] @ x" by (auto simp: prefix_def)
  then obtain j q' where j: "j < 512" "q = p @ [i] @ j # q'" using q by (cases x) auto
  show ?thesis unfolding j(2) using added_below(2) [OF ta j(1)] added_below(3) [OF ta] by simp
next
  case False
  then show ?thesis using added_elsewhere [OF ta] q by simp
qed

lemma added_node:
  assumes ta: "table_added M M' r S p i t a" and q: "path_ok q" "length q \<le> 4"
  shows "node M' r q = (if q = p @ [i] then Some a else node M r q)"
  using added_access [OF ta q] added_below(1) [OF ta] by (auto simp: node_def)

lemma added_Some:
  assumes ta: "table_added M M' r S p i t a" and q: "path_ok q" "length q \<le> 4" "node M' r q = Some u"
  shows "q = p @ [i] \<and> u = a \<or> node M r q = Some u"
  using added_node [OF ta q(1,2)] q(3) by (auto split: if_splits)

lemma added_tables:
  assumes ta: "table_added M M' r S p i t a"
  shows "tables_ok M' r (insert a S)"
  unfolding tables_ok_def
proof (intro allI impI)
  note D = table_addedD [OF ta]
  fix q u assume q: "path_ok q \<and> length q \<le> 3 \<and> node M' r q = Some u"
  then have "q = p @ [i] \<and> u = a \<or> node M r q = Some u" using added_Some [OF ta, of q u] by auto
  then show "u \<in> insert a S \<and> get_mem_region u = Some OS_PT_REG \<and>
    (\<forall>j < 512. if present (M' u j) then bit (M' u j) 2 \<and> small_entry (M' u j) else M' u j = 0)"
  proof
    assume "q = p @ [i] \<and> u = a"
    then show ?thesis using D(9,11) by (simp add: present_def)
  next
    assume n: "node M r q = Some u"
    have u: "u \<in> S" using tree_okD(1) [OF D(1) _ _ n] q by blast
    have "if present (M' u j) then bit (M' u j) 2 \<and> small_entry (M' u j) else M' u j = 0" if "j < 512" for j
      using D(10) [OF u, of j] tree_okD(3,4,6) [OF D(1), of q u j] q n that D(12)
      by (cases "(u, j) = (t, i)") auto
    then show ?thesis using tree_okD(1,2) [OF D(1) _ _ n] q by blast
  qed
qed

lemma added_apart:
  assumes ta: "table_added M M' r S p i t a"
  shows "tables_apart M' r"
  unfolding tables_apart_def
proof (intro allI impI)
  note D = table_addedD [OF ta]
  fix q1 q2 u
  assume q: "path_ok q1 \<and> path_ok q2 \<and> length q1 \<le> 3 \<and> length q2 \<le> 3 \<and>
    node M' r q1 = Some u \<and> node M' r q2 = Some u"
  then show "q1 = q2"
    using added_Some [OF ta, of q1 u] added_Some [OF ta, of q2 u] tree_okD(1) [OF D(1), of q1 u]
      tree_okD(1) [OF D(1), of q2 u] D(8) tree_okD(5) [OF D(1), of q1 q2 u] by auto
qed

lemma added_writes:
  assumes ta: "table_added M M' r S p i t a"
  shows "writes_ok M' r"
  unfolding writes_ok_def
proof (intro allI impI)
  note D = table_addedD [OF ta]
  fix q u k j
  assume q: "path_ok q \<and> length q \<le> 2 \<and> node M' r q = Some u \<and> k < 512 \<and> j < 512 \<and>
    present (M' u k) \<and> present (M' (entry_frame (M' u k)) j) \<and> bit (M' (entry_frame (M' u k)) j) 1"
  have "u \<noteq> a" using q D(11) [of k] by (auto simp: present_def)
  then have n: "node M r q = Some u" using added_Some [OF ta, of q u] q by auto
  have uS: "u \<in> S" using tree_okD(1) [OF D(1), of q u] q n by simp
  have "(u, k) \<noteq> (t, i)" using q D(13) D(11) [of j] by (auto simp: present_def)
  then have same: "M' u k = M u k" using D(10) uS by blast
  have nc: "node M r (q @ [k]) = Some (entry_frame (M u k))"
    using n q same by (simp add: node_snoc)
  then have cS: "entry_frame (M u k) \<in> S" using tree_okD(1) [OF D(1) _ _ nc] q by simp
  have "(entry_frame (M u k), j) \<noteq> (t, i)" using q same D(12) by auto
  then have "M' (entry_frame (M u k)) j = M (entry_frame (M u k)) j" using D(10) cS by blast
  then show "bit (M' u k) 1" using tree_ok_writes [OF D(1), of q u k j] q n same by simp
qed

lemma added_pages:
  assumes ta: "table_added M M' r S p i t a"
  shows "pages_ok M' r (insert a S)"
  unfolding pages_ok_def
proof (intro allI impI)
  note D = table_addedD [OF ta]
  fix q f assume q: "path_ok q \<and> length q = 4 \<and> node M' r q = Some f"
  have len: "\<And>q. length q = 4 \<Longrightarrow> q \<noteq> p @ [i]" using D(3) by auto
  have n: "node M r q = Some f" using added_Some [OF ta, of q f] q len by auto
  have "q' = q" if "path_ok q'" "length q' = 4" "node M' r q' = Some f" for q'
    using added_Some [OF ta, of q' f] that len tree_ok_pages(3) [OF D(1) _ _ n] q by auto
  then show "f \<in> insert a S \<and> get_mem_region f = Some USER_REG \<and>
      (\<forall>q'. path_ok q' \<and> length q' = 4 \<and> node M' r q' = Some f \<longrightarrow> q' = q)"
    using tree_ok_pages(1,2) [OF D(1) _ _ n] q by blast
qed

lemma new_table:
  assumes ok: "tree_ok M r S" and p: "path_ok p" "length p \<le> 2" "i < 512" "node M r p = Some t"
    and ab: "\<not> present (M t i)" and a: "a \<notin> S" "get_mem_region a = Some OS_PT_REG"
    and z: "\<And>j. j < 512 \<Longrightarrow> Z j = 0"
  defines "M' \<equiv> (M(a := Z))(t := (M t)(i := link 0 a))"
  shows "tree_ok M' r (insert a S)"
    and "path_ok q \<Longrightarrow> length q = 4 \<Longrightarrow> access M' r q = access M r q"
    and "path_ok q \<Longrightarrow> length q \<le> 4 \<Longrightarrow>
      node M' r q = (if q = p @ [i] then Some a else node M r q)"
proof -
  have "t \<noteq> a" using tree_okD(1) [OF ok p(1) _ p(4)] p(2) a(1) by auto
  then have ta: "table_added M M' r S p i t a"
    using assms by (auto simp: table_added_def M'_def)
  show "tree_ok M' r (insert a S)"
    using added_tables [OF ta] added_apart [OF ta] added_writes [OF ta] added_pages [OF ta]
    by (simp add: tree_ok_def)
  show "access M' r q = access M r q" if "path_ok q" "length q = 4"
    using that p(2) by (intro added_access [OF ta]) auto
  show "node M' r q = (if q = p @ [i] then Some a else node M r q)" if "path_ok q" "length q \<le> 4"
    by (rule added_node [OF ta that])
qed

subsection \<open>A leaf entry\<close>

text \<open>Setting or clearing the last entry of one path changes that page only.\<close>

text \<open>
  \<open>M'\<close> is \<open>M\<close> with \<open>e\<close> at entry \<open>i\<close> of the last table \<open>t\<close> at path \<open>p\<close>; \<open>e\<close> is zero or grants no more
  than the path does, to a frame that no page has; \<open>S'\<close> has the frames still in use.
\<close>

definition leaf_set ::
    "(pfn \<Rightarrow> nat \<Rightarrow> 64 word) \<Rightarrow> pfn \<Rightarrow> pfn set \<Rightarrow> pfn set \<Rightarrow> nat list \<Rightarrow> nat \<Rightarrow> pfn \<Rightarrow> 64 word \<Rightarrow> bool" where
  "leaf_set M r S S' p i t e \<longleftrightarrow> tree_ok M r S \<and> path_ok p \<and> length p = 3 \<and> i < 512 \<and>
     (\<exists>w. access M r p = Some (t, True, w) \<and> (present e \<and> bit e 1 \<longrightarrow> w)) \<and>
     (if present e then bit e 2 \<and> small_entry e \<and> get_mem_region (entry_frame e) = Some USER_REG \<and>
        entry_frame e \<in> S' \<and>
        (\<forall>q. path_ok q \<longrightarrow> length q = 4 \<longrightarrow> node M r q \<noteq> Some (entry_frame e))
      else e = 0) \<and>
     (\<forall>x \<in> S. node M r (p @ [i]) \<noteq> Some x \<longrightarrow> x \<in> S')"

lemma leaf_setD:
  assumes "leaf_set M r S S' p i t e"
  shows "tree_ok M r S" "path_ok p" "length p = 3" "length p \<le> 3" "i < 512" "node M r p = Some t"
    "present e \<Longrightarrow> bit e 1 \<Longrightarrow> access M r p = Some (t, True, True)"
    "present e \<Longrightarrow> bit e 2" "present e \<Longrightarrow> small_entry e" "\<not> present e \<Longrightarrow> e = 0"
    "present e \<Longrightarrow> get_mem_region (entry_frame e) = Some USER_REG" "present e \<Longrightarrow> entry_frame e \<in> S'"
    "present e \<Longrightarrow> path_ok q \<Longrightarrow> length q = 4 \<Longrightarrow> node M r q \<noteq> Some (entry_frame e)"
    "x \<in> S \<Longrightarrow> node M r (p @ [i]) \<noteq> Some x \<Longrightarrow> x \<in> S'"
  using assms unfolding leaf_set_def by (auto simp: node_def split: if_splits)

abbreviation with_leaf ::
    "(pfn \<Rightarrow> nat \<Rightarrow> 64 word) \<Rightarrow> pfn \<Rightarrow> nat \<Rightarrow> 64 word \<Rightarrow> pfn \<Rightarrow> nat \<Rightarrow> 64 word" where
  "with_leaf M t i e \<equiv> M(t := (M t)(i := e))"

lemma leaf_elsewhere:
  assumes l: "leaf_set M r S S' p i t e" and q: "path_ok q" "length q \<le> 4" "q \<noteq> p @ [i]"
  shows "access (with_leaf M t i e) r q = access M r q" "node (with_leaf M t i e) r q = node M r q"
proof -
  note D = leaf_setD [OF l]
  have "\<not> prefix (p @ [i]) q" using q D(3) by (auto simp: prefix_def)
  then show "access (with_leaf M t i e) r q = access M r q"
    by (intro access_elsewhere [OF D(1,2,4,6) _ q(1,2)]) auto
  then show "node (with_leaf M t i e) r q = node M r q" by (simp add: node_def)
qed

lemma leaf_upper:
  assumes l: "leaf_set M r S S' p i t e" and q: "path_ok q" "length q \<le> 3"
  shows "node (with_leaf M t i e) r q = node M r q"
  using leaf_elsewhere(2) [OF l q(1)] q(2) leaf_setD(3) [OF l] by fastforce

lemma leaf_node:
  assumes l: "leaf_set M r S S' p i t e" and q: "path_ok q" "length q \<le> 4"
  shows "node (with_leaf M t i e) r q =
    (if q = p @ [i] then if present e then Some (entry_frame e) else None else node M r q)"
proof (cases "q = p @ [i]")
  case True
  then show ?thesis
    using leaf_upper [OF l leaf_setD(2,4) [OF l]] leaf_setD(6) [OF l] by (simp add: node_snoc)
next
  case False
  then show ?thesis using leaf_elsewhere(2) [OF l q] by simp
qed

text \<open>No table is given up.\<close>

lemma leaf_tables_used:
  assumes l: "leaf_set M r S S' p i t e" and q: "path_ok q" "length q \<le> 3" "node M r q = Some u"
  shows "u \<in> S'"
proof -
  note D = leaf_setD [OF l]
  have "node M r (p @ [i]) \<noteq> Some u"
  proof
    assume "node M r (p @ [i]) = Some u"
    then have "get_mem_region u = Some USER_REG"
      using tree_ok_pages(2) [OF D(1), of "p @ [i]" u] D(2,3,5) by simp
    then show False using tree_okD(2) [OF D(1) q] by simp
  qed
  then show ?thesis using D(14) tree_okD(1) [OF D(1) q] by blast
qed

lemma leaf_tables:
  assumes l: "leaf_set M r S S' p i t e"
  shows "tables_ok (with_leaf M t i e) r S'"
  unfolding tables_ok_def
proof (intro allI impI)
  note D = leaf_setD [OF l]
  let ?M = "with_leaf M t i e"
  fix q u assume q: "path_ok q \<and> length q \<le> 3 \<and> node ?M r q = Some u"
  then have n: "node M r q = Some u" using leaf_upper [OF l, of q] by simp
  have "if present (?M u j) then bit (?M u j) 2 \<and> small_entry (?M u j) else ?M u j = 0" if "j < 512" for j
    using tree_okD(3,4,6) [OF D(1) _ _ n that] q D(8-10) by (cases "(u, j) = (t, i)") auto
  then show "u \<in> S' \<and> get_mem_region u = Some OS_PT_REG \<and>
      (\<forall>j < 512. if present (?M u j) then bit (?M u j) 2 \<and> small_entry (?M u j) else ?M u j = 0)"
    using tree_okD(2) [OF D(1) _ _ n] leaf_tables_used [OF l _ _ n] q by blast
qed

lemma leaf_apart:
  assumes l: "leaf_set M r S S' p i t e"
  shows "tables_apart (with_leaf M t i e) r"
  using leaf_setD(1) [OF l] leaf_upper [OF l] unfolding tree_ok_def tables_apart_def by metis

lemma leaf_writes:
  assumes l: "leaf_set M r S S' p i t e"
  shows "writes_ok (with_leaf M t i e) r"
  unfolding writes_ok_def
proof (intro allI impI)
  note D = leaf_setD [OF l]
  let ?M = "with_leaf M t i e"
  fix q u k j
  assume q: "path_ok q \<and> length q \<le> 2 \<and> node ?M r q = Some u \<and> k < 512 \<and> j < 512 \<and>
    present (?M u k) \<and> present (?M (entry_frame (?M u k)) j) \<and> bit (?M (entry_frame (?M u k)) j) 1"
  have n: "node M r q = Some u" using q leaf_upper [OF l, of q] by simp
  have "u \<noteq> t"
  proof
    assume "u = t"
    then have "q = p" using tree_okD(5) [OF D(1), of q p t] q n D(2,3,6) by simp
    then show False using q D(3) by simp
  qed
  then have same: "?M u k = M u k" by simp
  let ?c = "entry_frame (M u k)"
  have q': "present (M u k)" "present (?M ?c j)" "bit (?M ?c j) 1" using q unfolding same by blast+
  have nc: "node M r (q @ [k]) = Some ?c" using n q' by (simp add: node_snoc)
  show "bit (?M u k) 1"
  proof (cases "(?c, j) = (t, i)")
    case False
    then have "?M ?c j = M ?c j" by auto
    then have "present (M ?c j)" "bit (M ?c j) 1" using q' by simp_all
    then show ?thesis unfolding same using tree_ok_writes [OF D(1), of q u k j] q n q'(1) by blast
  next
    case True
    then have "q @ [k] = p" using tree_okD(5) [OF D(1), of "q @ [k]" p t] q nc D(2,3,6) by simp
    moreover have "present e" "bit e 1" using True q' by auto
    ultimately have "access M r (q @ [k]) = Some (t, True, True)" using D(7) by simp
    then show ?thesis unfolding same using access_last [OF D(1), of q k] q n by (simp split: if_splits)
  qed
qed

lemma leaf_pages:
  assumes l: "leaf_set M r S S' p i t e"
  shows "pages_ok (with_leaf M t i e) r S'"
  unfolding pages_ok_def
proof (intro allI impI)
  note D = leaf_setD [OF l]
  let ?M = "with_leaf M t i e"
  fix q g assume q: "path_ok q \<and> length q = 4 \<and> node ?M r q = Some g"
  have other: "q' = q" if "q \<noteq> p @ [i]" "path_ok q'" "length q' = 4" "node ?M r q' = Some g" for q'
    using leaf_node [OF l, of q] leaf_node [OF l, of q'] q that D(13) [of q]
      tree_ok_pages(3) [OF D(1), of q g q'] by (auto split: if_splits)
  have itself: "q' = q" if "q = p @ [i]" "path_ok q'" "length q' = 4" "node ?M r q' = Some g" for q'
    using leaf_node [OF l, of q] leaf_node [OF l, of q'] q that D(13) [of q'] by (auto split: if_splits)
  show "g \<in> S' \<and> get_mem_region g = Some USER_REG \<and>
      (\<forall>q'. path_ok q' \<and> length q' = 4 \<and> node ?M r q' = Some g \<longrightarrow> q' = q)"
  proof (cases "q = p @ [i]")
    case True
    then have "present e" "g = entry_frame e" using leaf_node [OF l, of q] q by (auto split: if_splits)
    then show ?thesis using D(11,12) itself True by blast
  next
    case False
    then have n: "node M r q = Some g" using leaf_node [OF l, of q] q by simp
    have "node M r (p @ [i]) \<noteq> Some g"
      using tree_ok_pages(3) [OF D(1) _ _ n, of "p @ [i]"] q D(2,3,5) False by auto
    then have "g \<in> S'" using D(14) tree_ok_pages(1) [OF D(1) _ _ n] q by blast
    then show ?thesis using tree_ok_pages(2) [OF D(1) _ _ n] other False q by blast
  qed
qed

lemma leaf_entry:
  assumes ok: "tree_ok M r S" and acc: "access M r p = Some (t, True, w)"
    and p: "path_ok p" "length p = 3" "i < 512"
    and e: "present e \<Longrightarrow> bit e 2" "present e \<Longrightarrow> bit e 1 \<Longrightarrow> w" "\<not> present e \<Longrightarrow> e = 0"
      "present e \<Longrightarrow> small_entry e"
    and f: "present e \<Longrightarrow> get_mem_region (entry_frame e) = Some USER_REG"
      "present e \<Longrightarrow> entry_frame e \<in> S'"
      "\<And>q. present e \<Longrightarrow> path_ok q \<Longrightarrow> length q = 4 \<Longrightarrow> node M r q \<noteq> Some (entry_frame e)"
    and S': "\<And>x. x \<in> S \<Longrightarrow> node M r (p @ [i]) \<noteq> Some x \<Longrightarrow> x \<in> S'"
  defines "M' \<equiv> M(t := (M t)(i := e))"
  shows "tree_ok M' r S'"
    and "path_ok q \<Longrightarrow> length q = 4 \<Longrightarrow> access M' r q =
      (if q = p @ [i] then if present e then Some (entry_frame e, True, bit e 1) else None
       else access M r q)"
    and "path_ok q \<Longrightarrow> length q \<le> 4 \<Longrightarrow> node M' r q =
      (if q = p @ [i] then if present e then Some (entry_frame e) else None else node M r q)"
proof -
  have l: "leaf_set M r S S' p i t e" using assms by (auto simp: leaf_set_def)
  note D = leaf_setD [OF l]
  show ok': "tree_ok M' r S'"
    using leaf_tables [OF l] leaf_apart [OF l] leaf_writes [OF l] leaf_pages [OF l]
    by (simp add: tree_ok_def M'_def)
  have "node M' r p = Some t" using leaf_upper [OF l D(2,4)] D(6) by (simp add: M'_def)
  then show "access M' r q =
      (if q = p @ [i] then if present e then Some (entry_frame e, True, bit e 1) else None
       else access M r q)" if q: "path_ok q" "length q = 4"
    using leaf_elsewhere(1) [OF l q(1)] q(2) access_last [OF ok' D(2,4,5)] by (simp add: M'_def)
  show "node M' r q =
      (if q = p @ [i] then if present e then Some (entry_frame e) else None else node M r q)"
    if "path_ok q" "length q \<le> 4"
    unfolding M'_def by (rule leaf_node [OF l that])
qed

section \<open>One level of the walk\<close>

lemma allocator_okD:
  assumes "allocator_ok A used left"
  shows "0 < left st \<Longrightarrow> os_pfn_alloc A reg st = (a, st') \<Longrightarrow>
      a \<notin> used st \<and> get_mem_region a = Some reg \<and> used st' = insert a (used st) \<and>
      left st \<le> Suc (left st')"
    and "b \<in> used st \<Longrightarrow> get_mem_region b = Some reg \<Longrightarrow>
      used (os_pfn_free A reg (ucast b) st) = used st - {b} \<and>
      left st \<le> left (os_pfn_free A reg (ucast b) st)"
  using assms unfolding allocator_ok_def by blast+

lemma set_entry_simps [simp]:
  "os (set_entry t i e m) = os m"
  "mem (set_entry t i e m) = (mem m)(t := (mem m t)(i := e))"
  by (simp_all add: set_entry_def)

lemma zero_table_simps [simp]:
  "os (zero_table a m) = os m"
  "mem (zero_table a m) = (mem m)(a := (\<lambda>i. if i < 512 then 0 else mem m a i))"
  by (simp_all add: zero_table_def)

text \<open>
  The state of a walk that has reached the table \<open>t\<close> at path \<open>p\<close> with permission to go on.
\<close>

definition walking ::
    "('o \<Rightarrow> pfn set) \<Rightarrow> 32 word \<Rightarrow> pfn \<Rightarrow> nat list \<Rightarrow> pfn \<Rightarrow> 'o machine \<Rightarrow> bool" where
  "walking used flag r p t m \<longleftrightarrow> tree_ok (mem m) r (used (os m)) \<and>
     (\<exists>w. access (mem m) r p = Some (t, True, w) \<and> (bit flag 1 \<longrightarrow> w))"

definition same_pages :: "pfn \<Rightarrow> 'o machine \<Rightarrow> 'o machine \<Rightarrow> bool" where
  "same_pages r m m' \<longleftrightarrow> vmap m' r = vmap m r"

lemma walk_present:
  assumes wk: "walking used flag r p t m" and p: "path_ok p" "length p \<le> 2" "i < 512"
    and pr: "present (mem m t i)"
  defines "m' \<equiv> set_entry t i (allow_write flag (mem m t i)) m"
  shows "walking used flag r (p @ [i]) (entry_frame (mem m t i)) m' \<and> vmap m' r = vmap m r \<and>
    node (mem m') r = node (mem m) r"
proof -
  obtain w where ok: "tree_ok (mem m) r (used (os m))" and acc: "access (mem m) r p = Some (t, True, w)"
    and w: "bit flag 1 \<Longrightarrow> w" using wk by (auto simp: walking_def)
  have "tree_ok (mem m') r (used (os m'))"
    using grant_entry(1) [OF ok acc p pr, of flag] w by (simp add: m'_def)
  moreover have "\<exists>w'. access (mem m') r (p @ [i]) = Some (entry_frame (mem m t i), True, w') \<and>
      (bit flag 1 \<longrightarrow> w')"
    using grant_entry_access(2) [OF ok acc p pr, of flag] w by (simp add: m'_def)
  moreover have "vmap m' r = vmap m r"
    using grant_entry_access(1) [OF ok acc p pr, of flag] w by (auto simp: m'_def vmap_def fun_eq_iff)
  moreover have "node (mem m') r = node (mem m) r"
    using grant_entry(2) [OF ok acc p pr, of flag] w by (auto simp: m'_def fun_eq_iff)
  ultimately show ?thesis by (simp add: walking_def)
qed

lemma walk_level_absent:
  assumes A: "allocator_ok A used left" and wk: "walking used flag r p t m"
    and p: "path_ok p" "length p \<le> 2" "i < 512" and room: "0 < left (os m)" and ab: "\<not> present (mem m t i)"
  obtains a m1 where "walk_level A flag t i m = (a, set_entry t i (allow_write flag (mem m1 t i)) m1)"
    "walking used flag r p t m1" "mem m1 t i = link 0 a" "get_mem_region a = Some OS_PT_REG" "vmap m1 r = vmap m r"
    "a \<notin> used (os m)" "used (os m1) = insert a (used (os m))" "left (os m) \<le> Suc (left (os m1))"
    "\<forall>q. path_ok q \<longrightarrow> length q \<le> 4 \<longrightarrow> node (mem m1) r q = (if q = p @ [i] then Some a else node (mem m) r q)"
proof -
  obtain w where ok: "tree_ok (mem m) r (used (os m))" and acc: "access (mem m) r p = Some (t, True, w)"
    and w: "bit flag 1 \<Longrightarrow> w" using wk by (auto simp: walking_def)
  have np: "node (mem m) r p = Some t" using acc by (simp add: node_def)
  have zero: "mem m t i = 0" using tree_okD(4) [OF ok p(1) _ np p(3) ab] p(2) by simp
  obtain a os' where al: "os_pfn_alloc A OS_PT_REG (os m) = (a, os')" by fastforce
  note a = allocator_okD(1) [OF A room al]
  have tS: "t \<in> used (os m)" using tree_okD(1) [OF ok p(1) _ np] p(2) by simp
  then have ta: "t \<noteq> a" using a by blast
  define m1 where "m1 = set_entry t i (link 0 a) (zero_table a (m\<lparr>os := os'\<rparr>))"
  let ?Z = "\<lambda>i. if i < 512 then 0 else mem m a i"
  have m1: "mem m1 = ((mem m)(a := ?Z))(t := (mem m t)(i := link 0 a))" "os m1 = os'"
    using ta by (simp_all add: m1_def cong: if_cong)
  have nt: "tree_ok (mem m1) r (insert a (used (os m)))"
      "path_ok q \<Longrightarrow> length q = 4 \<Longrightarrow> access (mem m1) r q = access (mem m) r q"
      "path_ok q \<Longrightarrow> length q \<le> 4 \<Longrightarrow>
        node (mem m1) r q = (if q = p @ [i] then Some a else node (mem m) r q)" for q
    unfolding m1(1) using new_table [OF ok p np ab] a by simp_all
  have acc1: "access (mem m1) r p = Some (t, True, w)"
    unfolding m1(1)
  proof (subst access_elsewhere [OF ok p(1) _ np, where i = i])
    show "(((mem m)(a := ?Z))(t := (mem m t)(i := link 0 a))) u j = mem m u j"
      if "u \<in> used (os m)" "(u, j) \<noteq> (t, i)" for u j
      using that a by auto
  qed (use p acc in auto)
  show ?thesis
  proof (rule that)
    show "walk_level A flag t i m = (a, set_entry t i (allow_write flag (mem m1 t i)) m1)"
      using ab al zero ta by (simp add: walk_level_def absent_iff m1_def Let_def)
    show "walking used flag r p t m1" using nt(1) acc1 w a m1(2) by (auto simp: walking_def)
    show "vmap m1 r = vmap m r" using nt(2) by (auto simp: vmap_def fun_eq_iff)
  qed (use nt(3) a m1 in simp_all)
qed

lemma walk_level_ok:
  assumes A: "allocator_ok A used left" and wk: "walking used flag r p t m"
    and p: "path_ok p" "length p \<le> 2" "i < 512" and room: "0 < left (os m)"
  shows "\<exists>c m'. walk_level A flag t i m = (c, m') \<and> walking used flag r (p @ [i]) c m' \<and>
    vmap m' r = vmap m r \<and> used (os m') = insert c (used (os m)) \<and> left (os m) \<le> Suc (left (os m')) \<and>
    (\<forall>q. path_ok q \<longrightarrow> length q \<le> 4 \<longrightarrow>
       node (mem m') r q = (if q = p @ [i] then Some c else node (mem m) r q)) \<and>
    (node (mem m) r (p @ [i]) = Some c \<or> node (mem m) r (p @ [i]) = None \<and> c \<notin> used (os m))"
proof (cases "present (mem m t i)")
  case True
  then have "walk_level A flag t i m =
      (entry_frame (mem m t i), set_entry t i (allow_write flag (mem m t i)) m)"
    by (simp add: walk_level_def absent_iff)
  moreover have n: "node (mem m) r (p @ [i]) = Some (entry_frame (mem m t i))"
    and "tree_ok (mem m) r (used (os m))"
    using wk True by (auto simp: walking_def node_def access_snoc)
  moreover from this have "entry_frame (mem m t i) \<in> used (os m)"
    using tree_okD(1) [of "mem m" r "used (os m)" "p @ [i]"] p by simp
  ultimately show ?thesis using walk_present [OF wk p True] by (auto intro: le_SucI)
next
  case False
  obtain a m1 where run: "walk_level A flag t i m = (a, set_entry t i (allow_write flag (mem m1 t i)) m1)"
    and wk1: "walking used flag r p t m1" and e: "mem m1 t i = link 0 a" "get_mem_region a = Some OS_PT_REG"
    and m1: "vmap m1 r = vmap m r" "a \<notin> used (os m)" "used (os m1) = insert a (used (os m))"
      "left (os m) \<le> Suc (left (os m1))"
    and n1: "\<forall>q. path_ok q \<longrightarrow> length q \<le> 4 \<longrightarrow> node (mem m1) r q = (if q = p @ [i] then Some a else node (mem m) r q)"
    by (rule walk_level_absent [OF A wk p room False])
  have "node (mem m) r (p @ [i]) = None" using wk False by (auto simp: walking_def node_def access_snoc)
  then show ?thesis
    using run walk_present [OF wk1 p] e m1 n1 by (simp add: frame_link)
qed


section \<open>Mapping a page, as the processor sees it\<close>

text \<open>
  \<open>space_ok n\<close>: the tables below \<open>r\<close> are in order and at least \<open>4 * n\<close> frames are left, enough
  to map \<open>n\<close> more pages with all their tables.
\<close>

definition space_ok ::
    "'o frame_ops \<Rightarrow> ('o \<Rightarrow> pfn set) \<Rightarrow> ('o \<Rightarrow> nat) \<Rightarrow> pfn \<Rightarrow> nat \<Rightarrow> 'o machine \<Rightarrow> bool" where
  "space_ok A used left r n m \<longleftrightarrow>
     allocator_ok A used left \<and> tree_ok (mem m) r (used (os m)) \<and> 4 * n \<le> left (os m)"

lemma page_path_ok: "l4_index v < 512 \<Longrightarrow> path_ok (page_path v) \<and> length (page_path v) = 4"
  by (simp add: page_path_def)

text \<open>The frames of the tree, down to depth \<open>n\<close>: tables to depth 3, pages at depth 4.\<close>

definition tree_paths :: "(pfn \<Rightarrow> nat \<Rightarrow> 64 word) \<Rightarrow> pfn \<Rightarrow> nat list set" where
  "tree_paths M r = {q. path_ok q \<and> length q \<le> 4 \<and> node M r q \<noteq> None}"

definition tree_frames :: "(pfn \<Rightarrow> nat \<Rightarrow> 64 word) \<Rightarrow> pfn \<Rightarrow> pfn set" where
  "tree_frames M r = {f. \<exists>q. path_ok q \<and> length q \<le> 4 \<and> node M r q = Some f}"

lemma tree_update:
  assumes "\<And>q. path_ok q \<Longrightarrow> length q \<le> 4 \<Longrightarrow> node M' r q = (if q = p then Some f else node M r q)"
    and "path_ok p" and "length p \<le> 4" and "node M r p = None \<or> node M r p = Some f"
  shows "tree_paths M' r = insert p (tree_paths M r)"
    and "tree_frames M' r = insert f (tree_frames M r)"
proof -
  have n: "node M' r q = Some g \<longleftrightarrow> q = p \<and> g = f \<or> node M r q = Some g"
    if "path_ok q" "length q \<le> 4" for q g
    using assms(1) [OF that] assms(4) by auto
  show "tree_paths M' r = insert p (tree_paths M r)"
    unfolding tree_paths_def not_None_eq using n assms(2,3) by blast
  show "tree_frames M' r = insert f (tree_frames M r)"
    unfolding tree_frames_def using n assms(2,3) by blast
qed

lemma tree_frames_used:
  assumes "tree_ok M r S"
  shows "tree_frames M r \<subseteq> S"
proof
  fix f assume "f \<in> tree_frames M r"
  then obtain q where q: "path_ok q" "length q \<le> 4" "node M r q = Some f" unfolding tree_frames_def by blast
  show "f \<in> S" using tree_okD(1) [OF assms q(1) _ q(3)] tree_ok_pages(1) [OF assms q(1) _ q(3)] q(2)
    by (cases "length q = 4") auto
qed

text \<open>What a level of the walk does to the tree.\<close>

lemma walk_level_tree:
  assumes A: "allocator_ok A used left" and wk: "walking used flag r p t m"
    and p: "path_ok p" "length p \<le> 2" "i < 512" and room: "0 < left (os m)"
  obtains c m' where "walk_level A flag t i m = (c, m')" "walking used flag r (p @ [i]) c m'"
    "vmap m' r = vmap m r" "used (os m') = insert c (used (os m))" "left (os m) \<le> Suc (left (os m'))"
    "tree_paths (mem m') r = insert (p @ [i]) (tree_paths (mem m) r)"
    "tree_frames (mem m') r = insert c (tree_frames (mem m) r)"
    "c \<in> used (os m) \<longrightarrow> c \<in> tree_frames (mem m) r"
proof -
  have pi: "path_ok (p @ [i])" "length (p @ [i]) \<le> 4" using p by simp_all
  obtain c m' where w: "walk_level A flag t i m = (c, m')" "walking used flag r (p @ [i]) c m'"
      "vmap m' r = vmap m r" "used (os m') = insert c (used (os m))" "left (os m) \<le> Suc (left (os m'))"
    and n: "\<And>q. path_ok q \<Longrightarrow> length q \<le> 4 \<Longrightarrow> node (mem m') r q = (if q = p @ [i] then Some c else node (mem m) r q)"
    and new: "node (mem m) r (p @ [i]) = Some c \<or> node (mem m) r (p @ [i]) = None \<and> c \<notin> used (os m)"
    using walk_level_ok [OF A wk p room] by blast
  have "c \<in> tree_frames (mem m) r" if "c \<in> used (os m)"
    using that new pi unfolding tree_frames_def by blast
  moreover have "tree_paths (mem m') r = insert (p @ [i]) (tree_paths (mem m) r)"
    and "tree_frames (mem m') r = insert c (tree_frames (mem m) r)"
    using tree_update [OF n pi] new by auto
  ultimately show ?thesis using that [OF w] by blast
qed

text \<open>
  The walk reaches the last table with every level open for the access asked for, and has
  changed no page. The tables that it makes are frames of the tree.
\<close>

lemma walk_three_tree:
  assumes A: "allocator_ok A used left" and ok: "tree_ok (mem m) r (used (os m))"
    and room: "4 \<le> left (os m)" and v: "l4_index v < 512"
  obtains l3 l2 l1 m1 m2 m3 where
    "walk_level A flag r (l4_index v) m = (l3, m1)"
    "walk_level A flag l3 (l3_index v) m1 = (l2, m2)"
    "walk_level A flag l2 (l2_index v) m2 = (l1, m3)"
    "walking used flag r [l4_index v, l3_index v, l2_index v] l1 m3"
    "vmap m3 r = vmap m r" "left (os m) \<le> 3 + left (os m3)"
    "used (os m3) = used (os m) \<union> tree_frames (mem m3) r"
    "tree_paths (mem m3) r = tree_paths (mem m) r \<union>
       {[], [l4_index v], [l4_index v, l3_index v], [l4_index v, l3_index v, l2_index v]}"
    "tree_frames (mem m3) r \<inter> used (os m) \<subseteq> tree_frames (mem m) r"
    "tree_frames (mem m) r \<subseteq> tree_frames (mem m3) r"
proof -
  have w0: "walking used flag r [] r m" using ok by (auto simp: walking_def)
  have "node (mem m) r [] = Some r" by (simp add: node_def)
  then have r0: "[] \<in> tree_paths (mem m) r" by (simp add: tree_paths_def)
  obtain l3 m1 where 1: "walk_level A flag r (l4_index v) m = (l3, m1)"
      "walking used flag r ([] @ [l4_index v]) l3 m1" "vmap m1 r = vmap m r"
      "used (os m1) = insert l3 (used (os m))" "left (os m) \<le> Suc (left (os m1))"
      "tree_paths (mem m1) r = insert ([] @ [l4_index v]) (tree_paths (mem m) r)"
      "tree_frames (mem m1) r = insert l3 (tree_frames (mem m) r)" "l3 \<in> used (os m) \<longrightarrow> l3 \<in> tree_frames (mem m) r"
    by (rule walk_level_tree [OF A w0, of "l4_index v"]) (use v room in simp_all)
  obtain l2 m2 where 2: "walk_level A flag l3 (l3_index v) m1 = (l2, m2)"
      "walking used flag r (([] @ [l4_index v]) @ [l3_index v]) l2 m2" "vmap m2 r = vmap m1 r"
      "used (os m2) = insert l2 (used (os m1))" "left (os m1) \<le> Suc (left (os m2))"
      "tree_paths (mem m2) r = insert (([] @ [l4_index v]) @ [l3_index v]) (tree_paths (mem m1) r)"
      "tree_frames (mem m2) r = insert l2 (tree_frames (mem m1) r)" "l2 \<in> used (os m1) \<longrightarrow> l2 \<in> tree_frames (mem m1) r"
    by (rule walk_level_tree [OF A 1(2), of "l3_index v"]) (use v room 1(5) in simp_all)
  obtain l1 m3 where 3: "walk_level A flag l2 (l2_index v) m2 = (l1, m3)"
      "walking used flag r ((([] @ [l4_index v]) @ [l3_index v]) @ [l2_index v]) l1 m3" "vmap m3 r = vmap m2 r"
      "used (os m3) = insert l1 (used (os m2))" "left (os m2) \<le> Suc (left (os m3))"
      "tree_paths (mem m3) r = insert ((([] @ [l4_index v]) @ [l3_index v]) @ [l2_index v]) (tree_paths (mem m2) r)"
      "tree_frames (mem m3) r = insert l1 (tree_frames (mem m2) r)" "l1 \<in> used (os m2) \<longrightarrow> l1 \<in> tree_frames (mem m2) r"
    by (rule walk_level_tree [OF A 2(2), of "l2_index v"]) (use v room 1(5) 2(5) in simp_all)
  have frames: "tree_frames (mem m3) r = tree_frames (mem m) r \<union> {l3, l2, l1}"
    and used: "used (os m3) = used (os m) \<union> {l3, l2, l1}"
    using 1(4,7) 2(4,7) 3(4,7) by auto
  show ?thesis
  proof (rule that [OF 1(1) 2(1) 3(1)])
    show "used (os m3) = used (os m) \<union> tree_frames (mem m3) r"
      using frames used tree_frames_used [OF ok] by auto
    show "tree_frames (mem m3) r \<inter> used (os m) \<subseteq> tree_frames (mem m) r"
      using frames 1(4,7,8) 2(4,7,8) 3(8) by auto
    show "tree_paths (mem m3) r = tree_paths (mem m) r \<union>
       {[], [l4_index v], [l4_index v, l3_index v], [l4_index v, l3_index v, l2_index v]}"
      using 1(6) 2(6) 3(6) r0 by auto
  qed (use 1(3,5) 2(3,5) 3(2,3,5) frames in auto)
qed

lemma leaf_present:
  assumes "walking used flag r [l4_index v, l3_index v, l2_index v] l1 m3" and "l4_index v < 512"
  shows "vmap m3 r (page_path v) = None \<longleftrightarrow> \<not> present (mem m3 l1 (l1_index v))"
proof -
  have ok: "tree_ok (mem m3) r (used (os m3))"
    and n: "node (mem m3) r [l4_index v, l3_index v, l2_index v] = Some l1"
    using assms(1) by (auto simp: walking_def node_def)
  show ?thesis
    using access_last [OF ok, of "[l4_index v, l3_index v, l2_index v]" "l1_index v"] n assms(2)
      page_path_ok [OF assms(2)]
    by (simp add: vmap_def page_path_def)
qed

text \<open>A page that is mapped stays as it is.\<close>

lemma map_page_again:
  assumes "space_ok A used left r (Suc n) m" and v: "l4_index v < 512"
    and mapped: "vmap m r (page_path v) \<noteq> None"
  shows "\<exists>m'. map_page A leaf flag r v m = Inr m' \<and> space_ok A used left r n m' \<and>
    vmap m' r = vmap m r \<and> used (os m) \<subseteq> used (os m')"
proof -
  have A: "allocator_ok A used left" and ok: "tree_ok (mem m) r (used (os m))"
    and room: "4 + 4 * n \<le> left (os m)" using assms(1) by (simp_all add: space_ok_def)
  have four: "4 \<le> left (os m)" using room by simp
  obtain l3 l2 l1 m1 m2 m3 where
    w: "walk_level A flag r (l4_index v) m = (l3, m1)"
      "walk_level A flag l3 (l3_index v) m1 = (l2, m2)"
      "walk_level A flag l2 (l2_index v) m2 = (l1, m3)"
    and wk: "walking used flag r [l4_index v, l3_index v, l2_index v] l1 m3"
    and m3: "vmap m3 r = vmap m r" "left (os m) \<le> 3 + left (os m3)"
      "used (os m3) = used (os m) \<union> tree_frames (mem m3) r"
    using walk_three_tree [OF A ok four v] by metis
  have "present (mem m3 l1 (l1_index v))" using leaf_present [OF wk v] mapped m3(1) by simp
  then have "map_page A leaf flag r v m = Inr m3"
    using v w by (simp add: map_page_def present_def)
  then show ?thesis using m3 wk A room by (auto simp: space_ok_def walking_def)
qed

text \<open>The entry of a page in the last table.\<close>

lemma leaf_page:
  assumes ok: "tree_ok (mem m) r (used (os m))" and acc: "access (mem m) r p = Some (t, True, w)"
    and w: "bit flag 1 \<longrightarrow> w" and p: "path_ok p" "length p = 3" "i < 512" and ab: "\<not> present (mem m t i)"
    and a: "mem m4 = mem m" "get_mem_region a = Some USER_REG" "used (os m4) = insert a (used (os m))"
      "\<And>q. map_option fst (vmap m r q) \<noteq> Some a"
  defines "m' \<equiv> set_entry t i (allow_write flag (link 0 a)) m4"
  shows "tree_ok (mem m') r (used (os m'))"
    and "vmap m' r = (vmap m r)(p @ [i] := Some (a, True, bit flag 1))"
    and "tree_paths (mem m') r = insert (p @ [i]) (tree_paths (mem m) r)"
    and "tree_frames (mem m') r = insert a (tree_frames (mem m) r)"
proof -
  define e where "e = allow_write flag (link 0 a)"
  have e: "entry_frame e = a" "present e" "bit e 2" "bit e 1 = bit flag 1" "small_entry e"
    using frame_link [OF a(2)] by (simp_all add: e_def)
  have fresh: "node (mem m) r q \<noteq> Some (entry_frame e)" if "path_ok q" "length q = 4" for q
    using a(4) [of q] that e(1) by (simp add: vmap_def node_def)
  note le = leaf_entry [OF ok acc p, of e "used (os m4)"]
  have mem': "mem m' = (mem m)(t := (mem m t)(i := e))" by (simp add: m'_def e_def a(1))
  show "tree_ok (mem m') r (used (os m'))"
    unfolding m'_def e_def [symmetric] set_entry_simps a(1) using e w a(2,3) fresh by (intro le) auto
  have pi: "path_ok (p @ [i])" "length (p @ [i]) = 4" using p by simp_all
  have "access (mem m') r q = (if q = p @ [i] then Some (a, True, bit flag 1) else access (mem m) r q)"
    if "path_ok q" "length q = 4" for q
    unfolding mem' using e w a(2,3) fresh that by (subst le(2)) auto
  then show "vmap m' r = (vmap m r)(p @ [i] := Some (a, True, bit flag 1))"
    using pi by (auto simp: vmap_def fun_eq_iff)
  have node': "node (mem m') r q = (if q = p @ [i] then Some a else node (mem m) r q)"
    if "path_ok q" "length q \<le> 4" for q
    unfolding mem' using e w a(2,3) fresh that by (subst le(3)) auto
  have "node (mem m) r (p @ [i]) = None" using acc ab by (simp add: node_def access_snoc)
  then show "tree_paths (mem m') r = insert (p @ [i]) (tree_paths (mem m) r)"
    and "tree_frames (mem m') r = insert a (tree_frames (mem m) r)"
    using tree_update [OF node' pi(1)] pi(2) by simp_all
qed

lemma page_path_prefixes:
  "{q. prefix q (page_path v)} =
    {[], [l4_index v], [l4_index v, l3_index v], [l4_index v, l3_index v, l2_index v], page_path v}"
  by (auto simp: page_path_def prefix_Cons)

text \<open>
  A page that is not mapped gets the frame that \<open>leaf\<close> provides, with user access and with
  write access if the flags ask for it; no other page changes. The tree grows by the path
  to the page, and the frames taken are frames of the tree.
\<close>

lemma map_page_new:
  assumes "space_ok A used left r (Suc n) m" and v: "l4_index v < 512"
    and unmapped: "vmap m r (page_path v) = None"
    and leaf: "\<And>m3. tree_ok (mem m3) r (used (os m3)) \<Longrightarrow> used (os m) \<subseteq> used (os m3) \<Longrightarrow>
      vmap m3 r = vmap m r \<Longrightarrow> 0 < left (os m3) \<Longrightarrow>
      \<exists>a m4. leaf m3 = (a, m4) \<and> mem m4 = mem m3 \<and> get_mem_region a = Some USER_REG \<and>
        used (os m4) = insert a (used (os m3)) \<and> left (os m3) \<le> Suc (left (os m4)) \<and>
        (\<forall>q. map_option fst (vmap m3 r q) \<noteq> Some a) \<and> P a"
  shows "\<exists>a m'. map_page A leaf flag r v m = Inr m' \<and> space_ok A used left r n m' \<and> P a \<and>
    vmap m' r = (vmap m r)(page_path v := Some (a, True, bit flag 1)) \<and>
    used (os m') = used (os m) \<union> tree_frames (mem m') r \<and>
    tree_paths (mem m') r = tree_paths (mem m) r \<union> {q. prefix q (page_path v)} \<and>
    tree_frames (mem m') r \<inter> used (os m) \<subseteq> insert a (tree_frames (mem m) r) \<and>
    tree_frames (mem m) r \<subseteq> tree_frames (mem m') r"
proof -
  let ?p = "[l4_index v, l3_index v, l2_index v]"
  have A: "allocator_ok A used left" and ok: "tree_ok (mem m) r (used (os m))"
    and room: "4 + 4 * n \<le> left (os m)" using assms(1) by (simp_all add: space_ok_def)
  have four: "4 \<le> left (os m)" using room by simp
  obtain l3 l2 l1 m1 m2 m3 where
    w: "walk_level A flag r (l4_index v) m = (l3, m1)"
      "walk_level A flag l3 (l3_index v) m1 = (l2, m2)"
      "walk_level A flag l2 (l2_index v) m2 = (l1, m3)"
    and wk: "walking used flag r ?p l1 m3"
    and m3: "vmap m3 r = vmap m r" "left (os m) \<le> 3 + left (os m3)"
      "used (os m3) = used (os m) \<union> tree_frames (mem m3) r"
      "tree_paths (mem m3) r = tree_paths (mem m) r \<union>
        {[], [l4_index v], [l4_index v, l3_index v], ?p}"
      "tree_frames (mem m3) r \<inter> used (os m) \<subseteq> tree_frames (mem m) r"
      "tree_frames (mem m) r \<subseteq> tree_frames (mem m3) r"
    using walk_three_tree [OF A ok four v, where flag = flag] by metis
  obtain wr where ok3: "tree_ok (mem m3) r (used (os m3))" and acc: "access (mem m3) r ?p = Some (l1, True, wr)"
    and wr: "bit flag 1 \<longrightarrow> wr" using wk by (auto simp: walking_def)
  have np: "node (mem m3) r ?p = Some l1" using acc by (simp add: node_def)
  have ab: "\<not> present (mem m3 l1 (l1_index v))" using leaf_present [OF wk v] unmapped m3(1) by simp
  have p: "path_ok ?p" "length ?p = 3" "l1_index v < 512" using v by simp_all
  have zero: "mem m3 l1 (l1_index v) = 0" using tree_okD(4) [OF ok3 p(1) _ np p(3) ab] by simp
  have "used (os m) \<subseteq> used (os m3)" and "0 < left (os m3)" using m3(2,3) room by auto
  from leaf [OF ok3 this(1) m3(1) this(2)]
  obtain a m4 where a: "leaf m3 = (a, m4)" "mem m4 = mem m3" "get_mem_region a = Some USER_REG"
      "used (os m4) = insert a (used (os m3))" "left (os m3) \<le> Suc (left (os m4))"
      "\<And>q. map_option fst (vmap m3 r q) \<noteq> Some a" "P a"
    by blast
  define m' where "m' = set_entry l1 (l1_index v) (allow_write flag (link 0 a)) m4"
  have run: "map_page A leaf flag r v m = Inr m'"
    using v w ab zero a(1,2) by (simp add: map_page_def present_def m'_def Let_def set_entry_def)
  have path: "?p @ [l1_index v] = page_path v" by (simp add: page_path_def)
  note lp = leaf_page [OF ok3 acc wr p ab a(2-4,6), folded m'_def, unfolded path]
  have "space_ok A used left r n m'"
    using A lp(1) room m3(2) a(5) by (simp add: space_ok_def m'_def)
  moreover have "used (os m') = used (os m) \<union> tree_frames (mem m') r"
    using lp(4) m3(3) a(4) by (auto simp: m'_def)
  moreover have "tree_paths (mem m') r = tree_paths (mem m) r \<union> {q. prefix q (page_path v)}"
    unfolding lp(3) m3(4) page_path_prefixes by auto
  moreover have "tree_frames (mem m') r \<inter> used (os m) \<subseteq> insert a (tree_frames (mem m) r)"
    and "tree_frames (mem m) r \<subseteq> tree_frames (mem m') r"
    using lp(4) m3(5,6) by auto
  ultimately show ?thesis using run a(7) lp(2) unfolding m3(1) by blast
qed

lemma map_page_bad: "512 \<le> l4_index v \<Longrightarrow> map_page A leaf flag r v m = Inl OutOfBounds"
  by (simp add: map_page_def)

text \<open>With a frame from the allocator.\<close>

lemma map_page_fresh:
  assumes sp: "space_ok A used left r (Suc n) m" and v: "l4_index v < 512"
    and unmapped: "vmap m r (page_path v) = None"
  shows "\<exists>a m'. map_page A (fresh_leaf A) flag r v m = Inr m' \<and> space_ok A used left r n m' \<and>
    a \<notin> used (os m) \<and>
    vmap m' r = (vmap m r)(page_path v := Some (a, True, bit flag 1)) \<and>
    used (os m') = used (os m) \<union> tree_frames (mem m') r \<and>
    tree_paths (mem m') r = tree_paths (mem m) r \<union> {q. prefix q (page_path v)} \<and>
    tree_frames (mem m') r \<inter> used (os m) \<subseteq> insert a (tree_frames (mem m) r) \<and>
    tree_frames (mem m) r \<subseteq> tree_frames (mem m') r"
proof -
  have A: "allocator_ok A used left" using sp by (simp add: space_ok_def)
  show ?thesis
  proof (rule map_page_new [OF sp v unmapped, where P = "\<lambda>a. a \<notin> used (os m)"])
    fix m3 :: "'a machine"
    assume ok: "tree_ok (mem m3) r (used (os m3))" and sub: "used (os m) \<subseteq> used (os m3)"
      and room: "0 < left (os m3)"
    obtain a st where al: "os_pfn_alloc A USER_REG (os m3) = (a, st)" by fastforce
    note a = allocator_okD(1) [OF A room al]
    have "map_option fst (vmap m3 r q) \<noteq> Some a" for q
    proof
      assume "map_option fst (vmap m3 r q) = Some a"
      then have "path_ok q" "length q = 4" "node (mem m3) r q = Some a"
        by (auto simp: vmap_def node_def split: if_splits)
      then show False using tree_ok_pages(1) [OF ok] a by blast
    qed
    then show "\<exists>a m4. fresh_leaf A m3 = (a, m4) \<and> mem m4 = mem m3 \<and> get_mem_region a = Some USER_REG \<and>
        used (os m4) = insert a (used (os m3)) \<and> left (os m3) \<le> Suc (left (os m4)) \<and>
        (\<forall>q. map_option fst (vmap m3 r q) \<noteq> Some a) \<and> a \<notin> used (os m)"
      using al a sub by (auto simp: fresh_leaf_def)
  qed
qed


section \<open>The interface of a page mapper\<close>

text \<open>
  What demand paging and context preparation rely on: mapping a page that is absent adds
  that page, with a frame no other page has; mapping a page that is present changes nothing.
\<close>

locale page_mapper =
  fixes mp :: "32 word \<Rightarrow> 64 word \<Rightarrow> 's \<Rightarrow> 's res"
    and view :: "'s \<Rightarrow> nat list \<Rightarrow> (pfn \<times> bool \<times> bool) option"
    and ok :: "nat \<Rightarrow> 's \<Rightarrow> bool"
  assumes map_new: "ok (Suc n) s \<Longrightarrow> l4_index v < 512 \<Longrightarrow> view s (page_path v) = None \<Longrightarrow>
      \<exists>a t. mp flag v s = Inr t \<and> ok n t \<and> (\<forall>q. map_option fst (view s q) \<noteq> Some a) \<and>
        view t = (view s)(page_path v := Some (a, True, bit flag 1))"
    and map_again: "ok (Suc n) s \<Longrightarrow> l4_index v < 512 \<Longrightarrow> view s (page_path v) \<noteq> None \<Longrightarrow>
      \<exists>t. mp flag v s = Inr t \<and> ok n t \<and> view t = view s"
begin

lemma map_one:
  assumes "ok (Suc n) s" and "l4_index v < 512"
  shows "\<exists>t. mp flag v s = Inr t \<and> ok n t \<and>
    (\<forall>p. view t p \<noteq> None \<longleftrightarrow> view s p \<noteq> None \<or> p = page_path v) \<and>
    (\<forall>p. view s p \<noteq> None \<longrightarrow> view t p = view s p)"
proof (cases "view s (page_path v) = None")
  case True
  then obtain a t where t: "mp flag v s = Inr t" "ok n t"
      "view t = (view s)(page_path v := Some (a, True, bit flag 1))"
    using map_new [OF assms True, of flag] by blast
  have "view t p \<noteq> None \<longleftrightarrow> view s p \<noteq> None \<or> p = page_path v" for p
    unfolding t(3) by (simp del: not_None_eq)
  moreover have "view t p = view s p" if "view s p \<noteq> None" for p
    unfolding t(3) using that True by (cases "p = page_path v") simp_all
  ultimately show ?thesis using t(1,2) by blast
next
  case False
  then obtain t where t: "mp flag v s = Inr t" "ok n t" "view t = view s"
    using map_again [OF assms False, of flag] by blast
  then show ?thesis using False by metis
qed

text \<open>Pages of a whole sequence of accesses.\<close>

lemma map_all:
  assumes "ok (length reqs + n) s" and "\<forall>(flag, v) \<in> set reqs. l4_index v < 512"
  shows "\<exists>t. rfold (\<lambda>(flag, v). mp flag v) reqs s = Inr t \<and> ok n t \<and>
    (\<forall>p. view t p \<noteq> None \<longleftrightarrow> view s p \<noteq> None \<or> p \<in> page_path ` snd ` set reqs) \<and>
    (\<forall>p. view s p \<noteq> None \<longrightarrow> view t p = view s p)"
  using assms
proof (induction reqs arbitrary: s)
  case Nil
  then show ?case by simp
next
  case (Cons r reqs)
  obtain flag v where r: "r = (flag, v)" by (cases r)
  obtain t1 where t1: "mp flag v s = Inr t1" "ok (length reqs + n) t1"
      "\<forall>p. view t1 p \<noteq> None \<longleftrightarrow> view s p \<noteq> None \<or> p = page_path v"
      "\<forall>p. view s p \<noteq> None \<longrightarrow> view t1 p = view s p"
    using map_one [of "length reqs + n" s v flag] Cons.prems r by auto
  obtain t where "rfold (\<lambda>(flag, v). mp flag v) reqs t1 = Inr t" "ok n t"
      "\<forall>p. view t p \<noteq> None \<longleftrightarrow> view t1 p \<noteq> None \<or> p \<in> page_path ` snd ` set reqs"
      "\<forall>p. view t1 p \<noteq> None \<longrightarrow> view t p = view t1 p"
    using Cons.IH [OF t1(2)] Cons.prems(2) by auto
  with t1 r show ?case by (intro exI [of _ t]) auto
qed

text \<open>No frame is shared between pages, if none was at the start.\<close>

lemma map_one_apart:
  assumes "ok (Suc n) s" and "l4_index v < 512" and "mp flag v s = Inr t"
    and "\<And>p q. view s p \<noteq> None \<Longrightarrow> map_option fst (view s p) = map_option fst (view s q) \<Longrightarrow> p = q"
    and "view t p \<noteq> None" and "map_option fst (view t p) = map_option fst (view t q)"
  shows "p = q"
proof (cases "view s (page_path v) = None")
  case True
  then obtain a where fresh: "\<forall>q. map_option fst (view s q) \<noteq> Some a"
    and t: "view t = (view s)(page_path v := Some (a, True, bit flag 1))"
    using map_new [OF assms(1,2) True, of flag] assms(3) by auto
  show ?thesis
  proof (cases "p = page_path v \<or> q = page_path v")
    case True
    have new: "map_option fst (view t (page_path v)) = Some a" using t by simp
    have old: "map_option fst (view t x) \<noteq> Some a" if "x \<noteq> page_path v" for x
      using fresh t that by simp
    show ?thesis using True new old [of p] old [of q] assms(6) by metis
  next
    case False
    then show ?thesis using assms(4) [of p q] assms(5,6) t by simp
  qed
next
  case False
  then have "view t = view s" using map_again [OF assms(1,2), of flag] assms(3) by auto
  then show ?thesis using assms(4-6) by simp
qed

end

text \<open>The pages below a root, mapped with frames from the allocator.\<close>

interpretation pages: page_mapper
  "\<lambda>flag v. map_page A (fresh_leaf A) flag r v" "\<lambda>m. vmap m r" "space_ok A used left r"
  for A :: "'o frame_ops" and used :: "'o \<Rightarrow> pfn set" and left :: "'o \<Rightarrow> nat" and r :: pfn
proof (unfold_locales, goal_cases)
  case (1 n m v flag)
  then obtain a m' where m': "map_page A (fresh_leaf A) flag r v m = Inr m'" "space_ok A used left r n m'"
      "a \<notin> used (os m)" "vmap m' r = (vmap m r)(page_path v := Some (a, True, bit flag 1))"
    using map_page_fresh by metis
  have "map_option fst (vmap m r q) \<noteq> Some a" for q
  proof
    assume "map_option fst (vmap m r q) = Some a"
    then have "path_ok q" "length q = 4" "node (mem m) r q = Some a"
      by (auto simp: vmap_def node_def split: if_splits)
    then show False using tree_ok_pages(1) 1(1) m'(3) by (fastforce simp: space_ok_def)
  qed
  with m' show ?case by blast
next
  case (2 n m v flag)
  then show ?case using map_page_again by metis
qed

end
