(* ===== verification/Registers.thy ===== *)
theory Registers
  imports Prelude
begin

text \<open>
  The general purpose registers as the interrupt handlers of assignments 2 and 3 save them:
  pushed in one order on entry and popped in the reverse order on return.
\<close>

datatype gpr = R8 | R9 | R10 | R11 | R12 | R13 | R14 | R15 | RAX | RBX | RCX | RDX | RDI | RSI

definition push_order :: "gpr list" where
  "push_order = [R8, R9, R10, R11, R12, R13, R14, R15, RAX, RBX, RCX, RDX, RDI, RSI]"

text \<open>The registers are the ones that are pushed: values of all of them can be compared.\<close>

instantiation gpr :: enum
begin

definition enum_gpr_def: "enum_class.enum = push_order"
definition enum_all_gpr_def: "enum_class.enum_all P \<longleftrightarrow> list_all P push_order"
definition enum_ex_gpr_def: "enum_class.enum_ex P \<longleftrightarrow> list_ex P push_order"

instance
proof
  have mem: "r \<in> set push_order" for r by (cases r) (simp_all add: push_order_def)
  then show "(UNIV :: gpr set) = set enum_class.enum" by (auto simp: enum_gpr_def)
  show "distinct (enum_class.enum :: gpr list)" by (simp add: enum_gpr_def push_order_def)
  show "enum_class.enum_all P \<longleftrightarrow> Ball (UNIV :: gpr set) P" for P
    using mem by (auto simp: enum_all_gpr_def list_all_iff)
  show "enum_class.enum_ex P \<longleftrightarrow> Bex (UNIV :: gpr set) P" for P
    using mem by (auto simp: enum_ex_gpr_def list_ex_iff)
qed

end

definition pop_order :: "gpr list" where
  "pop_order = [RSI, RDI, RDX, RCX, RBX, RAX, R15, R14, R13, R12, R11, R10, R9, R8]"

lemma orders: "push_order = rev pop_order" "set pop_order = UNIV" "distinct pop_order"
  using enum_UNIV [where 'a = gpr] by (auto simp: enum_gpr_def push_order_def pop_order_def)

definition push_regs :: "(gpr \<Rightarrow> 64 word) \<Rightarrow> 64 word list \<Rightarrow> 64 word list" where
  "push_regs regs stack = fold (\<lambda>r st. regs r # st) push_order stack"

fun pop_regs :: "gpr list \<Rightarrow> 64 word list \<Rightarrow> (gpr \<Rightarrow> 64 word) \<Rightarrow> (gpr \<Rightarrow> 64 word) \<times> 64 word list" where
  "pop_regs [] stack regs = (regs, stack)"
| "pop_regs (r # rs) [] regs = (regs, [])"
| "pop_regs (r # rs) (x # stack) regs = pop_regs rs stack (regs(r := x))"

lemma push_fold: "fold (\<lambda>r st. regs r # st) rs stack = map regs (rev rs) @ stack"
  by (induction rs arbitrary: stack) simp_all

lemma pop_values:
  "distinct rs \<Longrightarrow> pop_regs rs (map regs rs @ stack) other = ((\<lambda>r. if r \<in> set rs then regs r else other r), stack)"
  by (induction rs arbitrary: other) (auto simp: fun_eq_iff)

text \<open>Popping in the reverse order gives every register its value back.\<close>

lemma push_pop: "pop_regs pop_order (push_regs regs stack) other = (regs, stack)"
  using pop_values [OF orders(3), of regs stack other] by (simp add: push_regs_def push_fold orders)

end
