(* ===== verification/Lazy_Memory.thy ===== *)
theory Lazy_Memory
  imports Paging Registers
begin

text \<open>
  System calls, demand paging and fault handling of assignment 2, \<open>assignment2/entry.c\<close>:
  the data segments grow and shrink by moving \<open>next_free\<close>, pages are mapped when they are
  first touched (\<open>handle_page_fault\<close>) and unmapped when a segment shrinks. The functions of
  \<open>context.o\<close> that the file calls, \<open>do_exit\<close> among them, are not in the repository:
  \<open>get_current_ctx\<close> is the field \<open>current\<close>, \<open>do_exit\<close> is a parameter on the kernel state.
\<close>

section \<open>State\<close>

record heap_segment = mm_segment +
  next_free :: "64 word"

record lazy_context =
  lc_id :: "32 word"
  lc_type :: "8 word"
  lc_status :: "8 word"
  lc_used_mem :: "16 word"
  lc_pgd :: pfn
  lc_os_stack_pfn :: "32 word"
  lc_mms :: "mm_seg \<Rightarrow> heap_segment"
  lc_name :: "char list"

text \<open>What \<open>printf\<close> puts on the console: characters, and the reports of the fault handlers.\<close>

datatype console =
    Byte "8 word"
  | FaultReport "64 word" "64 word" "64 word"
  | DivReport "64 word"

record 'o kernel =
  current :: lazy_context
  mach :: "'o machine"
  console :: "console list"
  flushed :: "64 word list" \<comment> \<open>the addresses given to \<open>invlpg\<close>\<close>

record 'o kernel_ops = "'o frame_ops" +
  do_exit :: "'o kernel \<Rightarrow> 'o kernel"

abbreviation (input) MAP_RD :: "32 word" where "MAP_RD \<equiv> 0"

section \<open>Expanding and shrinking a segment\<close>

text \<open>Which segment the flags mean: \<open>MAP_RD\<close> the read-only one, anything else the data one.\<close>

definition flag_segment :: "32 word \<Rightarrow> mm_seg" where
  "flag_segment flags = (if flags = MAP_RD then MM_SEG_RODATA else MM_SEG_DATA)"

definition set_next_free :: "mm_seg \<Rightarrow> 64 word \<Rightarrow> 'o kernel \<Rightarrow> 'o kernel" where
  "set_next_free g n k =
     k\<lparr>current := (current k)\<lparr>lc_mms := (lc_mms (current k))
         (g := (lc_mms (current k) g)\<lparr>next_free := n\<rparr>)\<rparr>\<rparr>"

text \<open>\<open>size*4096\<close> is computed in 32 bits.\<close>

definition size_bytes :: "32 word \<Rightarrow> 64 word" where
  "size_bytes n = ucast (n * 4096)"

definition syscall_expand :: "64 word \<Rightarrow> 64 word \<Rightarrow> 'o kernel \<Rightarrow> 64 word \<times> 'o kernel" where
  "syscall_expand param1 param2 k =
     (let sz = (ucast param1 :: 32 word);
          g = flag_segment (ucast param2);
          m = lc_mms (current k) g
      in if 512 < sz then (0, k)
         else if seg_end m < next_free m + size_bytes sz - 1 then (0, k)
         else (next_free m, set_next_free g (next_free m + size_bytes sz) k))"

text \<open>
  The body of the loop of \<open>SYSCALL_SHRINK\<close> for the page at \<open>v\<close>: absent tables and pages are
  skipped, a present page is released and its entry cleared.
\<close>

definition unmap_page :: "'o frame_ops \<Rightarrow> pfn \<Rightarrow> 64 word \<Rightarrow> 'o kernel \<Rightarrow> 'o kernel res" where
  "unmap_page A p v k =
     (let M = mem (mach k) in
      if 512 \<le> l4_index v then Inl OutOfBounds
      else let e4 = M p (l4_index v) in if e4 AND 1 = 0 then Inr k
      else let e3 = M (entry_frame e4) (l3_index v) in if e3 AND 1 = 0 then Inr k
      else let e2 = M (entry_frame e3) (l2_index v) in if e2 AND 1 = 0 then Inr k
      else let l1 = entry_frame e2; e1 = M l1 (l1_index v) in
        if e1 AND 1 = 1
        then Inr (k\<lparr>flushed := flushed k @ [v],
                    mach := set_entry l1 (l1_index v) (e1 AND 0)
                      ((mach k)\<lparr>os := os_pfn_free A USER_REG (drop_bit 12 e1) (os (mach k))\<rparr>)\<rparr>)
        else Inr k)"

text \<open>Round \<open>i\<close>: \<open>i*4096\<close> is a product of \<open>int\<close>s, which overflows from \<open>i = 2 ^ 19\<close> on.\<close>

definition shrink_round ::
    "'o frame_ops \<Rightarrow> pfn \<Rightarrow> 64 word \<Rightarrow> nat \<Rightarrow> 'o kernel \<Rightarrow> 'o kernel res" where
  "shrink_round A p nf i k =
     (if 2 ^ 31 \<le> i * 4096 then Inl SignedOverflow
      else unmap_page A p (nf - word_of_nat (i * 4096)) k)"

definition syscall_shrink ::
    "'o frame_ops \<Rightarrow> 64 word \<Rightarrow> 64 word \<Rightarrow> 'o kernel \<Rightarrow> (64 word \<times> 'o kernel) res" where
  "syscall_shrink A param1 param2 k =
     (let sz = (ucast param1 :: 32 word);
          g = flag_segment (ucast param2);
          m = lc_mms (current k) g
      in if next_free m - size_bytes sz < seg_start m then Inr (0, k)
         else rbind (rfold (shrink_round A (lc_pgd (current k)) (next_free m)) [1 ..< Suc (unat sz)] k)
                (\<lambda>k'. Inr (next_free m - size_bytes sz,
                           set_next_free g (next_free m - size_bytes sz) k')))"

section \<open>Writing to the console\<close>

text \<open>The walk that \<open>SYSCALL_WRITE\<close> makes for one address: is the page there?\<close>

definition walk_check :: "'o machine \<Rightarrow> pfn \<Rightarrow> 64 word \<Rightarrow> bool res" where
  "walk_check m p v =
     (if 512 \<le> l4_index v then Inl OutOfBounds
      else let e4 = mem m p (l4_index v) in if e4 AND 1 = 0 then Inr False
      else let e3 = mem m (entry_frame e4) (l3_index v) in if e3 AND 1 = 0 then Inr False
      else let e2 = mem m (entry_frame e3) (l2_index v) in if e2 AND 1 = 0 then Inr False
      else Inr (\<not> mem m (entry_frame e2) (l1_index v) AND 1 = 0))"

text \<open>
  A byte of the process as the processor reads it: byte \<open>v mod 4096\<close> of the frame its page
  leads to. Without a mapping the access faults.
\<close>

definition user_byte :: "'o machine \<Rightarrow> pfn \<Rightarrow> 64 word \<Rightarrow> 8 word res" where
  "user_byte m p v =
     (if 512 \<le> l4_index v then Inl OutOfBounds
      else case access (mem m) p (page_path v) of
        None \<Rightarrow> Inl NullDeref
      | Some (f, _, _) \<Rightarrow>
          let off = unat v mod 4096
          in Inr (ucast (drop_bit (8 * (off mod 8)) (mem m f (off div 8)))))"

definition print_byte :: "64 word \<Rightarrow> nat \<Rightarrow> 'o kernel \<Rightarrow> 'o kernel res" where
  "print_byte buff i k =
     rbind (user_byte (mach k) (lc_pgd (current k)) (buff + word_of_nat i))
       (\<lambda>b. Inr (k\<lparr>console := console k @ [Byte b]\<rparr>))"

text \<open>
  \<open>SYSCALL_WRITE\<close>: the page of the first byte and, when it is another one, the page of the
  last are checked; then the bytes are printed. There is no \<open>break\<close>: the case goes on into
  \<open>SYSCALL_EXPAND\<close> with the same parameters.
\<close>

definition syscall_write ::
    "64 word \<Rightarrow> 64 word \<Rightarrow> 'o kernel \<Rightarrow> (64 word \<times> 'o kernel) res" where
  "syscall_write param1 param2 k =
     (let len = (ucast param2 :: 32 word); p = lc_pgd (current k);
          last = param1 + ucast len - 1
      in if 1024 < len then Inr (- 1, k)
         else rbind (walk_check (mach k) p param1) (\<lambda>ok1.
           if \<not> ok1 then Inr (- 1, k)
           else rbind (if param1 div 4096 < last div 4096 then walk_check (mach k) p last else Inr True) (\<lambda>ok2.
             if \<not> ok2 then Inr (- 1, k)
             else rbind (rfold (print_byte param1) [0 ..< unat len] k) (\<lambda>k'.
               Inr (syscall_expand param1 param2 k')))))"

section \<open>The system call handler\<close>

definition do_syscall ::
    "('o, 'z) kernel_ops_scheme \<Rightarrow> int \<Rightarrow> 64 word \<Rightarrow> 64 word \<Rightarrow> 'o kernel \<Rightarrow> (64 word \<times> 'o kernel) res" where
  "do_syscall A call param1 param2 k =
     (if call = 1 then Inr (0, do_exit A k)
      else if call = 2 then Inr (ucast (lc_id (current k)), k)
      else if call = 3 then syscall_write param1 param2 k
      else if call = 4 then Inr (syscall_expand param1 param2 k)
      else if call = 5 then syscall_shrink (frame_ops.truncate A) param1 param2 k
      else Inr (- 1, k))"

section \<open>Faults\<close>

definition handle_div_by_zero :: "('o, 'z) kernel_ops_scheme \<Rightarrow> 64 word \<Rightarrow> 'o kernel \<Rightarrow> 64 word \<times> 'o kernel" where
  "handle_div_by_zero A rip k = (0, do_exit A (k\<lparr>console := console k @ [DivReport rip]\<rparr>))"

definition allocate_at ::
    "'o frame_ops \<Rightarrow> 64 word \<Rightarrow> ('z) mm_segment_scheme \<Rightarrow> 'o kernel \<Rightarrow> 'o kernel res" where
  "allocate_at A v m k =
     rbind (map_page A (fresh_leaf A) (access_flags m) (lc_pgd (current k)) v (mach k))
       (\<lambda>m'. Inr (k\<lparr>mach := m'\<rparr>))"

definition check_present :: "64 word \<Rightarrow> 'o kernel \<Rightarrow> int" where
  "check_present v k =
     (let data = lc_mms (current k) MM_SEG_DATA; ro = lc_mms (current k) MM_SEG_RODATA;
          stack = lc_mms (current k) MM_SEG_STACK
      in if v < next_free data \<and> seg_start data \<le> v then 1
         else if v < next_free ro \<and> seg_start ro \<le> v then 2
         else if v \<le> seg_end stack \<and> seg_start stack \<le> v then 3
         else -1)"

text \<open>
  The page fault handler. What its compiled body does to the registers is the parameter
  \<open>body_regs\<close>; the stack pointer saved after the pushes is put back before the pops. \<open>None\<close> as the registers means that the process was ended; otherwise
  the access is retried with the registers given.
\<close>

definition handle_page_fault ::
    "('o, 'z) kernel_ops_scheme \<Rightarrow> ((gpr \<Rightarrow> 64 word) \<Rightarrow> gpr \<Rightarrow> 64 word) \<Rightarrow> 64 word \<Rightarrow> 64 word \<Rightarrow> 64 word \<Rightarrow>
     (gpr \<Rightarrow> 64 word) \<Rightarrow> 64 word list \<Rightarrow> 'o kernel \<Rightarrow>
     (((gpr \<Rightarrow> 64 word) \<times> 64 word list) option \<times> 'o kernel) res" where
  "handle_page_fault A body_regs cr2 error_code rip regs stack k =
     (let saved = push_regs regs stack;
          kill = Inr (None, do_exit A (k\<lparr>console := console k @ [FaultReport rip cr2 error_code]\<rparr>));
          resume = (\<lambda>k'. Inr (Some (pop_regs pop_order saved (body_regs regs)), k'));
          seg = lc_mms (current k); F = frame_ops.truncate A
      in if error_code AND 1 = 1 then kill
         else if check_present cr2 k = -1 then kill
         else if check_present cr2 k = 1 then rbind (allocate_at F cr2 (seg MM_SEG_DATA) k) resume
         else if check_present cr2 k = 2 then
           (if error_code AND 2 = 2 then kill
            else rbind (allocate_at F cr2 (seg MM_SEG_RODATA) k) resume)
         else rbind (allocate_at F cr2 (seg MM_SEG_STACK) k) resume)"


section \<open>Demand paging\<close>

abbreviation space_map :: "'o kernel \<Rightarrow> nat list \<Rightarrow> (pfn \<times> bool \<times> bool) option" where
  "space_map k \<equiv> vmap (mach k) (lc_pgd (current k))"

abbreviation kernel_ok ::
    "'o frame_ops \<Rightarrow> ('o \<Rightarrow> pfn set) \<Rightarrow> ('o \<Rightarrow> nat) \<Rightarrow> nat \<Rightarrow> 'o kernel \<Rightarrow> bool" where
  "kernel_ok A used left n k \<equiv> space_ok A used left (lc_pgd (current k)) n (mach k)"

text \<open>The segment that an address belongs to, as \<open>handle_page_fault\<close> sees it.\<close>

definition fault_segment :: "64 word \<Rightarrow> 'o kernel \<Rightarrow> heap_segment" where
  "fault_segment v k = lc_mms (current k)
     (if check_present v k = 1 then MM_SEG_DATA else if check_present v k = 2 then MM_SEG_RODATA
      else MM_SEG_STACK)"

text \<open>The access that faults is one the process may make.\<close>

definition legal_fault :: "64 word \<Rightarrow> 64 word \<Rightarrow> 'o kernel \<Rightarrow> bool" where
  "legal_fault v error_code k \<longleftrightarrow> l4_index v < 512 \<and> error_code AND 1 \<noteq> 1 \<and> check_present v k \<noteq> -1 \<and>
     (check_present v k = 2 \<longrightarrow> error_code AND 2 \<noteq> 2)"

lemma legal_fault_run:
  assumes "legal_fault v ec k"
    and "map_page F (fresh_leaf F) (access_flags (fault_segment v k)) (lc_pgd (current k)) v (mach k) = Inr m'"
    and "F = frame_ops.truncate A"
  shows "handle_page_fault A body v ec rip regs stack k = Inr (Some (regs, stack), k\<lparr>mach := m'\<rparr>)"
  using assms
  by (simp add: handle_page_fault_def legal_fault_def allocate_at_def fault_segment_def push_pop
      Let_def split: if_splits)

lemma page_fault_new:
  assumes ok: "kernel_ok (frame_ops.truncate A) used left (Suc n) k" and legal: "legal_fault v ec k"
    and un: "space_map k (page_path v) = None"
  shows "\<exists>a k'. handle_page_fault A body v ec rip regs stack k = Inr (Some (regs, stack), k') \<and>
    kernel_ok (frame_ops.truncate A) used left n k' \<and> a \<notin> used (os (mach k)) \<and>
    space_map k' = (space_map k)
      (page_path v := Some (a, True, bit (access_flags (fault_segment v k)) 1)) \<and>
    current k' = current k \<and> console k' = console k"
proof -
  have v: "l4_index v < 512" using legal by (simp add: legal_fault_def)
  let ?F = "frame_ops.truncate A" and ?fl = "access_flags (fault_segment v k)"
  obtain a m' where m': "map_page ?F (fresh_leaf ?F) ?fl (lc_pgd (current k)) v (mach k) = Inr m'"
      "space_ok ?F used left (lc_pgd (current k)) n m'" "a \<notin> used (os (mach k))"
      "vmap m' (lc_pgd (current k)) = (space_map k)(page_path v := Some (a, True, bit ?fl 1))"
    using map_page_fresh [OF ok v un, of ?fl] by blast
  show ?thesis
    using legal_fault_run [OF legal m'(1) refl] m'
    by (intro exI [of _ a] exI [of _ "k\<lparr>mach := m'\<rparr>"]) simp
qed

lemma illegal_fault_kills:
  assumes "error_code AND 1 = 1 \<or> check_present v k = -1 \<or>
    check_present v k = 2 \<and> error_code AND 2 = 2"
  shows "handle_page_fault A body v error_code rip regs stack k =
    Inr (None, do_exit A (k\<lparr>console := console k @ [FaultReport rip v error_code]\<rparr>))"
  using assms by (auto simp: handle_page_fault_def Let_def)

section \<open>Unmapping\<close>

lemma node_path:
  "node M r (page_path v) =
    (let e4 = M r (l4_index v); e3 = M (entry_frame e4) (l3_index v);
         e2 = M (entry_frame e3) (l2_index v); e1 = M (entry_frame e2) (l1_index v)
     in if present e4 \<and> present e3 \<and> present e2 \<and> present e1 then Some (entry_frame e1) else None)"
  by (simp add: page_path_def node_def access.simps(2) Let_def)

lemma vmap_node:
  "l4_index v < 512 \<Longrightarrow> map_option fst (vmap m r (page_path v)) = node (mem m) r (page_path v)"
  using page_path_ok [of v] by (simp add: vmap_def node_def)

text \<open>The entry of a mapped page in the last table, and the tree without it.\<close>

lemma mapped_entry:
  assumes tree: "tree_ok M r S" and v: "l4_index v < 512"
    and pr: "present e4" "present e3" "present e2" "present e1"
    and e: "e4 = M r (l4_index v)" "e3 = M (entry_frame e4) (l3_index v)"
      "e2 = M (entry_frame e3) (l2_index v)" "e1 = M (entry_frame e2) (l1_index v)"
  shows "access M r [l4_index v, l3_index v, l2_index v] = Some (entry_frame e2, True, bit e2 1)"
    and "node M r (page_path v) = Some (entry_frame e1)" and "drop_bit 12 e1 = ucast (entry_frame e1)"
    and "entry_frame e1 \<in> S" and "get_mem_region (entry_frame e1) = Some USER_REG"
proof -
  have n2: "node M r [l4_index v, l3_index v] = Some (entry_frame e3)"
    using pr by (simp add: node_def access.simps(2) e)
  show acc: "access M r [l4_index v, l3_index v, l2_index v] = Some (entry_frame e2, True, bit e2 1)"
    using access_last [OF tree, of "[l4_index v, l3_index v]" "l2_index v"] n2 pr v by (simp add: e(3))
  show nf: "node M r (page_path v) = Some (entry_frame e1)" using pr by (simp add: node_path e Let_def)
  have "node M r [l4_index v, l3_index v, l2_index v] = Some (entry_frame e2)" using acc by (simp add: node_def)
  then show "drop_bit 12 e1 = ucast (entry_frame e1)"
    using tree_okD(6) [OF tree, of "[l4_index v, l3_index v, l2_index v]" "entry_frame e2" "l1_index v"] pr(4) v
    by (intro small_entry_frame) (simp add: e(4))
  show "entry_frame e1 \<in> S" and "get_mem_region (entry_frame e1) = Some USER_REG"
    using tree_ok_pages(1,2) [OF tree _ _ nf] page_path_ok [OF v] by simp_all
qed

lemma leaf_cleared:
  assumes tree: "tree_ok M r S" and v: "l4_index v < 512"
    and acc: "access M r [l4_index v, l3_index v, l2_index v] = Some (t, True, w)"
    and nf: "node M r (page_path v) = Some f"
  defines "M' \<equiv> M(t := (M t)(l1_index v := 0))"
  shows "tree_ok M' r (S - {f})"
    and "path_ok q \<Longrightarrow> length q = 4 \<Longrightarrow> access M' r q = (if q = page_path v then None else access M r q)"
proof -
  have path: "[l4_index v, l3_index v, l2_index v] @ [l1_index v] = page_path v" by (simp add: page_path_def)
  note le = leaf_entry [OF tree acc _ _ _, where e = 0 and i = "l1_index v" and S' = "S - {f}", unfolded path]
  show "tree_ok M' r (S - {f})"
    unfolding M'_def by (rule le(1)) (use v nf in \<open>auto simp: present_def\<close>)
  show "access M' r q = (if q = page_path v then None else access M r q)" if "path_ok q" "length q = 4"
    unfolding M'_def by (subst le(2)) (use v nf that in \<open>auto simp: present_def\<close>)
qed

lemma unmap_page_ok:
  assumes ok: "kernel_ok A used left n k" and v: "l4_index v < 512"
  defines "r \<equiv> lc_pgd (current k)"
  shows "\<exists>k'. unmap_page A r v k = Inr k' \<and> current k' = current k \<and> console k' = console k \<and>
    kernel_ok A used left n k' \<and> space_map k' = (space_map k)(page_path v := None) \<and>
    used (os (mach k')) = used (os (mach k)) - set_option (map_option fst (space_map k (page_path v)))"
proof -
  define M where "M = mem (mach k)"
  have A: "allocator_ok A used left" and tree: "tree_ok M r (used (os (mach k)))"
    and room: "4 * n \<le> left (os (mach k))"
    using ok by (simp_all add: space_ok_def M_def r_def)
  define e4 where "e4 = M r (l4_index v)"
  define e3 where "e3 = M (entry_frame e4) (l3_index v)"
  define e2 where "e2 = M (entry_frame e3) (l2_index v)"
  define e1 where "e1 = M (entry_frame e2) (l1_index v)"
  note es = e4_def e3_def e2_def e1_def
  have vm: "map_option fst (space_map k (page_path v)) = node M r (page_path v)"
    using vmap_node [OF v] by (simp add: M_def r_def)
  show ?thesis
  proof (cases "present e4 \<and> present e3 \<and> present e2 \<and> present e1")
    case False
    then have "unmap_page A r v k = Inr k"
      using v by (auto simp: unmap_page_def M_def [symmetric] es absent_iff present_def Let_def)
    moreover have "node M r (page_path v) = None" using False by (simp add: node_path es Let_def)
    then have "space_map k (page_path v) = None" using vm by simp
    ultimately show ?thesis using ok by (intro exI [of _ k]) (auto simp: fun_upd_idem)
  next
    case True
    then have pr: "present e4" "present e3" "present e2" "present e1" by simp_all
    let ?f = "entry_frame e1" and ?t = "entry_frame e2"
    note me = mapped_entry [OF tree v pr es] and lc = leaf_cleared [OF tree v me(1,2)]
    note free = allocator_okD(2) [OF A me(4,5)]
    define m' where "m' = set_entry ?t (l1_index v) 0
      ((mach k)\<lparr>os := os_pfn_free A USER_REG (ucast ?f) (os (mach k))\<rparr>)"
    define k' where "k' = k\<lparr>flushed := flushed k @ [v], mach := m'\<rparr>"
    have mem': "mem m' = M(?t := (M ?t)(l1_index v := 0))" by (simp add: m'_def M_def)
    have "unmap_page A r v k = Inr k'"
      using v True me(3)
      by (simp add: unmap_page_def M_def [symmetric] es absent_iff present_def Let_def k'_def m'_def)
    moreover have "kernel_ok A used left n k'"
      using A room free lc(1) [folded mem'] by (simp add: space_ok_def k'_def m'_def r_def)
    moreover have "space_map k' q = ((space_map k)(page_path v := None)) q" for q
      using lc(2) [of q, folded mem'] page_path_ok [OF v] by (auto simp: vmap_def k'_def M_def r_def)
    moreover have "used (os (mach k')) = used (os (mach k)) -
        set_option (map_option fst (space_map k (page_path v)))"
      unfolding vm me(2) using free by (simp add: k'_def m'_def)
    ultimately show ?thesis by (intro exI [of _ k']) (simp add: k'_def fun_eq_iff)
  qed
qed


section \<open>Shrinking\<close>

text \<open>The pages that shrinking by \<open>n\<close> gives up.\<close>

definition shrunk_pages :: "64 word \<Rightarrow> nat \<Rightarrow> nat list set" where
  "shrunk_pages nf n = (\<lambda>i. page_path (nf - word_of_nat (i * 4096))) ` {1 .. n}"

lemma shrink_loop:
  assumes ok: "kernel_ok A used left m k" and n: "n < 2 ^ 19"
    and idx: "\<And>i. 1 \<le> i \<Longrightarrow> i \<le> n \<Longrightarrow> l4_index (nf - word_of_nat (i * 4096)) < 512"
  defines "r \<equiv> lc_pgd (current k)"
  shows "\<exists>k'. rfold (shrink_round A r nf) [1 ..< Suc n] k = Inr k' \<and> current k' = current k \<and>
    console k' = console k \<and> kernel_ok A used left m k' \<and>
    space_map k' = (\<lambda>p. if p \<in> shrunk_pages nf n then None else space_map k p) \<and>
    used (os (mach k')) = used (os (mach k)) - {f. \<exists>p \<in> shrunk_pages nf n. map_option fst (space_map k p) = Some f}"
  using n idx
proof (induction n)
  case 0
  then show ?case using ok by (simp add: shrunk_pages_def)
next
  case (Suc n)
  obtain k1 where k1: "rfold (shrink_round A r nf) [1 ..< Suc n] k = Inr k1" "current k1 = current k"
      "console k1 = console k" "kernel_ok A used left m k1"
      "space_map k1 = (\<lambda>p. if p \<in> shrunk_pages nf n then None else space_map k p)"
      "used (os (mach k1)) = used (os (mach k)) -
         {f. \<exists>p \<in> shrunk_pages nf n. map_option fst (space_map k p) = Some f}"
    using Suc.IH Suc.prems by auto
  define v where "v = nf - word_of_nat (Suc n * 4096)"
  have v: "l4_index v < 512" using Suc.prems(2) [of "Suc n"] by (simp add: v_def)
  obtain k2 where k2: "unmap_page A (lc_pgd (current k1)) v k1 = Inr k2" "current k2 = current k1"
      "console k2 = console k1" "kernel_ok A used left m k2"
      "space_map k2 = (space_map k1)(page_path v := None)"
      "used (os (mach k2)) = used (os (mach k1)) - set_option (map_option fst (space_map k1 (page_path v)))"
    using unmap_page_ok [OF k1(4) v] by metis
  have pages: "shrunk_pages nf (Suc n) = insert (page_path v) (shrunk_pages nf n)"
    by (simp add: shrunk_pages_def atLeastAtMostSuc_conv v_def)
  have "[1 ..< Suc (Suc n)] = [1 ..< Suc n] @ [Suc n]" by simp
  moreover have "shrink_round A r nf (Suc n) k1 = Inr k2"
    using k2(1) k1(2) Suc.prems(1) by (simp add: shrink_round_def v_def r_def)
  ultimately have "rfold (shrink_round A r nf) [1 ..< Suc (Suc n)] k = Inr k2"
    using k1(1) by (simp only: rfold_append) simp
  moreover have "space_map k2 = (\<lambda>p. if p \<in> shrunk_pages nf (Suc n) then None else space_map k p)"
    unfolding k2(5) k1(5) pages by auto
  moreover have "used (os (mach k2)) = used (os (mach k)) -
      {f. \<exists>p \<in> shrunk_pages nf (Suc n). map_option fst (space_map k p) = Some f}"
    unfolding k2(6) k1(6) pages by (auto simp: k1(5))
  ultimately show ?case using k2(2,3,4) k1(2,3) by (intro exI [of _ k2]) simp
qed

text \<open>Below \<open>2 ^ 48\<close> the top index is in range.\<close>

lemma l4_index_low:
  assumes "unat v < 2 ^ 48"
  shows "l4_index v < 512"
proof -
  have "unat (drop_bit 39 v) = unat v div 2 ^ 39"
    by (simp add: drop_bit_eq_div unat_div)
  also have "\<dots> < 512" using assms by (simp add: div_less_iff_less_mult)
  finally have "unat (drop_bit 39 v) < 512" .
  then show ?thesis by (simp add: l4_index_def unat_ucast_64_32)
qed

lemma unat_size_bytes:
  assumes "unat n < 2 ^ 20"
  shows "unat (size_bytes n) = unat n * 4096"
proof -
  have "unat (n * 4096) = unat n * 4096"
    using assms by (simp add: unat_mult_lem [THEN iffD1])
  then show ?thesis by (simp add: size_bytes_def unat_ucast_32_64)
qed

lemma size_bytes_nat:
  assumes "unat w = n" and "n < 2 ^ 20"
  shows "size_bytes w = word_of_nat (n * 4096)"
proof -
  have "n * 4096 < 2 ^ 64" using assms(2) by simp
  then have "unat (size_bytes w) = unat (word_of_nat (n * 4096) :: 64 word)"
    using unat_size_bytes [of w] assms by (simp only: unat_small_64)
  then show ?thesis by (simp only: word_unat_eq_iff)
qed

lemma page_below:
  fixes nf :: "64 word"
  assumes "i * 4096 \<le> unat nf"
  shows "unat (nf - word_of_nat (i * 4096)) = unat nf - i * 4096"
proof -
  have "i * 4096 < 2 ^ 64" using assms unat_less_64 [of nf] by linarith
  then have w: "unat (word_of_nat (i * 4096) :: 64 word) = i * 4096" by (rule unat_small_64)
  have "word_of_nat (i * 4096) \<le> nf" unfolding word_le_nat_alt w by (rule assms)
  then show ?thesis by (simp only: unat_sub w)
qed

text \<open>
  Shrinking by \<open>n\<close> pages that the segment has: exactly the pages of the range given up are
  unmapped, their frames are released, and \<open>next_free\<close> moves back.
\<close>

lemma shrink_ok:
  fixes param1 param2 :: "64 word"
  assumes ok: "kernel_ok A used left m k" and n: "unat (ucast param1 :: 32 word) = n" "n < 2 ^ 19"
  defines "g \<equiv> flag_segment (ucast param2)"
  defines "nf \<equiv> next_free (lc_mms (current k) g)"
  assumes inside: "unat (seg_start (lc_mms (current k) g)) + n * 4096 \<le> unat nf" and low: "unat nf < 2 ^ 48"
  shows "\<exists>k'. syscall_shrink A param1 param2 k = Inr (nf - word_of_nat (n * 4096), k') \<and>
    next_free (lc_mms (current k') g) = nf - word_of_nat (n * 4096) \<and>
    (\<forall>g'. g' \<noteq> g \<longrightarrow> lc_mms (current k') g' = lc_mms (current k) g') \<and> lc_pgd (current k') = lc_pgd (current k) \<and>
    console k' = console k \<and>
    current k' = current (set_next_free g (nf - word_of_nat (n * 4096)) k) \<and> kernel_ok A used left m k' \<and>
    space_map k' = (\<lambda>p. if p \<in> shrunk_pages nf n then None else space_map k p) \<and>
    used (os (mach k')) = used (os (mach k)) - {f. \<exists>p \<in> shrunk_pages nf n. map_option fst (space_map k p) = Some f}"
proof -
  have size: "size_bytes (ucast param1) = word_of_nat (n * 4096)"
    by (rule size_bytes_nat [OF n(1)]) (use n(2) in simp)
  have "l4_index (nf - word_of_nat (i * 4096)) < 512" if "i \<le> n" for i
  proof (rule l4_index_low)
    have "i * 4096 \<le> unat nf" using inside that by (meson add_leD2 mult_le_mono1 order_trans)
    then show "unat (nf - word_of_nat (i * 4096)) < 2 ^ 48"
      unfolding page_below [OF \<open>i * 4096 \<le> unat nf\<close>] using low by linarith
  qed
  then obtain k1 where k1: "rfold (shrink_round A (lc_pgd (current k)) nf) [1 ..< Suc n] k = Inr k1"
      "current k1 = current k" "console k1 = console k" "kernel_ok A used left m k1"
      "space_map k1 = (\<lambda>p. if p \<in> shrunk_pages nf n then None else space_map k p)"
      "used (os (mach k1)) = used (os (mach k)) -
         {f. \<exists>p \<in> shrunk_pages nf n. map_option fst (space_map k p) = Some f}"
    using shrink_loop [OF ok n(2), of nf] by blast
  have "\<not> nf - word_of_nat (n * 4096) < seg_start (lc_mms (current k) g)"
    unfolding word_less_nat_alt using page_below [of n nf] inside by simp
  then have "syscall_shrink A param1 param2 k =
      Inr (nf - word_of_nat (n * 4096), set_next_free g (nf - word_of_nat (n * 4096)) k1)"
    using k1(1) n(1) unfolding syscall_shrink_def Let_def g_def [symmetric] nf_def [symmetric] size by simp
  then show ?thesis
    using k1 by (intro exI [of _ "set_next_free g (nf - word_of_nat (n * 4096)) k1"])
      (simp add: set_next_free_def)
qed

section \<open>Expanding\<close>

lemma expand_result:
  fixes param1 param2 :: "64 word"
  defines "g \<equiv> flag_segment (ucast param2)" and "n \<equiv> unat (ucast param1 :: 32 word)"
  assumes wrap: "unat (next_free (lc_mms (current k) g)) + 2 ^ 21 < 2 ^ 64"
    and pos: "0 < unat (next_free (lc_mms (current k) g))"
  shows "syscall_expand param1 param2 k =
    (let nf = next_free (lc_mms (current k) g) in
     if n \<le> 512 \<and> unat nf + n * 4096 \<le> unat (seg_end (lc_mms (current k) g)) + 1
     then (nf, set_next_free g (nf + word_of_nat (n * 4096)) k) else (0, k))"
proof -
  define nf where "nf = next_free (lc_mms (current k) g)"
  have small: "512 < (ucast param1 :: 32 word) \<longleftrightarrow> \<not> n \<le> 512"
    unfolding n_def by (simp add: word_less_nat_alt not_le)
  show ?thesis
  proof (cases "n \<le> 512")
    case False
    then show ?thesis using small by (simp add: syscall_expand_def Let_def)
  next
    case True
    have size: "size_bytes (ucast param1) = word_of_nat (n * 4096)"
      by (rule size_bytes_nat) (use True n_def in simp_all)
    have u: "unat (word_of_nat (n * 4096) :: 64 word) = n * 4096"
      by (rule unat_small_64) (use True in simp)
    have "unat nf + n * 4096 < 2 ^ 64" using wrap True by (simp add: nf_def)
    then have sum: "unat (nf + word_of_nat (n * 4096)) = unat nf + n * 4096"
      using unat_add_lem [of nf "word_of_nat (n * 4096)"] u by simp
    have "nf + word_of_nat (n * 4096) \<noteq> 0" using sum pos by (auto simp: nf_def)
    then have "unat (nf + word_of_nat (n * 4096) - 1) = unat nf + n * 4096 - 1"
      using sum by (simp add: unat_minus_one)
    then have "seg_end (lc_mms (current k) g) < nf + word_of_nat (n * 4096) - 1 \<longleftrightarrow>
        \<not> unat nf + n * 4096 \<le> unat (seg_end (lc_mms (current k) g)) + 1"
      using pos by (auto simp: word_less_nat_alt nf_def)
    then show ?thesis
      using small True size
      by (simp add: syscall_expand_def Let_def g_def [symmetric] nf_def)
  qed
qed

section \<open>Writing\<close>

lemma walk_check_node:
  "l4_index v < 512 \<Longrightarrow> walk_check m r v = Inr (node (mem m) r (page_path v) \<noteq> None)"
  by (simp add: walk_check_def node_path absent_iff Let_def)

lemma user_byte_mapped:
  assumes "l4_index v < 512" and "node (mem m) r (page_path v) = Some f"
  shows "user_byte m r v = Inr (ucast (drop_bit (8 * (unat v mod 4096 mod 8)) (mem m f (unat v mod 4096 div 8))))"
  using assms by (auto simp: user_byte_def node_def Let_def)

text \<open>Two addresses of one page have one path.\<close>

lemma same_page:
  assumes "unat v div 4096 = unat w div 4096"
  shows "page_path v = page_path w"
proof -
  have "unat (drop_bit 12 v) = unat (drop_bit 12 w)"
    using assms by (simp add: drop_bit_eq_div unat_div)
  then have eq: "drop_bit 12 v = drop_bit 12 w" by (simp only: word_unat_eq_iff)
  have "drop_bit (n + 12) v = drop_bit (n + 12) w" for n
    using arg_cong [OF eq, of "drop_bit n"] by (simp add: drop_bit_drop_bit)
  from this [of 9] this [of 18] this [of 27] eq show ?thesis
    by (simp add: page_path_def l1_index_def l2_index_def l3_index_def l4_index_def)
qed

lemma print_loop:
  assumes "\<And>i. i < n \<Longrightarrow> user_byte (mach k) (lc_pgd (current k)) (buff + word_of_nat i) = Inr (b i)"
  shows "rfold (print_byte buff) [0 ..< n] k = Inr (k\<lparr>console := console k @ map (Byte \<circ> b) [0 ..< n]\<rparr>)"
  using assms
proof (induction n)
  case 0
  then show ?case by simp
next
  case (Suc n)
  then have "rfold (print_byte buff) [0 ..< n] k = Inr (k\<lparr>console := console k @ map (Byte \<circ> b) [0 ..< n]\<rparr>)"
    by simp
  moreover have "[0 ..< Suc n] = [0 ..< n] @ [n]" by simp
  ultimately show ?case
    using Suc.prems [of n] by (simp only: rfold_append) (simp add: print_byte_def)
qed

section \<open>Sequences of faults\<close>

text \<open>The handler run on one fault after the other, the registers of each run given to the next.\<close>

fun fault_sequence ::
    "('o, 'z) kernel_ops_scheme \<Rightarrow> ((gpr \<Rightarrow> 64 word) \<Rightarrow> gpr \<Rightarrow> 64 word) \<Rightarrow> 64 word \<Rightarrow>
     (64 word \<times> 64 word) list \<Rightarrow> (gpr \<Rightarrow> 64 word) \<times> 64 word list \<Rightarrow> 'o kernel \<Rightarrow>
     (((gpr \<Rightarrow> 64 word) \<times> 64 word list) option \<times> 'o kernel) res" where
  "fault_sequence A body rip [] rs k = Inr (Some rs, k)"
| "fault_sequence A body rip ((v, ec) # fs) rs k =
     rbind (handle_page_fault A body v ec rip (fst rs) (snd rs) k)
       (\<lambda>(r, k'). case r of None \<Rightarrow> Inr (None, k') | Some rs' \<Rightarrow> fault_sequence A body rip fs rs' k')"

lemma check_present_mach [simp]: "check_present v (k\<lparr>mach := m\<rparr>) = check_present v k"
  by (simp add: check_present_def)

lemma fault_segment_mach [simp]: "fault_segment v (k\<lparr>mach := m\<rparr>) = fault_segment v k"
  by (simp add: fault_segment_def)

lemma legal_fault_mach [simp]: "legal_fault v ec (k\<lparr>mach := m\<rparr>) = legal_fault v ec k"
  by (simp add: legal_fault_def)

lemma fault_sequence_pages:
  assumes "\<forall>(v, ec) \<in> set fs. legal_fault v ec k"
    and "rfold (\<lambda>(flag, v). map_page F (fresh_leaf F) flag (lc_pgd (current k)) v)
      (map (\<lambda>(v, ec). (access_flags (fault_segment v k), v)) fs) (mach k) = Inr m'"
    and F: "F = frame_ops.truncate A"
  shows "fault_sequence A body rip fs (regs, stack) k = Inr (Some (regs, stack), k\<lparr>mach := m'\<rparr>)"
  using assms(1,2)
proof (induction fs arbitrary: k)
  case Nil
  then show ?case by simp
next
  case (Cons f fs)
  obtain v ec where f: "f = (v, ec)" by (cases f)
  obtain m1 where m1: "map_page F (fresh_leaf F) (access_flags (fault_segment v k)) (lc_pgd (current k)) v (mach k) = Inr m1"
    and rest: "rfold (\<lambda>(flag, v). map_page F (fresh_leaf F) flag (lc_pgd (current k)) v)
      (map (\<lambda>(v, ec). (access_flags (fault_segment v k), v)) fs) m1 = Inr m'"
    using Cons.prems(2) f by (auto simp: run_simps)
  have "handle_page_fault A body v ec rip regs stack k = Inr (Some (regs, stack), k\<lparr>mach := m1\<rparr>)"
    using legal_fault_run [OF _ m1 F] Cons.prems(1) f by simp
  moreover have "fault_sequence A body rip fs (regs, stack) (k\<lparr>mach := m1\<rparr>) =
      Inr (Some (regs, stack), k\<lparr>mach := m1, mach := m'\<rparr>)"
    using Cons.IH [of "k\<lparr>mach := m1\<rparr>"] Cons.prems(1) rest by (auto simp: f)
  ultimately show ?case by (simp add: f)
qed

lemma fault_sequence_ok:
  assumes ok: "kernel_ok (frame_ops.truncate A) used left (length fs + n) k"
    and legal: "\<forall>(v, ec) \<in> set fs. legal_fault v ec k"
  shows "\<exists>k'. fault_sequence A body rip fs (regs, stack) k = Inr (Some (regs, stack), k') \<and>
    kernel_ok (frame_ops.truncate A) used left n k' \<and> current k' = current k \<and> console k' = console k \<and>
    (\<forall>p. space_map k' p \<noteq> None \<longleftrightarrow> space_map k p \<noteq> None \<or> p \<in> page_path ` fst ` set fs) \<and>
    (\<forall>p. space_map k p \<noteq> None \<longrightarrow> space_map k' p = space_map k p)"
proof -
  let ?reqs = "map (\<lambda>(v, ec). (access_flags (fault_segment v k), v)) fs"
  have len: "length ?reqs + n = length fs + n" by simp
  have idx: "\<forall>(flag, v) \<in> set ?reqs. l4_index v < 512"
    using legal by (auto simp: legal_fault_def)
  have pages: "snd ` set ?reqs = fst ` set fs" by force
  note all = pages.map_all [of "frame_ops.truncate A" used left "lc_pgd (current k)" ?reqs n "mach k",
      unfolded len, OF ok idx, unfolded pages]
  then obtain m' where m': "rfold (\<lambda>(flag, v). map_page (frame_ops.truncate A)
      (fresh_leaf (frame_ops.truncate A)) flag (lc_pgd (current k)) v) ?reqs (mach k) = Inr m'"
      "space_ok (frame_ops.truncate A) used left (lc_pgd (current k)) n m'"
      "\<forall>p. vmap m' (lc_pgd (current k)) p \<noteq> None \<longleftrightarrow>
        space_map k p \<noteq> None \<or> p \<in> page_path ` fst ` set fs"
      "\<forall>p. space_map k p \<noteq> None \<longrightarrow> vmap m' (lc_pgd (current k)) p = space_map k p"
    by blast
  show ?thesis
    using fault_sequence_pages [OF legal m'(1) refl] m'(2-4)
    by (intro exI [of _ "k\<lparr>mach := m'\<rparr>"]) simp
qed

section \<open>A process that uses its memory\<close>

text \<open>
  What the processor does with an access (\<open>True\<close> for a write) to address \<open>v\<close> in user mode:
  \<open>None\<close> if it goes through, otherwise the error code it faults with.
\<close>

definition mmu_fault :: "bool \<Rightarrow> 64 word \<Rightarrow> 'o kernel \<Rightarrow> 64 word option" where
  "mmu_fault wr v k =
     (case space_map k (page_path v) of
        None \<Rightarrow> Some (if wr then 6 else 4)
      | Some (f, u, w) \<Rightarrow> if u \<and> (wr \<longrightarrow> w) then None else Some (if wr then 7 else 5))"

text \<open>
  A process is the accesses it still makes and its registers, or has been ended. After a
  fault that the handler resolves, the access is made again.
\<close>

datatype process =
    Running "(bool \<times> 64 word) list" "gpr \<Rightarrow> 64 word" "64 word list"
  | Killed

inductive proc_step ::
    "('o, 'z) kernel_ops_scheme \<Rightarrow> ((gpr \<Rightarrow> 64 word) \<Rightarrow> gpr \<Rightarrow> 64 word) \<Rightarrow>
     process \<times> 'o kernel \<Rightarrow> process \<times> 'o kernel \<Rightarrow> bool"
  for A body where
  hit: "mmu_fault wr v k = None \<Longrightarrow>
    proc_step A body (Running ((wr, v) # acc) regs stack, k) (Running acc regs stack, k)"
| resolved: "mmu_fault wr v k = Some ec \<Longrightarrow>
    handle_page_fault A body v ec rip regs stack k = Inr (Some (regs', stack'), k') \<Longrightarrow>
    proc_step A body (Running ((wr, v) # acc) regs stack, k) (Running ((wr, v) # acc) regs' stack', k')"
| killed: "mmu_fault wr v k = Some ec \<Longrightarrow>
    handle_page_fault A body v ec rip regs stack k = Inr (None, k') \<Longrightarrow>
    proc_step A body (Running ((wr, v) # acc) regs stack, k) (Killed, k')"

inductive_cases proc_step_accessE: "proc_step A body (Running ((wr, v) # acc) regs stack, k) s"

inductive_simps proc_step_done: "proc_step A body (Running [] regs stack, k) s"

text \<open>The accesses that the segments of the process allow.\<close>

definition allowed :: "lazy_context \<Rightarrow> 'o kernel \<Rightarrow> bool \<times> 64 word \<Rightarrow> bool" where
  "allowed c k = (\<lambda>(wr, v). current k = c \<and> l4_index v < 512 \<and> check_present v k \<noteq> -1 \<and>
     (wr \<longrightarrow> check_present v k \<noteq> 2 \<and> bit (access_flags (fault_segment v k)) 1))"

text \<open>The pages already mapped allow what the segments allow.\<close>

definition grants :: "'o kernel \<Rightarrow> bool" where
  "grants k \<longleftrightarrow> (\<forall>wr v f u w. allowed (current k) k (wr, v) \<longrightarrow>
     space_map k (page_path v) = Some (f, u, w) \<longrightarrow> u \<and> (wr \<longrightarrow> w))"

text \<open>No page lies in two segments.\<close>

definition segments_apart :: "'o kernel \<Rightarrow> bool" where
  "segments_apart k \<longleftrightarrow> (\<forall>v v'. check_present v k \<noteq> -1 \<longrightarrow> check_present v' k \<noteq> -1 \<longrightarrow>
     page_path v = page_path v' \<longrightarrow> check_present v k = check_present v' k)"

lemma same_current:
  assumes "current k' = current k"
  shows "check_present v k' = check_present v k" "fault_segment v k' = fault_segment v k"
    "allowed (current k') k' a = allowed (current k) k a" "segments_apart k' = segments_apart k"
  using assms by (auto simp: check_present_def fault_segment_def allowed_def segments_apart_def
      split: prod.splits)

lemma allowed_access:
  assumes ok: "kernel_ok (frame_ops.truncate A) used left (Suc n) k" and g: "grants k"
    and apart: "segments_apart k" and al: "allowed (current k) k (wr, v)"
  shows "mmu_fault wr v k = None \<or>
    (\<exists>ec k'. mmu_fault wr v k = Some ec \<and>
      (\<forall>rip regs stack. handle_page_fault A body v ec rip regs stack k = Inr (Some (regs, stack), k')) \<and>
      kernel_ok (frame_ops.truncate A) used left n k' \<and> current k' = current k \<and> console k' = console k \<and>
      grants k' \<and> mmu_fault wr v k' = None)"
proof (cases "space_map k (page_path v)")
  case (Some e)
  obtain f u w where e: "e = (f, u, w)" by (cases e)
  have "u \<and> (wr \<longrightarrow> w)" using g al Some e unfolding grants_def by blast
  then have "mmu_fault wr v k = None" using Some e by (simp add: mmu_fault_def)
  then show ?thesis ..
next
  case None
  let ?ec = "if wr then 6 else 4 :: 64 word" and ?fl = "access_flags (fault_segment v k)"
  let ?F = "frame_ops.truncate A"
  have "?ec AND 1 \<noteq> 1" and "\<not> wr \<Longrightarrow> ?ec AND 2 \<noteq> 2" by simp_all
  then have legal: "legal_fault v ?ec k" using al by (auto simp: legal_fault_def allowed_def)
  have v: "l4_index v < 512" using al by (simp add: allowed_def)
  obtain a m' where m': "map_page ?F (fresh_leaf ?F) ?fl (lc_pgd (current k)) v (mach k) = Inr m'"
      "space_ok ?F used left (lc_pgd (current k)) n m'"
      "vmap m' (lc_pgd (current k)) = (space_map k)(page_path v := Some (a, True, bit ?fl 1))"
    using map_page_fresh [OF ok v None, of ?fl] by blast
  let ?k = "k\<lparr>mach := m'\<rparr>"
  have "grants ?k"
    unfolding grants_def
  proof (intro allI impI)
    fix wr' v' f u w
    assume a': "allowed (current ?k) ?k (wr', v')" and e: "space_map ?k (page_path v') = Some (f, u, w)"
    have al': "allowed (current k) k (wr', v')" using a' same_current(3) [of ?k k] by simp
    show "u \<and> (wr' \<longrightarrow> w)"
    proof (cases "page_path v' = page_path v")
      case True
      then have "check_present v' k = check_present v k"
        using apart al al' by (simp add: segments_apart_def allowed_def)
      then have "fault_segment v' k = fault_segment v k" by (simp add: fault_segment_def)
      then show ?thesis using True e m'(3) al' by (auto simp: allowed_def)
    next
      case False
      then have "space_map k (page_path v') = Some (f, u, w)" using e m'(3) by simp
      with g al' show ?thesis unfolding grants_def by blast
    qed
  qed
  moreover have "mmu_fault wr v ?k = None" using m'(3) al by (auto simp: mmu_fault_def allowed_def)
  moreover have "mmu_fault wr v k = Some ?ec" using None by (simp add: mmu_fault_def)
  ultimately show ?thesis
    using legal_fault_run [OF legal m'(1) refl] m'(2)
    by (intro disjI2 exI [of _ ?ec] exI [of _ ?k]) simp
qed

lemma kernel_ok_less: "kernel_ok A used left n k \<Longrightarrow> m \<le> n \<Longrightarrow> kernel_ok A used left m k"
  by (auto simp: space_ok_def)

text \<open>
  What holds all along a run of allowed accesses: the process is running with its registers,
  and there are frames for the accesses left, except that the next one may be resolved
  already.
\<close>

definition on_track ::
    "('o, 'z) kernel_ops_scheme \<Rightarrow> ('o \<Rightarrow> pfn set) \<Rightarrow> ('o \<Rightarrow> nat) \<Rightarrow> (gpr \<Rightarrow> 64 word) \<Rightarrow> 64 word list \<Rightarrow>
     'o kernel \<Rightarrow> process \<times> 'o kernel \<Rightarrow> bool" where
  "on_track A used left regs stack k0 = (\<lambda>(p, k). \<exists>acc. p = Running acc regs stack \<and>
     current k = current k0 \<and> console k = console k0 \<and> grants k \<and>
     (\<forall>a \<in> set acc. allowed (current k) k a) \<and>
     (kernel_ok (frame_ops.truncate A) used left (length acc) k \<or>
      (\<exists>wr v rest. acc = (wr, v) # rest \<and> mmu_fault wr v k = None \<and>
        kernel_ok (frame_ops.truncate A) used left (length rest) k)))"

lemma on_track_step:
  assumes t: "on_track A used left regs stack k0 s" and apart: "segments_apart k0"
    and step: "proc_step A body s s'"
  shows "on_track A used left regs stack k0 s'"
proof -
  let ?F = "frame_ops.truncate A"
  obtain acc k where s: "s = (Running acc regs stack, k)" and cur: "current k = current k0"
    and con: "console k = console k0" and g: "grants k"
    and al: "\<forall>a \<in> set acc. allowed (current k) k a"
    and fr: "kernel_ok ?F used left (length acc) k \<or> (\<exists>wr v rest. acc = (wr, v) # rest \<and>
      mmu_fault wr v k = None \<and> kernel_ok ?F used left (length rest) k)"
    using t by (auto simp: on_track_def)
  have ap: "segments_apart k" using apart same_current(4) [OF cur] by simp
  obtain wr v rest where acc: "acc = (wr, v) # rest"
    using step unfolding s by (cases acc) (auto simp: proc_step_done)
  have rest: "kernel_ok ?F used left (length rest) k"
    using fr acc by (auto intro: kernel_ok_less)
  have hd: "allowed (current k) k (wr, v)" using al acc by simp
  from step [unfolded s acc] consider
    "mmu_fault wr v k = None" "s' = (Running rest regs stack, k)"
  | ec rip regs' stack' k' where "s' = (Running ((wr, v) # rest) regs' stack', k')"
      "mmu_fault wr v k = Some ec" "handle_page_fault A body v ec rip regs stack k = Inr (Some (regs', stack'), k')"
  | ec rip k' where "s' = (Killed, k')" "mmu_fault wr v k = Some ec"
      "handle_page_fault A body v ec rip regs stack k = Inr (None, k')"
    by (rule proc_step_accessE) blast+
  then show ?thesis
  proof cases
    case 1
    then show ?thesis using rest cur con g al acc by (auto simp: on_track_def)
  next
    case (2 ec rip regs' stack' k')
    then have "kernel_ok ?F used left (Suc (length rest)) k" using fr acc by auto
    from allowed_access [OF this g ap hd, where body = body] 2(2)
    obtain k1 where k1: "\<forall>rip regs stack. handle_page_fault A body v ec rip regs stack k = Inr (Some (regs, stack), k1)"
        "kernel_ok ?F used left (length rest) k1" "current k1 = current k" "console k1 = console k"
        "grants k1" "mmu_fault wr v k1 = None"
      by auto
    have "s' = (Running ((wr, v) # rest) regs stack, k1)"
      using 2 k1(1) by simp
    moreover have "\<forall>a \<in> set acc. allowed (current k1) k1 a" using al same_current(3) [OF k1(3)] by simp
    ultimately show ?thesis using k1 cur con acc by (auto simp: on_track_def)
  next
    case (3 ec rip k')
    then have "kernel_ok ?F used left (Suc (length rest)) k" using fr acc by auto
    from allowed_access [OF this g ap hd, where body = body] 3(2,3) show ?thesis by auto
  qed
qed

lemma on_track_runs:
  assumes t: "on_track A used left regs stack k0 (Running acc regs stack, k)" and apart: "segments_apart k0"
  shows "\<exists>k'. (proc_step A body)\<^sup>*\<^sup>* (Running acc regs stack, k) (Running [] regs stack, k')"
  using t
proof (induction acc arbitrary: k)
  case Nil
  then show ?case by blast
next
  case (Cons a rest)
  obtain wr v where a: "a = (wr, v)" by (cases a)
  have hit: "\<exists>k'. (proc_step A body)\<^sup>*\<^sup>* (Running (a # rest) regs stack, k1) (Running [] regs stack, k')"
    if "mmu_fault wr v k1 = None" and "on_track A used left regs stack k0 (Running (a # rest) regs stack, k1)" for k1
  proof -
    have st: "proc_step A body (Running (a # rest) regs stack, k1) (Running rest regs stack, k1)"
      unfolding a by (rule proc_step.hit [OF that(1)])
    from Cons.IH [OF on_track_step [OF that(2) apart st]] st show ?thesis
      by (meson converse_rtranclp_into_rtranclp)
  qed
  show ?case
  proof (cases "mmu_fault wr v k")
    case None
    then show ?thesis using hit Cons.prems by blast
  next
    case (Some ec)
    have cur: "current k = current k0" and g: "grants k" and al: "allowed (current k) k (wr, v)"
      and fr: "kernel_ok (frame_ops.truncate A) used left (Suc (length rest)) k"
      using Cons.prems Some a by (auto simp: on_track_def)
    have ap: "segments_apart k" using apart same_current(4) [OF cur] by simp
    obtain k1 where k1: "handle_page_fault A body v ec 0 regs stack k = Inr (Some (regs, stack), k1)"
        "mmu_fault wr v k1 = None"
      using allowed_access [OF fr g ap al, where body = body] Some by auto
    have st: "proc_step A body (Running (a # rest) regs stack, k) (Running (a # rest) regs stack, k1)"
      unfolding a by (rule proc_step.resolved [OF Some k1(1)])
    from hit [OF k1(2) on_track_step [OF Cons.prems apart st]] st show ?thesis
      by (meson converse_rtranclp_into_rtranclp)
  qed
qed

lemma process_run:
  assumes ok: "kernel_ok (frame_ops.truncate A) used left (length acc) k" and g: "grants k"
    and apart: "segments_apart k" and al: "\<forall>a \<in> set acc. allowed (current k) k a"
    and reach: "(proc_step A body)\<^sup>*\<^sup>* (Running acc regs stack, k) (p, k1)"
  shows "\<exists>acc'. p = Running acc' regs stack \<and> current k1 = current k \<and> console k1 = console k \<and>
    (\<exists>k'. (proc_step A body)\<^sup>*\<^sup>* (p, k1) (Running [] regs stack, k'))"
proof -
  have "on_track A used left regs stack k (Running acc regs stack, k)"
    using ok g al by (simp add: on_track_def)
  with reach have t: "on_track A used left regs stack k (p, k1)"
    by (induction rule: rtranclp_induct) (use apart in \<open>auto intro: on_track_step\<close>)
  then obtain acc' where p: "p = Running acc' regs stack" by (auto simp: on_track_def)
  then show ?thesis using on_track_runs [OF t [unfolded p] apart] t by (auto simp: on_track_def)
qed

section \<open>Writes and oversized shrinks\<close>

text \<open>The bytes of a buffer of at most 1024 lie in the page of its first or of its last byte.\<close>

lemma buffer_pages:
  fixes buff :: "64 word"
  assumes "0 < n" and "n \<le> 1024" and "i < n" and "unat buff + n \<le> 2 ^ 48"
  shows "unat (buff + word_of_nat i) = unat buff + i"
    and "page_path (buff + word_of_nat i) \<in> {page_path buff, page_path (buff + word_of_nat n - 1)}"
proof -
  have at: "unat (buff + word_of_nat j) = unat buff + j" if "j \<le> n" for j
  proof -
    have "unat (word_of_nat j :: 64 word) = j" by (rule unat_small_64) (use that assms(2) in simp)
    moreover have "unat buff + j < 2 ^ 64" using that assms(4) by simp
    ultimately show ?thesis using unat_add_lem [of buff "word_of_nat j"] by simp
  qed
  show "unat (buff + word_of_nat i) = unat buff + i" using at assms(3) by simp
  have "buff + word_of_nat n \<noteq> 0" using at [of n] assms(1) by auto
  then have last: "unat (buff + word_of_nat n - 1) = unat buff + n - 1"
    using at [of n] by (simp add: unat_minus_one)
  have "(unat buff + i) div 4096 = unat buff div 4096 \<or> (unat buff + i) div 4096 = (unat buff + n - 1) div 4096"
  proof -
    have "unat buff div 4096 \<le> (unat buff + i) div 4096"
      "(unat buff + i) div 4096 \<le> (unat buff + n - 1) div 4096"
      "(unat buff + n - 1) div 4096 \<le> (unat buff + 4096) div 4096"
      by (rule div_le_mono, use assms(1-3) in linarith)+
    moreover have "(unat buff + 4096) div 4096 = Suc (unat buff div 4096)" by simp
    ultimately show ?thesis by linarith
  qed
  then show "page_path (buff + word_of_nat i) \<in> {page_path buff, page_path (buff + word_of_nat n - 1)}"
    using same_page [of "buff + word_of_nat i" buff] same_page [of "buff + word_of_nat i" "buff + word_of_nat n - 1"]
      at [of i] assms(3) last by auto
qed

lemma write_ok:
  fixes buff len :: "64 word"
  defines "n \<equiv> unat (ucast len :: 32 word)"
  assumes n: "0 < n" "n \<le> 1024" and low: "unat buff + n \<le> 2 ^ 48"
    and mapped: "\<forall>v \<in> {buff, buff + word_of_nat n - 1}. node (mem (mach k)) (lc_pgd (current k)) (page_path v) \<noteq> None"
  shows "\<exists>bs. length bs = n \<and>
    (\<forall>i < n. user_byte (mach k) (lc_pgd (current k)) (buff + word_of_nat i) = Inr (bs ! i)) \<and>
    syscall_write buff len k = Inr (syscall_expand buff len (k\<lparr>console := console k @ map Byte bs\<rparr>))"
proof -
  let ?p = "lc_pgd (current k)" and ?last = "buff + word_of_nat n - 1"
  define b where "b = (\<lambda>i. projr (user_byte (mach k) ?p (buff + word_of_nat i)))"
  have byte: "user_byte (mach k) ?p (buff + word_of_nat i) = Inr (b i)" if "i < n" for i
  proof -
    note pg = buffer_pages [OF n that low]
    have v: "l4_index (buff + word_of_nat i) < 512"
      by (rule l4_index_low) (use pg(1) that low in linarith)
    obtain f where "node (mem (mach k)) ?p (page_path (buff + word_of_nat i)) = Some f"
      using pg(2) mapped by auto
    from user_byte_mapped [OF v this] show ?thesis by (simp add: b_def)
  qed
  define bs where "bs = map b [0 ..< n]"
  have loop: "rfold (print_byte buff) [0 ..< n] k = Inr (k\<lparr>console := console k @ map Byte bs\<rparr>)"
    using print_loop [of n k buff b] byte by (simp add: bs_def)
  have len: "ucast (ucast len :: 32 word) = (word_of_nat n :: 64 word)" by (simp add: n_def)
  have small: "\<not> (1024 :: 32 word) < ucast len" using n(2) by (simp add: word_less_nat_alt n_def)
  have first: "buff + word_of_nat 0 = buff" and end': "buff + word_of_nat (n - 1) = ?last"
    using n(1) by (simp_all add: of_nat_diff)
  have "l4_index buff < 512" by (rule l4_index_low) (use low n in linarith)
  moreover have "l4_index ?last < 512"
  proof (rule l4_index_low)
    have "unat (buff + word_of_nat (n - 1)) = unat buff + (n - 1)"
      by (rule buffer_pages(1) [OF n _ low]) (use n in simp)
    then show "unat ?last < 2 ^ 48" unfolding end' using low n by linarith
  qed
  ultimately have "walk_check (mach k) ?p buff = Inr True" "walk_check (mach k) ?p ?last = Inr True"
    using mapped by (simp_all add: walk_check_node)
  then have "syscall_write buff len k = Inr (syscall_expand buff len (k\<lparr>console := console k @ map Byte bs\<rparr>))"
    using small loop unfolding syscall_write_def Let_def len n_def [symmetric] by simp
  then show ?thesis using byte by (intro exI [of _ bs]) (simp add: bs_def)
qed

text \<open>A page of the buffer that is absent: nothing is printed.\<close>

lemma write_refused:
  fixes buff len :: "64 word"
  defines "n \<equiv> unat (ucast len :: 32 word)"
  assumes n: "0 < n" "n \<le> 1024" and low: "unat buff + n \<le> 2 ^ 48"
    and absent: "\<exists>v \<in> {buff, buff + word_of_nat n - 1}. node (mem (mach k)) (lc_pgd (current k)) (page_path v) = None"
  shows "syscall_write buff len k = Inr (- 1, k)"
proof -
  let ?p = "lc_pgd (current k)" and ?last = "buff + word_of_nat n - 1"
  have len: "ucast (ucast len :: 32 word) = (word_of_nat n :: 64 word)" by (simp add: n_def)
  have small: "\<not> (1024 :: 32 word) < ucast len" using n(2) by (simp add: word_less_nat_alt n_def)
  have end': "buff + word_of_nat (n - 1) = ?last" using n(1) by (simp add: of_nat_diff)
  have at: "unat (buff + word_of_nat (n - 1)) = unat buff + (n - 1)"
    by (rule buffer_pages(1) [OF n _ low]) (use n in simp)
  have idx: "l4_index buff < 512" by (rule l4_index_low) (use low n in linarith)
  have idx': "l4_index ?last < 512"
    unfolding end' [symmetric] by (rule l4_index_low) (use low n at in linarith)
  have "page_path ?last = page_path buff" if "\<not> buff div 4096 < ?last div 4096"
  proof (rule same_page)
    have "\<not> unat buff div 4096 < (unat buff + (n - 1)) div 4096"
      using that at unfolding end' [symmetric] word_less_nat_alt unat_div by simp
    moreover have "unat buff div 4096 \<le> (unat buff + (n - 1)) div 4096" by (rule div_le_mono) simp
    ultimately show "unat ?last div 4096 = unat buff div 4096"
      unfolding end' [symmetric] at by linarith
  qed
  then show ?thesis
    using small absent idx idx' unfolding syscall_write_def Let_def len n_def [symmetric]
    by (auto simp: walk_check_node)
qed

text \<open>From \<open>2 ^ 19\<close> pages on, the product \<open>i*4096\<close> of the loop overflows.\<close>

lemma shrink_stops:
  assumes ok: "kernel_ok A used left m k" and "1 \<le> N" "N \<le> n" "N - 1 < 2 ^ 19" "2 ^ 31 \<le> N * 4096"
    and idx: "\<And>i. 1 \<le> i \<Longrightarrow> i \<le> N - 1 \<Longrightarrow> l4_index (nf - word_of_nat (i * 4096)) < 512"
  shows "rfold (shrink_round A (lc_pgd (current k)) nf) [1 ..< Suc n] k = Inl SignedOverflow"
proof -
  obtain k1 where k1: "rfold (shrink_round A (lc_pgd (current k)) nf) [1 ..< Suc (N - 1)] k = Inr k1"
    using shrink_loop [OF ok assms(4) idx] by auto
  have "[1 ..< Suc n] = [1 ..< N] @ [N ..< Suc n]"
    using assms(2,3) upt_add_eq_append [of 1 N "Suc n - N"] by simp
  moreover have "[N ..< Suc n] = N # [Suc N ..< Suc n]" using assms(3) by (simp add: upt_conv_Cons)
  moreover have "Suc (N - 1) = N" using assms(2) by simp
  moreover have "shrink_round A (lc_pgd (current k)) nf N k1 = Inl SignedOverflow"
    using assms(5) by (simp add: shrink_round_def)
  ultimately show ?thesis using k1 by (simp only: rfold_append rfold.simps rbind_simps)
qed

lemma shrink_overflow:
  fixes param1 param2 :: "64 word" and k :: "'o kernel"
  defines "nf \<equiv> next_free (lc_mms (current k) (flag_segment (ucast param2)))"
  assumes ok: "kernel_ok A used left m k" and n: "2 ^ 19 \<le> unat (ucast param1 :: 32 word)"
    and guard: "\<not> nf - size_bytes (ucast param1) < seg_start (lc_mms (current k) (flag_segment (ucast param2)))"
    and room: "2 ^ 31 \<le> unat nf" "unat nf < 2 ^ 48"
  shows "syscall_shrink A param1 param2 k = Inl SignedOverflow"
proof -
  define N :: nat where "N = 2 ^ 19"
  have N: "1 \<le> N" "N - 1 < 2 ^ 19" "2 ^ 31 \<le> N * 4096" by (simp_all add: N_def)
  have "rfold (shrink_round A (lc_pgd (current k)) nf) [1 ..< Suc (unat (ucast param1 :: 32 word))] k =
      Inl SignedOverflow"
  proof (rule shrink_stops [OF ok N(1) n [folded N_def] N(2,3)])
    fix i assume "i \<le> N - 1"
    then have le: "i * 4096 \<le> unat nf" using room(1) by (simp add: N_def)
    show "l4_index (nf - word_of_nat (i * 4096)) < 512"
      by (rule l4_index_low) (use room(2) in \<open>unfold page_below [OF le], linarith\<close>)
  qed
  then show ?thesis
    using guard unfolding syscall_shrink_def Let_def nf_def [symmetric] by simp
qed

end
