(* ===== verification/User_Program.thy ===== *)
theory User_Program
  imports Lazy_Memory
begin

text \<open>
  The user programs of assignment 2, \<open>assignment2/user/init.c\<close> and its earlier version
  \<open>old_init.c\<close>, over the system calls and the fault handler of \<open>Lazy_Memory\<close>: stores of user
  code that fault and are made again, and the system calls of the library functions.
\<close>

section \<open>Stores of user code\<close>

text \<open>Byte \<open>v mod 4096\<close> of the frame that the page of \<open>v\<close> leads to.\<close>

definition put_byte :: "64 word \<Rightarrow> 8 word \<Rightarrow> 64 word \<Rightarrow> 64 word" where
  "put_byte v b x =
     (let n = 8 * (unat v mod 8)
      in (x AND NOT (push_bit n 0xFF)) OR push_bit n (ucast b))"

definition write_byte :: "64 word \<Rightarrow> 8 word \<Rightarrow> 'o kernel \<Rightarrow> 'o kernel" where
  "write_byte v b k =
     (case space_map k (page_path v) of
        None \<Rightarrow> k
      | Some (f, _, _) \<Rightarrow>
          let i = unat v mod 4096 div 8
          in k\<lparr>mach := set_entry f i (put_byte v b (mem (mach k) f i)) (mach k)\<rparr>)"

text \<open>
  A store of user code: it goes through, or the handler runs and the store is made again, or
  the process has been ended (\<open>False\<close>). The handler may resolve the fault so that it comes back
  for ever; then there is no result. What the processor registers and the stack hold is a
  parameter.
\<close>

partial_function (option) store_user ::
    "('o, 'z) kernel_ops_scheme \<Rightarrow> ((gpr \<Rightarrow> 64 word) \<Rightarrow> gpr \<Rightarrow> 64 word) \<Rightarrow> 64 word \<Rightarrow> 64 word \<Rightarrow> 8 word \<Rightarrow>
     (gpr \<Rightarrow> 64 word) \<times> 64 word list \<Rightarrow> 'o kernel \<Rightarrow> (bool \<times> 'o kernel) res option" where
  "store_user A body rip v b rs k =
     (case mmu_fault True v k of
        None \<Rightarrow> Some (Inr (True, write_byte v b k))
      | Some ec \<Rightarrow>
          (case handle_page_fault A body v ec rip (fst rs) (snd rs) k of
             Inl e \<Rightarrow> Some (Inl e)
           | Inr (None, k') \<Rightarrow> Some (Inr (False, k'))
           | Inr (Some rs', k') \<Rightarrow> store_user A body rip v b rs' k'))"

section \<open>The programs\<close>

text \<open>
  What the compiled program holds where it stores: the instruction, the registers, the stack,
  and the address of the string that it may print.
\<close>

record user_code =
  store_rip :: "nat \<Rightarrow> 64 word"
  store_regs :: "nat \<Rightarrow> (gpr \<Rightarrow> 64 word) \<times> 64 word list"
  failed_text :: "64 word"

abbreviation (input) SYSCALL_EXIT :: int where "SYSCALL_EXIT \<equiv> 1"
abbreviation (input) SYSCALL_GETPID :: int where "SYSCALL_GETPID \<equiv> 2"
abbreviation (input) SYSCALL_WRITE :: int where "SYSCALL_WRITE \<equiv> 3"
abbreviation (input) SYSCALL_EXPAND :: int where "SYSCALL_EXPAND \<equiv> 4"
abbreviation (input) SYSCALL_SHRINK :: int where "SYSCALL_SHRINK \<equiv> 5"
abbreviation (input) MAP_WR :: "32 word" where "MAP_WR \<equiv> 1"

text \<open>
  The stubs: \<open>int $0x80\<close> is taken by \<open>do_syscall\<close>, with the arguments in registers; what it
  leaves in \<open>rax\<close> is returned.
\<close>

definition u_syscall0 :: "('o, 'z) kernel_ops_scheme \<Rightarrow> int \<Rightarrow> 'o kernel \<Rightarrow> (64 word \<times> 'o kernel) res" where
  "u_syscall0 A call k = do_syscall A call 0 0 k"

definition u_syscall1 :: "('o, 'z) kernel_ops_scheme \<Rightarrow> int \<Rightarrow> 32 word \<Rightarrow> 'o kernel \<Rightarrow> (64 word \<times> 'o kernel) res" where
  "u_syscall1 A call exit_code k = do_syscall A call (ucast exit_code) 0 k"

definition u_syscall2 :: "('o, 'z) kernel_ops_scheme \<Rightarrow> int \<Rightarrow> 64 word \<Rightarrow> 32 word \<Rightarrow> 'o kernel \<Rightarrow> (64 word \<times> 'o kernel) res" where
  "u_syscall2 A call buff len k = do_syscall A call buff (ucast len) k"

definition u_syscall3 :: "('o, 'z) kernel_ops_scheme \<Rightarrow> int \<Rightarrow> 32 word \<Rightarrow> 32 word \<Rightarrow> 'o kernel \<Rightarrow> (64 word \<times> 'o kernel) res" where
  "u_syscall3 A call n flags k = do_syscall A call (ucast n) (ucast flags) k"

definition u_exit :: "('o, 'z) kernel_ops_scheme \<Rightarrow> 32 word \<Rightarrow> 'o kernel \<Rightarrow> (64 word \<times> 'o kernel) res" where
  "u_exit A code k = u_syscall1 A SYSCALL_EXIT code k"

definition u_getpid :: "('o, 'z) kernel_ops_scheme \<Rightarrow> 'o kernel \<Rightarrow> (64 word \<times> 'o kernel) res" where
  "u_getpid A k = u_syscall0 A SYSCALL_GETPID k"

definition u_write :: "('o, 'z) kernel_ops_scheme \<Rightarrow> 64 word \<Rightarrow> 32 word \<Rightarrow> 'o kernel \<Rightarrow> (64 word \<times> 'o kernel) res" where
  "u_write A buff len k = u_syscall2 A SYSCALL_WRITE buff len k"

definition u_expand :: "('o, 'z) kernel_ops_scheme \<Rightarrow> 32 word \<Rightarrow> 32 word \<Rightarrow> 'o kernel \<Rightarrow> (64 word \<times> 'o kernel) res" where
  "u_expand A n flags k = u_syscall3 A SYSCALL_EXPAND n flags k"

definition u_shrink :: "('o, 'z) kernel_ops_scheme \<Rightarrow> 32 word \<Rightarrow> 32 word \<Rightarrow> 'o kernel \<Rightarrow> (64 word \<times> 'o kernel) res" where
  "u_shrink A n flags k = u_syscall3 A SYSCALL_SHRINK n flags k"

text \<open>In \<open>old_init.c\<close> the stubs return an \<open>int\<close>, the lower half of the register.\<close>

definition int_of_reg :: "(64 word \<times> 'o kernel) res \<Rightarrow> (32 word \<times> 'o kernel) res" where
  "int_of_reg m = rbind m (\<lambda>(x, k). Inr (ucast x, k))"

definition old_syscall0 :: "('o, 'z) kernel_ops_scheme \<Rightarrow> int \<Rightarrow> 'o kernel \<Rightarrow> (32 word \<times> 'o kernel) res" where
  "old_syscall0 A call k = int_of_reg (do_syscall A call 0 0 k)"

definition old_syscall1 :: "('o, 'z) kernel_ops_scheme \<Rightarrow> int \<Rightarrow> 32 word \<Rightarrow> 'o kernel \<Rightarrow> (32 word \<times> 'o kernel) res" where
  "old_syscall1 A call exit_code k = int_of_reg (do_syscall A call (ucast exit_code) 0 k)"

definition old_syscall2 :: "('o, 'z) kernel_ops_scheme \<Rightarrow> int \<Rightarrow> 64 word \<Rightarrow> 32 word \<Rightarrow> 'o kernel \<Rightarrow> (32 word \<times> 'o kernel) res" where
  "old_syscall2 A call buff len k = int_of_reg (do_syscall A call buff (ucast len) k)"

definition old_syscall3 :: "('o, 'z) kernel_ops_scheme \<Rightarrow> int \<Rightarrow> 32 word \<Rightarrow> 32 word \<Rightarrow> 'o kernel \<Rightarrow> (32 word \<times> 'o kernel) res" where
  "old_syscall3 A call n flags k = int_of_reg (do_syscall A call (ucast n) (ucast flags) k)"

definition old_exit :: "('o, 'z) kernel_ops_scheme \<Rightarrow> 32 word \<Rightarrow> 'o kernel \<Rightarrow> (32 word \<times> 'o kernel) res" where
  "old_exit A code k = old_syscall1 A SYSCALL_EXIT code k"

definition old_getpid :: "('o, 'z) kernel_ops_scheme \<Rightarrow> 'o kernel \<Rightarrow> (32 word \<times> 'o kernel) res" where
  "old_getpid A k = old_syscall0 A SYSCALL_GETPID k"

definition old_write :: "('o, 'z) kernel_ops_scheme \<Rightarrow> 64 word \<Rightarrow> 32 word \<Rightarrow> 'o kernel \<Rightarrow> (32 word \<times> 'o kernel) res" where
  "old_write A buff len k = old_syscall2 A SYSCALL_WRITE buff len k"

definition old_expand :: "('o, 'z) kernel_ops_scheme \<Rightarrow> 32 word \<Rightarrow> 32 word \<Rightarrow> 'o kernel \<Rightarrow> (32 word \<times> 'o kernel) res" where
  "old_expand A n flags k = old_syscall3 A SYSCALL_EXPAND n flags k"

definition old_shrink :: "('o, 'z) kernel_ops_scheme \<Rightarrow> 32 word \<Rightarrow> 32 word \<Rightarrow> 'o kernel \<Rightarrow> (32 word \<times> 'o kernel) res" where
  "old_shrink A n flags k = old_syscall3 A SYSCALL_SHRINK n flags k"

text \<open>A store, and what comes after it unless the process has been ended; a call, and what comes after it.\<close>

definition then_store ::
    "('o, 'z) kernel_ops_scheme \<Rightarrow> ((gpr \<Rightarrow> 64 word) \<Rightarrow> gpr \<Rightarrow> 64 word) \<Rightarrow> user_code \<Rightarrow> nat \<Rightarrow> 64 word \<Rightarrow> 8 word \<Rightarrow>
     'o kernel \<Rightarrow> ('o kernel \<Rightarrow> 'o kernel res option) \<Rightarrow> 'o kernel res option" where
  "then_store A body u n v b k rest =
     (case store_user A body (store_rip u n) v b (store_regs u n) k of
        None \<Rightarrow> None
      | Some (Inl e) \<Rightarrow> Some (Inl e)
      | Some (Inr (False, k')) \<Rightarrow> Some (Inr k')
      | Some (Inr (True, k')) \<Rightarrow> rest k')"

definition then_call :: "('r \<times> 'o kernel) res \<Rightarrow> ('r \<Rightarrow> 'o kernel \<Rightarrow> 'o kernel res option) \<Rightarrow> 'o kernel res option" where
  "then_call m f = (case m of Inl e \<Rightarrow> Some (Inl e) | Inr (x, k) \<Rightarrow> f x k)"

text \<open>\<open>main\<close>. After \<open>exit\<close> the code does not go on.\<close>

definition init_main ::
    "('o, 'z) kernel_ops_scheme \<Rightarrow> ((gpr \<Rightarrow> 64 word) \<Rightarrow> gpr \<Rightarrow> 64 word) \<Rightarrow> user_code \<Rightarrow> 'o kernel \<Rightarrow> 'o kernel res option" where
  "init_main A body u k =
     then_call (u_expand A 8 MAP_WR k) (\<lambda>ptr k1.
     then_call (if ptr = 0 then u_write A (failed_text u) 7 k1 else Inr (0, k1)) (\<lambda>_ k2.
     then_store A body u 0 (ptr + 8192) 0x41 k2 (\<lambda>k3.
     then_call (u_shrink A 7 MAP_WR k3) (\<lambda>_ k4.
     then_store A body u 1 ptr 0x41 k4 (\<lambda>k5.
     then_store A body u 2 (ptr + 4096) 0x41 k5 (\<lambda>k6.
     then_call (u_exit A 0 k6) (\<lambda>_ k7. Some (Inr k7))))))))"

text \<open>Here the \<open>int\<close> is sign extended when it becomes a pointer.\<close>

definition old_init_main ::
    "('o, 'z) kernel_ops_scheme \<Rightarrow> ((gpr \<Rightarrow> 64 word) \<Rightarrow> gpr \<Rightarrow> 64 word) \<Rightarrow> user_code \<Rightarrow> 'o kernel \<Rightarrow> 'o kernel res option" where
  "old_init_main A body u k =
     then_call (old_expand A 8 MAP_WR k) (\<lambda>x k1.
     let ptr = scast x in
     then_call (if ptr = 0 then old_write A (failed_text u) 7 k1 else Inr (0, k1)) (\<lambda>_ k2.
     then_store A body u 0 (ptr + 8192) 0x41 k2 (\<lambda>k3.
     then_call (old_shrink A 7 MAP_WR k3) (\<lambda>_ k4.
     then_store A body u 1 ptr 0x41 k4 (\<lambda>k5.
     then_store A body u 2 (ptr + 4096) 0x41 k5 (\<lambda>k6.
     then_call (old_exit A 0 k6) (\<lambda>_ k7. Some (Inr k7))))))))"

section \<open>What a store leaves alone\<close>

text \<open>No table of the tree is a page: changing the contents of a page changes no translation.\<close>

lemma access_page_contents:
  assumes tree: "tree_ok M r S" and f: "get_mem_region f = Some USER_REG"
    and M': "\<And>u. u \<noteq> f \<Longrightarrow> M' u = M u" and q: "path_ok q" "length q \<le> 4"
  shows "access M' r q = access M r q"
  using q
proof (induction q rule: rev_induct)
  case Nil
  then show ?case by simp
next
  case (snoc j q)
  then have q: "path_ok q" "length q \<le> 3" and IH: "access M' r q = access M r q" by auto
  show ?case
  proof (cases "access M r q")
    case None
    then show ?thesis using IH by (simp add: access_snoc)
  next
    case (Some x)
    obtain u us w where x: "x = (u, us, w)" by (cases x)
    then have "node M r q = Some u" using Some by (simp add: access_node)
    then have "get_mem_region u = Some OS_PT_REG" by (rule tree_okD(2) [OF tree q])
    then have "u \<noteq> f" using f by auto
    then show ?thesis using IH Some x M' by (simp add: access_snoc)
  qed
qed

text \<open>Whether a tree is good depends on its nodes and on the entries of its tables only.\<close>

lemma tables_ok_cong:
  assumes tree: "tree_ok M r S"
    and nd: "\<And>q. path_ok q \<Longrightarrow> length q \<le> 4 \<Longrightarrow> node M' r q = node M r q"
    and table: "\<And>p t. path_ok p \<Longrightarrow> length p \<le> 3 \<Longrightarrow> node M r p = Some t \<Longrightarrow> M' t = M t"
  shows "tables_ok M' r S" and "writes_ok M' r"
proof -
  show "tables_ok M' r S"
    unfolding tables_ok_def
  proof (intro allI impI)
    fix p t
    assume p: "path_ok p \<and> length p \<le> 3 \<and> node M' r p = Some t"
    then have n: "node M r p = Some t" using nd [of p] by simp
    show "t \<in> S \<and> get_mem_region t = Some OS_PT_REG \<and>
        (\<forall>i < 512. if present (M' t i) then bit (M' t i) 2 \<and> small_entry (M' t i) else M' t i = 0)"
      using n tree p table [of p t] unfolding tree_ok_def tables_ok_def by metis
  qed
  show "writes_ok M' r"
    unfolding writes_ok_def
  proof (intro allI impI)
    fix p t i j
    assume a: "path_ok p \<and> length p \<le> 2 \<and> node M' r p = Some t \<and> i < 512 \<and> j < 512 \<and>
      present (M' t i) \<and> present (M' (entry_frame (M' t i)) j) \<and> bit (M' (entry_frame (M' t i)) j) 1"
    then have n: "node M r p = Some t" and p: "path_ok p" "length p \<le> 3" using nd [of p] by simp_all
    have t: "M' t = M t" by (rule table [OF p n])
    have "node M r (p @ [i]) = Some (entry_frame (M t i))" using n a t by (simp add: node_snoc)
    moreover have "path_ok (p @ [i])" "length (p @ [i]) \<le> 3" using a p by simp_all
    ultimately have "M' (entry_frame (M t i)) = M (entry_frame (M t i))" by (rule table [rotated 2])
    then show "bit (M' t i) 1" using a t n tree_ok_writes [OF tree p(1) _ n] by metis
  qed
qed

lemma pages_ok_cong:
  assumes tree: "tree_ok M r S"
    and nd: "\<And>q. path_ok q \<Longrightarrow> length q \<le> 4 \<Longrightarrow> node M' r q = node M r q"
  shows "tables_apart M' r" and "pages_ok M' r S"
proof -
  show "tables_apart M' r"
    unfolding tables_apart_def
  proof (intro allI impI)
    fix p q t
    assume a: "path_ok p \<and> path_ok q \<and> length p \<le> 3 \<and> length q \<le> 3 \<and> node M' r p = Some t \<and> node M' r q = Some t"
    then have "node M r p = Some t" "node M r q = Some t" using nd [of p] nd [of q] by simp_all
    then show "p = q" using tree_okD(5) [OF tree] a by blast
  qed
  show "pages_ok M' r S"
    unfolding pages_ok_def
  proof (intro allI impI)
    fix p g
    assume p: "path_ok p \<and> length p = 4 \<and> node M' r p = Some g"
    then have n: "node M r p = Some g" using nd [of p] by simp
    have "q = p" if "path_ok q" "length q = 4" "node M' r q = Some g" for q
      using tree_ok_pages(3) [OF tree _ _ n, of q] nd [of q] p that by simp
    then show "g \<in> S \<and> get_mem_region g = Some USER_REG \<and>
        (\<forall>q. path_ok q \<and> length q = 4 \<and> node M' r q = Some g \<longrightarrow> q = p)"
      using tree_ok_pages(1,2) [OF tree _ _ n] p by blast
  qed
qed

lemma tree_page_contents:
  assumes tree: "tree_ok M r S" and f: "get_mem_region f = Some USER_REG" and M': "\<And>u. u \<noteq> f \<Longrightarrow> M' u = M u"
  shows "tree_ok M' r S"
proof -
  have nd: "node M' r q = node M r q" if "path_ok q" "length q \<le> 4" for q
    using access_page_contents [OF tree f M' that] by (simp add: node_def)
  have table: "M' t = M t" if "path_ok p" "length p \<le> 3" "node M r p = Some t" for p t
  proof (rule M')
    show "t \<noteq> f" using tree_okD(2) [OF tree that] f by auto
  qed
  show ?thesis
    using tables_ok_cong [OF tree nd table] pages_ok_cong [OF tree nd] by (simp add: tree_ok_def)
qed

lemma write_byte_ok:
  assumes ok: "kernel_ok A used left n k" and v: "l4_index v < 512"
  shows "kernel_ok A used left n (write_byte v b k)" and "space_map (write_byte v b k) = space_map k"
    and "current (write_byte v b k) = current k" and "console (write_byte v b k) = console k"
    and "os (mach (write_byte v b k)) = os (mach k)"
proof -
  let ?r = "lc_pgd (current k)"
  have tree: "tree_ok (mem (mach k)) ?r (used (os (mach k)))" using ok by (simp add: space_ok_def)
  have "kernel_ok A used left n (write_byte v b k) \<and> space_map (write_byte v b k) = space_map k \<and>
    current (write_byte v b k) = current k \<and> console (write_byte v b k) = console k \<and>
    os (mach (write_byte v b k)) = os (mach k)"
  proof (cases "space_map k (page_path v)")
    case None
    then show ?thesis using ok by (simp add: write_byte_def)
  next
    case (Some x)
    obtain f us w where x: "x = (f, us, w)" by (cases x)
    have "node (mem (mach k)) ?r (page_path v) = Some f" using vmap_node [OF v, of "mach k" ?r] Some x by simp
    then have f: "get_mem_region f = Some USER_REG"
      using tree_ok_pages(2) [OF tree] page_path_ok [OF v] by blast
    let ?k = "write_byte v b k"
    have k: "current ?k = current k" "console ?k = console k" "os (mach ?k) = os (mach k)"
      and M: "\<And>u. u \<noteq> f \<Longrightarrow> mem (mach ?k) u = mem (mach k) u"
      using Some x by (simp_all add: write_byte_def Let_def)
    have "tree_ok (mem (mach ?k)) ?r (used (os (mach k)))" by (rule tree_page_contents [OF tree f M])
    moreover have "space_map ?k = space_map k"
      using access_page_contents [OF tree f M] by (simp add: k vmap_def fun_eq_iff)
    ultimately show ?thesis using ok k by (simp add: space_ok_def)
  qed
  then show "kernel_ok A used left n (write_byte v b k)" "space_map (write_byte v b k) = space_map k"
    "current (write_byte v b k) = current k" "console (write_byte v b k) = console k"
    "os (mach (write_byte v b k)) = os (mach k)" by blast+
qed

section \<open>What becomes of a store\<close>

lemma store_hit: "mmu_fault True v k = None \<Longrightarrow> store_user A body rip v b rs k = Some (Inr (True, write_byte v b k))"
  by (subst store_user.simps) simp

text \<open>To a page not yet mapped of a writable segment: it is mapped and the byte is stored.\<close>

lemma store_maps:
  assumes ok: "kernel_ok (frame_ops.truncate A) used left (Suc n) k" and v: "l4_index v < 512"
    and un: "space_map k (page_path v) = None" and data: "check_present v k = 1"
    and wr: "bit (access_flags (lc_mms (current k) MM_SEG_DATA)) 1"
  shows "\<exists>a k1 k'. store_user A body rip v b rs k = Some (Inr (True, k')) \<and> k' = write_byte v b k1 \<and>
    kernel_ok (frame_ops.truncate A) used left n k' \<and> space_map k' = (space_map k)(page_path v := Some (a, True, True)) \<and>
    kernel_ok (frame_ops.truncate A) used left n k1 \<and> space_map k1 = space_map k' \<and> current k1 = current k \<and> current k' = current k \<and> console k' = console k"
proof -
  have legal: "legal_fault v 6 k" using v data by (simp add: legal_fault_def)
  have seg: "fault_segment v k = lc_mms (current k) MM_SEG_DATA" using data by (simp add: fault_segment_def)
  obtain a k1 where h: "handle_page_fault A body v 6 rip (fst rs) (snd rs) k = Inr (Some (fst rs, snd rs), k1)"
      "kernel_ok (frame_ops.truncate A) used left n k1"
      "space_map k1 = (space_map k)(page_path v := Some (a, True, True))" "current k1 = current k" "console k1 = console k"
    using page_fault_new [OF ok legal un, where body = body and rip = rip and regs = "fst rs" and stack = "snd rs"] wr seg
    by auto
  have "mmu_fault True v k = Some 6" using un by (simp add: mmu_fault_def)
  then have "store_user A body rip v b rs k = store_user A body rip v b rs k1"
    using h(1) by (subst store_user.simps) simp
  also have "\<dots> = Some (Inr (True, write_byte v b k1))"
    by (rule store_hit) (simp add: mmu_fault_def h(3))
  finally have "store_user A body rip v b rs k = Some (Inr (True, write_byte v b k1))" .
  then show ?thesis using write_byte_ok [OF h(2) v, of b] h(2-5)
    by (intro exI [of _ a] exI [of _ k1] exI [of _ "write_byte v b k1"]) simp
qed

text \<open>To an address that no segment has: the fault is reported and the process is ended.\<close>

lemma store_killed:
  assumes "space_map k (page_path v) = None" and "check_present v k = -1"
  shows "store_user A body rip v b rs k =
    Some (Inr (False, do_exit A (k\<lparr>console := console k @ [FaultReport rip v 6]\<rparr>)))"
proof -
  have "mmu_fault True v k = Some 6" using assms(1) by (simp add: mmu_fault_def)
  moreover have "handle_page_fault A body v 6 rip (fst rs) (snd rs) k =
      Inr (None, do_exit A (k\<lparr>console := console k @ [FaultReport rip v 6]\<rparr>))"
    by (rule illegal_fault_kills) (simp add: assms(2))
  ultimately show ?thesis by (subst store_user.simps) simp
qed

end
