(* ===== verification/Context_MM.thy ===== *)
theory Context_MM
  imports Paging
begin

text \<open>
  The address space of a process in assignment 1, \<open>assignment1/context_mm.c\<close>: it is built
  for the code, data and stack segments before the process runs (\<open>prepare_context_mm\<close>) and
  taken down when it exits (\<open>cleanup_context_mm\<close>).
\<close>

section \<open>Contexts\<close>

record exec_context =
  ctx_id :: "32 word"
  ctx_type :: "8 word"
  ctx_status :: "8 word"
  used_mem :: "16 word"
  pgd :: pfn
  mms :: "mm_seg \<Rightarrow> mm_segment"
  ctx_name :: "char list"
  arg_pfn :: pfn
  num_args :: "32 word"

section \<open>Building\<close>

text \<open>The page of a segment that is mapped: its first one, or the top one of the stack.\<close>

definition segment_page :: "char \<Rightarrow> mm_segment \<Rightarrow> 64 word" where
  "segment_page c m =
     (if c = CHR ''c'' \<or> c = CHR ''d'' then seg_start m else seg_end m - 0x1000)"

definition allocate ::
    "'o frame_ops \<Rightarrow> char \<Rightarrow> pfn \<Rightarrow> mm_segment \<Rightarrow> pfn \<Rightarrow> 'o machine \<Rightarrow> 'o machine res" where
  "allocate A c l4 m arg s =
     map_page A (if c = CHR ''d'' then (\<lambda>s. (arg, s)) else fresh_leaf A) (access_flags m) l4
       (segment_page c m) s"

definition prepare_context_mm ::
    "'o frame_ops \<Rightarrow> exec_context \<Rightarrow> 'o machine \<Rightarrow> (exec_context \<times> 'o machine) res" where
  "prepare_context_mm A ctx s =
     (case os_pfn_alloc A OS_PT_REG (os s) of (a, os') \<Rightarrow>
        let arg = arg_pfn ctx; ctx' = ctx\<lparr>pgd := a\<rparr> in
        rbind (allocate A CHR ''c'' a (mms ctx' MM_SEG_CODE) arg (zero_table a (s\<lparr>os := os'\<rparr>))) (\<lambda>s1.
        rbind (allocate A CHR ''d'' a (mms ctx' MM_SEG_DATA) arg s1) (\<lambda>s2.
        rbind (allocate A CHR ''s'' a (mms ctx' MM_SEG_STACK) arg s2) (\<lambda>s3.
          Inr (ctx', s3)))))"

section \<open>Taking down\<close>

text \<open>Entry \<open>i\<close> of table \<open>t\<close>: its table is released and the entry cleared, if present.\<close>

definition free_entry :: "'o frame_ops \<Rightarrow> pfn \<Rightarrow> nat \<Rightarrow> 'o machine \<Rightarrow> 'o machine" where
  "free_entry A t i s =
     (if mem s t i AND 1 = 1
      then set_entry t i (mem s t i AND 0)
             (s\<lparr>os := os_pfn_free A OS_PT_REG (ucast (entry_frame (mem s t i))) (os s)\<rparr>)
      else s)"

text \<open>
  The loop goes down from level 4 and stops at \<open>lower\<close>, where it releases what the entry
  names; the levels above are only followed, present or not.
\<close>

definition free_memory ::
    "'o frame_ops \<Rightarrow> mm_segment \<Rightarrow> pfn \<Rightarrow> char \<Rightarrow> nat \<Rightarrow> pfn \<Rightarrow> 'o machine \<Rightarrow> 'o machine res" where
  "free_memory A m p4 c lower arg s =
     (let v = segment_page c m in
      if lower > 4 then Inr s
      else if 512 \<le> l4_index v then Inl OutOfBounds
      else if lower = 4 then Inr (free_entry A p4 (l4_index v) s)
      else let l3 = entry_frame (mem s p4 (l4_index v)) in
        if lower = 3 then Inr (free_entry A l3 (l3_index v) s)
        else let l2 = entry_frame (mem s l3 (l3_index v)) in
          if lower = 2 then Inr (free_entry A l2 (l2_index v) s)
          else let l1 = entry_frame (mem s l2 (l2_index v)) in
            if c = CHR ''s'' \<or> c = CHR ''c''
            then Inr (s\<lparr>os := os_pfn_free A USER_REG (drop_bit 12 (mem s l1 (l1_index v))) (os s)\<rparr>)
            else Inr (s\<lparr>os := os_pfn_free A USER_REG (ucast arg) (os s)\<rparr>))"

text \<open>One round of the loop of \<open>cleanup_context_mm\<close>, and the function.\<close>

definition cleanup_round ::
    "'o frame_ops \<Rightarrow> exec_context \<Rightarrow> nat \<Rightarrow> 'o machine \<Rightarrow> 'o machine res" where
  "cleanup_round A ctx i s =
     rbind (free_memory A (mms ctx MM_SEG_STACK) (pgd ctx) CHR ''s'' i (arg_pfn ctx) s) (\<lambda>s1.
     rbind (free_memory A (mms ctx MM_SEG_CODE) (pgd ctx) CHR ''c'' i (arg_pfn ctx) s1) (\<lambda>s2.
       free_memory A (mms ctx MM_SEG_DATA) (pgd ctx) CHR ''d'' i (arg_pfn ctx) s2))"

definition cleanup_context_mm ::
    "'o frame_ops \<Rightarrow> exec_context \<Rightarrow> 'o machine \<Rightarrow> 'o machine res" where
  "cleanup_context_mm A ctx s =
     rbind (rfold (cleanup_round A ctx) [1, 2, 3, 4] s)
       (\<lambda>s'. Inr (s'\<lparr>os := os_pfn_free A OS_PT_REG (ucast (pgd ctx)) (os s')\<rparr>))"

section \<open>An empty address space\<close>

lemma empty_tree:
  assumes "\<And>i. i < 512 \<Longrightarrow> M a i = 0" and "get_mem_region a = Some OS_PT_REG" and "a \<in> S"
  shows "tree_ok M a S" and "path_ok p \<Longrightarrow> node M a p = (if p = [] then Some a else None)"
proof -
  have node: "node M a p = (if p = [] then Some a else None)" if "path_ok p" for p
    using that assms(1) by (cases p) (auto simp: node_def access.simps(2) present_def)
  then show "path_ok p \<Longrightarrow> node M a p = (if p = [] then Some a else None)" .
  have zero: "\<not> present (M a i)" if "i < 512" for i using assms(1) that by (simp add: present_def)
  show "tree_ok M a S"
    unfolding tree_ok_def tables_ok_def tables_apart_def writes_ok_def pages_ok_def
    using node zero assms by (auto split: if_splits)
qed

lemma empty_vmap:
  assumes "\<And>i. i < 512 \<Longrightarrow> mem m a i = 0"
  shows "vmap m a = (\<lambda>_. None)"
proof
  fix p show "vmap m a p = None"
    using assms by (cases p) (auto simp: vmap_def access.simps(2) present_def)
qed

text \<open>What a context needs for its address space: three pages apart, below \<open>2 ^ 48\<close>.\<close>

definition code_page :: "exec_context \<Rightarrow> 64 word" where
  "code_page ctx = segment_page CHR ''c'' (mms ctx MM_SEG_CODE)"

definition data_page :: "exec_context \<Rightarrow> 64 word" where
  "data_page ctx = segment_page CHR ''d'' (mms ctx MM_SEG_DATA)"

definition stack_page :: "exec_context \<Rightarrow> 64 word" where
  "stack_page ctx = segment_page CHR ''s'' (mms ctx MM_SEG_STACK)"

definition segments_ok :: "exec_context \<Rightarrow> bool" where
  "segments_ok ctx \<longleftrightarrow>
     l4_index (code_page ctx) < 512 \<and> l4_index (data_page ctx) < 512 \<and> l4_index (stack_page ctx) < 512 \<and>
     distinct [page_path (code_page ctx), page_path (data_page ctx), page_path (stack_page ctx)]"

definition ctx_paths :: "exec_context \<Rightarrow> nat list set" where
  "ctx_paths ctx =
     {q. prefix q (page_path (code_page ctx)) \<or> prefix q (page_path (data_page ctx)) \<or>
         prefix q (page_path (stack_page ctx))}"

lemma map_page_arg:
  assumes sp: "space_ok A used left r (Suc n) m" and v: "l4_index v < 512"
    and unmapped: "vmap m r (page_path v) = None"
    and arg: "arg \<in> used (os m)" "get_mem_region arg = Some USER_REG"
      "\<And>q. map_option fst (vmap m r q) \<noteq> Some arg"
  shows "\<exists>m'. map_page A (\<lambda>s. (arg, s)) flag r v m = Inr m' \<and> space_ok A used left r n m' \<and>
    vmap m' r = (vmap m r)(page_path v := Some (arg, True, bit flag 1)) \<and>
    used (os m') = used (os m) \<union> tree_frames (mem m') r \<and>
    tree_paths (mem m') r = tree_paths (mem m) r \<union> {q. prefix q (page_path v)} \<and>
    tree_frames (mem m') r \<inter> used (os m) \<subseteq> insert arg (tree_frames (mem m) r) \<and>
    tree_frames (mem m) r \<subseteq> tree_frames (mem m') r"
proof -
  have "\<exists>a m'. map_page A (\<lambda>s. (arg, s)) flag r v m = Inr m' \<and> space_ok A used left r n m' \<and> a = arg \<and>
    vmap m' r = (vmap m r)(page_path v := Some (a, True, bit flag 1)) \<and>
    used (os m') = used (os m) \<union> tree_frames (mem m') r \<and>
    tree_paths (mem m') r = tree_paths (mem m) r \<union> {q. prefix q (page_path v)} \<and>
    tree_frames (mem m') r \<inter> used (os m) \<subseteq> insert a (tree_frames (mem m) r) \<and>
    tree_frames (mem m) r \<subseteq> tree_frames (mem m') r"
  proof (rule map_page_new [OF sp v unmapped])
    fix m3 :: "'a machine"
    assume "used (os m) \<subseteq> used (os m3)" and "vmap m3 r = vmap m r"
    then show "\<exists>a m4. (arg, m3) = (a, m4) \<and> mem m4 = mem m3 \<and> get_mem_region a = Some USER_REG \<and>
        used (os m4) = insert a (used (os m3)) \<and> left (os m3) \<le> Suc (left (os m4)) \<and>
        (\<forall>q. map_option fst (vmap m3 r q) \<noteq> Some a) \<and> a = arg"
      using arg by auto
  qed
  then show ?thesis by blast
qed

text \<open>A root table just allocated and zeroed is an empty address space.\<close>

lemma fresh_root:
  assumes A: "allocator_ok A used left" and room: "Suc (4 * n) \<le> left (os s)"
    and al: "os_pfn_alloc A OS_PT_REG (os s) = (a, st)"
  defines "s0 \<equiv> zero_table a (s\<lparr>os := st\<rparr>)"
  shows "space_ok A used left a n s0" and "vmap s0 a = (\<lambda>_. None)"
    and "tree_paths (mem s0) a = {[]}" and "tree_frames (mem s0) a = {a}"
    and "used (os s0) = insert a (used (os s))" and "a \<notin> used (os s)"
proof -
  have a: "a \<notin> used (os s)" "get_mem_region a = Some OS_PT_REG" "used st = insert a (used (os s))"
      "left (os s) \<le> Suc (left st)"
    using allocator_okD(1) [OF A _ al] room by simp_all
  have zero: "\<And>i. i < 512 \<Longrightarrow> mem s0 a i = 0" by (simp add: s0_def)
  have os0: "os s0 = st" by (simp add: s0_def)
  note et = empty_tree [where M = "mem s0" and a = a and S = "used (os s0)", OF zero a(2)]
  have n0: "\<And>p. path_ok p \<Longrightarrow> node (mem s0) a p = (if p = [] then Some a else None)"
    using et(2) a(3) os0 by simp
  show "space_ok A used left a n s0" using A et(1) room a(3,4) os0 by (simp add: space_ok_def)
  show "vmap s0 a = (\<lambda>_. None)" by (rule empty_vmap [OF zero])
  show "tree_paths (mem s0) a = {[]}"
    using n0 by (auto simp: tree_paths_def split: if_splits)
  show "tree_frames (mem s0) a = {a}"
    using n0 n0 [of "[]"] by (auto simp: tree_frames_def split: if_splits intro!: exI [of _ "[]"])
  show "used (os s0) = insert a (used (os s))" and "a \<notin> used (os s)" using a os0 by simp_all
qed

lemma mapped_frame: "vmap m r p = Some (f, u, w) \<Longrightarrow> f \<in> tree_frames (mem m) r"
  by (auto simp: vmap_def tree_frames_def node_def split: if_splits)

text \<open>
  The three pages of a context in an address space that has none: each is mapped, the
  argument page to the frame given, the others to frames of their own.
\<close>

lemma three_pages:
  assumes sp: "space_ok A used left a 3 s0" and v0: "vmap s0 a = (\<lambda>_. None)"
    and arg: "arg \<in> used (os s0)" "get_mem_region arg = Some USER_REG"
    and idx: "l4_index u < 512" "l4_index v < 512" "l4_index w < 512"
    and dist: "page_path u \<noteq> page_path v" "page_path u \<noteq> page_path w" "page_path v \<noteq> page_path w"
  obtains s1 s2 s3 f1 f2 where
    "map_page A (fresh_leaf A) fu a u s0 = Inr s1"
    "map_page A (\<lambda>s. (arg, s)) fv a v s1 = Inr s2"
    "map_page A (fresh_leaf A) fw a w s2 = Inr s3" "space_ok A used left a 0 s3"
    "vmap s3 a = (\<lambda>_. None)(page_path u := Some (f1, True, bit fu 1),
      page_path v := Some (arg, True, bit fv 1), page_path w := Some (f2, True, bit fw 1))"
    "f1 \<notin> used (os s0)" "f2 \<notin> used (os s0)" "f1 \<noteq> f2"
    "used (os s3) = used (os s0) \<union> tree_frames (mem s3) a"
    "tree_frames (mem s3) a \<inter> used (os s0) \<subseteq> insert arg (tree_frames (mem s0) a)"
    "tree_paths (mem s3) a = tree_paths (mem s0) a \<union>
      {q. prefix q (page_path u) \<or> prefix q (page_path v) \<or> prefix q (page_path w)}"
proof -
  have sp0: "space_ok A used left a (Suc 2) s0" using sp by (simp add: numeral_3_eq_3)
  have un0: "vmap s0 a (page_path u) = None" by (simp add: v0)
  obtain f1 s1 where s1: "map_page A (fresh_leaf A) fu a u s0 = Inr s1"
      "space_ok A used left a 2 s1" "f1 \<notin> used (os s0)"
      "vmap s1 a = (vmap s0 a)(page_path u := Some (f1, True, bit fu 1))"
      "used (os s1) = used (os s0) \<union> tree_frames (mem s1) a"
      "tree_paths (mem s1) a = tree_paths (mem s0) a \<union> {q. prefix q (page_path u)}"
      "tree_frames (mem s1) a \<inter> used (os s0) \<subseteq> insert f1 (tree_frames (mem s0) a)"
    using map_page_fresh [OF sp0 idx(1) un0, of fu] by blast
  have fa: "f1 \<noteq> arg" using s1(3) arg(1) by auto
  have sp1: "space_ok A used left a (Suc 1) s1" using s1(2) by (simp add: numeral_2_eq_2)
  have arg1: "arg \<in> used (os s1)" using arg(1) s1(5) by auto
  have free1: "map_option fst (vmap s1 a q) \<noteq> Some arg" for q using s1(4) v0 fa by simp
  have un1: "vmap s1 a (page_path v) = None" using s1(4) v0 dist(1) by simp
  obtain s2 where s2: "map_page A (\<lambda>s. (arg, s)) fv a v s1 = Inr s2"
      "space_ok A used left a 1 s2"
      "vmap s2 a = (vmap s1 a)(page_path v := Some (arg, True, bit fv 1))"
      "used (os s2) = used (os s1) \<union> tree_frames (mem s2) a"
      "tree_paths (mem s2) a = tree_paths (mem s1) a \<union> {q. prefix q (page_path v)}"
      "tree_frames (mem s2) a \<inter> used (os s1) \<subseteq> insert arg (tree_frames (mem s1) a)"
      "tree_frames (mem s1) a \<subseteq> tree_frames (mem s2) a"
    using map_page_arg [OF sp1 idx(2) un1 arg1 arg(2) free1, of fv] by blast
  have sp2: "space_ok A used left a (Suc 0) s2" using s2(2) by simp
  have un2: "vmap s2 a (page_path w) = None" using s2(3) s1(4) v0 dist by simp
  obtain f2 s3 where s3: "map_page A (fresh_leaf A) fw a w s2 = Inr s3"
      "space_ok A used left a 0 s3" "f2 \<notin> used (os s2)"
      "vmap s3 a = (vmap s2 a)(page_path w := Some (f2, True, bit fw 1))"
      "used (os s3) = used (os s2) \<union> tree_frames (mem s3) a"
      "tree_paths (mem s3) a = tree_paths (mem s2) a \<union> {q. prefix q (page_path w)}"
      "tree_frames (mem s3) a \<inter> used (os s2) \<subseteq> insert f2 (tree_frames (mem s2) a)"
      "tree_frames (mem s2) a \<subseteq> tree_frames (mem s3) a"
    using map_page_fresh [OF sp2 idx(3) un2, of fw] by blast
  have frame1: "f1 \<in> tree_frames (mem s1) a"
    using s1(4) by (intro mapped_frame [where p = "page_path u"]) simp
  have "used (os s3) = used (os s0) \<union> tree_frames (mem s3) a"
    using s1(5) s2(4,7) s3(5,8) by auto
  moreover have "tree_frames (mem s3) a \<inter> used (os s0) \<subseteq> insert arg (tree_frames (mem s0) a)"
    using s1(7) s2(6) s3(7) s1(5) s2(4) s1(3) s3(3) by auto
  moreover have "tree_paths (mem s3) a = tree_paths (mem s0) a \<union>
      {q. prefix q (page_path u) \<or> prefix q (page_path v) \<or> prefix q (page_path w)}"
    using s1(6) s2(5) s3(6) by auto
  moreover have "f2 \<notin> used (os s0)" and "f1 \<noteq> f2"
    using s3(3) s2(4) s1(3,5) frame1 by auto
  ultimately show ?thesis
    using that [OF s1(1) s2(1) s3(1,2) _ s1(3)] unfolding s3(4) s2(3) s1(4) v0 by blast
qed

text \<open>
  The address space after preparation: the three pages and nothing else, every table and
  page in a frame of its own, taken from the allocator except the argument page.
\<close>

definition prepared_space ::
    "('o \<Rightarrow> pfn set) \<Rightarrow> exec_context \<Rightarrow> pfn set \<Rightarrow> 'o machine \<Rightarrow> bool" where
  "prepared_space used ctx B s \<longleftrightarrow>
     tree_ok (mem s) (pgd ctx) (used (os s)) \<and>
     node (mem s) (pgd ctx) (page_path (data_page ctx)) = Some (arg_pfn ctx) \<and>
     used (os s) = B \<union> tree_frames (mem s) (pgd ctx) \<and>
     tree_frames (mem s) (pgd ctx) \<inter> B = {arg_pfn ctx} \<and>
     tree_paths (mem s) (pgd ctx) = ctx_paths ctx"

lemma mapped_prepared:
  assumes sp: "space_ok A used left a n s" and dp: "vmap s a (page_path (data_page ctx)) = Some (arg_pfn ctx, u, w)"
    and us: "used (os s) = insert a B \<union> tree_frames (mem s) a"
      "tree_frames (mem s) a \<inter> insert a B \<subseteq> insert (arg_pfn ctx) {a}"
    and new: "a \<notin> B" and arg: "arg_pfn ctx \<in> B" and ps: "tree_paths (mem s) a = {[]} \<union> ctx_paths ctx"
  shows "prepared_space used (ctx\<lparr>pgd := a\<rparr>) B s"
proof -
  have same: "code_page (ctx\<lparr>pgd := a\<rparr>) = code_page ctx" "data_page (ctx\<lparr>pgd := a\<rparr>) = data_page ctx"
      "stack_page (ctx\<lparr>pgd := a\<rparr>) = stack_page ctx"
    by (simp_all add: code_page_def data_page_def stack_page_def)
  have "node (mem s) a (page_path (data_page ctx)) = Some (arg_pfn ctx)"
    using dp by (auto simp: vmap_def node_def split: if_splits)
  moreover have "arg_pfn ctx \<in> tree_frames (mem s) a" by (rule mapped_frame [OF dp])
  moreover have "a \<in> tree_frames (mem s) a"
    by (auto simp: tree_frames_def node_def intro!: exI [of _ "[]"])
  moreover have "[] \<in> ctx_paths ctx" by (simp add: ctx_paths_def)
  ultimately show ?thesis
    using sp us new arg ps by (auto simp: prepared_space_def same space_ok_def ctx_paths_def)
qed

lemma prepare_builds:
  assumes A: "allocator_ok A used left" and room: "13 \<le> left (os s)" and seg: "segments_ok ctx"
    and arg: "arg_pfn ctx \<in> used (os s)" "get_mem_region (arg_pfn ctx) = Some USER_REG"
  shows "\<exists>ctx' s' f1 f2. prepare_context_mm A ctx s = Inr (ctx', s') \<and> ctx' = ctx\<lparr>pgd := pgd ctx'\<rparr> \<and>
    vmap s' (pgd ctx') = (\<lambda>_. None)
      (page_path (code_page ctx) := Some (f1, True, bit (access_flags (mms ctx MM_SEG_CODE)) 1),
       page_path (data_page ctx) := Some (arg_pfn ctx, True, bit (access_flags (mms ctx MM_SEG_DATA)) 1),
       page_path (stack_page ctx) := Some (f2, True, bit (access_flags (mms ctx MM_SEG_STACK)) 1)) \<and>
    f1 \<notin> used (os s) \<and> f2 \<notin> used (os s) \<and> f1 \<noteq> f2 \<and> prepared_space used ctx' (used (os s)) s'"
proof -
  let ?fl = "\<lambda>g. access_flags (mms ctx g)"
  obtain a st where al: "os_pfn_alloc A OS_PT_REG (os s) = (a, st)" by fastforce
  define s0 where "s0 = zero_table a (s\<lparr>os := st\<rparr>)"
  have "Suc (4 * 3) \<le> left (os s)" using room by simp
  note r = fresh_root [OF A this al, folded s0_def]
  have idx: "l4_index (code_page ctx) < 512" "l4_index (data_page ctx) < 512" "l4_index (stack_page ctx) < 512"
    and dist: "page_path (code_page ctx) \<noteq> page_path (data_page ctx)"
      "page_path (code_page ctx) \<noteq> page_path (stack_page ctx)"
      "page_path (data_page ctx) \<noteq> page_path (stack_page ctx)"
    using seg by (auto simp: segments_ok_def)
  have arg0: "arg_pfn ctx \<in> used (os s0)" using arg(1) r(5) by simp
  obtain s1 s2 s3 f1 f2 where
    run: "map_page A (fresh_leaf A) (?fl MM_SEG_CODE) a (code_page ctx) s0 = Inr s1"
      "map_page A (\<lambda>s. (arg_pfn ctx, s)) (?fl MM_SEG_DATA) a (data_page ctx) s1 = Inr s2"
      "map_page A (fresh_leaf A) (?fl MM_SEG_STACK) a (stack_page ctx) s2 = Inr s3"
    and sp: "space_ok A used left a 0 s3"
    and vm: "vmap s3 a = (\<lambda>_. None)(page_path (code_page ctx) := Some (f1, True, bit (?fl MM_SEG_CODE) 1),
       page_path (data_page ctx) := Some (arg_pfn ctx, True, bit (?fl MM_SEG_DATA) 1),
       page_path (stack_page ctx) := Some (f2, True, bit (?fl MM_SEG_STACK) 1))"
    and f: "f1 \<notin> used (os s0)" "f2 \<notin> used (os s0)" "f1 \<noteq> f2"
    and us: "used (os s3) = used (os s0) \<union> tree_frames (mem s3) a"
      "tree_frames (mem s3) a \<inter> used (os s0) \<subseteq> insert (arg_pfn ctx) (tree_frames (mem s0) a)"
    and ps: "tree_paths (mem s3) a = tree_paths (mem s0) a \<union>
      {q. prefix q (page_path (code_page ctx)) \<or> prefix q (page_path (data_page ctx)) \<or>
          prefix q (page_path (stack_page ctx))}"
    by (rule three_pages [OF r(1,2) arg0 arg(2) idx dist])
  have "prepare_context_mm A ctx s = Inr (ctx\<lparr>pgd := a\<rparr>, s3)"
    using al run
    by (simp add: prepare_context_mm_def allocate_def s0_def code_page_def data_page_def stack_page_def)
  moreover have "vmap s3 a (page_path (data_page ctx)) = Some (arg_pfn ctx, True, bit (?fl MM_SEG_DATA) 1)"
    using vm dist by simp
  from mapped_prepared [OF sp this us [unfolded r(4,5)] r(6) arg(1) ps [unfolded r(3), folded ctx_paths_def]]
  have "prepared_space used (ctx\<lparr>pgd := a\<rparr>) (used (os s)) s3" .
  ultimately show ?thesis
    using vm f r(5) by (intro exI [of _ "ctx\<lparr>pgd := a\<rparr>"] exI [of _ s3] exI [of _ f1] exI [of _ f2]) simp
qed


section \<open>Taking the address space down\<close>

text \<open>
  The tables to depth \<open>n\<close> are as they were: the paths in \<open>Q\<close> lead to the frames \<open>F\<close>, those in
  \<open>D\<close> (of length \<open>n\<close>) are gone already.
\<close>

definition intact ::
    "(pfn \<Rightarrow> nat \<Rightarrow> 64 word) \<Rightarrow> pfn \<Rightarrow> nat \<Rightarrow> (nat list \<Rightarrow> pfn) \<Rightarrow> nat list set \<Rightarrow> nat list set \<Rightarrow> bool" where
  "intact M r n F Q D \<longleftrightarrow>
     (\<forall>x. path_ok x \<and> length x \<le> n \<longrightarrow> node M r x = (if x \<in> Q \<and> x \<notin> D then Some (F x) else None)) \<and>
     (\<forall>x i. path_ok (x @ [i]) \<and> length x < n \<and> x @ [i] \<in> Q \<and> x @ [i] \<notin> D \<longrightarrow> small_entry (M (F x) i))"

lemma intact_node:
  "intact M r n F Q D \<Longrightarrow> path_ok x \<Longrightarrow> length x \<le> n \<Longrightarrow> x \<in> Q \<Longrightarrow> x \<notin> D \<Longrightarrow> node M r x = Some (F x)"
  by (simp add: intact_def)

lemma intact_less:
  assumes "intact M r (Suc n) F Q D" and "D = {x \<in> Q. length x = Suc n}"
  shows "intact M r n F Q {}"
  using assms by (force simp: intact_def)

text \<open>The entry that names a path of length \<open>n\<close>, and clearing it.\<close>

lemma intact_entry:
  assumes i: "intact M r n F Q D" and x: "path_ok (x @ [k])" "length x < n"
    and D: "\<And>y. y \<in> D \<Longrightarrow> length y = n" and Q: "x \<in> Q" "x @ [k] \<in> Q"
  shows "present (M (F x) k) \<longleftrightarrow> x @ [k] \<notin> D"
    and "x @ [k] \<notin> D \<Longrightarrow> entry_frame (M (F x) k) = F (x @ [k]) \<and> small_entry (M (F x) k)"
proof -
  have "node M r x = Some (F x)"
    by (rule intact_node [OF i _ _ Q(1)]) (use x D [of x] in auto)
  then have "node M r (x @ [k]) = (if present (M (F x) k) then Some (entry_frame (M (F x) k)) else None)"
    by (simp add: node_snoc)
  moreover have "node M r (x @ [k]) = (if x @ [k] \<notin> D then Some (F (x @ [k])) else None)"
    using i x Q(2) by (simp add: intact_def)
  ultimately show "present (M (F x) k) \<longleftrightarrow> x @ [k] \<notin> D"
    and "x @ [k] \<notin> D \<Longrightarrow> entry_frame (M (F x) k) = F (x @ [k]) \<and> small_entry (M (F x) k)"
    using i x Q(2) by (auto simp: intact_def split: if_splits)
qed

lemma intact_clear:
  assumes i: "intact M r n F Q D" and x: "path_ok (x @ [k])" "Suc (length x) = n"
    and D: "\<And>y. y \<in> D \<Longrightarrow> length y = n" and Q: "x \<in> Q"
    and inj: "\<And>y z. y \<in> Q \<Longrightarrow> z \<in> Q \<Longrightarrow> length y < n \<Longrightarrow> length z < n \<Longrightarrow> F y = F z \<Longrightarrow> y = z"
    and pre: "\<And>y j. y @ [j] \<in> Q \<Longrightarrow> y \<in> Q"
  shows "intact (M(F x := (M (F x))(k := 0))) r n F Q (insert (x @ [k]) D)"
proof -
  define M' where "M' = M(F x := (M (F x))(k := 0))"
  have M'x: "M' (F x) k = 0" and M'o: "\<And>t j. (t, j) \<noteq> (F x, k) \<Longrightarrow> M' t j = M t j"
    by (auto simp: M'_def)
  have node: "node M' r y = (if y = x @ [k] then None else node M r y)"
    if "path_ok y" "length y \<le> n" for y
    using that
  proof (induction y rule: rev_induct)
    case Nil
    then show ?case by (simp add: node_def)
  next
    case (snoc j y)
    then have y: "path_ok y" "length y < n" by auto
    have ne: "y \<noteq> x @ [k]" using y(2) x(2) by auto
    have IH: "node M' r y = node M r y" using snoc.IH [OF y(1)] y(2) ne by simp
    show ?case
    proof (cases "node M r y")
      case None
      then show ?thesis using IH by (simp add: node_snoc)
    next
      case (Some t)
      then have t: "t = F y" "y \<in> Q" using i y by (auto simp: intact_def split: if_splits)
      have "F y = F x \<longleftrightarrow> y = x" using inj [of y x] t(2) Q y(2) x(2) by auto
      then show ?thesis using IH Some t M'x M'o [of "F y" j] by (auto simp: node_snoc present_def)
    qed
  qed
  have small: "small_entry (M' (F y) j)"
    if "path_ok (y @ [j])" "length y < n" "y @ [j] \<in> Q" "y @ [j] \<notin> insert (x @ [k]) D" for y j
  proof -
    have "small_entry (M (F y) j)" using i that by (auto simp: intact_def)
    moreover have "F y = F x \<Longrightarrow> y = x" using inj [of y x] pre [OF that(3)] Q that(2) x(2) by auto
    ultimately show ?thesis using that(4) M'o [of "F y" j] by auto
  qed
  show ?thesis unfolding M'_def [symmetric] using node small i x(2) by (auto simp: intact_def)
qed

text \<open>
  The frames still in use while tables of depth \<open>n\<close> are being released, \<open>B\<close> besides them.
\<close>

definition releasing ::
    "('o \<Rightarrow> pfn set) \<Rightarrow> pfn set \<Rightarrow> pfn \<Rightarrow> nat \<Rightarrow> (nat list \<Rightarrow> pfn) \<Rightarrow> nat list set \<Rightarrow> nat list set \<Rightarrow>
     'o machine \<Rightarrow> bool" where
  "releasing used B r n F Q D s \<longleftrightarrow> intact (mem s) r n F Q D \<and>
     used (os s) = B \<union> F ` {x \<in> Q. length x \<le> n \<and> x \<notin> D}"

text \<open>The tables of a tree: frames of the page-table region, all different, none in \<open>B\<close>.\<close>

definition own_tables :: "(nat list \<Rightarrow> pfn) \<Rightarrow> nat list set \<Rightarrow> pfn set \<Rightarrow> bool" where
  "own_tables F Q B \<longleftrightarrow>
     (\<forall>x y. x \<in> Q \<and> y \<in> Q \<and> length x \<le> 3 \<and> length y \<le> 3 \<and> F x = F y \<longrightarrow> x = y) \<and>
     (\<forall>x. x \<in> Q \<and> length x \<le> 3 \<longrightarrow> get_mem_region (F x) = Some OS_PT_REG \<and> F x \<notin> B) \<and>
     (\<forall>x i. x @ [i] \<in> Q \<longrightarrow> x \<in> Q \<and> i < 512 \<and> path_ok x)"

lemma own_tablesD:
  assumes "own_tables F Q B"
  shows "x \<in> Q \<Longrightarrow> y \<in> Q \<Longrightarrow> length x \<le> 3 \<Longrightarrow> length y \<le> 3 \<Longrightarrow> F x = F y \<Longrightarrow> x = y"
    and "x \<in> Q \<Longrightarrow> length x \<le> 3 \<Longrightarrow> get_mem_region (F x) = Some OS_PT_REG \<and> F x \<notin> B"
    and "x @ [i] \<in> Q \<Longrightarrow> x \<in> Q" and "x @ [i] \<in> Q \<Longrightarrow> path_ok (x @ [i])"
  using assms unfolding own_tables_def by (blast, blast, blast, simp)

lemma free_entry_releases:
  assumes A: "allocator_ok A used left" and own: "own_tables F Q B"
    and rel: "releasing used B r n F Q D s" and x: "x @ [k] \<in> Q" "Suc (length x) = n" "n \<le> 3"
    and D: "\<And>y. y \<in> D \<Longrightarrow> length y = n"
  shows "releasing used B r n F Q (insert (x @ [k]) D) (free_entry A (F x) k s)"
proof -
  have i: "intact (mem s) r n F Q D" and us: "used (os s) = B \<union> F ` {x \<in> Q. length x \<le> n \<and> x \<notin> D}"
    using rel by (simp_all add: releasing_def)
  note xq = own_tablesD(3,4) [OF own x(1)]
  have "length x < n" using x(2) by simp
  note e = intact_entry [OF i xq(2) this D xq(1) x(1)]
  show ?thesis
  proof (cases "x @ [k] \<in> D")
    case True
    then have "free_entry A (F x) k s = s" using e(1) by (simp add: free_entry_def present_def)
    then show ?thesis using rel True by (simp add: insert_absorb)
  next
    case False
    then have pr: "present (mem s (F x) k)" and fr: "entry_frame (mem s (F x) k) = F (x @ [k])"
      using e by simp_all
    have run: "free_entry A (F x) k s =
        set_entry (F x) k 0 (s\<lparr>os := os_pfn_free A OS_PT_REG (ucast (F (x @ [k]))) (os s)\<rparr>)"
      using pr fr by (simp add: free_entry_def present_def)
    have "F (x @ [k]) \<in> used (os s)" using us False x by auto
    moreover have reg: "get_mem_region (F (x @ [k])) = Some OS_PT_REG" "F (x @ [k]) \<notin> B"
      using own_tablesD(2) [OF own x(1)] x by simp_all
    ultimately have free: "used (os_pfn_free A OS_PT_REG (ucast (F (x @ [k]))) (os s)) =
        used (os s) - {F (x @ [k])}"
      using allocator_okD(2) [OF A] by blast
    have "F y \<noteq> F (x @ [k])" if "y \<in> Q" "length y \<le> n" "y \<noteq> x @ [k]" for y
      using own_tablesD(1) [OF own, of y "x @ [k]"] that x by auto
    then have us': "used (os s) - {F (x @ [k])} =
        B \<union> F ` {y \<in> Q. length y \<le> n \<and> y \<notin> insert (x @ [k]) D}"
      using us reg(2) by auto
    have "intact ((mem s)(F x := (mem s (F x))(k := 0))) r n F Q (insert (x @ [k]) D)"
    proof (rule intact_clear [OF i xq(2) x(2) D xq(1)])
      show "y = z" if "y \<in> Q" "z \<in> Q" "length y < n" "length z < n" "F y = F z" for y z
        using own_tablesD(1) [OF own, of y z] that x(3) by simp
      show "y \<in> Q" if "y @ [j] \<in> Q" for y j using own_tablesD(3) [OF own that] .
    qed
    then show ?thesis using run free us' by (simp add: releasing_def)
  qed
qed


text \<open>Following the tables down to depth \<open>n\<close>.\<close>

lemma follow:
  assumes own: "own_tables F Q B" and rel: "releasing used B r n F Q D s"
    and D: "\<And>y. y \<in> D \<Longrightarrow> length y = n" and x: "x @ [k] \<in> Q" "Suc (length x) < n"
  shows "entry_frame (mem s (F x) k) = F (x @ [k])"
proof -
  have i: "intact (mem s) r n F Q D" using rel by (simp add: releasing_def)
  have "x @ [k] \<notin> D" using D [of "x @ [k]"] x(2) by auto
  then show ?thesis
    using intact_entry(2) [OF i own_tablesD(4) [OF own x(1)] _ D own_tablesD(3) [OF own x(1)] x(1)] x(2)
    by simp
qed

lemma free_memory_level:
  assumes A: "allocator_ok A used left" and own: "own_tables F Q B"
    and rel: "releasing used B r n F Q D s" and D: "\<And>y. y \<in> D \<Longrightarrow> length y = n"
    and root: "F [] = r" and Q: "page_path (segment_page c m) \<in> Q"
    and n: "n = 1 \<or> n = 2 \<or> n = 3"
  shows "\<exists>s'. free_memory A m r c (5 - n) arg s = Inr s' \<and>
    releasing used B r n F Q (insert (take n (page_path (segment_page c m))) D) s'"
proof -
  define v where "v = segment_page c m"
  have q4: "[l4_index v, l3_index v, l2_index v] @ [l1_index v] \<in> Q"
    using Q by (simp add: page_path_def v_def)
  have q3: "[l4_index v, l3_index v] @ [l2_index v] \<in> Q" using own_tablesD(3) [OF own q4] by simp
  have q2: "[l4_index v] @ [l3_index v] \<in> Q" using own_tablesD(3) [OF own q3] by simp
  have q1: "[] @ [l4_index v] \<in> Q" using own_tablesD(3) [OF own q2] by simp
  have v: "\<not> 512 \<le> l4_index v" using own_tablesD(4) [OF own q1] by simp
  note fe = free_entry_releases [OF A own rel]
  have path: "page_path (segment_page c m) = [l4_index v, l3_index v, l2_index v, l1_index v]"
    by (simp add: page_path_def v_def)
  from n show ?thesis
  proof (elim disjE)
    assume 1: "n = 1"
    have "releasing used B r n F Q (insert ([] @ [l4_index v]) D) (free_entry A (F []) (l4_index v) s)"
      by (rule fe [OF q1]) (use 1 D in simp_all)
    then show ?thesis using 1 v root path by (simp add: free_memory_def v_def [symmetric] Let_def)
  next
    assume 2: "n = 2"
    have l3: "entry_frame (mem s r (l4_index v)) = F [l4_index v]"
      using follow [OF own rel D q1] 2 root by simp
    have "releasing used B r n F Q (insert ([l4_index v] @ [l3_index v]) D)
        (free_entry A (F [l4_index v]) (l3_index v) s)"
      by (rule fe [OF q2]) (use 2 D in simp_all)
    then show ?thesis using 2 v l3 path by (simp add: free_memory_def v_def [symmetric] Let_def)
  next
    assume 3: "n = 3"
    have l3: "entry_frame (mem s r (l4_index v)) = F [l4_index v]"
      using follow [OF own rel D q1] 3 root by simp
    have l2: "entry_frame (mem s (F [l4_index v]) (l3_index v)) = F [l4_index v, l3_index v]"
      using follow [OF own rel D q2] 3 by simp
    have "releasing used B r n F Q (insert ([l4_index v, l3_index v] @ [l2_index v]) D)
        (free_entry A (F [l4_index v, l3_index v]) (l2_index v) s)"
      by (rule fe [OF q3]) (use 3 D in simp_all)
    then show ?thesis using 3 v l3 l2 path by (simp add: free_memory_def v_def [symmetric] Let_def)
  qed
qed

lemma ctx_paths_pages:
  "page_path (code_page ctx) \<in> ctx_paths ctx" "page_path (data_page ctx) \<in> ctx_paths ctx"
  "page_path (stack_page ctx) \<in> ctx_paths ctx"
  by (simp_all add: ctx_paths_def)

lemma prefix_take: "prefix x p \<Longrightarrow> x = take (length x) p"
  by (auto simp: prefix_def)

lemma ctx_paths_length:
  assumes "n \<le> 4"
  shows "{x \<in> ctx_paths ctx. length x = n} =
    {take n (page_path (code_page ctx)), take n (page_path (data_page ctx)),
     take n (page_path (stack_page ctx))}"
proof -
  have len: "length (page_path v) = 4" for v by (simp add: page_path_def)
  have "length (take n (page_path v)) = n" for v using assms len by simp
  then show ?thesis by (auto simp: ctx_paths_def take_is_prefix dest: prefix_take)
qed

lemma cleanup_round_tables:
  assumes A: "allocator_ok A used left" and own: "own_tables F (ctx_paths ctx) B"
    and rel: "releasing used B (pgd ctx) (Suc n) F (ctx_paths ctx) {} s"
    and root: "F [] = pgd ctx" and n: "n < 3"
  shows "\<exists>s'. cleanup_round A ctx (4 - n) s = Inr s' \<and>
    releasing used B (pgd ctx) n F (ctx_paths ctx) {} s'"
proof -
  let ?Q = "ctx_paths ctx" and ?n = "Suc n"
  have n3: "?n = 1 \<or> ?n = 2 \<or> ?n = 3" using n by auto
  have len: "length (take ?n (page_path v)) = ?n" for v using n by (simp add: page_path_def)
  have lv: "5 - ?n = 4 - n" by simp
  have go: "\<exists>s'. free_memory A m (pgd ctx) ch (4 - n) (arg_pfn ctx) u = Inr s' \<and>
      releasing used B (pgd ctx) ?n F ?Q (insert (take ?n (page_path (segment_page ch m))) D) s'"
    if "releasing used B (pgd ctx) ?n F ?Q D u" "\<forall>y \<in> D. length y = ?n"
      "page_path (segment_page ch m) \<in> ?Q" for m ch D u
    using free_memory_level [OF A own that(1) _ root that(3) n3, of "arg_pfn ctx"] that(2)
    unfolding lv by blast
  note pages = ctx_paths_pages [of ctx, unfolded code_page_def data_page_def stack_page_def]
  obtain s1 where s1: "free_memory A (mms ctx MM_SEG_STACK) (pgd ctx) CHR ''s'' (4 - n) (arg_pfn ctx) s = Inr s1"
      "releasing used B (pgd ctx) ?n F ?Q {take ?n (page_path (stack_page ctx))} s1"
    using go [OF rel _ pages(3)] unfolding stack_page_def by blast
  have l1: "\<forall>y \<in> {take ?n (page_path (stack_page ctx))}. length y = ?n" using len by blast
  obtain s2 where s2: "free_memory A (mms ctx MM_SEG_CODE) (pgd ctx) CHR ''c'' (4 - n) (arg_pfn ctx) s1 = Inr s2"
      "releasing used B (pgd ctx) ?n F ?Q
        {take ?n (page_path (code_page ctx)), take ?n (page_path (stack_page ctx))} s2"
    using go [OF s1(2) l1 pages(1)] unfolding code_page_def by blast
  have l2: "\<forall>y \<in> {take ?n (page_path (code_page ctx)), take ?n (page_path (stack_page ctx))}. length y = ?n"
    using len by blast
  obtain s3 where s3: "free_memory A (mms ctx MM_SEG_DATA) (pgd ctx) CHR ''d'' (4 - n) (arg_pfn ctx) s2 = Inr s3"
      "releasing used B (pgd ctx) ?n F ?Q
        {take ?n (page_path (data_page ctx)), take ?n (page_path (code_page ctx)),
         take ?n (page_path (stack_page ctx))} s3"
    using go [OF s2(2) l2 pages(2)] unfolding data_page_def by blast
  have all: "{take ?n (page_path (data_page ctx)), take ?n (page_path (code_page ctx)),
      take ?n (page_path (stack_page ctx))} = {x \<in> ?Q. length x = ?n}"
    using ctx_paths_length [of ?n ctx] n by auto
  have "{x \<in> ?Q. length x \<le> ?n \<and> x \<notin> {x \<in> ?Q. length x = ?n}} =
      {x \<in> ?Q. length x \<le> n \<and> x \<notin> {}}"
    by (auto simp: le_Suc_eq)
  moreover have "intact (mem s3) (pgd ctx) n F ?Q {}"
    by (rule intact_less [OF _ refl]) (use s3(2) [unfolded all] in \<open>simp add: releasing_def\<close>)
  ultimately have "releasing used B (pgd ctx) n F ?Q {} s3"
    using s3(2) [unfolded all] by (simp only: releasing_def)
  then show ?thesis using s1(1) s2(1) s3(1) by (simp add: cleanup_round_def)
qed

text \<open>The first round releases the pages themselves.\<close>

lemma leaf_of_path:
  assumes own: "own_tables F Q B" and i: "intact (mem s) r 4 F Q {}" and root: "F [] = r"
    and Q: "page_path v \<in> Q"
  shows "l4_index v < 512"
    and "mem s (entry_frame (mem s (entry_frame (mem s (entry_frame (mem s r (l4_index v)))
      (l3_index v))) (l2_index v))) (l1_index v) = e \<Longrightarrow> drop_bit 12 e = ucast (F (page_path v))"
proof -
  have q4: "[l4_index v, l3_index v, l2_index v] @ [l1_index v] \<in> Q"
    using Q by (simp add: page_path_def)
  have q3: "[l4_index v, l3_index v] @ [l2_index v] \<in> Q" using own_tablesD(3) [OF own q4] by simp
  have q2: "[l4_index v] @ [l3_index v] \<in> Q" using own_tablesD(3) [OF own q3] by simp
  have q1: "[] @ [l4_index v] \<in> Q" using own_tablesD(3) [OF own q2] by simp
  show "l4_index v < 512" using own_tablesD(4) [OF own q1] by simp
  have step: "entry_frame (mem s (F x) k) = F (x @ [k]) \<and> small_entry (mem s (F x) k)"
    if "x @ [k] \<in> Q" "length x < 4" for x k
    using intact_entry(2) [OF i own_tablesD(4) [OF own that(1)] that(2) _ own_tablesD(3) [OF own that(1)]
        that(1)] by simp
  show "drop_bit 12 e = ucast (F (page_path v))"
    if "mem s (entry_frame (mem s (entry_frame (mem s (entry_frame (mem s r (l4_index v)))
      (l3_index v))) (l2_index v))) (l1_index v) = e"
    using that step [OF q1] step [OF q2] step [OF q3] step [OF q4] root small_entry_frame [of e]
    by (simp add: page_path_def)
qed


text \<open>Its three calls, each of which releases one frame.\<close>

definition free_page :: "'o frame_ops \<Rightarrow> pfn \<Rightarrow> 'o machine \<Rightarrow> 'o machine" where
  "free_page A f s = s\<lparr>os := os_pfn_free A USER_REG (ucast f) (os s)\<rparr>"

lemma free_page_used:
  assumes "allocator_ok A used left" and "f \<in> used (os s)" and "get_mem_region f = Some USER_REG"
  shows "used (os (free_page A f s)) = used (os s) - {f}" and "mem (free_page A f s) = mem s"
  using allocator_okD(2) [OF assms] by (simp_all add: free_page_def)

lemma cleanup_round_run:
  assumes own: "own_tables F (ctx_paths ctx) B"
    and i: "intact (mem s) (pgd ctx) 4 F (ctx_paths ctx) {}" and root: "F [] = pgd ctx"
  shows "cleanup_round A ctx 1 s = Inr (free_page A (arg_pfn ctx)
    (free_page A (F (page_path (code_page ctx))) (free_page A (F (page_path (stack_page ctx))) s)))"
proof -
  define s1 where "s1 = free_page A (F (page_path (stack_page ctx))) s"
  define s2 where "s2 = free_page A (F (page_path (code_page ctx))) s1"
  have mem: "mem s1 = mem s" "mem s2 = mem s" by (simp_all add: s1_def s2_def free_page_def)
  note lp = leaf_of_path [OF own _ root]
  have "free_memory A (mms ctx MM_SEG_STACK) (pgd ctx) CHR ''s'' 1 (arg_pfn ctx) s = Inr s1"
    using lp [OF i ctx_paths_pages(3)]
    by (simp add: free_memory_def stack_page_def s1_def free_page_def Let_def)
  moreover have "free_memory A (mms ctx MM_SEG_CODE) (pgd ctx) CHR ''c'' 1 (arg_pfn ctx) s1 = Inr s2"
    using lp [of s1, unfolded mem, OF i ctx_paths_pages(1)]
    by (simp add: free_memory_def code_page_def s2_def free_page_def Let_def mem)
  moreover have "free_memory A (mms ctx MM_SEG_DATA) (pgd ctx) CHR ''d'' 1 (arg_pfn ctx) s2 =
      Inr (free_page A (arg_pfn ctx) s2)"
    using lp [of s2, unfolded mem, OF i ctx_paths_pages(2)]
    by (simp add: free_memory_def data_page_def free_page_def Let_def)
  ultimately show ?thesis by (simp add: cleanup_round_def s1_def s2_def)
qed

text \<open>The frames at the ends of the paths are the three pages; without them the tables are left.\<close>

lemma frames_without_pages:
  assumes tabs: "\<And>x. x \<in> ctx_paths ctx \<Longrightarrow> length x \<le> 3 \<Longrightarrow> get_mem_region (F x) = Some OS_PT_REG"
    and pages: "\<And>f. f \<in> P \<Longrightarrow> get_mem_region f = Some USER_REG"
    and P: "P = {F (page_path (stack_page ctx)), F (page_path (code_page ctx)), F (page_path (data_page ctx))}"
  shows "F ` ctx_paths ctx - P = F ` {x \<in> ctx_paths ctx. length x \<le> 3 \<and> x \<notin> {}}"
proof -
  have four: "F x \<in> P" if "x \<in> ctx_paths ctx" "\<not> length x \<le> 3" for x
  proof -
    have "length x \<le> 4" using that(1) by (auto simp: ctx_paths_def page_path_def dest: prefix_length_le)
    then have "x \<in> {x \<in> ctx_paths ctx. length x = 4}" using that by auto
    then show ?thesis unfolding ctx_paths_length [OF order_refl] P by (auto simp: page_path_def)
  qed
  have three: "F x \<notin> P" if "x \<in> ctx_paths ctx" "length x \<le> 3" for x
    using tabs [OF that] pages by fastforce
  have "{x \<in> ctx_paths ctx. F x \<notin> P} = {x \<in> ctx_paths ctx. length x \<le> 3 \<and> x \<notin> {}}"
    using three four by blast
  moreover have "F ` Q - X = F ` {x \<in> Q. F x \<notin> X}" for Q X by blast
  ultimately show ?thesis by simp
qed

lemma cleanup_round_pages:
  assumes A: "allocator_ok A used left" and own: "own_tables F (ctx_paths ctx) B"
    and i: "intact (mem s) (pgd ctx) 4 F (ctx_paths ctx) {}" and root: "F [] = pgd ctx"
    and us: "used (os s) = insert (arg_pfn ctx) B \<union> F ` ctx_paths ctx"
    and data: "F (page_path (data_page ctx)) = arg_pfn ctx" "arg_pfn ctx \<notin> B"
      "get_mem_region (arg_pfn ctx) = Some USER_REG"
    and pages: "\<And>v. v = code_page ctx \<or> v = stack_page ctx \<Longrightarrow>
        get_mem_region (F (page_path v)) = Some USER_REG \<and> F (page_path v) \<notin> insert (arg_pfn ctx) B"
      "F (page_path (code_page ctx)) \<noteq> F (page_path (stack_page ctx))"
  shows "\<exists>s'. cleanup_round A ctx 1 s = Inr s' \<and>
    releasing used B (pgd ctx) 3 F (ctx_paths ctx) {} s'"
proof -
  let ?fs = "F (page_path (stack_page ctx))" and ?fc = "F (page_path (code_page ctx))"
  define s1 where "s1 = free_page A ?fs s"
  define s2 where "s2 = free_page A ?fc s1"
  define s3 where "s3 = free_page A (arg_pfn ctx) s2"
  have run: "cleanup_round A ctx 1 s = Inr s3"
    unfolding s3_def s2_def s1_def by (rule cleanup_round_run [OF own i root])
  have c: "get_mem_region ?fc = Some USER_REG" "?fc \<notin> insert (arg_pfn ctx) B"
    and st: "get_mem_region ?fs = Some USER_REG" "?fs \<notin> insert (arg_pfn ctx) B"
    using pages(1) by blast+
  note free = free_page_used [OF A]
  have "?fs \<in> used (os s)" using us ctx_paths_pages(3) [of ctx] by simp
  note u1 = free [OF this st(1), folded s1_def]
  have "?fc \<in> used (os s1)" using us u1 ctx_paths_pages(1) [of ctx] pages(2) by simp
  note u2 = free [OF this c(1), folded s2_def]
  have "arg_pfn ctx \<in> used (os s2)" using us u1 u2 c(2) st(2) by auto
  note u3 = free [OF this data(3), folded s3_def]
  let ?P = "{?fs, ?fc, F (page_path (data_page ctx))}"
  have "F ` ctx_paths ctx - ?P = F ` {x \<in> ctx_paths ctx. length x \<le> 3 \<and> x \<notin> {}}"
    by (rule frames_without_pages [OF _ _ refl]) (use own_tablesD(2) [OF own] c(1) st(1) data(1,3) in auto)
  moreover have "insert (arg_pfn ctx) B - ?P = B" unfolding data(1) using c(2) st(2) data(2) by blast
  moreover have "used (os s3) = (insert (arg_pfn ctx) B - ?P) \<union> (F ` ctx_paths ctx - ?P)"
    unfolding u3(1) u2(1) u1(1) us data(1) by blast
  ultimately have "used (os s3) = B \<union> F ` {x \<in> ctx_paths ctx. length x \<le> 3 \<and> x \<notin> {}}" by simp
  moreover have "intact (mem s3) (pgd ctx) 3 F (ctx_paths ctx) {}"
    using i u1(2) u2(2) u3(2) by (auto simp: intact_def)
  ultimately show ?thesis using run by (simp add: releasing_def)
qed

text \<open>
  From a prepared address space the whole cleanup releases every table and every page once,
  the argument page included, and nothing else.
\<close>

lemma cleanup_releases:
  assumes A: "allocator_ok A used left" and own: "own_tables F (ctx_paths ctx) B"
    and r1: "\<exists>s1. cleanup_round A ctx 1 s = Inr s1 \<and> releasing used B (pgd ctx) 3 F (ctx_paths ctx) {} s1"
    and root: "F [] = pgd ctx"
  shows "\<exists>s'. cleanup_context_mm A ctx s = Inr s' \<and> used (os s') = B"
proof -
  obtain s1 where s1: "cleanup_round A ctx 1 s = Inr s1"
      "releasing used B (pgd ctx) (Suc 2) F (ctx_paths ctx) {} s1"
    using r1 by (auto simp: numeral_3_eq_3 numeral_2_eq_2)
  obtain s2 where s2: "cleanup_round A ctx 2 s1 = Inr s2"
      "releasing used B (pgd ctx) (Suc 1) F (ctx_paths ctx) {} s2"
    using cleanup_round_tables [OF A own s1(2) root] by (auto simp: numeral_2_eq_2)
  obtain s3 where s3: "cleanup_round A ctx 3 s2 = Inr s3"
      "releasing used B (pgd ctx) (Suc 0) F (ctx_paths ctx) {} s3"
    using cleanup_round_tables [OF A own s2(2) root] by auto
  obtain s4 where s4: "cleanup_round A ctx 4 s3 = Inr s4"
      "releasing used B (pgd ctx) 0 F (ctx_paths ctx) {} s4"
    using cleanup_round_tables [OF A own s3(2) root] by auto
  have nil: "[] \<in> ctx_paths ctx" by (simp add: ctx_paths_def)
  then have "{x \<in> ctx_paths ctx. length x \<le> 0 \<and> x \<notin> {}} = {[]}" by auto
  then have us: "used (os s4) = insert (pgd ctx) B" using s4(2) root by (simp add: releasing_def)
  have reg: "get_mem_region (pgd ctx) = Some OS_PT_REG" "pgd ctx \<notin> B"
    using own_tablesD(2) [OF own nil] root by simp_all
  have "used (os_pfn_free A OS_PT_REG (ucast (pgd ctx)) (os s4)) = B"
    using allocator_okD(2) [OF A, of "pgd ctx" "os s4", OF _ reg(1)] us reg(2) by auto
  then show ?thesis
    using s1(1) s2(1) s3(1) s4(1) by (simp add: cleanup_context_mm_def)
qed

text \<open>A prepared address space is such a tree; its paths of length 4 lead to pages.\<close>

lemma prepared_tree:
  assumes p: "prepared_space used ctx B0 s"
  defines "F \<equiv> \<lambda>x. the (node (mem s) (pgd ctx) x)"
  shows "own_tables F (ctx_paths ctx) (B0 - {arg_pfn ctx})" and "intact (mem s) (pgd ctx) 4 F (ctx_paths ctx) {}"
    and "tree_frames (mem s) (pgd ctx) = F ` ctx_paths ctx"
proof -
  let ?Q = "ctx_paths ctx" and ?r = "pgd ctx" and ?B = "B0 - {arg_pfn ctx}"
  have ok: "tree_ok (mem s) ?r (used (os s))"
    and out: "tree_frames (mem s) ?r \<inter> B0 = {arg_pfn ctx}" and ps: "tree_paths (mem s) ?r = ?Q"
    using p unfolding prepared_space_def by blast+
  have F: "path_ok x \<and> length x \<le> 4 \<and> node (mem s) ?r x = Some (F x)" if "x \<in> ?Q" for x
    using that unfolding ps [symmetric] tree_paths_def F_def by auto
  have notQ: "node (mem s) ?r x = None" if "path_ok x" "length x \<le> 4" "x \<notin> ?Q" for x
    using that unfolding ps [symmetric] tree_paths_def by auto
  show frames: "tree_frames (mem s) ?r = F ` ?Q"
    unfolding tree_frames_def using F notQ by (force simp: image_def)
  have tabs: "get_mem_region (F x) = Some OS_PT_REG" if "x \<in> ?Q" "length x \<le> 3" for x
    using tree_okD(2) [OF ok] F [OF that(1)] that(2) by blast
  have B: "F x \<notin> ?B" if "x \<in> ?Q" for x using out frames that by auto
  show own: "own_tables F ?Q ?B"
    unfolding own_tables_def
  proof (intro conjI allI impI)
    fix x y assume "x \<in> ?Q \<and> y \<in> ?Q \<and> length x \<le> 3 \<and> length y \<le> 3 \<and> F x = F y"
    then show "x = y" using tree_okD(5) [OF ok, of x y "F x"] F by metis
  next
    fix x i assume xi: "x @ [i] \<in> ?Q"
    then show "x \<in> ?Q" by (auto simp: ctx_paths_def dest: append_prefixD)
    show "i < 512" and "path_ok x" using F [OF xi] by simp_all
  qed (use tabs B in auto)
  have small: "small_entry (mem s (F x) i)" if "x @ [i] \<in> ?Q" for x i
  proof -
    have x: "x \<in> ?Q" using own_tablesD(3) [OF own that] .
    have "present (mem s (F x) i)"
      using F [OF that] F [OF x] by (auto simp: node_snoc split: if_splits)
    then show ?thesis using tree_okD(6) [OF ok, of x "F x" i] F [OF x] F [OF that] by simp
  qed
  show "intact (mem s) ?r 4 F ?Q {}"
    unfolding intact_def using F notQ small by auto
qed

lemma prepared_pages:
  assumes p: "prepared_space used ctx B0 s" and F: "F = (\<lambda>x. the (node (mem s) (pgd ctx) x))"
    and v: "page_path v \<in> ctx_paths ctx"
  shows "get_mem_region (F (page_path v)) = Some USER_REG"
    and "page_path u \<in> ctx_paths ctx \<Longrightarrow> F (page_path u) = F (page_path v) \<Longrightarrow> page_path u = page_path v"
proof -
  have ok: "tree_ok (mem s) (pgd ctx) (used (os s))" and ps: "tree_paths (mem s) (pgd ctx) = ctx_paths ctx"
    using p unfolding prepared_space_def by blast+
  have n: "node (mem s) (pgd ctx) (page_path w) = Some (F (page_path w))" "path_ok (page_path w)"
      "length (page_path w) = 4" if "page_path w \<in> ctx_paths ctx" for w
    using that unfolding ps [symmetric] by (auto simp: tree_paths_def F page_path_def)
  note t = tree_ok_pages [OF ok n(2,3,1) [OF v]]
  show "get_mem_region (F (page_path v)) = Some USER_REG" by (rule t)
  show "page_path u = page_path v" if "page_path u \<in> ctx_paths ctx" "F (page_path u) = F (page_path v)"
    using t(3) [of "page_path u"] n [OF that(1)] that(2) by simp
qed

lemma prepared_space_clean:
  assumes A: "allocator_ok A used left" and p: "prepared_space used ctx B0 s"
    and seg: "segments_ok ctx" and arg: "get_mem_region (arg_pfn ctx) = Some USER_REG"
  shows "\<exists>s'. cleanup_context_mm A ctx s = Inr s' \<and> used (os s') = B0 - {arg_pfn ctx}"
proof -
  let ?Q = "ctx_paths ctx" and ?r = "pgd ctx" and ?B = "B0 - {arg_pfn ctx}"
  define F where "F = (\<lambda>x. the (node (mem s) ?r x))"
  have data: "F (page_path (data_page ctx)) = arg_pfn ctx"
    and us: "used (os s) = B0 \<union> tree_frames (mem s) ?r" and out: "tree_frames (mem s) ?r \<inter> B0 = {arg_pfn ctx}"
    using p by (auto simp: prepared_space_def F_def)
  note t = prepared_tree [OF p, folded F_def] and pg = prepared_pages [OF p F_def]
  have root: "F [] = ?r" by (simp add: F_def node_def)
  have dist: "page_path (code_page ctx) \<noteq> page_path (data_page ctx)"
      "page_path (code_page ctx) \<noteq> page_path (stack_page ctx)"
      "page_path (data_page ctx) \<noteq> page_path (stack_page ctx)"
    using seg by (auto simp: segments_ok_def)
  note c = ctx_paths_pages [of ctx]
  have "\<exists>s1. cleanup_round A ctx 1 s = Inr s1 \<and> releasing used ?B ?r 3 F ?Q {} s1"
  proof (rule cleanup_round_pages [OF A t(1,2) root _ data _ arg])
    show "used (os s) = insert (arg_pfn ctx) ?B \<union> F ` ?Q" using us out t(3) by auto
    show "get_mem_region (F (page_path v)) = Some USER_REG \<and>
        F (page_path v) \<notin> insert (arg_pfn ctx) ?B" if "v = code_page ctx \<or> v = stack_page ctx" for v
    proof -
      have q: "page_path v \<in> ?Q" and "page_path v \<noteq> page_path (data_page ctx)" using that c dist by auto
      then have "F (page_path v) \<noteq> arg_pfn ctx" using pg(2) [OF c(2) q] data by auto
      then show ?thesis using pg(1) [OF q] q out t(3) by auto
    qed
    show "F (page_path (code_page ctx)) \<noteq> F (page_path (stack_page ctx))"
      using pg(2) [OF c(3) c(1)] dist(2) by auto
  qed simp
  from cleanup_releases [OF A t(1) this root] show ?thesis .
qed

end
