(* ===== verification/Memory_Properties.thy ===== *)
theory Memory_Properties
  imports Context_MM Lazy_Memory
begin

text \<open>
  The properties of the two memory assignments, with witnesses on a small machine: an
  allocator that hands out the first free frame of a region from a list of frames in use.
\<close>

section \<open>An allocator and a machine\<close>

definition pool_base :: "region \<Rightarrow> nat" where
  "pool_base reg = (case reg of OS_DS_REG \<Rightarrow> 0x800 | OS_PT_REG \<Rightarrow> 0x2000 | USER_REG \<Rightarrow> 0x6400)"

definition pool_frames :: "region \<Rightarrow> pfn list" where
  "pool_frames reg = map (\<lambda>i. word_of_nat (pool_base reg + i)) [0 ..< 24]"

definition pool :: "pfn list frame_ops" where
  "pool = \<lparr>os_pfn_alloc = (\<lambda>reg st. let a = hd (filter (\<lambda>a. a \<notin> set st) (pool_frames reg)) in (a, a # st)),
           os_pfn_free = (\<lambda>reg a st. removeAll (ucast a) st)\<rparr>"

definition pool_left :: "pfn list \<Rightarrow> nat" where
  "pool_left st = 24 - length st"

lemma pool_frame_nat: "i < 24 \<Longrightarrow> unat (word_of_nat (pool_base reg + i) :: pfn) = pool_base reg + i"
  by (rule unat_small_32) (auto simp: pool_base_def split: region.split)

lemma pool_frames_distinct: "distinct (pool_frames reg)"
proof -
  have "inj_on (\<lambda>i. word_of_nat (pool_base reg + i) :: pfn) {0 ..< 24}"
  proof (rule inj_onI)
    fix i j assume ij: "i \<in> {0 ..< 24}" "j \<in> {0 ..< 24}"
      and "word_of_nat (pool_base reg + i) = (word_of_nat (pool_base reg + j) :: pfn)"
    then have "unat (word_of_nat (pool_base reg + i) :: pfn) = unat (word_of_nat (pool_base reg + j) :: pfn)"
      by (simp only:)
    with ij show "i = j" by (simp add: pool_frame_nat del: of_nat_add)
  qed
  then show ?thesis by (simp add: pool_frames_def distinct_map del: of_nat_add)
qed

lemma frame_address: "unat (push_bit 12 (ucast (a :: pfn) :: 64 word)) = unat a * 4096"
proof -
  have "unat a * 4096 < 2 ^ 64" using unat_less_32 [of a] by simp
  then have "unat (ucast a * 4096 :: 64 word) = unat (ucast a :: 64 word) * 4096"
    by (simp add: unat_mult_lem [THEN iffD1] unat_ucast_32_64)
  then show ?thesis by (simp add: push_bit_eq_mult unat_ucast_32_64)
qed

lemma pool_frames_region: "a \<in> set (pool_frames reg) \<Longrightarrow> get_mem_region a = Some reg"
proof -
  assume "a \<in> set (pool_frames reg)"
  then obtain i where "i < 24" "a = word_of_nat (pool_base reg + i)"
    by (auto simp: pool_frames_def simp del: of_nat_add)
  then have "unat a = pool_base reg + i" using pool_frame_nat by simp
  then show ?thesis using \<open>i < 24\<close>
    by (cases reg) (simp_all add: get_mem_region_def Let_def word_less_nat_alt word_le_nat_alt
        frame_address pool_base_def)
qed

lemma pool_ok: "allocator_ok pool set pool_left"
proof -
  have "hd (filter (\<lambda>a. a \<notin> set st) (pool_frames reg)) \<in> set (pool_frames reg) - set st"
    if "0 < pool_left st" for reg st
  proof -
    have "length (pool_frames reg) = 24" by (simp add: pool_frames_def)
    then have "card (set (pool_frames reg)) = 24"
      using distinct_card [OF pool_frames_distinct] by simp
    moreover have "card (set st) < 24"
      using that card_length [of st] by (simp add: pool_left_def)
    ultimately have "\<not> set (pool_frames reg) \<subseteq> set st"
      using card_mono [of "set st" "set (pool_frames reg)"] by auto
    then have "filter (\<lambda>a. a \<notin> set st) (pool_frames reg) \<noteq> []" by (auto simp: filter_empty_conv)
    from hd_in_set [OF this] show ?thesis by auto
  qed
  moreover have "length (removeAll a st) \<le> length st" for a st
    unfolding removeAll_filter_not_eq by (rule length_filter_le)
  moreover have "ucast (ucast a :: 64 word) = a" for a :: pfn
    by (rule bit_word_eqI) (auto simp: bit_simps)
  ultimately show ?thesis
    unfolding allocator_ok_def
    by (auto simp: pool_def Let_def pool_left_def
        intro: pool_frames_region intro!: diff_le_mono2)
qed

section \<open>Assignment 1: building and taking down an address space\<close>

definition ex_segment :: "64 word \<Rightarrow> 64 word \<Rightarrow> 32 word \<Rightarrow> mm_segment" where
  "ex_segment a b fl = \<lparr>seg_start = a, seg_end = b, access_flags = fl\<rparr>"

definition ex_context :: exec_context where
  "ex_context = \<lparr>ctx_id = 1, ctx_type = 0, ctx_status = 0, used_mem = 0, pgd = 0,
     mms = (\<lambda>g. case g of MM_SEG_CODE \<Rightarrow> ex_segment 0x100000000 0x13FFFFFFF 5
                | MM_SEG_RODATA \<Rightarrow> ex_segment 0x140000000 0x17FFFFFFF 1
                | MM_SEG_DATA \<Rightarrow> ex_segment 0x180000000 0x1FFFFFFFF 3
                | MM_SEG_STACK \<Rightarrow> ex_segment 0x7FF000000 0x800000000 3),
     ctx_name = ''init'', arg_pfn = 0x6400, num_args = 0\<rparr>"

definition ex_machine :: "pfn list machine" where
  "ex_machine = \<lparr>mem = (\<lambda>_ _. 0), os = [0x6400]\<rparr>"

lemma ex_segments: "segments_ok ex_context"
  by (simp add: segments_ok_def code_page_def data_page_def stack_page_def segment_page_def
      ex_context_def ex_segment_def page_path_def l4_index_def l3_index_def l2_index_def l1_index_def)

lemma ex_arg: "get_mem_region (arg_pfn ex_context) = Some USER_REG"
  by (simp add: ex_context_def get_mem_region_def Let_def)

text \<open>
  C16: \<open>prepare_context_mm\<close> maps exactly three pages, the first code page, the first data page
  (on the argument frame) and the top stack page, each open to user mode and writable exactly
  when its segment is; the code and stack frames are fresh and distinct. Nothing else of the
  context changes but \<open>pgd\<close>. It needs 13 free frames at most.
\<close>

theorem prepare_maps_three_pages:
  assumes "allocator_ok A used left" and "13 \<le> left (os s)" and "segments_ok ctx"
    and "arg_pfn ctx \<in> used (os s)" and "get_mem_region (arg_pfn ctx) = Some USER_REG"
  shows "\<exists>ctx' s' f1 f2. prepare_context_mm A ctx s = Inr (ctx', s') \<and> ctx' = ctx\<lparr>pgd := pgd ctx'\<rparr> \<and>
    vmap s' (pgd ctx') = (\<lambda>_. None)
      (page_path (code_page ctx) := Some (f1, True, bit (access_flags (mms ctx MM_SEG_CODE)) 1),
       page_path (data_page ctx) := Some (arg_pfn ctx, True, bit (access_flags (mms ctx MM_SEG_DATA)) 1),
       page_path (stack_page ctx) := Some (f2, True, bit (access_flags (mms ctx MM_SEG_STACK)) 1)) \<and>
    f1 \<notin> used (os s) \<and> f2 \<notin> used (os s) \<and> f1 \<noteq> f2"
  using prepare_builds [OF assms] by blast

theorem prepare_maps_three_pages_witness:
  "\<exists>ctx' s' f1 f2. prepare_context_mm pool ex_context ex_machine = Inr (ctx', s') \<and>
    ctx' = ex_context\<lparr>pgd := pgd ctx'\<rparr> \<and>
    vmap s' (pgd ctx') = (\<lambda>_. None)
      (page_path (code_page ex_context) := Some (f1, True, bit (access_flags (mms ex_context MM_SEG_CODE)) 1),
       page_path (data_page ex_context) :=
         Some (arg_pfn ex_context, True, bit (access_flags (mms ex_context MM_SEG_DATA)) 1),
       page_path (stack_page ex_context) :=
         Some (f2, True, bit (access_flags (mms ex_context MM_SEG_STACK)) 1)) \<and>
    f1 \<notin> set (os ex_machine) \<and> f2 \<notin> set (os ex_machine) \<and> f1 \<noteq> f2"
  by (rule prepare_maps_three_pages [OF pool_ok _ ex_segments _ ex_arg])
    (simp_all add: ex_machine_def ex_context_def pool_left_def)

text \<open>
  C17: \<open>cleanup_context_mm\<close> after \<open>prepare_context_mm\<close> releases every table and every page
  that was taken, each exactly once although the three walks share tables, and the argument
  frame with them: the frames in use are those from before without the argument frame.
\<close>

theorem prepare_then_cleanup:
  assumes "allocator_ok A used left" and "13 \<le> left (os s)" and "segments_ok ctx"
    and "arg_pfn ctx \<in> used (os s)" and "get_mem_region (arg_pfn ctx) = Some USER_REG"
  shows "\<exists>ctx' s' s''. prepare_context_mm A ctx s = Inr (ctx', s') \<and>
    cleanup_context_mm A ctx' s' = Inr s'' \<and> used (os s'') = used (os s) - {arg_pfn ctx}"
proof -
  obtain ctx' s' where run: "prepare_context_mm A ctx s = Inr (ctx', s')"
    and ctx': "ctx' = ctx\<lparr>pgd := pgd ctx'\<rparr>" and sp: "prepared_space used ctx' (used (os s)) s'"
    using prepare_builds [OF assms] by blast
  have "mms ctx' = mms ctx" "arg_pfn ctx' = arg_pfn ctx" by (subst ctx', simp)+
  then have "segments_ok ctx'" "get_mem_region (arg_pfn ctx') = Some USER_REG"
    using assms(3,5) by (simp_all add: segments_ok_def code_page_def data_page_def stack_page_def)
  from prepared_space_clean [OF assms(1) sp this] show ?thesis
    using run \<open>arg_pfn ctx' = arg_pfn ctx\<close> by auto
qed

theorem prepare_then_cleanup_witness:
  "\<exists>ctx' s' s''. prepare_context_mm pool ex_context ex_machine = Inr (ctx', s') \<and>
    cleanup_context_mm pool ctx' s' = Inr s'' \<and> set (os s'') = set (os ex_machine) - {0x6400}"
proof -
  have "arg_pfn ex_context = 0x6400" by (simp add: ex_context_def)
  moreover have "13 \<le> pool_left (os ex_machine)" "arg_pfn ex_context \<in> set (os ex_machine)"
    by (simp_all add: ex_machine_def ex_context_def pool_left_def)
  ultimately show ?thesis
    using prepare_then_cleanup [OF pool_ok _ ex_segments _ ex_arg, of ex_machine] by simp
qed

section \<open>Assignment 2: a process\<close>

definition ex_heap :: "64 word \<Rightarrow> 64 word \<Rightarrow> 32 word \<Rightarrow> 64 word \<Rightarrow> heap_segment" where
  "ex_heap a b fl nf = \<lparr>seg_start = a, seg_end = b, access_flags = fl, next_free = nf\<rparr>"

text \<open>A data segment of 512 pages in use, a read-only one of two and a stack of eight.\<close>

definition ex_process :: lazy_context where
  "ex_process = \<lparr>lc_id = 1, lc_type = 0, lc_status = 0, lc_used_mem = 0, lc_pgd = 0x2000,
     lc_os_stack_pfn = 0,
     lc_mms = (\<lambda>g. case g of MM_SEG_CODE \<Rightarrow> ex_heap 0x100000000 0x13FFFFFFF 5 0x100001000
                | MM_SEG_RODATA \<Rightarrow> ex_heap 0x140000000 0x17FFFFFFF 1 0x140002000
                | MM_SEG_DATA \<Rightarrow> ex_heap 0x180000000 0x3FFFFFFFF 3 0x200000000
                | MM_SEG_STACK \<Rightarrow> ex_heap 0x7FFFF8000 0x7FFFFFFFF 3 0x7FFFFFFFF),
     lc_name = ''init''\<rparr>"

definition ex_kernel :: "pfn list kernel" where
  "ex_kernel = \<lparr>current = ex_process, mach = \<lparr>mem = (\<lambda>_ _. 0), os = [0x2000]\<rparr>, console = [], flushed = []\<rparr>"

lemmas ex_defs = ex_kernel_def ex_process_def ex_heap_def

definition ex_ops :: "pfn list kernel_ops" where
  "ex_ops = frame_ops.extend pool \<lparr>do_exit = id\<rparr>"

lemma ex_ops_pool: "frame_ops.truncate ex_ops = pool"
  by (simp add: ex_ops_def frame_ops.defs)

lemma ex_kernel_ok: "n \<le> 5 \<Longrightarrow> kernel_ok (frame_ops.truncate ex_ops) set pool_left n ex_kernel"
  unfolding ex_ops_pool
  by (auto simp: space_ok_def ex_defs pool_left_def get_mem_region_def Let_def
      intro: pool_ok empty_tree(1))

lemma ex_kernel_empty: "space_map ex_kernel p = None"
  using empty_vmap [of "mach ex_kernel" "lc_pgd (current ex_kernel)"] by (simp add: ex_kernel_def)

lemma ex_fault: "legal_fault 0x180000008 6 ex_kernel"
  by (simp add: legal_fault_def check_present_def ex_defs
      Let_def l4_index_def)

text \<open>
  C18: an access that faults for want of a page, inside the data or read-only segment below
  \<open>next_free\<close> or inside the stack, and not a write to the read-only segment, is resolved: the
  page gets a frame that was in no use, user access, and write access exactly when the segment
  has it; no other page changes, and the process goes on with all its general purpose
  registers and its stack, whatever the compiled handler did to them.
\<close>

theorem page_fault_maps_page:
  assumes "kernel_ok (frame_ops.truncate A) used left (Suc n) k" and "legal_fault v ec k"
    and "space_map k (page_path v) = None"
  shows "\<exists>a k'. handle_page_fault A body v ec rip regs stack k = Inr (Some (regs, stack), k') \<and>
    a \<notin> used (os (mach k)) \<and>
    space_map k' = (space_map k)
      (page_path v := Some (a, True, bit (access_flags (fault_segment v k)) 1)) \<and>
    current k' = current k \<and> console k' = console k"
  using page_fault_new [OF assms] by blast

theorem page_fault_maps_page_witness:
  "\<exists>a k'. handle_page_fault ex_ops (\<lambda>regs r. 0) 0x180000008 6 0 (\<lambda>r. 7) [] ex_kernel =
      Inr (Some (\<lambda>r. 7, []), k') \<and> a \<notin> set (os (mach ex_kernel)) \<and>
    space_map k' = (space_map ex_kernel)(page_path 0x180000008 :=
      Some (a, True, bit (access_flags (fault_segment 0x180000008 ex_kernel)) 1)) \<and>
    current k' = current ex_kernel \<and> console k' = console ex_kernel"
  by (rule page_fault_maps_page [OF ex_kernel_ok [of "Suc 0"] ex_fault ex_kernel_empty]) simp

text \<open>
  every other fault ends the process: a protection violation, an address outside the
  three segments, a write to the read-only segment. The report is printed before
  \<open>do_exit\<close>, and no page is mapped.
\<close>

theorem illegal_access_kills:
  assumes "ec AND 1 = 1 \<or> check_present v k = -1 \<or> check_present v k = 2 \<and> ec AND 2 = 2"
  shows "handle_page_fault A body v ec rip regs stack k =
    Inr (None, do_exit A (k\<lparr>console := console k @ [FaultReport rip v ec]\<rparr>))"
  by (rule illegal_fault_kills [OF assms])

theorem illegal_access_kills_witness:
  "handle_page_fault ex_ops (\<lambda>regs r. 0) 0x140000000 6 0 (\<lambda>r. 7) [] ex_kernel =
    Inr (None, do_exit ex_ops (ex_kernel\<lparr>console := console ex_kernel @ [FaultReport 0 0x140000000 6]\<rparr>))"
  by (rule illegal_access_kills)
    (simp add: check_present_def ex_defs Let_def)

text \<open>
  C21: after any sequence of legal faults the pages mapped are those from before, unchanged,
  and exactly the pages touched; the handler never fails while four frames per fault are
  free, and the registers come back from every one of them.
\<close>

theorem demand_paging:
  assumes "kernel_ok (frame_ops.truncate A) used left (length fs) k"
    and "\<forall>(v, ec) \<in> set fs. legal_fault v ec k"
  shows "\<exists>k'. fault_sequence A body rip fs (regs, stack) k = Inr (Some (regs, stack), k') \<and>
    (\<forall>p. space_map k' p \<noteq> None \<longleftrightarrow> space_map k p \<noteq> None \<or> p \<in> page_path ` fst ` set fs) \<and>
    (\<forall>p. space_map k p \<noteq> None \<longrightarrow> space_map k' p = space_map k p)"
proof -
  have "kernel_ok (frame_ops.truncate A) used left (length fs + 0) k" using assms(1) by simp
  from fault_sequence_ok [OF this assms(2)] show ?thesis by blast
qed

theorem demand_paging_witness:
  "\<exists>k'. fault_sequence ex_ops (\<lambda>regs r. 0) 0 [(0x180000008, 6), (0x140001000, 4), (0x180000000, 4)]
      (\<lambda>r. 7, []) ex_kernel = Inr (Some (\<lambda>r. 7, []), k') \<and>
    (\<forall>p. space_map k' p \<noteq> None \<longleftrightarrow> space_map ex_kernel p \<noteq> None \<or>
      p \<in> page_path ` fst ` set [(0x180000008, 6 :: 64 word), (0x140001000, 4), (0x180000000, 4)]) \<and>
    (\<forall>p. space_map ex_kernel p \<noteq> None \<longrightarrow> space_map k' p = space_map ex_kernel p)"
proof (rule demand_paging [OF ex_kernel_ok])
  show "\<forall>(v, ec) \<in> set [(0x180000008, 6), (0x140001000, 4), (0x180000000, 4)]. legal_fault v ec ex_kernel"
    by (simp add: legal_fault_def check_present_def ex_defs
        Let_def l4_index_def)
qed simp

lemma page_index_nat: "unat (drop_bit n (v :: 64 word) AND 0x1FF) = unat v div 2 ^ n mod 512"
proof -
  have "drop_bit n v AND 0x1FF = take_bit 9 (drop_bit n v)"
    by (simp add: take_bit_eq_mask mask_eq_exp_minus_1)
  then have "unat (drop_bit n v AND 0x1FF) = take_bit 9 (unat (drop_bit n v))"
    by (simp only: unsigned_take_bit_eq)
  moreover have "unat (drop_bit n v) = drop_bit n (take_bit LENGTH(64) (unat v))"
    by (rule unsigned_drop_bit_eq)
  moreover have "drop_bit n (take_bit LENGTH(64) (unat v)) = unat v div 2 ^ n"
    using unat_less_64 [of v] by (simp add: take_bit_nat_eq_self drop_bit_eq_div)
  ultimately show ?thesis by (simp add: take_bit_eq_mod)
qed

lemma page_path_page:
  assumes "page_path v = page_path w"
  shows "unat v div 4096 = unat w div 4096"
proof -
  have low: "unat (drop_bit 39 x) = unat x div 2 ^ 39" for x :: "64 word"
    by (simp add: drop_bit_eq_div unat_div)
  have "unat x div 2 ^ 39 < 2 ^ 32" for x :: "64 word"
    using unat_less_64 [of x] by (simp add: div_less_iff_less_mult)
  then have l4: "l4_index x = unat x div 4096 div 512 div 512 div 512" for x
    by (simp add: l4_index_def unat_ucast_64_32 low div_mult2_eq [symmetric])
  have l: "l1_index x = unat x div 4096 mod 512" "l2_index x = unat x div 4096 div 512 mod 512"
      "l3_index x = unat x div 4096 div 512 div 512 mod 512" for x
    unfolding l1_index_def l2_index_def l3_index_def page_index_nat
    by (simp_all add: div_mult2_eq [symmetric])
  have eqI: "a = b" if "a div 512 = b div 512" "a mod 512 = b mod 512" for a b :: nat
    using that by (metis div_mult_mod_eq)
  note eqs = assms [unfolded page_path_def l l4 list.inject]
  show ?thesis
    by (rule eqI [OF eqI [OF eqI]]; rule eqs [THEN conjunct1] eqs [THEN conjunct2, THEN conjunct1]
        eqs [THEN conjunct2, THEN conjunct2, THEN conjunct1]
        eqs [THEN conjunct2, THEN conjunct2, THEN conjunct2, THEN conjunct1])
qed

lemma same_page_less: "x div 4096 = y div 4096 \<Longrightarrow> x < c * 4096 \<longleftrightarrow> y < c * (4096 :: nat)"
  by (simp add: div_less_iff_less_mult [symmetric])

lemma ex_apart: "segments_apart ex_kernel"
  unfolding segments_apart_def
proof (intro allI impI)
  fix v w :: "64 word"
  assume "page_path v = page_path w"
  note less = same_page_less [OF page_path_page [OF this]]
  have top: "34359738367 < x \<longleftrightarrow> \<not> x < 34359738368" for x :: nat by linarith
  show "check_present v ex_kernel = check_present w ex_kernel"
    using less [of "0x200000"] less [of "0x180000"] less [of "0x140002"] less [of "0x140000"]
      less [of "0x800000"] less [of "0x7FFFF8"]
    by (simp add: check_present_def Let_def ex_defs word_less_nat_alt
        word_le_nat_alt not_less [symmetric] top)
qed

lemma ex_grants: "grants ex_kernel"
  by (simp add: grants_def ex_kernel_empty)

text \<open>
  C22: a process whose accesses its segments allow is never ended by the fault handler: in
  every state it can reach it is running, with the registers it had, and it can go on to make
  all of its accesses. It needs four free frames per access, segments that share no page, and
  that the pages mapped so far grant what the segments allow.
\<close>

theorem allowed_process_completes:
  assumes "kernel_ok (frame_ops.truncate A) used left (length acc) k" and "grants k"
    and "segments_apart k" and "\<forall>a \<in> set acc. allowed (current k) k a"
    and "(proc_step A body)\<^sup>*\<^sup>* (Running acc regs stack, k) (p, k1)"
  shows "\<exists>acc'. p = Running acc' regs stack \<and> current k1 = current k \<and> console k1 = console k \<and>
    (\<exists>k'. (proc_step A body)\<^sup>*\<^sup>* (p, k1) (Running [] regs stack, k'))"
  by (rule process_run [OF assms])

theorem allowed_process_completes_witness:
  "\<exists>acc'. Running [(True, 0x180000008), (False, 0x180000000), (True, 0x7FFFFFFF8)] (\<lambda>r. 7) [] =
      Running acc' (\<lambda>r. 7) [] \<and> current ex_kernel = current ex_kernel \<and> console ex_kernel = console ex_kernel \<and>
    (\<exists>k'. (proc_step ex_ops (\<lambda>regs r. 0))\<^sup>*\<^sup>*
      (Running [(True, 0x180000008), (False, 0x180000000), (True, 0x7FFFFFFF8)] (\<lambda>r. 7) [], ex_kernel)
      (Running [] (\<lambda>r. 7) [], k'))"
proof (rule allowed_process_completes [OF _ ex_grants ex_apart])
  show "kernel_ok (frame_ops.truncate ex_ops) set pool_left
      (length [(True, 0x180000008 :: 64 word), (False, 0x180000000), (True, 0x7FFFFFFF8)]) ex_kernel"
    by (rule ex_kernel_ok) simp
  have "bit (3 :: 32 word) (Suc 0)" by simp
  then show "\<forall>a \<in> set [(True, 0x180000008), (False, 0x180000000), (True, 0x7FFFFFFF8)].
      allowed (current ex_kernel) ex_kernel a"
    by (simp add: allowed_def fault_segment_def check_present_def ex_defs Let_def l4_index_def)
qed simp

text \<open>The process after it has touched the last page of its data segment.\<close>

lemma ex_touched:
  obtains a k where "kernel_ok (frame_ops.truncate ex_ops) set pool_left 0 k" "current k = ex_process"
    "space_map k = (\<lambda>_. None)(page_path 0x1FFFFF008 := Some (a, True, True))" "console k = []"
proof -
  have legal: "legal_fault 0x1FFFFF008 6 ex_kernel"
    and seg: "fault_segment 0x1FFFFF008 ex_kernel = ex_heap 0x180000000 0x3FFFFFFFF 3 0x200000000"
    by (simp_all add: legal_fault_def fault_segment_def check_present_def ex_defs Let_def l4_index_def)
  have "bit (3 :: 32 word) (Suc 0)" by simp
  then have wr: "bit (access_flags (fault_segment 0x1FFFFF008 ex_kernel)) 1" unfolding seg by (simp add: ex_heap_def)
  have one: "Suc 0 \<le> 5" by simp
  have empty: "space_map ex_kernel = (\<lambda>_. None)" using ex_kernel_empty by blast
  obtain a k where "kernel_ok (frame_ops.truncate ex_ops) set pool_left 0 k"
      "space_map k = (space_map ex_kernel)
        (page_path 0x1FFFFF008 := Some (a, True, bit (access_flags (fault_segment 0x1FFFFF008 ex_kernel)) 1))"
      "current k = current ex_kernel" "console k = console ex_kernel"
    using page_fault_new [OF ex_kernel_ok [OF one] legal ex_kernel_empty,
        where body = "\<lambda>regs r. 0" and rip = 0 and regs = "\<lambda>r. 0" and stack = "[]"] by blast
  moreover have "current ex_kernel = ex_process" "console ex_kernel = []" by (simp_all add: ex_kernel_def)
  ultimately show ?thesis using that [of k a] wr unfolding empty by simp
qed

lemma ex_data_segment: "lc_mms ex_process (flag_segment (ucast (1 :: 64 word))) =
    ex_heap 0x180000000 0x3FFFFFFFF 3 0x200000000"
  by (simp add: flag_segment_def ex_process_def)

text \<open>
  C23: \<open>expand\<close> by at most 512 pages that fit below the end of the segment returns the old
  \<open>next_free\<close> and moves it by that many pages; it maps nothing. Otherwise it returns 0 and
  changes nothing. The last byte may be the last of the segment.
\<close>

theorem expand_moves_next_free:
  fixes param1 param2 :: "64 word"
  defines "g \<equiv> flag_segment (ucast param2)" and "n \<equiv> unat (ucast param1 :: 32 word)"
  assumes "unat (next_free (lc_mms (current k) g)) + 2 ^ 21 < 2 ^ 64"
    and "0 < unat (next_free (lc_mms (current k) g))"
  shows "do_syscall A 4 param1 param2 k =
    Inr (let nf = next_free (lc_mms (current k) g) in
      if n \<le> 512 \<and> unat nf + n * 4096 \<le> unat (seg_end (lc_mms (current k) g)) + 1
      then (nf, set_next_free g (nf + word_of_nat (n * 4096)) k) else (0, k))"
  using expand_result [of k param2 param1] assms(3,4) unfolding g_def n_def
  by (simp add: do_syscall_def)

theorem expand_moves_next_free_witness:
  "do_syscall ex_ops 4 2 1 ex_kernel =
    Inr (let nf = next_free (lc_mms (current ex_kernel) (flag_segment (ucast (1 :: 64 word)))) in
      if unat (ucast (2 :: 64 word) :: 32 word) \<le> 512 \<and>
        unat nf + unat (ucast (2 :: 64 word) :: 32 word) * 4096 \<le>
          unat (seg_end (lc_mms (current ex_kernel) (flag_segment (ucast (1 :: 64 word))))) + 1
      then (nf, set_next_free (flag_segment (ucast (1 :: 64 word)))
        (nf + word_of_nat (unat (ucast (2 :: 64 word) :: 32 word) * 4096)) ex_kernel) else (0, ex_kernel))"
  by (rule expand_moves_next_free)
    (simp_all add: flag_segment_def ex_defs)

text \<open>
  C24: \<open>shrink\<close> by fewer than \<open>2 ^ 19\<close> pages that the segment has moves \<open>next_free\<close> back and
  unmaps exactly the pages given up: their frames, and no others, are released, the tables
  stay in order, and the other segments are left alone. Pages that were never touched are
  skipped.
\<close>

theorem shrink_unmaps_range:
  fixes param1 param2 :: "64 word" and k :: "'o kernel" and A :: "'o kernel_ops"
  defines "g \<equiv> flag_segment (ucast param2)" and "n \<equiv> unat (ucast param1 :: 32 word)"
  defines "nf \<equiv> next_free (lc_mms (current k) g)"
  assumes "kernel_ok (frame_ops.truncate A) used left m k" and "n < 2 ^ 19"
    and "unat (seg_start (lc_mms (current k) g)) + n * 4096 \<le> unat nf" and "unat nf < 2 ^ 48"
  shows "\<exists>k'. do_syscall A 5 param1 param2 k = Inr (nf - word_of_nat (n * 4096), k') \<and>
    next_free (lc_mms (current k') g) = nf - word_of_nat (n * 4096) \<and>
    (\<forall>g'. g' \<noteq> g \<longrightarrow> lc_mms (current k') g' = lc_mms (current k) g') \<and>
    kernel_ok (frame_ops.truncate A) used left m k' \<and>
    space_map k' = (\<lambda>p. if p \<in> shrunk_pages nf n then None else space_map k p) \<and>
    used (os (mach k')) = used (os (mach k)) -
      {f. \<exists>p \<in> shrunk_pages nf n. map_option fst (space_map k p) = Some f}"
  using shrink_ok [OF assms(4) refl, of param1 param2] assms(5-7)
  unfolding do_syscall_def g_def n_def nf_def by simp blast

theorem shrink_unmaps_range_witness:
  "\<exists>k. space_map k (page_path 0x1FFFFF008) \<noteq> None \<and>
    (\<exists>k'. do_syscall ex_ops 5 2 1 k = Inr (0x1FFFFE000, k') \<and>
      space_map k' (page_path 0x1FFFFF008) = None)"
proof -
  obtain a k where k: "kernel_ok (frame_ops.truncate ex_ops) set pool_left 0 k" "current k = ex_process"
      "space_map k = (\<lambda>_. None)(page_path 0x1FFFFF008 := Some (a, True, True))" "console k = []"
    by (rule ex_touched)
  have "page_path 0x1FFFFF008 = page_path (0x200000000 - word_of_nat (1 * 4096))"
    by (simp add: page_path_def l4_index_def l3_index_def l2_index_def l1_index_def)
  then have "page_path 0x1FFFFF008 \<in> shrunk_pages 0x200000000 2"
    unfolding shrunk_pages_def by (rule image_eqI) simp
  moreover have "next_free (lc_mms (current k) (flag_segment (ucast (1 :: 64 word)))) = 0x200000000"
    "seg_start (lc_mms (current k) (flag_segment (ucast (1 :: 64 word)))) = 0x180000000"
    unfolding k(2) ex_data_segment by (simp_all add: ex_heap_def)
  ultimately show ?thesis
    using shrink_unmaps_range [OF k(1), where ?param1.0 = 2 and ?param2.0 = 1] k(3)
    by (intro exI [of _ k]) auto
qed

text \<open>
  C25: a shrink by \<open>2 ^ 19\<close> pages or more that passes the bound check ends in a signed overflow of
  the product \<open>i*4096\<close>. By \<open>2 ^ 20\<close> pages the check always passes, since \<open>size*4096\<close> is 0 in
  32 bits.
\<close>

theorem shrink_overflows:
  fixes param1 param2 :: "64 word" and k :: "'o kernel" and A :: "'o kernel_ops"
  defines "m \<equiv> lc_mms (current k) (flag_segment (ucast param2))"
  assumes "kernel_ok (frame_ops.truncate A) used left n k" and "2 ^ 19 \<le> unat (ucast param1 :: 32 word)"
    and "\<not> next_free m - size_bytes (ucast param1) < seg_start m"
    and "2 ^ 31 \<le> unat (next_free m)" and "unat (next_free m) < 2 ^ 48"
  shows "do_syscall A 5 param1 param2 k = Inl SignedOverflow"
  using shrink_overflow [OF assms(2,3)] assms(4-6) by (simp add: do_syscall_def m_def)

theorem shrink_overflows_witness: "do_syscall ex_ops 5 0x100000 1 ex_kernel = Inl SignedOverflow"
proof (rule shrink_overflows [OF ex_kernel_ok [of 0]])
  let ?m = "lc_mms (current ex_kernel) (flag_segment (ucast (1 :: 64 word)))"
  have m: "?m = ex_heap 0x180000000 0x3FFFFFFFF 3 0x200000000"
    by (simp add: flag_segment_def ex_defs)
  show "2 ^ 19 \<le> unat (ucast (0x100000 :: 64 word) :: 32 word)" by simp
  show "\<not> next_free ?m - size_bytes (ucast (0x100000 :: 64 word)) < seg_start ?m"
    unfolding m by (simp add: ex_heap_def size_bytes_def)
  show "2 ^ 31 \<le> unat (next_free ?m)" "unat (next_free ?m) < 2 ^ 48"
    unfolding m by (simp_all add: ex_heap_def)
qed simp

text \<open>
  C26: \<open>write\<close> of 1 to 1024 bytes checks two pages, and that is enough: if the page of the
  first and that of the last byte are mapped, exactly the bytes of the buffer are printed in
  order, and the call goes on into \<open>expand\<close> with the address as the size; if one is not, -1
  is returned and nothing printed.
\<close>

theorem write_prints_bytes:
  fixes buff len :: "64 word" and k :: "'o kernel"
  defines "n \<equiv> unat (ucast len :: 32 word)"
  defines "mapped \<equiv> \<forall>v \<in> {buff, buff + word_of_nat n - 1}.
      node (mem (mach k)) (lc_pgd (current k)) (page_path v) \<noteq> None"
  assumes "0 < n" and "n \<le> 1024" and "unat buff + n \<le> 2 ^ 48"
  shows "(mapped \<longrightarrow> (\<exists>bs. length bs = n \<and>
      (\<forall>i < n. user_byte (mach k) (lc_pgd (current k)) (buff + word_of_nat i) = Inr (bs ! i)) \<and>
      do_syscall A 3 buff len k = Inr (syscall_expand buff len (k\<lparr>console := console k @ map Byte bs\<rparr>)))) \<and>
    (\<not> mapped \<longrightarrow> do_syscall A 3 buff len k = Inr (- 1, k))"
proof -
  have "do_syscall A 3 buff len k = syscall_write buff len k" by (simp add: do_syscall_def)
  then show ?thesis
    using write_ok [of len buff k] write_refused [of len buff k] assms(3-5)
    unfolding n_def mapped_def by auto
qed

theorem write_prints_bytes_witness:
  "\<exists>k bs. length bs = 5 \<and> do_syscall ex_ops 3 0x1FFFFF008 5 k =
      Inr (syscall_expand 0x1FFFFF008 5 (k\<lparr>console := map Byte bs\<rparr>))"
proof -
  obtain a k where k: "kernel_ok (frame_ops.truncate ex_ops) set pool_left 0 k" "current k = ex_process"
      "space_map k = (\<lambda>_. None)(page_path 0x1FFFFF008 := Some (a, True, True))" "console k = []"
    by (rule ex_touched)
  have "l4_index 0x1FFFFF008 < 512" by (simp add: l4_index_def)
  from vmap_node [OF this, of "mach k" "lc_pgd (current k)"] k(3)
  have node: "node (mem (mach k)) (lc_pgd (current k)) (page_path 0x1FFFFF008) = Some a" by simp
  have "page_path 0x1FFFFF00C = page_path 0x1FFFFF008"
    by (simp add: page_path_def l4_index_def l3_index_def l2_index_def l1_index_def)
  then have "\<forall>v \<in> {0x1FFFFF008, 0x1FFFFF008 + word_of_nat (unat (ucast (5 :: 64 word) :: 32 word)) - 1}.
      node (mem (mach k)) (lc_pgd (current k)) (page_path v) \<noteq> None"
    using node by simp
  then show ?thesis
    using write_prints_bytes [where k = k and buff = "0x1FFFFF008" and len = 5 and A = ex_ops] k(4)
    by (intro exI [of _ k]) auto
qed

end
