(* ===== verification/User_Properties.thy ===== *)
theory User_Properties
  imports User_Program Memory_Properties
begin

text \<open>
  The run of \<open>assignment2/user/init.c\<close>, composed from the system calls and the fault handler,
  and what the earlier version of the program does instead.
\<close>

section \<open>The byte that a store leaves\<close>

lemma put_byte_read: "ucast (drop_bit (8 * (unat v mod 8)) (put_byte v b x)) = b"
proof (rule bit_word_eqI)
  fix i assume "i < LENGTH(8)"
  moreover have "unat v mod 8 < 8" by simp
  ultimately have "8 * (unat v mod 8) + i < 64" by simp
  moreover have "bit (0xFF :: 64 word) i"
  proof -
    have "(0xFF :: 64 word) = mask 8" by (simp add: mask_eq_exp_minus_1)
    then show ?thesis using \<open>i < LENGTH(8)\<close> by (simp only: bit_mask_iff) simp
  qed
  ultimately show "bit (ucast (drop_bit (8 * (unat v mod 8)) (put_byte v b x)) :: 8 word) i = bit b i"
    using \<open>i < LENGTH(8)\<close> by (simp add: put_byte_def Let_def bit_simps)
qed

lemma stored_byte_read:
  assumes ok: "kernel_ok A used left n k" and v: "l4_index v < 512"
    and mapped: "space_map k (page_path v) = Some (f, us, w)"
  shows "user_byte (mach (write_byte v b k)) (lc_pgd (current k)) v = Inr b"
proof -
  let ?k = "write_byte v b k" and ?i = "unat v mod 4096 div 8"
  have p: "path_ok (page_path v)" "length (page_path v) = 4" using page_path_ok [OF v] by simp_all
  have "space_map ?k (page_path v) = Some (f, us, w)" "current ?k = current k"
    using write_byte_ok [OF ok v] mapped by simp_all
  then have acc: "access (mem (mach ?k)) (lc_pgd (current k)) (page_path v) = Some (f, us, w)"
    using p by (simp add: vmap_def split: if_splits)
  have "mem (mach ?k) f ?i = put_byte v b (mem (mach k) f ?i)"
    using mapped by (simp add: write_byte_def Let_def)
  moreover have "unat v mod 4096 mod 8 = unat v mod 8" by (simp add: mod_mod_cancel)
  ultimately show ?thesis using v acc by (simp add: user_byte_def Let_def put_byte_read)
qed

lemma above:
  fixes nf :: "64 word"
  assumes "unat nf + j < 2 ^ 64"
  shows "unat (nf + word_of_nat j) = unat nf + j"
proof -
  have "unat (word_of_nat j :: 64 word) = j" by (rule unat_small_64) (use assms in simp)
  then show ?thesis using unat_add_lem [of nf "word_of_nat j"] assms by simp
qed

text \<open>Addresses of a segment that grows by eight pages from \<open>nf\<close>.\<close>

lemma pages_above:
  fixes nf :: "64 word"
  assumes "unat nf + 2 ^ 21 < 2 ^ 48"
  shows "unat (nf + 4096) = unat nf + 4096" and "unat (nf + 8192) = unat nf + 8192"
    and "unat (nf + 32768) = unat nf + 32768"
  using above [of nf 4096] above [of nf 8192] above [of nf 32768] assms by simp_all

lemma pages_given_up:
  fixes nf :: "64 word"
  shows "p \<in> shrunk_pages (nf + 32768) 7 \<longleftrightarrow> (\<exists>j \<in> {1 .. 7}. p = page_path (nf + word_of_nat (j * 4096)))"
proof -
  have eq: "nf + 32768 - word_of_nat (i * 4096) = nf + word_of_nat ((8 - i) * 4096)" if "i \<le> 8" for i :: nat
    using that by (simp add: of_nat_diff algebra_simps)
  then have "shrunk_pages (nf + 32768) 7 = (\<lambda>i. page_path (nf + word_of_nat ((8 - i) * 4096))) ` {1 .. 7}"
    unfolding shrunk_pages_def by (intro image_cong refl arg_cong [of _ _ page_path] eq) simp
  also have "\<dots> = (\<lambda>j. page_path (nf + word_of_nat (j * 4096))) ` (\<lambda>i. 8 - i) ` {1 .. 7}"
    by (simp only: image_image)
  also have "(\<lambda>i :: nat. 8 - i) ` {1 .. 7} = {1 .. 7}"
  proof -
    have "x \<in> (\<lambda>i. 8 - i) ` {1 .. 7}" if "x \<in> {1 .. 7}" for x :: nat
      by (rule image_eqI [of _ _ "8 - x"]) (use that in auto)
    then show ?thesis by auto
  qed
  finally show ?thesis by auto
qed

section \<open>The run of the program\<close>

text \<open>
  What the program needs when it starts: a writable data segment with room for eight pages that
  are not mapped, below \<open>2 ^ 48\<close>, and no other segment at its second page.
\<close>

definition init_ready :: "'o kernel \<Rightarrow> bool" where
  "init_ready k \<longleftrightarrow>
     (let data = lc_mms (current k) MM_SEG_DATA; nf = next_free data
      in bit (access_flags data) 1 \<and> seg_start data \<le> nf \<and> 0 < unat nf \<and> unat nf + 2 ^ 21 < 2 ^ 48 \<and>
         unat nf + 8 * 4096 \<le> unat (seg_end data) + 1 \<and>
         next_free (lc_mms (current k) MM_SEG_RODATA) \<le> nf \<and> nf + 4096 < seg_start (lc_mms (current k) MM_SEG_STACK) \<and>
         (\<forall>j < 8. space_map k (page_path (nf + word_of_nat (j * 4096))) = None))"

lemma flag_wr: "flag_segment (ucast (ucast MAP_WR :: 64 word)) = MM_SEG_DATA"
  by (simp add: flag_segment_def)

lemma check_present_data:
  assumes "seg_start (lc_mms (current k) MM_SEG_DATA) \<le> v" and "v < next_free (lc_mms (current k) MM_SEG_DATA)"
  shows "check_present v k = 1"
  using assms by (simp add: check_present_def Let_def)

text \<open>\<open>expand(8, MAP_WR)\<close> and \<open>shrink(7, MAP_WR)\<close> as the program sees them.\<close>

lemma init_expand:
  assumes "init_ready k"
  defines "nf \<equiv> next_free (lc_mms (current k) MM_SEG_DATA)"
  shows "u_expand A 8 MAP_WR k = Inr (nf, set_next_free MM_SEG_DATA (nf + 32768) k)"
proof -
  have r: "unat nf + 2 ^ 21 < 2 ^ 48" "0 < unat nf" "unat nf + 8 * 4096 \<le> unat (seg_end (lc_mms (current k) MM_SEG_DATA)) + 1"
    using assms(1) by (simp_all add: init_ready_def Let_def nf_def)
  have "syscall_expand (ucast (8 :: 32 word)) (ucast MAP_WR) k = (nf, set_next_free MM_SEG_DATA (nf + 32768) k)"
    using expand_result [of k "ucast MAP_WR" "ucast (8 :: 32 word)"] r
    unfolding flag_wr nf_def [symmetric] by (simp add: Let_def)
  then show ?thesis by (simp add: u_expand_def u_syscall3_def do_syscall_def)
qed

lemma init_shrink:
  assumes ok: "kernel_ok (frame_ops.truncate A) used left m k"
    and nf: "next_free (lc_mms (current k) MM_SEG_DATA) = nf + 32768" "unat nf + 2 ^ 21 < 2 ^ 48"
    and st: "seg_start (lc_mms (current k) MM_SEG_DATA) \<le> nf"
  shows "\<exists>k'. u_shrink A 7 MAP_WR k = Inr (nf + 4096, k') \<and> kernel_ok (frame_ops.truncate A) used left m k' \<and>
    current k' = current (set_next_free MM_SEG_DATA (nf + 4096) k) \<and> console k' = console k \<and>
    space_map k' = (\<lambda>p. if p \<in> shrunk_pages (nf + 32768) 7 then None else space_map k p)"
proof -
  have n: "unat (ucast (ucast (7 :: 32 word) :: 64 word) :: 32 word) = 7" by simp
  have "unat (nf + 32768) = unat nf + 32768" by (rule pages_above(3) [OF nf(2)])
  then have "unat (seg_start (lc_mms (current k) MM_SEG_DATA)) + 7 * 4096 \<le> unat (nf + 32768)"
      "unat (nf + 32768) < 2 ^ 48"
    using st nf(2) by (simp_all add: word_le_nat_alt)
  then show ?thesis
    using shrink_ok [OF ok n, of "ucast MAP_WR"] unfolding flag_wr nf(1)
    by (simp add: u_shrink_def u_syscall3_def do_syscall_def add.commute [of 4096 nf]) blast
qed

text \<open>A store into a new page of the data segment, in terms of \<open>nf\<close> and the mapping alone.\<close>

lemma data_store:
  fixes k :: "'o kernel"
  assumes ok: "kernel_ok (frame_ops.truncate A) used left (Suc n) k"
    and same: "current k = current (set_next_free MM_SEG_DATA e k0)" and M: "space_map k = M" "M (page_path v) = None"
    and wr: "bit (access_flags (lc_mms (current k0) MM_SEG_DATA)) 1"
    and v: "l4_index v < 512" "seg_start (lc_mms (current k0) MM_SEG_DATA) \<le> v" "v < e"
  obtains a k' where "store_user A body rip v b rs k = Some (Inr (True, k'))"
    "kernel_ok (frame_ops.truncate A) used left n k'" "current k' = current k" "console k' = console k"
    "space_map k' = M(page_path v := Some (a, True, True))" "user_byte (mach k') (lc_pgd (current k')) v = Inr b"
proof -
  have data: "lc_mms (current k) MM_SEG_DATA = (lc_mms (current k0) MM_SEG_DATA)\<lparr>next_free := e\<rparr>"
    using same by (simp add: set_next_free_def)
  have "check_present v k = 1" by (rule check_present_data) (use data v in simp_all)
  with store_maps [OF ok v(1), where body = body and rip = rip and b = b and rs = rs] M wr data
  obtain a k1 where k1: "store_user A body rip v b rs k = Some (Inr (True, write_byte v b k1))"
      "kernel_ok (frame_ops.truncate A) used left n (write_byte v b k1)" "kernel_ok (frame_ops.truncate A) used left n k1"
      "space_map (write_byte v b k1) = M(page_path v := Some (a, True, True))"
      "space_map k1 = space_map (write_byte v b k1)" "current (write_byte v b k1) = current k" "current k1 = current k"
      "console (write_byte v b k1) = console k"
    by auto
  have "user_byte (mach (write_byte v b k1)) (lc_pgd (current k1)) v = Inr b"
    by (rule stored_byte_read [OF k1(3) v(1)]) (use k1(4,5) in simp)
  then show ?thesis using that [OF k1(1,2,6,8,4)] k1(6,7) by simp
qed

text \<open>The first half: the store into the third page and \<open>shrink\<close> leave the mapping as it was.\<close>

lemma init_first_half:
  fixes k :: "'o kernel"
  assumes ready: "init_ready k" and ok: "kernel_ok (frame_ops.truncate A) used left 2 k"
  defines "nf \<equiv> next_free (lc_mms (current k) MM_SEG_DATA)"
  shows "\<exists>k2 k3. store_user A body (store_rip u 0) (nf + 8192) 0x41 (store_regs u 0)
      (set_next_free MM_SEG_DATA (nf + 32768) k) = Some (Inr (True, k2)) \<and>
    u_shrink A 7 MAP_WR k2 = Inr (nf + 4096, k3) \<and> kernel_ok (frame_ops.truncate A) used left (Suc 0) k3 \<and>
    current k3 = current (set_next_free MM_SEG_DATA (nf + 4096) k) \<and> console k3 = console k \<and> space_map k3 = space_map k"
proof -
  let ?D = "lc_mms (current k) MM_SEG_DATA" and ?snf = "set_next_free MM_SEG_DATA"
  let ?ok = "kernel_ok (frame_ops.truncate A) used left" and ?k1 = "set_next_free MM_SEG_DATA (nf + 32768) k"
  have r: "bit (access_flags ?D) 1" "seg_start ?D \<le> nf" "unat nf + 2 ^ 21 < 2 ^ 48"
      and un: "\<And>j. j < 8 \<Longrightarrow> space_map k (page_path (nf + word_of_nat (j * 4096))) = None"
    using ready by (simp_all add: init_ready_def Let_def nf_def)
  note up = pages_above [OF r(3)]
  have low: "l4_index (nf + 8192) < 512" using r(3) up by (simp add: l4_index_low)
  have less: "nf + 8192 < nf + 32768" "seg_start ?D \<le> nf + 8192"
    using r(2) up by (auto simp: word_less_nat_alt word_le_nat_alt)
  have ok1: "?ok (Suc (Suc 0)) ?k1" and M1: "space_map ?k1 = space_map k"
    and un2: "space_map k (page_path (nf + 8192)) = None"
    using ok un [of 2] by (simp_all add: set_next_free_def numeral_2_eq_2)
  obtain a0 k2 where k2: "store_user A body (store_rip u 0) (nf + 8192) 0x41 (store_regs u 0) ?k1 = Some (Inr (True, k2))"
      "?ok (Suc 0) k2" "current k2 = current ?k1" "console k2 = console ?k1"
      "space_map k2 = (space_map k)(page_path (nf + 8192) := Some (a0, True, True))"
      "user_byte (mach k2) (lc_pgd (current k2)) (nf + 8192) = Inr 0x41"
    by (rule data_store [OF ok1 refl M1 un2 r(1) low less(2,1)])
  obtain k3 where k3: "u_shrink A 7 MAP_WR k2 = Inr (nf + 4096, k3)" "?ok (Suc 0) k3"
      "current k3 = current (?snf (nf + 4096) k2)" "console k3 = console k2"
      "space_map k3 = (\<lambda>p. if p \<in> shrunk_pages (nf + 32768) 7 then None else space_map k2 p)"
    using init_shrink [OF k2(2), of nf] k2(3) r(2,3) by (auto simp: set_next_free_def)
  have "page_path (nf + 8192) \<in> shrunk_pages (nf + 32768) 7"
    unfolding pages_given_up by (rule bexI [of _ 2]) simp_all
  moreover have "space_map k p = None" if "p \<in> shrunk_pages (nf + 32768) 7" for p
    using that un unfolding pages_given_up by auto
  ultimately have "space_map k3 = space_map k" unfolding k3(5) k2(5) by auto
  moreover have "current k3 = current (?snf (nf + 4096) k)" "console k3 = console k"
    by (simp_all add: k3(3,4) k2(3,4) set_next_free_def)
  ultimately show ?thesis using k2(1) k3(1,2) by (intro exI [of _ k2] exI [of _ k3]) simp
qed

text \<open>
  C19: \<open>init.c\<close> runs as its comments say: the store into the third of the eight new pages faults
  and goes through, \<open>shrink\<close> takes that page away again, the store into the first page faults and
  goes through, and the store into the second, which has been given up, is reported and ends the
  process. What is left is the first page with the byte, and \<open>next_free\<close> behind it.
\<close>

theorem init_program_runs:
  fixes k :: "'o kernel"
  assumes "init_ready k" and "kernel_ok (frame_ops.truncate A) used left 2 k"
  defines "nf \<equiv> next_free (lc_mms (current k) MM_SEG_DATA)"
  shows "\<exists>a k'. init_main A body u k = Some (Inr (do_exit A k')) \<and>
    console k' = console k @ [FaultReport (store_rip u 2) (nf + 4096) 6] \<and>
    space_map k' = (space_map k)(page_path nf := Some (a, True, True)) \<and>
    user_byte (mach k') (lc_pgd (current k')) nf = Inr 0x41 \<and>
    next_free (lc_mms (current k') MM_SEG_DATA) = nf + 4096"
proof -
  let ?D = "lc_mms (current k) MM_SEG_DATA"
  have r: "bit (access_flags ?D) 1" "seg_start ?D \<le> nf" "0 < unat nf" "unat nf + 2 ^ 21 < 2 ^ 48"
      "next_free (lc_mms (current k) MM_SEG_RODATA) \<le> nf" "nf + 4096 < seg_start (lc_mms (current k) MM_SEG_STACK)"
      and un: "\<And>j. j < 8 \<Longrightarrow> space_map k (page_path (nf + word_of_nat (j * 4096))) = None"
    using assms(1) by (simp_all add: init_ready_def Let_def nf_def)
  note up = pages_above [OF r(4)]
  have low: "l4_index nf < 512" using r(4) by (simp add: l4_index_low)
  have less: "nf < nf + 4096" "nf \<noteq> 0" using r(3) up by (auto simp: word_less_nat_alt)
  have un0: "space_map k (page_path nf) = None" using un [of 0] by simp
  obtain k2 k3 where k3: "store_user A body (store_rip u 0) (nf + 8192) 0x41 (store_regs u 0)
        (set_next_free MM_SEG_DATA (nf + 32768) k) = Some (Inr (True, k2))"
      "u_shrink A 7 MAP_WR k2 = Inr (nf + 4096, k3)" "kernel_ok (frame_ops.truncate A) used left (Suc 0) k3"
      "current k3 = current (set_next_free MM_SEG_DATA (nf + 4096) k)" "console k3 = console k" "space_map k3 = space_map k"
    using init_first_half [OF assms(1,2)] unfolding nf_def by blast
  obtain a k4 where k4: "store_user A body (store_rip u 1) nf 0x41 (store_regs u 1) k3 = Some (Inr (True, k4))"
      "kernel_ok (frame_ops.truncate A) used left 0 k4" "current k4 = current k3" "console k4 = console k3"
      "space_map k4 = (space_map k)(page_path nf := Some (a, True, True))"
      "user_byte (mach k4) (lc_pgd (current k4)) nf = Inr 0x41"
    by (rule data_store [OF k3(3,4,6) un0 r(1) low(1) r(2) less(1)])
  have "page_path (nf + 4096) \<noteq> page_path nf" using page_path_page [of "nf + 4096" nf] up(1) by auto
  then have "space_map k4 (page_path (nf + 4096)) = None" using un [of 1] by (simp add: k4(5))
  moreover have "check_present (nf + 4096) k4 = -1"
    using r(5,6) less(1) k4(3) k3(4) by (auto simp: check_present_def Let_def set_next_free_def)
  ultimately have k5: "store_user A body (store_rip u 2) (nf + 4096) 0x41 (store_regs u 2) k4 =
      Some (Inr (False, do_exit A (k4\<lparr>console := console k4 @ [FaultReport (store_rip u 2) (nf + 4096) 6]\<rparr>)))"
    by (rule store_killed)
  have "init_main A body u k = Some (Inr (do_exit A (k4\<lparr>console := console k4 @ [FaultReport (store_rip u 2) (nf + 4096) 6]\<rparr>)))"
    using init_expand [OF assms(1), of A] less(2) k3(1,2) k4(1) k5
    by (simp add: init_main_def nf_def [symmetric] then_call_def then_store_def Let_def)
  then show ?thesis
    using k4(3-6) k3(4,5)
    by (intro exI [of _ a] exI [of _ "k4\<lparr>console := console k4 @ [FaultReport (store_rip u 2) (nf + 4096) 6]\<rparr>"])
      (simp add: set_next_free_def)
qed

lemma ex_data: "lc_mms (current ex_kernel) MM_SEG_DATA = ex_heap 0x180000000 0x3FFFFFFFF 3 0x200000000"
  by (simp add: ex_defs)

lemma ex_init_ready: "init_ready ex_kernel"
proof -
  have "bit (3 :: 32 word) (Suc 0)" by simp
  then show ?thesis
    by (simp add: init_ready_def Let_def ex_kernel_empty ex_data) (simp add: ex_defs)
qed

definition ex_code :: user_code where
  "ex_code = \<lparr>store_rip = (\<lambda>n. 0x100000000 + word_of_nat n), store_regs = (\<lambda>n. (\<lambda>r. 7, [])), failed_text = 0x140000000\<rparr>"

theorem init_program_runs_witness:
  "\<exists>a k'. init_main ex_ops (\<lambda>regs r. 0) ex_code ex_kernel = Some (Inr (do_exit ex_ops k')) \<and>
    console k' = console ex_kernel @ [FaultReport (store_rip ex_code 2)
      (next_free (lc_mms (current ex_kernel) MM_SEG_DATA) + 4096) 6] \<and>
    space_map k' = (space_map ex_kernel)(page_path (next_free (lc_mms (current ex_kernel) MM_SEG_DATA)) := Some (a, True, True)) \<and>
    user_byte (mach k') (lc_pgd (current k')) (next_free (lc_mms (current ex_kernel) MM_SEG_DATA)) = Inr 0x41 \<and>
    next_free (lc_mms (current k') MM_SEG_DATA) = next_free (lc_mms (current ex_kernel) MM_SEG_DATA) + 4096"
  by (rule init_program_runs [OF ex_init_ready ex_kernel_ok]) simp

section \<open>The earlier version\<close>

text \<open>An address that comes through an \<open>int\<close> with the sign bit set is at the top of the address space.\<close>

lemma sign_extended:
  fixes w :: "32 word"
  assumes "2 ^ 31 \<le> unat w"
  shows "unat (scast w :: 64 word) = unat w + (2 ^ 64 - 2 ^ 32)"
proof -
  have w: "unat w < 2 ^ 32" by (rule unat_less_32)
  then have "unat w div 2 ^ 31 = 1" using assms by simp
  then have "bit (unat w) 31" by (simp add: bit_nat_def bit_iff_odd)
  then have b: "bit w 31" by (simp add: bit_unsigned_iff)
  have small: "uint w < 2 ^ 32" using unsigned_less [of w, where ?'a = int] by simp
  then have "take_bit 32 (uint w) = uint w" by (simp add: take_bit_int_eq_self)
  then have "sint w = int (unat w) - 2 ^ 32"
    using b signed_take_bit_eq_take_bit_minus [of 31 "uint w"] by (simp add: sint_uint bit_unsigned_iff)
  moreover have "uint (scast w :: 64 word) = sint w mod 2 ^ 64" 
    by (simp only: scast_eq uint_word_of_int) simp
  ultimately have "uint (scast w :: 64 word) = (int (unat w) - 2 ^ 32) mod 2 ^ 64" by simp
  also have "\<dots> = (int (unat w) - 2 ^ 32 + 2 ^ 64) mod 2 ^ 64"
    by (simp only: mod_add_self2)
  also have "\<dots> = int (unat w) - 2 ^ 32 + 2 ^ 64"
    using small by (intro mod_pos_pos_trivial) simp_all
  finally have "int (unat (scast w :: 64 word)) = int (unat w + (2 ^ 64 - 2 ^ 32))" by simp
  then show ?thesis by (simp only: of_nat_eq_iff)
qed

lemma high_unmapped:
  assumes "2 ^ 63 \<le> unat v"
  shows "space_map k (page_path v) = None"
proof -
  have low: "unat (drop_bit 39 v) = unat v div 2 ^ 39" by (simp add: drop_bit_eq_div unat_div)
  moreover have "unat v div 2 ^ 39 < 2 ^ 32" using unat_less_64 [of v] by (simp add: div_less_iff_less_mult)
  ultimately have "l4_index v = unat v div 2 ^ 39" by (simp add: l4_index_def unat_ucast_64_32)
  moreover have "2 ^ 24 \<le> unat v div 2 ^ 39" using div_le_mono [OF assms, of "2 ^ 39"] by simp
  ultimately have "\<not> l4_index v < 512" by simp
  then show ?thesis by (simp add: vmap_def path_ok_def page_path_def)
qed

text \<open>
  C20: the earlier program, whose stubs return an \<open>int\<close>, cannot use what \<open>expand\<close> returns from
  the data segment of the assignment, at \<open>0x180000000\<close>: bit 31 is the sign of the \<open>int\<close>, the
  pointer is at the top of the address space, and the first store is reported and ends the
  process. Nothing is mapped.
\<close>

theorem old_init_killed:
  fixes k :: "'o kernel"
  defines "w \<equiv> ucast (next_free (lc_mms (current k) MM_SEG_DATA)) :: 32 word"
  assumes "init_ready k" and "2 ^ 31 \<le> unat w" and "unat w + 8192 < 2 ^ 32"
    and "seg_end (lc_mms (current k) MM_SEG_STACK) < 2 ^ 63"
  shows "\<exists>k'. old_init_main A body u k = Some (Inr (do_exit A k')) \<and> space_map k' = space_map k \<and>
    console k' = console k @ [FaultReport (store_rip u 0) (scast w + 8192) 6]"
proof -
  let ?v = "scast w + 8192 :: 64 word" and ?nf = "next_free (lc_mms (current k) MM_SEG_DATA)"
  let ?k1 = "set_next_free MM_SEG_DATA (?nf + 32768) k"
  let ?k2 = "?k1\<lparr>console := console k @ [FaultReport (store_rip u 0) ?v 6]\<rparr>"
  have ptr: "unat (scast w :: 64 word) = unat w + (2 ^ 64 - 2 ^ 32)" by (rule sign_extended [OF assms(3)])
  then have "unat (scast w :: 64 word) + 8192 < 2 ^ 64" using assms(4) by simp
  then have "unat ?v = unat w + (2 ^ 64 - 2 ^ 32) + 8192" using above [of "scast w" 8192] ptr by simp
  then have v: "2 ^ 63 \<le> unat ?v" using assms(3) by simp
  have r: "unat ?nf + 2 ^ 21 < 2 ^ 48" "next_free (lc_mms (current k) MM_SEG_RODATA) \<le> ?nf"
    using assms(2) by (simp_all add: init_ready_def Let_def)
  have "unat (?nf + 32768) < 2 ^ 48" using pages_above(3) [OF r(1)] r(1) by simp
  then have "\<not> ?v < ?nf + 32768" "\<not> ?v < next_free (lc_mms (current k) MM_SEG_RODATA)"
      "\<not> ?v \<le> seg_end (lc_mms (current k) MM_SEG_STACK)"
    using v r assms(5) by (simp_all add: word_less_nat_alt word_le_nat_alt)
  then have "check_present ?v ?k1 = -1" by (simp add: check_present_def Let_def set_next_free_def)
  then have "store_user A body (store_rip u 0) ?v 0x41 (store_regs u 0) ?k1 = Some (Inr (False, do_exit A ?k2))"
    using store_killed [OF high_unmapped [OF v], where k = ?k1 and A = A] by (simp add: set_next_free_def)
  moreover have "scast w \<noteq> (0 :: 64 word)" using ptr by auto
  ultimately have "old_init_main A body u k = Some (Inr (do_exit A ?k2))"
    using init_expand [OF assms(2), of A]
    by (simp add: old_init_main_def old_expand_def old_syscall3_def int_of_reg_def u_expand_def u_syscall3_def then_call_def then_store_def Let_def w_def)
  then show ?thesis by (intro exI [of _ ?k2]) (simp add: set_next_free_def)
qed

text \<open>The process with its data segment as it starts: the pages up to \<open>0x180001000\<close> in use.\<close>

definition ex_start :: "pfn list kernel" where
  "ex_start = set_next_free MM_SEG_DATA 0x180001000 ex_kernel"

lemma ex_start_ready: "init_ready ex_start"
proof -
  have "bit (3 :: 32 word) (Suc 0)" by simp
  moreover have "space_map ex_start p = None" for p
    using ex_kernel_empty [of p] by (simp add: ex_start_def set_next_free_def)
  ultimately show ?thesis
    by (simp add: init_ready_def Let_def) (simp add: ex_start_def set_next_free_def ex_data ex_defs)
qed

theorem old_init_killed_witness:
  "\<exists>k'. old_init_main ex_ops (\<lambda>regs r. 0) ex_code ex_start = Some (Inr (do_exit ex_ops k')) \<and>
    space_map k' = space_map ex_start \<and>
    console k' = console ex_start @ [FaultReport (store_rip ex_code 0) 0xFFFFFFFF80003000 6]"
proof -
  have nf: "next_free (lc_mms (current ex_start) MM_SEG_DATA) = 0x180001000" by (simp add: ex_start_def set_next_free_def)
  have "seg_end (lc_mms (current ex_start) MM_SEG_STACK) < 2 ^ 63"
    by (simp add: ex_start_def set_next_free_def ex_defs)
  moreover have v: "(0xFFFFFFFF80003000 :: 64 word) = - 0x7FFFD000" by simp
  ultimately show ?thesis
    using old_init_killed [OF ex_start_ready, of ex_ops "\<lambda>regs r. 0" ex_code] unfolding nf v by simp
qed

end
