(* ===== verification/Schedule.thy ===== *)
theory Schedule
  imports Registers
begin

text \<open>
  The scheduler and the signals of assignment 3, \<open>assignment3/schedule.c\<close>: a table of 16
  contexts, the round robin choice of the next one, the timer interrupt, and the system calls
  \<open>exit\<close>, \<open>sleep\<close>, \<open>clone\<close>, \<open>signal\<close> and \<open>alarm\<close>. The functions of \<open>context.o\<close> and \<open>memory.o\<close>
  that are called have no source: \<open>get_ctx_by_pid\<close> is the table itself, \<open>get_current_ctx\<close> and
  \<open>set_current_ctx\<close> the field \<open>cur\<close>, \<open>do_cleanup\<close> ends the run, \<open>get_new_ctx\<close> and the frame
  allocator are parameters.
\<close>

section \<open>Contexts\<close>

datatype pstate = UNUSED | NEW | READY | RUNNING | WAITING | EXITING

text \<open>The user registers of \<open>struct user_regs\<close>, and of a process in user mode.\<close>

record user_regs =
  gprs :: "gpr \<Rightarrow> 64 word"
  rbp :: "64 word"
  entry_rip :: "64 word"
  entry_cs :: "64 word"
  entry_rflags :: "64 word"
  entry_rsp :: "64 word"
  entry_ss :: "64 word"

record segment =
  sg_start :: "64 word"
  sg_end :: "64 word"
  sg_next_free :: "64 word"
  sg_access_flags :: "32 word"

record task =
  pid :: nat
  ty :: "8 word"
  state :: pstate
  task_mem :: "16 word"
  task_pgd :: "32 word"
  os_stack_pfn :: "32 word"
  os_rsp :: "64 word"
  segs :: "segment list"
  name :: "char list"
  regs :: user_regs
  pending_signal_bitmap :: "32 word"
  sighandlers :: "64 word list"
  ticks_to_sleep :: "32 word"
  alarm_config_time :: "32 word"
  ticks_to_alarm :: "32 word"

abbreviation (input) CNAME_MAX :: nat where "CNAME_MAX \<equiv> 64"
abbreviation (input) MAX_PROCESSES :: nat where "MAX_PROCESSES \<equiv> 16"
abbreviation (input) MAX_MM_SEGS :: nat where "MAX_MM_SEGS \<equiv> 4"
abbreviation (input) MAX_SIGNALS :: nat where "MAX_SIGNALS \<equiv> 3"
abbreviation (input) SIGSEGV :: int where "SIGSEGV \<equiv> 0"
abbreviation (input) SIGFPE :: int where "SIGFPE \<equiv> 1"
abbreviation (input) SIGALRM :: int where "SIGALRM \<equiv> 2"

text \<open>What the functions print, in order.\<close>

datatype message =
    Tick "64 word"
  | CurrentPid nat
  | TimerSwitch nat nat
  | CleaningUp
  | CalledSignal "64 word" "64 word"
  | Exiting nat
  | ExitSwitch nat nat
  | SleepCalled
  | SleepSwitch nat nat
  | Cloned nat "char list"
  | SettingAlarm
  | Register string "64 word"

text \<open>
  The state of the system: the contexts, the current one, the contents of user memory (bytes)
  and of the kernel stacks (by frame, in words of 8 bytes), the stack the hardware is told to
  use next, the interrupts acknowledged, and the state of the frame allocator.
\<close>

record 'o sched =
  tab :: "nat \<Rightarrow> task"
  cur :: nat
  numticks :: "64 word"
  umem :: "64 word \<Rightarrow> 8 word"
  kstack :: "32 word \<Rightarrow> nat \<Rightarrow> 64 word"
  tss :: nat
  acks :: nat
  out :: "message list"
  alloc :: 'o

record 'o sched_ops =
  get_new_ctx :: "'o sched \<Rightarrow> nat option"
  pt_alloc :: "'o \<Rightarrow> 32 word \<times> 'o"
  pt_free :: "32 word \<Rightarrow> 'o \<Rightarrow> 'o"

definition upd :: "nat \<Rightarrow> (task \<Rightarrow> task) \<Rightarrow> 'o sched \<Rightarrow> 'o sched" where
  "upd p f k = k\<lparr>tab := (tab k)(p := f (tab k p))\<rparr>"

definition print :: "message list \<Rightarrow> 'o sched \<Rightarrow> 'o sched" where
  "print ms k = k\<lparr>out := out k @ ms\<rparr>"

text \<open>Eight bytes of memory, the least significant first.\<close>

definition write_u64 :: "64 word \<Rightarrow> 64 word \<Rightarrow> (64 word \<Rightarrow> 8 word) \<Rightarrow> 64 word \<Rightarrow> 8 word" where
  "write_u64 a v m =
     (\<lambda>x. if unat (x - a) < 8 then ucast (drop_bit (8 * unat (x - a)) v) else m x)"

definition read_u64 :: "64 word \<Rightarrow> (64 word \<Rightarrow> 8 word) \<Rightarrow> 64 word" where
  "read_u64 a m = fold (\<lambda>i v. v OR push_bit (8 * i) (ucast (m (a + word_of_nat i)))) [0 ..< 8] 0"

section \<open>The choice of the next context\<close>

datatype switch_type = TIMER | SLEEPING | DO_EXIT

text \<open>The two loops: the first ready context after the current one, then from 1 on.\<close>

definition search_order :: "nat \<Rightarrow> nat list" where
  "search_order c = [c + 1 ..< 16] @ [1 ..< c]"

definition first_ready :: "(nat \<Rightarrow> task) \<Rightarrow> nat \<Rightarrow> nat option" where
  "first_ready t c = find (\<lambda>i. state (t i) = READY) (search_order c)"

definition is_wait :: "(nat \<Rightarrow> task) \<Rightarrow> nat \<Rightarrow> bool" where
  "is_wait t c = (\<exists>i \<in> set (search_order c). state (t i) = WAITING)"

text \<open>\<open>None\<close>: the run is over, \<open>do_cleanup\<close> was called.\<close>

definition pick_next_context :: "switch_type \<Rightarrow> 'o sched \<Rightarrow> nat option" where
  "pick_next_context type k =
     (case first_ready (tab k) (cur k) of
        Some i \<Rightarrow> Some i
      | None \<Rightarrow>
          (case type of
             TIMER \<Rightarrow>
               if pid (tab k (cur k)) \<noteq> 0 then Some (cur k)
               else if \<not> is_wait (tab k) (cur k) then None
               else Some 0
           | SLEEPING \<Rightarrow> Some 0
           | DO_EXIT \<Rightarrow> if \<not> is_wait (tab k) (cur k) then None else Some 0))"

text \<open>
  How a handler ends: a process goes on in user mode with the registers given, or the run is
  over.
\<close>

datatype 'o outcome = Resume user_regs "'o sched" | Shutdown "'o sched"

section \<open>Exit\<close>

text \<open>All registers come from the context that is resumed.\<close>

definition do_exit :: "'o sched_ops \<Rightarrow> 'o sched \<Rightarrow> 'o outcome" where
  "do_exit A k =
     (let c = cur k; k1 = upd c (\<lambda>t. t\<lparr>state := UNUSED\<rparr>) k in
      case pick_next_context DO_EXIT k1 of
        None \<Rightarrow> Shutdown (print [CleaningUp] k1)
      | Some n \<Rightarrow>
          let k2 = print [Exiting (pid (tab k1 c)), ExitSwitch (pid (tab k1 c)) (pid (tab k1 n))]
                     (upd n (\<lambda>t. t\<lparr>state := RUNNING\<rparr>) k1)
          in Resume (regs (tab k2 n))
               (k2\<lparr>alloc := pt_free A (os_stack_pfn (tab k2 c)) (alloc k2), tss := n, cur := n\<rparr>))"

section \<open>Signals\<close>

text \<open>
  Delivering a signal to the current context: \<open>Inl\<close> of the outcome when the process is ended,
  otherwise the new user stack pointer and instruction pointer.
\<close>

definition invoke_sync_signal ::
    "'o sched_ops \<Rightarrow> int \<Rightarrow> 64 word \<Rightarrow> 64 word \<Rightarrow> 'o sched \<Rightarrow>
     ('o outcome + 64 word \<times> 64 word \<times> 'o sched) res" where
  "invoke_sync_signal A signo ustackp urip k =
     (let k1 = print [CalledSignal ustackp urip] k; handlers = sighandlers (tab k (cur k)) in
      if signo < 0 \<or> int (length handlers) \<le> signo then Inl OutOfBounds
      else if handlers ! nat signo = 0 then
        (if signo \<noteq> SIGALRM then Inr (Inl (do_exit A k1)) else Inr (Inr (ustackp, urip, k1)))
      else
        Inr (Inr (ustackp - 8, handlers ! nat signo,
                  k1\<lparr>umem := write_u64 (ustackp - 8) urip (umem k1)\<rparr>)))"

definition do_signal :: "int \<Rightarrow> 64 word \<Rightarrow> 'o sched \<Rightarrow> (int \<times> 'o sched) res" where
  "do_signal signo handler k =
     (if signo < 0 \<or> int (length (sighandlers (tab k (cur k)))) \<le> signo then Inl OutOfBounds
      else Inr (0, upd (cur k) (\<lambda>t. t\<lparr>sighandlers := (sighandlers t)[nat signo := handler]\<rparr>) k))"

definition do_alarm :: "32 word \<Rightarrow> 'o sched \<Rightarrow> int \<times> 'o sched" where
  "do_alarm ticks k =
     (0, upd (cur k) (\<lambda>t. t\<lparr>ticks_to_alarm := ticks, alarm_config_time := ticks\<rparr>)
           (print [SettingAlarm] k))"

section \<open>The timer interrupt\<close>

text \<open>The countdown of \<open>init\<close>'s alarm; a handler registered by the current context is called.\<close>

definition tick_alarm ::
    "'o sched_ops \<Rightarrow> 64 word \<Rightarrow> 64 word \<Rightarrow> 'o sched \<Rightarrow>
     ('o outcome + 64 word \<times> 64 word \<times> 'o sched) res" where
  "tick_alarm A ustackp urip k =
     (if 1 \<le> ticks_to_alarm (tab k 1) then
        let k1 = upd 1 (\<lambda>t. t\<lparr>ticks_to_alarm := ticks_to_alarm t - 1\<rparr>) k in
        if ticks_to_alarm (tab k1 1) = 0 then
          invoke_sync_signal A SIGALRM ustackp urip
            (upd 1 (\<lambda>t. t\<lparr>ticks_to_alarm := alarm_config_time t\<rparr>) k1)
        else Inr (Inr (ustackp, urip, k1))
      else Inr (Inr (ustackp, urip, k)))"

text \<open>One round of the loop over the contexts that sleep.\<close>

definition wake :: "task \<Rightarrow> task" where
  "wake t =
     (if 1 \<le> ticks_to_sleep t then
        let t1 = t\<lparr>ticks_to_sleep := ticks_to_sleep t - 1\<rparr>
        in if ticks_to_sleep t1 = 0 then t1\<lparr>state := READY\<rparr> else t1
      else t)"

definition wake_all :: "'o sched \<Rightarrow> 'o sched" where
  "wake_all k = fold (\<lambda>i. upd i wake) [0 ..< 16] k"

text \<open>
  The registers saved: the general purpose ones from the stack they were pushed on (the word
  at offset \<open>8 * i\<close> from the stack pointer is element \<open>i\<close>), the others from the interrupt
  frame, which the signal may have changed.
\<close>

definition save_gprs :: "64 word list \<Rightarrow> gpr \<Rightarrow> 64 word" where
  "save_gprs stack r = (case r of
     RSI \<Rightarrow> stack ! 0 | RDI \<Rightarrow> stack ! 1 | RDX \<Rightarrow> stack ! 2 | RCX \<Rightarrow> stack ! 3 | RBX \<Rightarrow> stack ! 4
   | RAX \<Rightarrow> stack ! 5 | R15 \<Rightarrow> stack ! 6 | R14 \<Rightarrow> stack ! 7 | R13 \<Rightarrow> stack ! 8 | R12 \<Rightarrow> stack ! 9
   | R11 \<Rightarrow> stack ! 10 | R10 \<Rightarrow> stack ! 11 | R9 \<Rightarrow> stack ! 12 | R8 \<Rightarrow> stack ! 13)"

text \<open>
  The choice and the switch: \<open>stack\<close> holds the registers pushed, \<open>frame\<close> is the interrupt
  frame as it is saved for the old context, \<open>back\<close> the one the old context returns to when
  it goes on, and \<open>junk\<close> the registers that the compiled body leaves before the pops.
\<close>

definition tick_switch ::
    "(gpr \<Rightarrow> 64 word) \<Rightarrow> 64 word list \<Rightarrow> user_regs \<Rightarrow> user_regs \<Rightarrow> 'o sched \<Rightarrow> 'o outcome" where
  "tick_switch junk stack frame back k =
     (let c = cur k; k3 = upd c (\<lambda>t. t\<lparr>state := READY\<rparr>) k in
      case pick_next_context TIMER k3 of
        None \<Rightarrow> Shutdown (print [CleaningUp] k3)
      | Some new \<Rightarrow>
          let k4 = upd new (\<lambda>t. t\<lparr>state := RUNNING\<rparr>) k3 in
          if pid (tab k4 new) \<noteq> pid (tab k4 c) then
            let k5 = upd c (\<lambda>t. t\<lparr>regs := frame\<lparr>gprs := save_gprs stack\<rparr>\<rparr>)
                       (print [TimerSwitch (pid (tab k4 c)) (pid (tab k4 new))] k4)
            in Resume (regs (tab k5 new)) (k5\<lparr>acks := Suc (acks k5), tss := new, cur := new\<rparr>)
          else
            Resume (back\<lparr>gprs := fst (pop_regs pop_order stack junk)\<rparr>) (k4\<lparr>acks := Suc (acks k4)\<rparr>))"

text \<open>The interrupt: \<open>u\<close> are the registers of the process that is interrupted.\<close>

definition handle_timer_tick ::
    "'o sched_ops \<Rightarrow> (gpr \<Rightarrow> 64 word) \<Rightarrow> user_regs \<Rightarrow> 'o sched \<Rightarrow> 'o outcome res" where
  "handle_timer_tick A junk u k =
     (let stack = push_regs (gprs u) []; n = numticks k + 1;
          k1 = print [Tick n, CurrentPid (pid (tab k (cur k)))] (k\<lparr>numticks := n\<rparr>) in
      rbind (tick_alarm A (entry_rsp u) (entry_rip u) k1) (\<lambda>r.
        case r of
          Inl outc \<Rightarrow> Inr outc
        | Inr (ustackp, urip, k2) \<Rightarrow>
            let frame = u\<lparr>entry_rip := urip, entry_rsp := ustackp\<rparr>
            in Inr (tick_switch junk stack frame frame (wake_all k2))))"

section \<open>Sleep\<close>

text \<open>
  The registers saved are read from the kernel stack of the process: the words at -10, -4, -2
  and -1 from its last word, which is word 511 of the frame.
\<close>

definition do_sleep :: "32 word \<Rightarrow> 'o sched \<Rightarrow> 'o outcome" where
  "do_sleep ticks k =
     (let c = cur k; temp = kstack k (os_stack_pfn (tab k c));
          k1 = upd c (\<lambda>t. t\<lparr>ticks_to_sleep := ticks, state := WAITING,
                 regs := (regs t)\<lparr>rbp := temp (511 - 10), entry_rip := temp (511 - 4),
                   entry_rflags := temp (511 - 2), entry_rsp := temp (511 - 1),
                   entry_cs := 0x23, entry_ss := 0x2b\<rparr>\<rparr>) (print [SleepCalled] k) in
      case pick_next_context SLEEPING k1 of
        None \<Rightarrow> Shutdown k1
      | Some n \<Rightarrow>
          let k2 = upd n (\<lambda>t. t\<lparr>state := RUNNING\<rparr>)
                     (print [SleepSwitch (pid (tab k1 c)) (pid (tab k1 n))] k1)
          in Resume (regs (tab k2 n)) (k2\<lparr>tss := n, cur := n\<rparr>))"

section \<open>Clone\<close>

text \<open>The decimal digits: their number, and the loop that fills \<open>str\<close> from the right.\<close>

fun count_digits :: "nat \<Rightarrow> nat" where
  "count_digits n = (if n = 0 then 0 else Suc (count_digits (n div 10)))"

declare count_digits.simps [simp del]

definition digit_char :: "nat \<Rightarrow> char" where
  "digit_char d = char_of (d + 48)"

fun fill_digits :: "nat \<Rightarrow> nat \<Rightarrow> char list \<Rightarrow> char list" where
  "fill_digits 0 num str = str"
| "fill_digits (Suc m) num str = fill_digits m (num div 10) (str[m := digit_char (num mod 10)])"

text \<open>
  The name of the new context: the name of \<open>init\<close> up to its terminator, the digits of the pid,
  a terminator, and bytes of the local array that were never set (\<open>junk\<close>). The copy of a name
  without terminator, and a result longer than the array, leave the arrays.
\<close>

definition clone_name :: "(nat \<Rightarrow> char) \<Rightarrow> char list \<Rightarrow> nat \<Rightarrow> char list res" where
  "clone_name junk base p =
     (let i = length (takeWhile (\<lambda>c. c \<noteq> CHR 0x00) base);
          len = count_digits p;
          str = fill_digits len p (replicate len (CHR 0x00)) @ [CHR 0x00];
          temp = take i base @ str
      in if length base \<le> i then Inl OutOfBounds
         else if 20 \<le> len then Inl BufferOverflow
         else if CNAME_MAX < length temp then Inl BufferOverflow
         else Inr (temp @ map junk [length temp ..< CNAME_MAX]))"

definition do_clone ::
    "'o sched_ops \<Rightarrow> (nat \<Rightarrow> char) \<Rightarrow> 64 word \<Rightarrow> 64 word \<Rightarrow> 'o sched \<Rightarrow> (int \<times> 'o sched) res" where
  "do_clone A junk th_func user_stack k =
     (case get_new_ctx A k of
        None \<Rightarrow> Inl NullDeref
      | Some n \<Rightarrow>
          let i = tab k 1; address = kstack k (os_stack_pfn i) in
          case pt_alloc A (alloc k) of (a, al) \<Rightarrow>
          rbind (clone_name junk (name i) (pid (tab k n))) (\<lambda>nm.
            let k1 = upd n (\<lambda>t. t\<lparr>ty := ty i, state := READY, task_mem := task_mem i,
                       task_pgd := task_pgd i, os_stack_pfn := a, os_rsp := os_rsp i,
                       ticks_to_alarm := 0, ticks_to_sleep := 0, pending_signal_bitmap := 0,
                       sighandlers := map (\<lambda>j. sighandlers i ! j) [0 ..< MAX_SIGNALS],
                       name := nm, segs := map (\<lambda>j. segs i ! j) [0 ..< MAX_MM_SEGS],
                       regs := (regs i)\<lparr>entry_cs := 0x23, entry_ss := 0x2b, entry_rip := th_func,
                         entry_rsp := user_stack, rbp := user_stack,
                         entry_rflags := address (511 - 2)\<rparr>,
                       alarm_config_time := 0\<rparr>) (k\<lparr>alloc := al\<rparr>)
            in Inr (0, print [Cloned (pid (tab k1 n)) nm] k1)))"

section \<open>Fields that an update leaves alone\<close>

lemma upd_simps [simp]:
  "tab (upd p f k) q = (if q = p then f (tab k p) else tab k q)"
  "cur (upd p f k) = cur k" "numticks (upd p f k) = numticks k" "umem (upd p f k) = umem k"
  "kstack (upd p f k) = kstack k" "tss (upd p f k) = tss k" "acks (upd p f k) = acks k"
  "out (upd p f k) = out k" "alloc (upd p f k) = alloc k"
  by (simp_all add: upd_def)

lemma print_simps [simp]:
  "tab (print ms k) = tab k" "cur (print ms k) = cur k" "numticks (print ms k) = numticks k"
  "umem (print ms k) = umem k" "kstack (print ms k) = kstack k" "tss (print ms k) = tss k"
  "acks (print ms k) = acks k" "out (print ms k) = out k @ ms" "alloc (print ms k) = alloc k"
  by (simp_all add: print_def)

lemma wake_simps [simp]:
  "pid (wake t) = pid t" "regs (wake t) = regs t" "name (wake t) = name t"
  "sighandlers (wake t) = sighandlers t" "os_stack_pfn (wake t) = os_stack_pfn t"
  "ticks_to_alarm (wake t) = ticks_to_alarm t" "alarm_config_time (wake t) = alarm_config_time t"
  "ticks_to_sleep (wake t) = (if ticks_to_sleep t = 0 then 0 else ticks_to_sleep t - 1)"
  "state (wake t) = (if ticks_to_sleep t = 1 then READY else state t)"
proof -
  have "1 \<le> x \<longleftrightarrow> x \<noteq> 0" for x :: "32 word"
    by (simp add: word_le_nat_alt Suc_le_eq unat_gt_0)
  moreover have "x - 1 = 0 \<longleftrightarrow> x = 1" for x :: "32 word" by simp
  ultimately show "ticks_to_sleep (wake t) = (if ticks_to_sleep t = 0 then 0 else ticks_to_sleep t - 1)"
    "state (wake t) = (if ticks_to_sleep t = 1 then READY else state t)"
    by (auto simp: wake_def Let_def)
qed (simp_all add: wake_def Let_def)

lemma wake_loop: "n \<le> 16 \<Longrightarrow> tab (fold (\<lambda>i. upd i wake) [0 ..< n] k) p =
    (if p < n then wake (tab k p) else tab k p) \<and>
  cur (fold (\<lambda>i. upd i wake) [0 ..< n] k) = cur k"
  by (induction n) (auto simp: less_Suc_eq)

lemma wake_all_simps [simp]:
  "tab (wake_all k) p = (if p < 16 then wake (tab k p) else tab k p)" "cur (wake_all k) = cur k"
  using wake_loop [of 16 k p] by (simp_all add: wake_all_def)

section \<open>Round robin\<close>

text \<open>How far \<open>p\<close> is ahead of \<open>c\<close> in the order of the search.\<close>

definition rr_dist :: "nat \<Rightarrow> nat \<Rightarrow> nat" where
  "rr_dist c p = (if c < p then p - c else p + 15 - c)"

lemma search_order_nth:
  assumes "c < 16" and "i < length (search_order c)"
  shows "search_order c ! i = (if c + 1 + i < 16 then c + 1 + i else c + 1 + i - 15)"
  using assms by (auto simp: search_order_def nth_append)

lemma set_search_order: "c < 16 \<Longrightarrow> set (search_order c) = {1 ..< 16} - {c}"
  by (auto simp: search_order_def)

lemma search_order_at:
  assumes "c < 16" "p \<in> set (search_order c)"
  shows "rr_dist c p - 1 < length (search_order c)" and "search_order c ! (rr_dist c p - 1) = p"
    and "0 < rr_dist c p"
proof -
  have p: "1 \<le> p" "p < 16" "p \<noteq> c" using assms by (auto simp: set_search_order)
  show "0 < rr_dist c p" using p assms(1) by (auto simp: rr_dist_def)
  show l: "rr_dist c p - 1 < length (search_order c)"
    using p assms(1) by (auto simp: rr_dist_def search_order_def)
  show "search_order c ! (rr_dist c p - 1) = p"
    unfolding search_order_nth [OF assms(1) l] using p assms(1) by (auto simp: rr_dist_def)
qed

text \<open>The choice passes over no ready context.\<close>

lemma first_ready_Some:
  assumes c: "c < 16" and f: "first_ready t c = Some n"
  shows "1 \<le> n" "n < 16" "n \<noteq> c" "state (t n) = READY"
    and "\<And>p. 1 \<le> p \<Longrightarrow> p < 16 \<Longrightarrow> p \<noteq> c \<Longrightarrow> state (t p) = READY \<Longrightarrow> n = p \<or> rr_dist n p < rr_dist c p"
proof -
  obtain i where i: "i < length (search_order c)" "state (t (search_order c ! i)) = READY"
      "n = search_order c ! i" "\<And>j. j < i \<Longrightarrow> state (t (search_order c ! j)) \<noteq> READY"
    using f unfolding first_ready_def find_Some_iff by auto
  have "n \<in> set (search_order c)" using i(1,3) by simp
  then show n: "1 \<le> n" "n < 16" "n \<noteq> c" using c by (auto simp: set_search_order)
  show "state (t n) = READY" using i(2,3) by simp
  fix p assume p: "1 \<le> p" "p < 16" "p \<noteq> c" "state (t p) = READY"
  then have "p \<in> set (search_order c)" using c by (auto simp: set_search_order)
  note at = search_order_at [OF c this]
  have "i \<le> rr_dist c p - 1" using i(4) [of "rr_dist c p - 1"] at(2) p(4) by (cases "i \<le> rr_dist c p - 1") simp_all
  then consider "i = rr_dist c p - 1" | "i < rr_dist c p - 1" by linarith
  then show "n = p \<or> rr_dist n p < rr_dist c p"
  proof cases
    case 1
    then show ?thesis using at(2) i(3) by simp
  next
    case 2
    have "n = (if c + 1 + i < 16 then c + 1 + i else c + 1 + i - 15)"
      using search_order_nth [OF c i(1)] i(3) by simp
    then show ?thesis using 2 p n c by (auto simp: rr_dist_def split: if_splits)
  qed
qed

lemma first_ready_None:
  assumes "c < 16" and "first_ready t c = None" and "1 \<le> p" "p < 16" "p \<noteq> c"
  shows "state (t p) \<noteq> READY"
  using assms by (auto simp: first_ready_def find_None_iff set_search_order)

end
