(* ===== verification/Sched_Run.thy ===== *)
theory Sched_Run
  imports Schedule
begin

text \<open>
  Runs of the scheduler of assignment 3: the effect of each handler on the table of contexts,
  the step relation of a system in which the handlers of \<open>schedule.c\<close> and user code alternate,
  its invariant, and the two interfaces the scheduler serves, \<open>round_robin\<close> (every ready
  context has its turn) and \<open>preserving\<close> (it goes on with the registers it had).
\<close>

section \<open>The invariant\<close>

text \<open>
  Exactly the current context is running; a context that counts down is waiting; the swapper
  (context 0) is ready when it does not run.
\<close>

definition sched_ok :: "'o sched \<Rightarrow> bool" where
  "sched_ok k \<longleftrightarrow> cur k < 16 \<and>
     (\<forall>p < 16. pid (tab k p) = p \<and> (state (tab k p) = RUNNING \<longleftrightarrow> p = cur k) \<and>
       (ticks_to_sleep (tab k p) \<noteq> 0 \<longrightarrow> state (tab k p) = WAITING)) \<and>
     (cur k \<noteq> 0 \<longrightarrow> state (tab k 0) = READY)"

lemma sched_okD:
  assumes "sched_ok k"
  shows "cur k < 16" "p < 16 \<Longrightarrow> pid (tab k p) = p"
    "p < 16 \<Longrightarrow> state (tab k p) = RUNNING \<longleftrightarrow> p = cur k"
    "p < 16 \<Longrightarrow> ticks_to_sleep (tab k p) \<noteq> 0 \<Longrightarrow> state (tab k p) = WAITING"
    "cur k \<noteq> 0 \<Longrightarrow> state (tab k 0) = READY" "state (tab k (cur k)) = RUNNING"
    "ticks_to_sleep (tab k (cur k)) = 0"
proof -
  show "cur k < 16" "cur k \<noteq> 0 \<Longrightarrow> state (tab k 0) = READY"
    "p < 16 \<Longrightarrow> pid (tab k p) = p" "p < 16 \<Longrightarrow> state (tab k p) = RUNNING \<longleftrightarrow> p = cur k"
    "p < 16 \<Longrightarrow> ticks_to_sleep (tab k p) \<noteq> 0 \<Longrightarrow> state (tab k p) = WAITING"
    using assms unfolding sched_ok_def by auto
  show run: "state (tab k (cur k)) = RUNNING" using assms unfolding sched_ok_def by auto
  show "ticks_to_sleep (tab k (cur k)) = 0"
  proof (rule ccontr)
    assume "ticks_to_sleep (tab k (cur k)) \<noteq> 0"
    then have "state (tab k (cur k)) = WAITING" using assms unfolding sched_ok_def by auto
    then show False using run by simp
  qed
qed

text \<open>What the parameter \<open>get_new_ctx\<close> promises: a context, other than the swapper, not in use.\<close>

definition new_ctx_ok :: "'o sched_ops \<Rightarrow> bool" where
  "new_ctx_ok A \<longleftrightarrow>
     (\<forall>k n. get_new_ctx A k = Some n \<longrightarrow> 0 < n \<and> n < 16 \<and> state (tab k n) = UNUSED)"

section \<open>The effect of the handlers\<close>

text \<open>The same contexts as far as the scheduler is concerned.\<close>

definition same_tasks :: "'o sched \<Rightarrow> 'o sched \<Rightarrow> bool" where
  "same_tasks k k' \<longleftrightarrow> cur k' = cur k \<and>
     (\<forall>p. pid (tab k' p) = pid (tab k p) \<and> state (tab k' p) = state (tab k p) \<and>
       regs (tab k' p) = regs (tab k p) \<and> ticks_to_sleep (tab k' p) = ticks_to_sleep (tab k p) \<and>
       os_stack_pfn (tab k' p) = os_stack_pfn (tab k p))"

lemma same_tasks_refl [simp]: "same_tasks k k"
  by (simp add: same_tasks_def)

lemma same_tasks_ok: "same_tasks k k' \<Longrightarrow> sched_ok k' = sched_ok k"
  by (simp add: same_tasks_def sched_ok_def)

lemma same_tasks_upd:
  assumes "\<And>t. pid (f t) = pid t \<and> state (f t) = state t \<and> regs (f t) = regs t \<and>
      ticks_to_sleep (f t) = ticks_to_sleep t \<and> os_stack_pfn (f t) = os_stack_pfn t"
  shows "same_tasks k (upd p f k)"
  using assms by (simp add: same_tasks_def)

lemma invoke_alarm:
  assumes "invoke_sync_signal A SIGALRM sp ip k = Inr r"
  shows "\<exists>sp' ip' k'. r = Inr (sp', ip', k') \<and> same_tasks k k'"
  using assms by (auto simp: invoke_sync_signal_def Let_def same_tasks_def split: if_splits)

lemma tick_alarm_ok:
  assumes "tick_alarm A sp ip k = Inr r"
  shows "\<exists>sp' ip' k'. r = Inr (sp', ip', k') \<and> same_tasks k k'"
proof (cases "1 \<le> ticks_to_alarm (tab k 1)")
  case False
  then show ?thesis using assms by (auto simp: tick_alarm_def)
next
  case True
  let ?k1 = "upd 1 (\<lambda>t. t\<lparr>ticks_to_alarm := ticks_to_alarm t - 1\<rparr>) k"
  let ?k2 = "upd 1 (\<lambda>t. t\<lparr>ticks_to_alarm := alarm_config_time t\<rparr>) ?k1"
  have s1: "same_tasks k ?k1" by (rule same_tasks_upd) simp
  have "same_tasks ?k1 ?k2" by (rule same_tasks_upd) simp
  then have s2: "same_tasks k ?k2" using s1 by (simp add: same_tasks_def)
  show ?thesis
  proof (cases "ticks_to_alarm (tab ?k1 1) = 0")
    case True
    then have "invoke_sync_signal A SIGALRM sp ip ?k2 = Inr r"
      using assms \<open>1 \<le> ticks_to_alarm (tab k 1)\<close> unfolding tick_alarm_def Let_def by simp
    from invoke_alarm [OF this] show ?thesis using s2 by (auto simp: same_tasks_def)
  next
    case False
    then have "r = Inr (sp, ip, ?k1)"
      using assms \<open>1 \<le> ticks_to_alarm (tab k 1)\<close> unfolding tick_alarm_def Let_def by simp
    then show ?thesis using s1 by blast
  qed
qed

lemma save_pushed: "save_gprs (push_regs g []) = g"
proof
  show "save_gprs (push_regs g []) r = g r" for r
    by (cases r) (simp_all add: save_gprs_def push_regs_def push_order_def)
qed

text \<open>The state of a context when the timer handler comes to its choice.\<close>

definition tick_state :: "'o sched \<Rightarrow> nat \<Rightarrow> pstate" where
  "tick_state k p =
     (if p = cur k \<or> p < 16 \<and> ticks_to_sleep (tab k p) = 1 then READY else state (tab k p))"

definition tick_sleep :: "'o sched \<Rightarrow> nat \<Rightarrow> 32 word" where
  "tick_sleep k p =
     (if p < 16 \<and> ticks_to_sleep (tab k p) \<noteq> 0 then ticks_to_sleep (tab k p) - 1
      else ticks_to_sleep (tab k p))"

lemma tick_switch_resume:
  assumes ok: "sched_ok k" and st: "same_tasks k k2"
    and run: "tick_switch junk (push_regs (gprs u) []) frame back (wake_all k2) = Resume u' k'"
    and g: "gprs frame = gprs u" "gprs back = gprs u"
  shows "cur k' < 16" and "tick_state k (cur k') = READY"
    and "\<And>p. p < 16 \<Longrightarrow> state (tab k' p) = (if p = cur k' then RUNNING else tick_state k p)"
    and "\<And>p. p < 16 \<Longrightarrow> ticks_to_sleep (tab k' p) = tick_sleep k p"
    and "\<And>p. p < 16 \<Longrightarrow> pid (tab k' p) = p"
    and "\<And>p. p < 16 \<Longrightarrow> regs (tab k' p) =
      (if p = cur k \<and> cur k' \<noteq> cur k then frame else regs (tab k p))"
    and "u' = (if cur k' = cur k then back else regs (tab k (cur k')))"
    and "\<And>p. 1 \<le> p \<Longrightarrow> p < 16 \<Longrightarrow> p \<noteq> cur k \<Longrightarrow> tick_state k p = READY \<Longrightarrow>
      1 \<le> cur k' \<and> (cur k' = p \<or> rr_dist (cur k') p < rr_dist (cur k) p)"
proof -
  note okD = sched_okD [OF ok]
  let ?c = "cur k"
  define k3 where "k3 = upd ?c (\<lambda>t. t\<lparr>state := READY\<rparr>) (wake_all k2)"
  have c2: "cur k2 = ?c" and c3: "cur k3 = ?c" using st by (simp_all add: k3_def same_tasks_def)
  have t3: "state (tab k3 p) = tick_state k p" "ticks_to_sleep (tab k3 p) = tick_sleep k p"
      "pid (tab k3 p) = p" "regs (tab k3 p) = regs (tab k p)" if "p < 16" for p
    using that st okD(1,2,7) by (auto simp: k3_def same_tasks_def tick_state_def tick_sleep_def)
  obtain n where n: "pick_next_context TIMER k3 = Some n"
    using run c2 by (cases "pick_next_context TIMER k3") (simp_all add: tick_switch_def Let_def k3_def)
  have n16: "n < 16 \<and> tick_state k n = READY \<and> (\<forall>p. 1 \<le> p \<longrightarrow> p < 16 \<longrightarrow> p \<noteq> ?c \<longrightarrow>
      tick_state k p = READY \<longrightarrow> 1 \<le> n \<and> (n = p \<or> rr_dist n p < rr_dist ?c p))"
  proof (cases "first_ready (tab k3) ?c")
    case (Some m)
    then have "n = m" using n c3 by (simp add: pick_next_context_def)
    note fr = first_ready_Some [OF okD(1) Some]
    show ?thesis using fr t3(1) unfolding \<open>n = m\<close> by auto
  next
    case None
    then have "n = ?c" using n c3 t3(3) okD(1) by (auto simp: pick_next_context_def split: if_splits)
    then show ?thesis
      using okD(1) first_ready_None [OF okD(1) None] t3(1) by (auto simp: tick_state_def)
  qed
  define k4 where "k4 = upd n (\<lambda>t. t\<lparr>state := RUNNING\<rparr>) k3"
  have pids: "pid (tab k4 n) = n" "pid (tab k4 ?c) = ?c" using n16 t3(3) okD(1) by (simp_all add: k4_def)
  have frame: "frame\<lparr>gprs := save_gprs (push_regs (gprs u) [])\<rparr> = frame"
    "back\<lparr>gprs := fst (pop_regs pop_order (push_regs (gprs u) []) junk)\<rparr> = back"
    using g by (simp_all add: save_pushed push_pop flip: g)
  have run': "(if n \<noteq> ?c then
      Resume (regs (tab k4 n)) ((upd ?c (\<lambda>t. t\<lparr>regs := frame\<rparr>) (print [TimerSwitch ?c n] k4))
        \<lparr>acks := Suc (acks k4), tss := n, cur := n\<rparr>)
     else Resume back (k4\<lparr>acks := Suc (acks k4)\<rparr>)) = Resume u' k'"
    using run n c2 pids frame
    by (simp add: tick_switch_def Let_def k3_def [symmetric] k4_def [symmetric] split: if_splits)
  have cur': "cur k' = n" using run' c3 by (auto simp: k4_def split: if_splits)
  show "cur k' < 16" "tick_state k (cur k') = READY" using n16 cur' by simp_all
  show "state (tab k' p) = (if p = cur k' then RUNNING else tick_state k p)"
    "ticks_to_sleep (tab k' p) = tick_sleep k p" "pid (tab k' p) = p"
    "regs (tab k' p) = (if p = ?c \<and> cur k' \<noteq> ?c then frame else regs (tab k p))"
    if "p < 16" for p
    using run' t3 [OF that] that by (auto simp: k4_def cur' split: if_splits)
  show "u' = (if cur k' = ?c then back else regs (tab k (cur k')))"
    using run' t3(4) n16 by (auto simp: k4_def cur' split: if_splits)
  show "1 \<le> cur k' \<and> (cur k' = p \<or> rr_dist (cur k') p < rr_dist ?c p)"
    if "1 \<le> p" "p < 16" "p \<noteq> ?c" "tick_state k p = READY" for p
    using n16 that cur' by simp
qed

lemma tick_resume:
  assumes ok: "sched_ok k" and run: "handle_timer_tick A junk u k = Inr (Resume u' k')"
  obtains sp ip k1 k2 where "same_tasks k k2"
    "tick_alarm A (entry_rsp u) (entry_rip u) k1 = Inr (Inr (sp, ip, k2))"
    "k1 = print [Tick (numticks k + 1), CurrentPid (cur k)] (k\<lparr>numticks := numticks k + 1\<rparr>)"
    "tick_switch junk (push_regs (gprs u) []) (u\<lparr>entry_rip := ip, entry_rsp := sp\<rparr>)
      (u\<lparr>entry_rip := ip, entry_rsp := sp\<rparr>) (wake_all k2) = Resume u' k'"
proof -
  note okD = sched_okD [OF ok]
  define k1 where "k1 = print [Tick (numticks k + 1), CurrentPid (cur k)] (k\<lparr>numticks := numticks k + 1\<rparr>)"
  obtain r where r: "tick_alarm A (entry_rsp u) (entry_rip u) k1 = Inr r"
    using run okD(1,2) by (cases "tick_alarm A (entry_rsp u) (entry_rip u) k1")
      (auto simp: handle_timer_tick_def Let_def k1_def)
  obtain sp ip k2 where al: "tick_alarm A (entry_rsp u) (entry_rip u) k1 = Inr (Inr (sp, ip, k2))"
      and "same_tasks k1 k2" using tick_alarm_ok [OF r] r by auto
  then have "same_tasks k k2" by (simp add: same_tasks_def k1_def)
  moreover have "tick_switch junk (push_regs (gprs u) []) (u\<lparr>entry_rip := ip, entry_rsp := sp\<rparr>)
      (u\<lparr>entry_rip := ip, entry_rsp := sp\<rparr>) (wake_all k2) = Resume u' k'"
    using run al okD(1,2) by (simp add: handle_timer_tick_def Let_def k1_def)
  ultimately show ?thesis using that al k1_def by blast
qed

text \<open>When the current context does not go on, another ready one is chosen, if need be the swapper.\<close>

lemma pick_other:
  assumes ok: "sched_ok k" and c0: "cur k \<noteq> 0" and c1: "cur k1 = cur k"
    and tab: "\<And>p. p \<noteq> cur k \<Longrightarrow> tab k1 p = tab k p" and type: "type \<noteq> TIMER"
    and pick: "pick_next_context type k1 = Some n"
  shows "n < 16" "n \<noteq> cur k" "state (tab k n) = READY"
    and "\<And>p. 1 \<le> p \<Longrightarrow> p < 16 \<Longrightarrow> p \<noteq> cur k \<Longrightarrow> state (tab k p) = READY \<Longrightarrow>
      1 \<le> n \<and> (n = p \<or> rr_dist n p < rr_dist (cur k) p)"
proof -
  note okD = sched_okD [OF ok]
  have "n < 16 \<and> n \<noteq> cur k \<and> state (tab k n) = READY \<and> (\<forall>p. 1 \<le> p \<longrightarrow> p < 16 \<longrightarrow> p \<noteq> cur k \<longrightarrow>
      state (tab k p) = READY \<longrightarrow> 1 \<le> n \<and> (n = p \<or> rr_dist n p < rr_dist (cur k) p))"
  proof (cases "first_ready (tab k1) (cur k)")
    case (Some m)
    then have "n = m" using pick c1 by (simp add: pick_next_context_def)
    note fr = first_ready_Some [OF okD(1) Some]
    show ?thesis using fr tab unfolding \<open>n = m\<close> by metis
  next
    case None
    then have "n = 0" using pick c1 type
      by (cases type) (auto simp: pick_next_context_def split: if_splits)
    then show ?thesis using okD(5) c0 first_ready_None [OF okD(1) None] tab by auto
  qed
  then show "n < 16" "n \<noteq> cur k" "state (tab k n) = READY"
    and "\<And>p. 1 \<le> p \<Longrightarrow> p < 16 \<Longrightarrow> p \<noteq> cur k \<Longrightarrow> state (tab k p) = READY \<Longrightarrow>
      1 \<le> n \<and> (n = p \<or> rr_dist n p < rr_dist (cur k) p)" by auto
qed

text \<open>A handler that gives the processor away: \<open>t\<close> is what the current context becomes.\<close>

definition gives_way :: "task \<Rightarrow> 'o sched \<Rightarrow> user_regs \<Rightarrow> 'o sched \<Rightarrow> bool" where
  "gives_way t k u' k' \<longleftrightarrow>
     cur k' < 16 \<and> cur k' \<noteq> cur k \<and> state (tab k (cur k')) = READY \<and> u' = regs (tab k (cur k')) \<and>
     tab k' = (tab k)(cur k := t, cur k' := (tab k (cur k'))\<lparr>state := RUNNING\<rparr>) \<and>
     (\<forall>p. 1 \<le> p \<longrightarrow> p < 16 \<longrightarrow> p \<noteq> cur k \<longrightarrow> state (tab k p) = READY \<longrightarrow>
       1 \<le> cur k' \<and> (cur k' = p \<or> rr_dist (cur k') p < rr_dist (cur k) p))"

lemma exit_resume:
  assumes ok: "sched_ok k" and c0: "cur k \<noteq> 0" and run: "do_exit A k = Resume u' k'"
  shows "gives_way ((tab k (cur k))\<lparr>state := UNUSED\<rparr>) k u' k'"
proof -
  let ?k1 = "upd (cur k) (\<lambda>t. t\<lparr>state := UNUSED\<rparr>) k"
  obtain n where n: "pick_next_context DO_EXIT ?k1 = Some n"
    using run by (cases "pick_next_context DO_EXIT ?k1") (simp_all add: do_exit_def Let_def)
  note po = pick_other [OF ok c0 _ _ _ n]
  have "n < 16" "n \<noteq> cur k" "state (tab k n) = READY" by (rule po; simp)+
  moreover have "\<forall>p. 1 \<le> p \<longrightarrow> p < 16 \<longrightarrow> p \<noteq> cur k \<longrightarrow> state (tab k p) = READY \<longrightarrow>
      1 \<le> n \<and> (n = p \<or> rr_dist n p < rr_dist (cur k) p)"
    by (intro allI impI, rule po(4)) simp_all
  moreover from \<open>n \<noteq> cur k\<close> have "cur k' = n" "u' = regs (tab k n)"
    "tab k' = (tab k)(cur k := (tab k (cur k))\<lparr>state := UNUSED\<rparr>, n := (tab k n)\<lparr>state := RUNNING\<rparr>)"
    using run n by (auto simp: do_exit_def Let_def fun_eq_iff)
  ultimately show ?thesis by (simp add: gives_way_def)
qed

lemma sleep_resume:
  fixes k :: "'o sched"
  defines "stk \<equiv> kstack k (os_stack_pfn (tab k (cur k)))"
  assumes ok: "sched_ok k" and c0: "cur k \<noteq> 0" and run: "do_sleep ticks k = Resume u' k'"
  shows "gives_way ((tab k (cur k))\<lparr>ticks_to_sleep := ticks, state := WAITING,
    regs := (regs (tab k (cur k)))\<lparr>rbp := stk 501, entry_rip := stk 507, entry_rflags := stk 509,
      entry_rsp := stk 510, entry_cs := 0x23, entry_ss := 0x2b\<rparr>\<rparr>) k u' k'"
proof -
  define k1 where "k1 = upd (cur k) (\<lambda>t. t\<lparr>ticks_to_sleep := ticks, state := WAITING,
    regs := (regs t)\<lparr>rbp := stk 501, entry_rip := stk 507, entry_rflags := stk 509,
      entry_rsp := stk 510, entry_cs := 0x23, entry_ss := 0x2b\<rparr>\<rparr>) (print [SleepCalled] k)"
  have run': "(case pick_next_context SLEEPING k1 of None \<Rightarrow> Shutdown k1
      | Some n \<Rightarrow> let k2 = upd n (\<lambda>t. t\<lparr>state := RUNNING\<rparr>)
          (print [SleepSwitch (pid (tab k1 (cur k))) (pid (tab k1 n))] k1)
        in Resume (regs (tab k2 n)) (k2\<lparr>tss := n, cur := n\<rparr>)) = Resume u' k'"
    using run unfolding do_sleep_def Let_def k1_def stk_def by (simp cong: option.case_cong)
  obtain n where n: "pick_next_context SLEEPING k1 = Some n"
    using run' by (cases "pick_next_context SLEEPING k1") simp_all
  have k1: "cur k1 = cur k" "\<And>p. p \<noteq> cur k \<Longrightarrow> tab k1 p = tab k p" by (simp_all add: k1_def)
  note po = pick_other [OF ok c0 k1 _ n]
  have "n < 16" "n \<noteq> cur k" "state (tab k n) = READY" by (rule po; simp)+
  moreover have "\<forall>p. 1 \<le> p \<longrightarrow> p < 16 \<longrightarrow> p \<noteq> cur k \<longrightarrow> state (tab k p) = READY \<longrightarrow>
      1 \<le> n \<and> (n = p \<or> rr_dist n p < rr_dist (cur k) p)"
    by (intro allI impI, rule po(4)) simp_all
  moreover from \<open>n \<noteq> cur k\<close> have "cur k' = n" "u' = regs (tab k n)"
    "tab k' = (tab k)(cur k := tab k1 (cur k), n := (tab k n)\<lparr>state := RUNNING\<rparr>)"
    using run' n k1(2) by (auto simp: Let_def fun_eq_iff)
  ultimately show ?thesis by (simp add: gives_way_def k1_def)
qed

lemma gives_way_ok:
  assumes ok: "sched_ok k" and g: "gives_way t k u' k'"
    and t: "pid t = cur k" "state t \<noteq> RUNNING" "ticks_to_sleep t \<noteq> 0 \<longrightarrow> state t = WAITING" "cur k \<noteq> 0"
  shows "sched_ok k'"
proof -
  note okD = sched_okD [OF ok]
  have tab: "tab k' = (tab k)(cur k := t, cur k' := (tab k (cur k'))\<lparr>state := RUNNING\<rparr>)"
    and c: "cur k' < 16" "cur k' \<noteq> cur k" "state (tab k (cur k')) = READY"
    using g by (auto simp: gives_way_def)
  have "ticks_to_sleep (tab k (cur k')) = 0" using okD(4) [OF c(1)] c(3) by auto
  then show ?thesis
    unfolding sched_ok_def using tab c okD(2-5) t by auto
qed

section \<open>Clone\<close>

text \<open>The context that \<open>clone\<close> makes.\<close>

lemma clone_task:
  assumes run: "do_clone A junk f st k = Inr (r, k')" and A: "new_ctx_ok A"
  obtains n nm where "0 < n" "n < 16" "state (tab k n) = UNUSED" "state (tab k' n) = READY"
    "\<forall>p. p \<noteq> n \<longrightarrow> tab k' p = tab k p" "cur k' = cur k" "name (tab k' n) = nm"
    "clone_name junk (name (tab k 1)) (pid (tab k n)) = Inr nm"
    "regs (tab k' n) = (regs (tab k 1))\<lparr>entry_cs := 0x23, entry_ss := 0x2b, entry_rip := f,
      entry_rsp := st, rbp := st, entry_rflags := kstack k (os_stack_pfn (tab k 1)) 509\<rparr>"
    "pid (tab k' n) = pid (tab k n)" "ticks_to_sleep (tab k' n) = 0"
    "ticks_to_alarm (tab k' n) = 0" "alarm_config_time (tab k' n) = 0"
    "sighandlers (tab k' n) = map (\<lambda>j. sighandlers (tab k 1) ! j) [0 ..< 3]" "umem k' = umem k"
proof -
  obtain n where n: "get_new_ctx A k = Some n"
    using run by (cases "get_new_ctx A k") (simp_all add: do_clone_def)
  obtain a al where al: "pt_alloc A (alloc k) = (a, al)" by fastforce
  obtain nm where nm: "clone_name junk (name (tab k 1)) (pid (tab k n)) = Inr nm"
    using run n al by (cases "clone_name junk (name (tab k 1)) (pid (tab k n))")
      (simp_all add: do_clone_def Let_def)
  have "0 < n" "n < 16" "state (tab k n) = UNUSED" using A n by (simp_all add: new_ctx_ok_def)
  then show ?thesis
    using run n al nm by (intro that [of n nm]) (auto simp: do_clone_def Let_def)
qed

lemma clone_effect:
  assumes run: "do_clone A junk f st k = Inr (r, k')" and A: "new_ctx_ok A"
  shows "\<exists>n t. 0 < n \<and> n < 16 \<and> state (tab k n) = UNUSED \<and> cur k' = cur k \<and> tab k' = (tab k)(n := t) \<and>
    pid t = pid (tab k n) \<and> state t = READY \<and> ticks_to_sleep t = 0"
  by (rule clone_task [OF run A]) (auto simp: fun_eq_iff)

end
