(* ===== verification/Sched_Steps.thy ===== *)
theory Sched_Steps
  imports Sched_Run
begin

text \<open>
  The system in which the handlers of \<open>schedule.c\<close> and user code alternate, as a step relation,
  and what every run of it keeps: the interfaces \<open>round_robin\<close> (a ready context has its turn)
  and \<open>preserving\<close> (it goes on with the registers it had), interpreted on the step relation.
\<close>

section \<open>Runs\<close>

text \<open>A run: the labels of the steps taken, each with the state it leads to.\<close>

fun run :: "('l \<Rightarrow> 's \<Rightarrow> 's \<Rightarrow> bool) \<Rightarrow> 's \<Rightarrow> ('l \<times> 's) list \<Rightarrow> bool" where
  "run step s [] \<longleftrightarrow> True"
| "run step s ((l, t) # r) \<longleftrightarrow> step l s t \<and> run step t r"

fun final :: "'s \<Rightarrow> ('l \<times> 's) list \<Rightarrow> 's" where
  "final s [] = s"
| "final s ((l, t) # r) = final t r"

definition count :: "('l \<Rightarrow> bool) \<Rightarrow> ('l \<times> 's) list \<Rightarrow> nat" where
  "count P r = length (filter (\<lambda>(l, t). P l) r)"

lemma count_simps [simp]:
  "count P [] = 0" "count P ((l, t) # r) = (if P l then 1 else 0) + count P r"
  by (simp_all add: count_def)

lemma run_append: "run step s (r @ q) \<longleftrightarrow> run step s r \<and> run step (final s r) q"
  by (induction s r rule: final.induct) auto

text \<open>
  A scheduler that takes turns: while \<open>p\<close> is ready and not current it stays so until it is
  current, and each choice brings the current context closer to it.
\<close>

locale round_robin =
  fixes step :: "'l \<Rightarrow> 's \<Rightarrow> 's \<Rightarrow> bool" and current :: "'s \<Rightarrow> nat" and ready :: "'s \<Rightarrow> nat \<Rightarrow> bool"
    and chooses :: "'l \<Rightarrow> bool" and ok :: "'s \<Rightarrow> bool" and dist :: "nat \<Rightarrow> nat \<Rightarrow> nat"
  assumes ok_step: "ok s \<Longrightarrow> step l s t \<Longrightarrow> ok t"
    and stays: "ok s \<Longrightarrow> step l s t \<Longrightarrow> ready s p \<Longrightarrow> current s \<noteq> p \<Longrightarrow> current t \<noteq> p \<Longrightarrow>
      ready t p \<and> dist (current t) p + (if chooses l then 1 else 0) \<le> dist (current s) p"
    and apart: "ok s \<Longrightarrow> ready s p \<Longrightarrow> current s \<noteq> p \<Longrightarrow> 0 < dist (current s) p"
begin

lemma ok_run: "ok s \<Longrightarrow> run step s r \<Longrightarrow> ok (final s r)"
  by (induction s r rule: final.induct) (auto intro: ok_step)

lemma turn_comes:
  assumes "ok s" and "run step s r" and "ready s p" and "current s \<noteq> p"
    and "dist (current s) p \<le> count chooses r"
  shows "\<exists>(l, t) \<in> set r. current t = p"
  using assms
proof (induction s r rule: final.induct)
  case (1 s)
  then show ?case using apart by fastforce
next
  case (2 s l t r)
  show ?case
  proof (cases "current t = p")
    case True
    then show ?thesis by auto
  next
    case False
    have st: "step l s t" using 2(3) by simp
    have "ready t p \<and> dist (current t) p + (if chooses l then 1 else 0) \<le> dist (current s) p"
      using stays [OF 2(2) st 2(4,5) False] .
    then have "\<exists>(l, t) \<in> set r. current t = p"
      using 2(1) [OF ok_step [OF 2(2) st]] 2(3,6) False by (auto split: if_splits)
    then show ?thesis by auto
  qed
qed

end

text \<open>A scheduler that gives a context back, when it goes on, what it was saved with.\<close>

locale preserving =
  fixes step :: "'l \<Rightarrow> 's \<Rightarrow> 's \<Rightarrow> bool" and current :: "'s \<Rightarrow> nat" and away :: "'s \<Rightarrow> nat \<Rightarrow> bool"
    and ok :: "'s \<Rightarrow> bool" and saved :: "'s \<Rightarrow> nat \<Rightarrow> 'r" and live :: "'s \<Rightarrow> 'r"
  assumes ok_kept: "ok s \<Longrightarrow> step l s t \<Longrightarrow> ok t"
    and kept: "ok s \<Longrightarrow> step l s t \<Longrightarrow> away s p \<Longrightarrow> current t \<noteq> p \<Longrightarrow>
      away t p \<and> saved t p = saved s p"
    and resumed: "ok s \<Longrightarrow> step l s t \<Longrightarrow> away s p \<Longrightarrow> current t = p \<Longrightarrow> live t = saved s p"
begin

lemma resumes_as_saved:
  assumes "ok s" and "run step s (r @ [(l, t)])" and "away s p"
    and "\<forall>(l, u) \<in> set r. current u \<noteq> p" and "current t = p"
  shows "live t = saved s p"
  using assms
proof (induction s r rule: final.induct)
  case (1 s)
  then show ?case using resumed by auto
next
  case (2 s l' u r)
  have st: "step l' s u" and u: "current u \<noteq> p" using 2(3,5) by auto
  note k = kept [OF 2(2) st 2(4) u]
  have "live t = saved u p"
    using 2(1) [OF ok_kept [OF 2(2) st]] 2(3,5,6) k by auto
  then show ?case using k by simp
qed

end

section \<open>The handlers and their contract\<close>

text \<open>The handlers that the kernel calls (\<open>schedule.h\<close>); three versions of them are in the repository.\<close>

record 'o handlers =
  h_tick :: "(gpr \<Rightarrow> 64 word) \<Rightarrow> user_regs \<Rightarrow> 'o sched \<Rightarrow> 'o outcome res"
  h_exit :: "'o sched \<Rightarrow> 'o outcome"
  h_sleep :: "32 word \<Rightarrow> 'o sched \<Rightarrow> 'o outcome"
  h_clone :: "(nat \<Rightarrow> char) \<Rightarrow> 64 word \<Rightarrow> 64 word \<Rightarrow> 'o sched \<Rightarrow> (int \<times> 'o sched) res"
  h_signal :: "int \<Rightarrow> 64 word \<Rightarrow> 'o sched \<Rightarrow> (int \<times> 'o sched) res"
  h_alarm :: "32 word \<Rightarrow> 'o sched \<Rightarrow> int \<times> 'o sched"

definition schedule_v3 :: "'o sched_ops \<Rightarrow> 'o handlers" where
  "schedule_v3 A = \<lparr>h_tick = handle_timer_tick A, h_exit = do_exit A, h_sleep = do_sleep,
     h_clone = do_clone A, h_signal = do_signal, h_alarm = do_alarm\<rparr>"

text \<open>The table and the choice after a timer interrupt.\<close>

definition after_tick :: "user_regs \<Rightarrow> 'o sched \<Rightarrow> user_regs \<Rightarrow> 'o sched \<Rightarrow> bool" where
  "after_tick u k u' k' \<longleftrightarrow> cur k' < 16 \<and> tick_state k (cur k') = READY \<and>
     (\<forall>p < 16. pid (tab k' p) = p \<and> ticks_to_sleep (tab k' p) = tick_sleep k p \<and>
        state (tab k' p) = (if p = cur k' then RUNNING else tick_state k p) \<and>
        (p \<noteq> cur k \<longrightarrow> regs (tab k' p) = regs (tab k p))) \<and>
     (cur k' \<noteq> cur k \<longrightarrow> u' = regs (tab k (cur k'))) \<and>
     (\<forall>p. 1 \<le> p \<longrightarrow> p < 16 \<longrightarrow> p \<noteq> cur k \<longrightarrow> tick_state k p = READY \<longrightarrow>
        1 \<le> cur k' \<and> (cur k' = p \<or> rr_dist (cur k') p < rr_dist (cur k) p))"

lemma tick_after:
  assumes ok: "sched_ok k" and run: "handle_timer_tick A junk u k = Inr (Resume u' k')"
  shows "after_tick u k u' k'"
proof -
  obtain sp ip k1 k2 where st: "same_tasks k k2"
    and sw: "tick_switch junk (push_regs (gprs u) []) (u\<lparr>entry_rip := ip, entry_rsp := sp\<rparr>)
      (u\<lparr>entry_rip := ip, entry_rsp := sp\<rparr>) (wake_all k2) = Resume u' k'"
    by (rule tick_resume [OF ok run])
  note r = tick_switch_resume [OF ok st sw]
  show ?thesis unfolding after_tick_def using r by simp
qed

text \<open>A context no longer in use, or asleep.\<close>

definition given_up :: "nat \<Rightarrow> task \<Rightarrow> bool" where
  "given_up c t \<longleftrightarrow> pid t = c \<and> (state t = UNUSED \<and> ticks_to_sleep t = 0 \<or> state t = WAITING)"

text \<open>A context that was not in use is made ready, or none changes.\<close>

definition returns :: "'o sched \<Rightarrow> 'o sched \<Rightarrow> bool" where
  "returns k k' \<longleftrightarrow> same_tasks k k' \<or>
     (\<exists>n t. 0 < n \<and> n < 16 \<and> state (tab k n) = UNUSED \<and> cur k' = cur k \<and> tab k' = (tab k)(n := t) \<and>
        pid t = pid (tab k n) \<and> state t = READY \<and> ticks_to_sleep t = 0)"

definition handlers_ok :: "'o handlers \<Rightarrow> bool" where
  "handlers_ok H \<longleftrightarrow> (\<forall>k. sched_ok k \<longrightarrow>
     (\<forall>junk u u' k'. h_tick H junk u k = Inr (Resume u' k') \<longrightarrow> after_tick u k u' k') \<and>
     (cur k \<noteq> 0 \<longrightarrow>
       (\<forall>u' k'. h_exit H k = Resume u' k' \<longrightarrow> (\<exists>t. given_up (cur k) t \<and> gives_way t k u' k')) \<and>
       (\<forall>n u' k'. h_sleep H n k = Resume u' k' \<longrightarrow> (\<exists>t. given_up (cur k) t \<and> gives_way t k u' k'))) \<and>
     (\<forall>cj f st r k'. h_clone H cj f st k = Inr (r, k') \<longrightarrow> returns k k') \<and>
     (\<forall>sg h r k'. h_signal H sg h k = Inr (r, k') \<longrightarrow> returns k k') \<and>
     (\<forall>n r k'. h_alarm H n k = (r, k') \<longrightarrow> returns k k'))"

lemma handlers_okD:
  assumes "handlers_ok H" and "sched_ok k"
  shows "h_tick H junk u k = Inr (Resume u' k') \<Longrightarrow> after_tick u k u' k'"
    and "cur k \<noteq> 0 \<Longrightarrow> h_exit H k = Resume u' k' \<Longrightarrow> \<exists>t. given_up (cur k) t \<and> gives_way t k u' k'"
    and "cur k \<noteq> 0 \<Longrightarrow> h_sleep H n k = Resume u' k' \<Longrightarrow> \<exists>t. given_up (cur k) t \<and> gives_way t k u' k'"
    and "h_clone H cj f st k = Inr (r, k') \<Longrightarrow> returns k k'"
    and "h_signal H sg h k = Inr (r, k') \<Longrightarrow> returns k k'"
    and "h_alarm H n k = (r, k') \<Longrightarrow> returns k k'"
proof -
  note h = assms(1) [unfolded handlers_ok_def, THEN spec, of k, THEN mp, OF assms(2)]
  show "h_tick H junk u k = Inr (Resume u' k') \<Longrightarrow> after_tick u k u' k'" using h by simp
  show "cur k \<noteq> 0 \<Longrightarrow> h_exit H k = Resume u' k' \<Longrightarrow> \<exists>t. given_up (cur k) t \<and> gives_way t k u' k'"
    using h by simp
  show "cur k \<noteq> 0 \<Longrightarrow> h_sleep H n k = Resume u' k' \<Longrightarrow> \<exists>t. given_up (cur k) t \<and> gives_way t k u' k'"
    using h by simp
  show "h_clone H cj f st k = Inr (r, k') \<Longrightarrow> returns k k'" using h by simp
  show "h_signal H sg h k = Inr (r, k') \<Longrightarrow> returns k k'" for h
    using assms(1) [unfolded handlers_ok_def, THEN spec, of k, THEN mp, OF assms(2)] by simp
  show "h_alarm H n k = (r, k') \<Longrightarrow> returns k k'" using h by simp
qed

lemma exit_given_up:
  assumes "sched_ok k" and "cur k \<noteq> 0" and "do_exit A k = Resume u' k'"
  shows "\<exists>t. given_up (cur k) t \<and> gives_way t k u' k'"
  using exit_resume [OF assms] sched_okD(1,2,7) [OF assms(1)]
  by (intro exI [of _ "(tab k (cur k))\<lparr>state := UNUSED\<rparr>"]) (simp add: given_up_def)

lemma sleep_given_up:
  assumes "sched_ok k" and "cur k \<noteq> 0" and "do_sleep n k = Resume u' k'"
  shows "\<exists>t. given_up (cur k) t \<and> gives_way t k u' k'"
  by (rule exI, rule conjI, rule_tac [2] sleep_resume [OF assms])
    (use sched_okD(1,2) [OF assms(1)] in \<open>simp add: given_up_def\<close>)

lemma signal_returns: "do_signal sg h k = Inr (r, k') \<Longrightarrow> returns k k'"
  by (auto simp: do_signal_def returns_def intro!: same_tasks_upd split: if_splits)

lemma alarm_returns: "do_alarm n k = (r, k') \<Longrightarrow> returns k k'"
  by (auto simp: do_alarm_def returns_def same_tasks_def)

lemma clone_returns: "new_ctx_ok A \<Longrightarrow> do_clone A cj f st k = Inr (r, k') \<Longrightarrow> returns k k'"
  unfolding returns_def by (intro disjI2 clone_effect)

lemma schedule_v3_ok: "new_ctx_ok A \<Longrightarrow> handlers_ok (schedule_v3 A)"
  unfolding handlers_ok_def schedule_v3_def handlers.simps
  by (intro allI impI conjI; (erule (1) tick_after | erule (2) exit_given_up | erule (2) sleep_given_up |
      erule (1) clone_returns | erule signal_returns | erule alarm_returns))

section \<open>Steps of the system\<close>

datatype event =
    Timer
  | SysExit
  | SysSleep "32 word"
  | SysClone "64 word" "64 word"
  | SysSignal int "64 word"
  | SysAlarm "32 word"
  | UserCode

text \<open>
  On a system call the frame of the user registers is on the kernel stack of the current
  context, where \<open>do_sleep\<close> looks for it.
\<close>

definition syscall_entry :: "user_regs \<Rightarrow> 'o sched \<Rightarrow> 'o sched \<Rightarrow> bool" where
  "syscall_entry u k k0 \<longleftrightarrow>
     (\<exists>f. k0 = k\<lparr>kstack := (kstack k)(os_stack_pfn (tab k (cur k)) := f)\<rparr> \<and> f 501 = rbp u \<and>
        f 507 = entry_rip u \<and> f 509 = entry_rflags u \<and> f 510 = entry_rsp u)"

text \<open>
  The steps: the timer may interrupt any context; system calls are made by processes, not by
  the swapper. What the registers are after a system call that returns, and what user code
  does to its registers and to memory, is arbitrary.
\<close>

inductive sched_step ::
    "'o handlers \<Rightarrow> event \<Rightarrow> user_regs \<times> 'o sched \<Rightarrow> user_regs \<times> 'o sched \<Rightarrow> bool" for H where
  timer: "h_tick H junk u k = Inr (Resume u' k') \<Longrightarrow> sched_step H Timer (u, k) (u', k')"
| exit: "cur k \<noteq> 0 \<Longrightarrow> syscall_entry u k k0 \<Longrightarrow> h_exit H k0 = Resume u' k' \<Longrightarrow>
    sched_step H SysExit (u, k) (u', k')"
| sleep: "cur k \<noteq> 0 \<Longrightarrow> syscall_entry u k k0 \<Longrightarrow> h_sleep H n k0 = Resume u' k' \<Longrightarrow>
    sched_step H (SysSleep n) (u, k) (u', k')"
| clone: "cur k \<noteq> 0 \<Longrightarrow> syscall_entry u k k0 \<Longrightarrow> h_clone H cj f st k0 = Inr (r, k') \<Longrightarrow>
    sched_step H (SysClone f st) (u, k) (u', k')"
| signal: "cur k \<noteq> 0 \<Longrightarrow> syscall_entry u k k0 \<Longrightarrow> h_signal H sg h k0 = Inr (r, k') \<Longrightarrow>
    sched_step H (SysSignal sg h) (u, k) (u', k')"
| alarm: "cur k \<noteq> 0 \<Longrightarrow> syscall_entry u k k0 \<Longrightarrow> h_alarm H n k0 = (r, k') \<Longrightarrow>
    sched_step H (SysAlarm n) (u, k) (u', k')"
| user: "sched_step H UserCode (u, k) (u', k\<lparr>umem := m\<rparr>)"

inductive_cases timer_stepE: "sched_step H Timer (u, k) s"
inductive_cases sleep_stepE: "sched_step H (SysSleep n) (u, k) s"
inductive_simps user_step: "sched_step H UserCode (u, k) s"

text \<open>The steps in which the scheduler chooses a context.\<close>

definition chooses :: "event \<Rightarrow> bool" where
  "chooses e \<longleftrightarrow> e = Timer \<or> e = SysExit \<or> (\<exists>n. e = SysSleep n)"

lemma chooses_simps [simp]:
  "chooses Timer" "chooses SysExit" "chooses (SysSleep n)" "\<not> chooses (SysClone f st)"
  "\<not> chooses (SysSignal sg h)" "\<not> chooses (SysAlarm n)" "\<not> chooses UserCode"
  by (simp_all add: chooses_def)

lemma entry_tab:
  "syscall_entry u k k0 \<Longrightarrow> tab k0 = tab k \<and> cur k0 = cur k \<and> sched_ok k0 = sched_ok k"
  by (auto simp: syscall_entry_def sched_ok_def)

lemma returns_tab: "tab k0 = tab k \<Longrightarrow> cur k0 = cur k \<Longrightarrow> returns k0 k' = returns k k'"
  by (simp add: returns_def same_tasks_def)

lemma gives_way_tab: "tab k0 = tab k \<Longrightarrow> cur k0 = cur k \<Longrightarrow> gives_way t k0 u' k' = gives_way t k u' k'"
  by (simp add: gives_way_def)

text \<open>Every step is of one of three kinds, as far as the contexts are concerned.\<close>

lemma step_kinds [consumes 3, case_names tick gives returning]:
  assumes step: "sched_step H e (u, k) (u', k')" and ok: "sched_ok k" and H: "handlers_ok H"
  obtains "e = Timer" "after_tick u k u' k'"
  | t where "chooses e" "e \<noteq> Timer" "cur k \<noteq> 0" "gives_way t k u' k'" "given_up (cur k) t"
  | "\<not> chooses e" "returns k k'"
  using step
proof cases
  case (timer junk)
  then show ?thesis using that(1) handlers_okD(1) [OF H ok] by blast
next
  case (exit k0)
  note e = entry_tab [OF exit(3)]
  have "sched_ok k0" "cur k0 \<noteq> 0" using e ok exit(2) by auto
  from handlers_okD(2) [OF H this exit(4)] show ?thesis
    using that(2) exit(1,2) e gives_way_tab [of k0 k _ u' k'] by auto
next
  case (sleep k0 n)
  note e = entry_tab [OF sleep(3)]
  have "sched_ok k0" "cur k0 \<noteq> 0" using e ok sleep(2) by auto
  from handlers_okD(3) [OF H this sleep(4)] show ?thesis
    using that(2) sleep(1,2) e gives_way_tab [of k0 k _ u' k'] by auto
next
  case (clone k0 cj f st r)
  note e = entry_tab [OF clone(3)]
  then show ?thesis
    using that(3) clone(1,4) ok handlers_okD(4) [OF H, of k0] returns_tab [of k0 k k'] by auto
next
  case (signal k0 sg h r)
  note e = entry_tab [OF signal(3)]
  then show ?thesis
    using that(3) signal(1,4) ok handlers_okD(5) [OF H, of k0] returns_tab [of k0 k k'] by auto
next
  case (alarm k0 n r)
  note e = entry_tab [OF alarm(3)]
  then show ?thesis
    using that(3) alarm(1,4) ok handlers_okD(6) [OF H, of k0] returns_tab [of k0 k k'] by auto
next
  case (user m)
  then show ?thesis using that(3) by (simp add: returns_def same_tasks_def)
qed

section \<open>The invariant and the interfaces\<close>

lemma sched_ok_returns:
  assumes "returns k k'" and ok: "sched_ok k"
  shows "sched_ok k'"
proof -
  consider "same_tasks k k'" | n t where "n < 16" "state (tab k n) = UNUSED" "cur k' = cur k"
      "tab k' = (tab k)(n := t)" "pid t = pid (tab k n)" "state t = READY" "ticks_to_sleep t = 0"
    using assms(1) unfolding returns_def by blast
  then show ?thesis
  proof cases
    case 1
    then show ?thesis using ok same_tasks_ok by blast
  next
    case (2 n t)
    moreover have "n \<noteq> cur k" using 2(2) sched_okD(6) [OF ok] by auto
    ultimately show ?thesis using ok by (simp add: sched_ok_def)
  qed
qed

lemma after_tick_ok:
  assumes ok: "sched_ok k" and at: "after_tick u k u' k'"
  shows "sched_ok k'"
proof -
  note okD = sched_okD [OF ok]
  have sleep: "tick_sleep k p = 0 \<or> tick_state k p = WAITING" if "p < 16" for p
    using okD(4) [OF that] okD(7) that by (auto simp: tick_sleep_def tick_state_def)
  have ready: "tick_state k (cur k') = READY" and c: "cur k' < 16" using at by (simp_all add: after_tick_def)
  have run: "tick_state k p \<noteq> RUNNING" if "p < 16" for p
    using okD(3) [OF that] by (auto simp: tick_state_def)
  have "tick_state k 0 = READY" using okD(5) by (auto simp: tick_state_def)
  then show ?thesis
    unfolding sched_ok_def using at c sleep ready run by (auto simp: after_tick_def) (metis pstate.distinct)+
qed

lemma sched_ok_step:
  assumes "sched_step H e (u, k) (u', k')" and ok: "sched_ok k" and "handlers_ok H"
  shows "sched_ok k'"
  using assms
proof (cases rule: step_kinds)
  case tick
  then show ?thesis using after_tick_ok [OF ok] by blast
next
  case (gives t)
  then show ?thesis using gives_way_ok [OF ok] by (auto simp: given_up_def)
next
  case returning
  then show ?thesis using sched_ok_returns ok by blast
qed

abbreviation sys_ok :: "'o handlers \<Rightarrow> user_regs \<times> 'o sched \<Rightarrow> bool" where
  "sys_ok H s \<equiv> handlers_ok H \<and> sched_ok (snd s)"

abbreviation sys_cur :: "user_regs \<times> 'o sched \<Rightarrow> nat" where
  "sys_cur s \<equiv> cur (snd s)"

abbreviation sys_ready :: "user_regs \<times> 'o sched \<Rightarrow> nat \<Rightarrow> bool" where
  "sys_ready s p \<equiv> 1 \<le> p \<and> p < 16 \<and> state (tab (snd s) p) = READY"

abbreviation sys_away :: "user_regs \<times> 'o sched \<Rightarrow> nat \<Rightarrow> bool" where
  "sys_away s p \<equiv> p < 16 \<and> cur (snd s) \<noteq> p \<and> state (tab (snd s) p) \<in> {READY, WAITING}"

abbreviation sys_saved :: "user_regs \<times> 'o sched \<Rightarrow> nat \<Rightarrow> user_regs" where
  "sys_saved s p \<equiv> regs (tab (snd s) p)"

lemma ready_step:
  assumes "sched_step H e (u, k) (u', k')" and ok: "sched_ok k" and "handlers_ok H"
    and p: "1 \<le> p" "p < 16" "state (tab k p) = READY" "cur k \<noteq> p" "cur k' \<noteq> p"
  shows "state (tab k' p) = READY \<and> rr_dist (cur k') p + (if chooses e then 1 else 0) \<le> rr_dist (cur k) p"
  using assms(1-3)
proof (cases rule: step_kinds)
  case tick
  have "tick_state k p = READY" using p by (simp add: tick_state_def)
  then show ?thesis using tick p by (auto simp: after_tick_def Suc_le_eq)
next
  case (gives t)
  then show ?thesis using p by (auto simp: gives_way_def Suc_le_eq)
next
  case returning
  then show ?thesis using p by (auto simp: returns_def same_tasks_def)
qed

lemma away_step:
  assumes "sched_step H e (u, k) (u', k')" and ok: "sched_ok k" and "handlers_ok H"
    and p: "p < 16" "cur k \<noteq> p" "state (tab k p) \<in> {READY, WAITING}"
  shows "if cur k' = p then u' = regs (tab k p)
    else state (tab k' p) \<in> {READY, WAITING} \<and> regs (tab k' p) = regs (tab k p)"
  using assms(1-3)
proof (cases rule: step_kinds)
  case tick
  have "tick_state k p \<in> {READY, WAITING}" using p by (auto simp: tick_state_def)
  then show ?thesis using tick p by (auto simp: after_tick_def)
next
  case (gives t)
  then show ?thesis using p by (auto simp: gives_way_def)
next
  case returning
  then show ?thesis using p by (auto simp: returns_def same_tasks_def split: if_splits)
qed

lemma rr_dist_pos: "c < 16 \<Longrightarrow> 1 \<le> p \<Longrightarrow> p < 16 \<Longrightarrow> c \<noteq> p \<Longrightarrow> 0 < rr_dist c p"
  by (auto simp: rr_dist_def)

lemma rr_dist_max: "c < 16 \<Longrightarrow> p < 16 \<Longrightarrow> c \<noteq> p \<Longrightarrow> rr_dist c p \<le> 15"
  by (auto simp: rr_dist_def)

interpretation sys: round_robin "sched_step H" sys_cur sys_ready chooses "sys_ok H" rr_dist
  for H :: "'o handlers"
proof (unfold_locales, goal_cases)
  case (1 s l t)
  then show ?case using sched_ok_step by (cases s, cases t) auto
next
  case (2 s l t p)
  then show ?case using ready_step [of H l "fst s" "snd s" "fst t" "snd t" p] by auto
next
  case (3 s p)
  then show ?case using rr_dist_pos sched_okD(1) by auto
qed

interpretation switch: preserving "sched_step H" sys_cur sys_away "sys_ok H" sys_saved fst
  for H :: "'o handlers"
proof (unfold_locales, goal_cases)
  case (1 s l t)
  then show ?case by (rule sys.ok_step)
next
  case (2 s l t p)
  then show ?case using away_step [of H l "fst s" "snd s" "fst t" "snd t" p] by auto
next
  case (3 s l t p)
  then show ?case using away_step [of H l "fst s" "snd s" "fst t" "snd t" p] by auto
qed

section \<open>Sleeping\<close>

text \<open>A sleeping context counts down with the timer and with nothing else.\<close>

lemma sleeping_step:
  assumes "sched_step H e (u, k) (u', k')" and ok: "sched_ok k" and "handlers_ok H"
    and p: "p < 16" "state (tab k p) = WAITING" "ticks_to_sleep (tab k p) = n"
  shows "if e = Timer \<and> n = 1 then state (tab k' p) \<in> {READY, RUNNING}
    else state (tab k' p) = WAITING \<and> cur k' \<noteq> p \<and> regs (tab k' p) = regs (tab k p) \<and>
      ticks_to_sleep (tab k' p) = (if e = Timer \<and> n \<noteq> 0 then n - 1 else n)"
proof -
  have c: "cur k \<noteq> p" using sched_okD(6) [OF ok] p(2) by auto
  from assms(1-3) show ?thesis
  proof (cases rule: step_kinds)
    case tick
    have ts: "tick_state k p = (if n = 1 then READY else WAITING)"
      "tick_sleep k p = (if n \<noteq> 0 then n - 1 else n)"
      using p c by (simp_all add: tick_state_def tick_sleep_def)
    have "state (tab k' p) = (if p = cur k' then RUNNING else tick_state k p)"
      "ticks_to_sleep (tab k' p) = tick_sleep k p" "regs (tab k' p) = regs (tab k p)"
      "tick_state k (cur k') = READY"
      using tick(2) p(1) c unfolding after_tick_def by auto
    then show ?thesis using ts tick(1) by (cases "n = 1"; cases "cur k' = p") simp_all
  next
    case (gives t)
    then have "cur k' \<noteq> p" using p by (auto simp: gives_way_def)
    then show ?thesis using p c gives by (auto simp: gives_way_def)
  next
    case returning
    then show ?thesis using p c by (auto simp: returns_def same_tasks_def)
  qed
qed

text \<open>Ticks counted as numbers: \<open>p\<close> is asleep with \<open>n\<close> ticks to go.\<close>

definition asleep :: "nat \<Rightarrow> nat \<Rightarrow> user_regs \<times> 'o sched \<Rightarrow> bool" where
  "asleep p n s \<longleftrightarrow> state (tab (snd s) p) = WAITING \<and> unat (ticks_to_sleep (tab (snd s) p)) = n"

abbreviation is_timer :: "event \<Rightarrow> bool" where
  "is_timer e \<equiv> e = Timer"

lemma asleep_step:
  assumes st: "sched_step H e s t" and ok: "sys_ok H s" and p: "p < 16" and sl: "asleep p n s"
  shows "if e = Timer \<and> n = 1 then state (tab (snd t) p) \<in> {READY, RUNNING}
    else asleep p (if e = Timer then n - 1 else n) t \<and> sys_saved t p = sys_saved s p"
proof -
  let ?w = "ticks_to_sleep (tab (snd s) p)"
  have n: "unat ?w = n" and w: "state (tab (snd s) p) = WAITING" using sl by (simp_all add: asleep_def)
  have one: "?w = 1 \<longleftrightarrow> n = 1" using n by (metis unat_1 word_unat_eq_iff)
  have zero: "?w = 0 \<longleftrightarrow> n = 0" using n by (metis unat_eq_0)
  have less: "n \<noteq> 0 \<Longrightarrow> unat (?w - 1) = n - 1" using n zero by (simp add: unat_minus_one)
  have "sched_step H e (fst s, snd s) (fst t, snd t)" using st by simp
  from sleeping_step [OF this _ _ p w refl] ok show ?thesis
    using one zero less n by (auto simp: asleep_def split: if_splits)
qed

lemma asleep_run:
  assumes "run (sched_step H) s r" and "sys_ok H s" and "p < 16" and "asleep p n s"
    and "n = 0 \<or> count is_timer r < n"
  shows "asleep p (n - count is_timer r) (final s r) \<and> sys_saved (final s r) p = sys_saved s p"
  using assms
proof (induction s r arbitrary: n rule: final.induct)
  case (1 s)
  then show ?case by simp
next
  case (2 s e t r)
  have st: "sched_step H e s t" and r: "run (sched_step H) t r" using 2(2) by simp_all
  have t: "asleep p (if e = Timer then n - 1 else n) t \<and> sys_saved t p = sys_saved s p"
    using asleep_step [OF st 2(3,4,5)] 2(6) by (auto split: if_splits)
  have "sys_ok H t" using sys.ok_step [OF 2(3) st] .
  from 2(1) [OF r this 2(4) conjunct1 [OF t]] 2(6) t show ?case by (auto split: if_splits)
qed

text \<open>So it is waiting in every state of such a run.\<close>

lemma asleep_all:
  assumes "run (sched_step H) s r" and "sys_ok H s" and "p < 16" and "asleep p n s"
    and "n = 0 \<or> count is_timer r < n"
  shows "\<forall>(e, t) \<in> set r. state (tab (snd t) p) = WAITING \<and> cur (snd t) \<noteq> p"
  using assms
proof (induction s r arbitrary: n rule: final.induct)
  case (1 s)
  then show ?case by simp
next
  case (2 s e t r)
  have st: "sched_step H e s t" and r: "run (sched_step H) t r" using 2(2) by simp_all
  have t: "asleep p (if e = Timer then n - 1 else n) t"
    using asleep_step [OF st 2(3,4,5)] 2(6) by (auto split: if_splits)
  have okt: "sys_ok H t" using sys.ok_step [OF 2(3) st] .
  have "state (tab (snd t) p) = WAITING" using t by (simp add: asleep_def)
  moreover from this have "cur (snd t) \<noteq> p" using sched_okD(6) [of "snd t"] okt by auto
  moreover have "\<forall>(e, t) \<in> set r. state (tab (snd t) p) = WAITING \<and> cur (snd t) \<noteq> p"
    using 2(6) by (intro 2(1) [OF r okt 2(4) t]) (auto split: if_splits)
  ultimately show ?case by simp
qed

end
