(* ===== verification/Sched_Versions.thy ===== *)
theory Sched_Versions
  imports Sched_Steps
begin

text \<open>
  The earlier versions of the scheduler in \<open>assignment3/working_schedules\<close>:
  \<open>schedule_v2.c\<close> and \<open>schedule_v1.c\<close> (\<open>schedule_v3.c\<close> is \<open>schedule.c\<close>). They differ in the
  alarm, which is not set again when it expires; in the timer interrupt, where the signal
  reaches the frame only if the context goes on; in \<open>exit\<close>, which keeps the kernel stack;
  and version 1 clones the current context and builds the name in another way. What else is in
  them is translated again, and equal to what \<open>schedule.c\<close> has, or version 2.
\<close>

section \<open>Version 2\<close>

definition pick_next_context_v2 :: "switch_type \<Rightarrow> 'o sched \<Rightarrow> nat option" where
  "pick_next_context_v2 type k =
     (case first_ready (tab k) (cur k) of
        Some i \<Rightarrow> Some i
      | None \<Rightarrow>
          (case type of
             TIMER \<Rightarrow>
               if pid (tab k (cur k)) \<noteq> 0 then Some (cur k)
               else if \<not> is_wait (tab k) (cur k) then None
               else Some 0
           | SLEEPING \<Rightarrow> Some 0
           | DO_EXIT \<Rightarrow> if \<not> is_wait (tab k) (cur k) then None else Some 0))"

definition do_exit_v2 :: "'o sched \<Rightarrow> 'o outcome" where
  "do_exit_v2 k =
     (let c = cur k; k1 = upd c (\<lambda>t. t\<lparr>state := UNUSED\<rparr>) k in
      case pick_next_context_v2 DO_EXIT k1 of
        None \<Rightarrow> Shutdown (print [CleaningUp] k1)
      | Some n \<Rightarrow>
          let k2 = print [Exiting (pid (tab k1 c)), ExitSwitch (pid (tab k1 c)) (pid (tab k1 n))]
                     (upd n (\<lambda>t. t\<lparr>state := RUNNING\<rparr>) k1)
          in Resume (regs (tab k2 n)) (k2\<lparr>tss := n, cur := n\<rparr>))"

definition invoke_sync_signal_v2 ::
    "int \<Rightarrow> 64 word \<Rightarrow> 64 word \<Rightarrow> 'o sched \<Rightarrow> ('o outcome + 64 word \<times> 64 word \<times> 'o sched) res" where
  "invoke_sync_signal_v2 signo ustackp urip k =
     (let k1 = print [CalledSignal ustackp urip] k; handlers = sighandlers (tab k (cur k)) in
      if signo < 0 \<or> int (length handlers) \<le> signo then Inl OutOfBounds
      else if handlers ! nat signo = 0 then
        (if signo \<noteq> SIGALRM then Inr (Inl (do_exit_v2 k1)) else Inr (Inr (ustackp, urip, k1)))
      else
        Inr (Inr (ustackp - 8, handlers ! nat signo,
                  k1\<lparr>umem := write_u64 (ustackp - 8) urip (umem k1)\<rparr>)))"

text \<open>The alarm goes off once.\<close>

definition tick_alarm_v2 ::
    "64 word \<Rightarrow> 64 word \<Rightarrow> 'o sched \<Rightarrow> ('o outcome + 64 word \<times> 64 word \<times> 'o sched) res" where
  "tick_alarm_v2 ustackp urip k =
     (if 1 \<le> ticks_to_alarm (tab k 1) then
        let k1 = upd 1 (\<lambda>t. t\<lparr>ticks_to_alarm := ticks_to_alarm t - 1\<rparr>) k in
        if ticks_to_alarm (tab k1 1) = 0 then invoke_sync_signal_v2 SIGALRM ustackp urip k1
        else Inr (Inr (ustackp, urip, k1))
      else Inr (Inr (ustackp, urip, k)))"

text \<open>The frame is written after the switch: the context that is saved keeps the old one.\<close>

definition handle_timer_tick_v2 ::
    "(gpr \<Rightarrow> 64 word) \<Rightarrow> user_regs \<Rightarrow> 'o sched \<Rightarrow> 'o outcome res" where
  "handle_timer_tick_v2 junk u k =
     (let stack = push_regs (gprs u) []; n = numticks k + 1;
          k1 = print [Tick n, CurrentPid (pid (tab k (cur k)))] (k\<lparr>numticks := n\<rparr>) in
      rbind (tick_alarm_v2 (entry_rsp u) (entry_rip u) k1) (\<lambda>r.
        case r of
          Inl outc \<Rightarrow> Inr outc
        | Inr (ustackp, urip, k2) \<Rightarrow>
            let back = u\<lparr>entry_rip := urip, entry_rsp := ustackp\<rparr>
            in Inr (tick_switch junk stack u back (wake_all k2))))"

definition do_sleep_v2 :: "32 word \<Rightarrow> 'o sched \<Rightarrow> 'o outcome" where
  "do_sleep_v2 ticks k =
     (let c = cur k; temp = kstack k (os_stack_pfn (tab k c));
          k1 = upd c (\<lambda>t. t\<lparr>ticks_to_sleep := ticks, state := WAITING,
                 regs := (regs t)\<lparr>rbp := temp (511 - 10), entry_rip := temp (511 - 4),
                   entry_rflags := temp (511 - 2), entry_rsp := temp (511 - 1),
                   entry_cs := 0x23, entry_ss := 0x2b\<rparr>\<rparr>) (print [SleepCalled] k) in
      case pick_next_context_v2 SLEEPING k1 of
        None \<Rightarrow> Shutdown k1
      | Some n \<Rightarrow>
          let k2 = upd n (\<lambda>t. t\<lparr>state := RUNNING\<rparr>)
                     (print [SleepSwitch (pid (tab k1 c)) (pid (tab k1 n))] k1)
          in Resume (regs (tab k2 n)) (k2\<lparr>tss := n, cur := n\<rparr>))"

definition do_clone_v2 ::
    "'o sched_ops \<Rightarrow> (nat \<Rightarrow> char) \<Rightarrow> 64 word \<Rightarrow> 64 word \<Rightarrow> 'o sched \<Rightarrow> (int \<times> 'o sched) res" where
  "do_clone_v2 A junk th_func user_stack k =
     (case get_new_ctx A k of
        None \<Rightarrow> Inl NullDeref
      | Some n \<Rightarrow>
          let i = tab k 1; address = kstack k (os_stack_pfn i) in
          case pt_alloc A (alloc k) of (a, al) \<Rightarrow>
          rbind (clone_name junk (name i) (pid (tab k n))) (\<lambda>nm.
            let k1 = upd n (\<lambda>t. t\<lparr>ty := ty i, state := READY, task_mem := task_mem i,
                       task_pgd := task_pgd i, os_stack_pfn := a, os_rsp := os_rsp i,
                       ticks_to_alarm := 0, ticks_to_sleep := 0, pending_signal_bitmap := 0,
                       sighandlers := map (\<lambda>j. sighandlers i ! j) [0 ..< MAX_SIGNALS],
                       name := nm, segs := map (\<lambda>j. segs i ! j) [0 ..< MAX_MM_SEGS],
                       regs := (regs i)\<lparr>entry_cs := 0x23, entry_ss := 0x2b, entry_rip := th_func,
                         entry_rsp := user_stack, rbp := user_stack,
                         entry_rflags := address (511 - 2)\<rparr>,
                       alarm_config_time := 0\<rparr>) (k\<lparr>alloc := al\<rparr>)
            in Inr (0, print [Cloned (pid (tab k1 n)) nm] k1)))"

definition do_signal_v2 :: "int \<Rightarrow> 64 word \<Rightarrow> 'o sched \<Rightarrow> (int \<times> 'o sched) res" where
  "do_signal_v2 signo handler k =
     (if signo < 0 \<or> int (length (sighandlers (tab k (cur k)))) \<le> signo then Inl OutOfBounds
      else Inr (0, upd (cur k) (\<lambda>t. t\<lparr>sighandlers := (sighandlers t)[nat signo := handler]\<rparr>) k))"

definition do_alarm_v2 :: "32 word \<Rightarrow> 'o sched \<Rightarrow> int \<times> 'o sched" where
  "do_alarm_v2 ticks k = (0, upd (cur k) (\<lambda>t. t\<lparr>ticks_to_alarm := ticks\<rparr>) (print [SettingAlarm] k))"

section \<open>Version 1\<close>

definition pick_next_context_v1 :: "switch_type \<Rightarrow> 'o sched \<Rightarrow> nat option" where
  "pick_next_context_v1 type k =
     (case first_ready (tab k) (cur k) of
        Some i \<Rightarrow> Some i
      | None \<Rightarrow>
          (case type of
             TIMER \<Rightarrow>
               if pid (tab k (cur k)) \<noteq> 0 then Some (cur k)
               else if \<not> is_wait (tab k) (cur k) then None
               else Some 0
           | SLEEPING \<Rightarrow> Some 0
           | DO_EXIT \<Rightarrow> if \<not> is_wait (tab k) (cur k) then None else Some 0))"

definition do_exit_v1 :: "'o sched \<Rightarrow> 'o outcome" where
  "do_exit_v1 k =
     (let c = cur k; k1 = upd c (\<lambda>t. t\<lparr>state := UNUSED\<rparr>) k in
      case pick_next_context_v1 DO_EXIT k1 of
        None \<Rightarrow> Shutdown (print [CleaningUp] k1)
      | Some n \<Rightarrow>
          let k2 = print [Exiting (pid (tab k1 c)), ExitSwitch (pid (tab k1 c)) (pid (tab k1 n))]
                     (upd n (\<lambda>t. t\<lparr>state := RUNNING\<rparr>) k1)
          in Resume (regs (tab k2 n)) (k2\<lparr>tss := n, cur := n\<rparr>))"

definition do_sleep_v1 :: "32 word \<Rightarrow> 'o sched \<Rightarrow> 'o outcome" where
  "do_sleep_v1 ticks k =
     (let c = cur k; temp = kstack k (os_stack_pfn (tab k c));
          k1 = upd c (\<lambda>t. t\<lparr>ticks_to_sleep := ticks, state := WAITING,
                 regs := (regs t)\<lparr>rbp := temp (511 - 10), entry_rip := temp (511 - 4),
                   entry_rflags := temp (511 - 2), entry_rsp := temp (511 - 1),
                   entry_cs := 0x23, entry_ss := 0x2b\<rparr>\<rparr>) (print [SleepCalled] k) in
      case pick_next_context_v1 SLEEPING k1 of
        None \<Rightarrow> Shutdown k1
      | Some n \<Rightarrow>
          let k2 = upd n (\<lambda>t. t\<lparr>state := RUNNING\<rparr>)
                     (print [SleepSwitch (pid (tab k1 c)) (pid (tab k1 n))] k1)
          in Resume (regs (tab k2 n)) (k2\<lparr>tss := n, cur := n\<rparr>))"

definition invoke_sync_signal_v1 ::
    "int \<Rightarrow> 64 word \<Rightarrow> 64 word \<Rightarrow> 'o sched \<Rightarrow> ('o outcome + 64 word \<times> 64 word \<times> 'o sched) res" where
  "invoke_sync_signal_v1 signo ustackp urip k =
     (let k1 = print [CalledSignal ustackp urip] k; handlers = sighandlers (tab k (cur k)) in
      if signo < 0 \<or> int (length handlers) \<le> signo then Inl OutOfBounds
      else if handlers ! nat signo = 0 then
        (if signo \<noteq> SIGALRM then Inr (Inl (do_exit_v1 k1)) else Inr (Inr (ustackp, urip, k1)))
      else
        Inr (Inr (ustackp - 8, handlers ! nat signo,
                  k1\<lparr>umem := write_u64 (ustackp - 8) urip (umem k1)\<rparr>)))"

definition tick_alarm_v1 ::
    "64 word \<Rightarrow> 64 word \<Rightarrow> 'o sched \<Rightarrow> ('o outcome + 64 word \<times> 64 word \<times> 'o sched) res" where
  "tick_alarm_v1 ustackp urip k =
     (if 1 \<le> ticks_to_alarm (tab k 1) then
        let k1 = upd 1 (\<lambda>t. t\<lparr>ticks_to_alarm := ticks_to_alarm t - 1\<rparr>) k in
        if ticks_to_alarm (tab k1 1) = 0 then invoke_sync_signal_v1 SIGALRM ustackp urip k1
        else Inr (Inr (ustackp, urip, k1))
      else Inr (Inr (ustackp, urip, k)))"

definition handle_timer_tick_v1 ::
    "(gpr \<Rightarrow> 64 word) \<Rightarrow> user_regs \<Rightarrow> 'o sched \<Rightarrow> 'o outcome res" where
  "handle_timer_tick_v1 junk u k =
     (let stack = push_regs (gprs u) []; n = numticks k + 1;
          k1 = print [Tick n, CurrentPid (pid (tab k (cur k)))] (k\<lparr>numticks := n\<rparr>) in
      rbind (tick_alarm_v1 (entry_rsp u) (entry_rip u) k1) (\<lambda>r.
        case r of
          Inl outc \<Rightarrow> Inr outc
        | Inr (ustackp, urip, k2) \<Rightarrow>
            let back = u\<lparr>entry_rip := urip, entry_rsp := ustackp\<rparr>
            in Inr (tick_switch junk stack u back (wake_all k2))))"

definition do_signal_v1 :: "int \<Rightarrow> 64 word \<Rightarrow> 'o sched \<Rightarrow> (int \<times> 'o sched) res" where
  "do_signal_v1 signo handler k =
     (if signo < 0 \<or> int (length (sighandlers (tab k (cur k)))) \<le> signo then Inl OutOfBounds
      else Inr (0, upd (cur k) (\<lambda>t. t\<lparr>sighandlers := (sighandlers t)[nat signo := handler]\<rparr>) k))"

definition do_alarm_v1 :: "32 word \<Rightarrow> 'o sched \<Rightarrow> int \<times> 'o sched" where
  "do_alarm_v1 ticks k = (0, upd (cur k) (\<lambda>t. t\<lparr>ticks_to_alarm := ticks\<rparr>) (print [SettingAlarm] k))"

definition print_pcb :: "user_regs \<Rightarrow> message list" where
  "print_pcb r =
     [Register ''rbp'' (rbp r), Register ''entry_rip'' (entry_rip r), Register ''entry_cs'' (entry_cs r),
      Register ''entry_rflags'' (entry_rflags r), Register ''entry_rsp'' (entry_rsp r),
      Register ''entry_ss'' (entry_ss r), Register ''rbx'' (gprs r RBX), Register ''rcx'' (gprs r RCX),
      Register ''rdx'' (gprs r RDX), Register ''rsi'' (gprs r RSI), Register ''rdi'' (gprs r RDI),
      Register ''r8'' (gprs r R8), Register ''r9'' (gprs r R9), Register ''r10'' (gprs r R10),
      Register ''r11'' (gprs r R11), Register ''r12'' (gprs r R12), Register ''r13'' (gprs r R13),
      Register ''r14'' (gprs r R14), Register ''r15'' (gprs r R15)]"

text \<open>
  \<open>num_to_str\<close> reverses the number and prints the reverse from its last digit; the zeros at
  the end of the number are lost in the reverse.
\<close>

function rev_digits :: "nat \<Rightarrow> nat \<Rightarrow> nat res" where
  "rev_digits acc num =
     (if num = 0 then Inr acc
      else if 2 ^ 31 \<le> acc * 10 + num mod 10 then Inl SignedOverflow
      else rev_digits (acc * 10 + num mod 10) (num div 10))"
  by pat_completeness auto
termination by (relation "measure snd") auto

declare rev_digits.simps [simp del]

function low_digits :: "nat \<Rightarrow> char list" where
  "low_digits acc = (if acc = 0 then [] else digit_char (acc mod 10) # low_digits (acc div 10))"
  by pat_completeness auto
termination by (relation "measure id") auto

declare low_digits.simps [simp del]

definition num_to_str :: "nat \<Rightarrow> char list res" where
  "num_to_str num = rbind (rev_digits 0 num) (\<lambda>acc. Inr (low_digits acc))"

text \<open>
  The name: the copy of the parent's name has no terminator, so \<open>strcat\<close> appends the digits at
  the first zero among the bytes that were never set (\<open>junk\<close>), or leaves the array; then as
  many bytes are copied to the new context as the pid has digits.
\<close>

definition clone_name_v1 :: "(nat \<Rightarrow> char) \<Rightarrow> char list \<Rightarrow> nat \<Rightarrow> char list \<Rightarrow> char list res" where
  "clone_name_v1 junk base p old =
     (let len = length (takeWhile (\<lambda>c. c \<noteq> CHR 0x00) base) in
      if length base \<le> len then Inl OutOfBounds
      else rbind (num_to_str p) (\<lambda>str.
        let nm = take len base @ map junk [len ..< CNAME_MAX];
            z = length (takeWhile (\<lambda>c. c \<noteq> CHR 0x00) nm) in
        if len + length str < CNAME_MAX then
          (if CNAME_MAX \<le> z then Inl OutOfBounds
           else if CNAME_MAX < z + length str + 1 then Inl BufferOverflow
           else Inr (take (length str) (take z nm @ str @ [CHR 0x00]) @ drop (length str) old))
        else Inr (take (length str) nm @ drop (length str) old)))"

text \<open>
  \<open>translate\<close>, which has no source, is a parameter: where the kernel finds a word, given by
  its frame and its index.
\<close>

definition do_clone_v1 ::
    "'o sched_ops \<Rightarrow> (32 word \<times> nat \<Rightarrow> 32 word \<times> nat) \<Rightarrow> (nat \<Rightarrow> char) \<Rightarrow> 64 word \<Rightarrow> 64 word \<Rightarrow> 'o sched \<Rightarrow> (int \<times> 'o sched) res" where
  "do_clone_v1 A translate junk th_func user_stack k =
     (case get_new_ctx A k of
        None \<Rightarrow> Inl NullDeref
      | Some n \<Rightarrow>
          let i = tab k (cur k); (frame, w) = translate (os_stack_pfn i, 511) in
          case pt_alloc A (alloc k) of (a, al) \<Rightarrow>
          rbind (clone_name_v1 junk (name i) (pid i) (name (tab k n))) (\<lambda>nm.
            let r = (regs i)\<lparr>entry_rip := th_func, entry_cs := 0x23, entry_rsp := user_stack,
                      entry_ss := 0x2b, rbp := user_stack, entry_rflags := kstack k frame (w - 2)\<rparr>;
                k1 = upd n (\<lambda>t. t\<lparr>ty := ty i, task_mem := task_mem i, task_pgd := task_pgd i,
                       os_rsp := os_rsp i, segs := map (\<lambda>j. segs i ! j) [0 ..< MAX_MM_SEGS],
                       sighandlers := map (\<lambda>j. sighandlers i ! j) [0 ..< MAX_SIGNALS],
                       pending_signal_bitmap := 0, ticks_to_sleep := 0, alarm_config_time := 0,
                       ticks_to_alarm := 0, os_stack_pfn := a, name := nm, regs := r\<rparr>)
                     (k\<lparr>alloc := al\<rparr>)
            in Inr (0, upd n (\<lambda>t. t\<lparr>state := READY\<rparr>) (print (print_pcb r) k1))))"

section \<open>What the versions have in common\<close>

named_theorems same_functions \<open>functions that two versions share\<close>

lemma pick_same [same_functions]:
  "pick_next_context_v2 = pick_next_context" "pick_next_context_v1 = pick_next_context"
  by (simp_all add: fun_eq_iff pick_next_context_v2_def pick_next_context_v1_def pick_next_context_def)

lemma sleep_same [same_functions]: "do_sleep_v2 = do_sleep" "do_sleep_v1 = do_sleep"
  by (simp_all add: fun_eq_iff do_sleep_v2_def do_sleep_v1_def do_sleep_def same_functions)

lemma signal_same [same_functions]: "do_signal_v2 = do_signal" "do_signal_v1 = do_signal"
  by (simp_all add: fun_eq_iff do_signal_v2_def do_signal_v1_def do_signal_def)

lemma clone_same [same_functions]: "do_clone_v2 = do_clone"
  by (simp add: fun_eq_iff do_clone_v2_def do_clone_def)

lemma exit_same [same_functions]: "do_exit_v1 = do_exit_v2"
  by (simp add: fun_eq_iff do_exit_v1_def do_exit_v2_def same_functions)

lemma invoke_same [same_functions]: "invoke_sync_signal_v1 = invoke_sync_signal_v2"
  unfolding fun_eq_iff invoke_sync_signal_v1_def invoke_sync_signal_v2_def same_functions by simp

lemma alarm_same [same_functions]: "do_alarm_v1 = do_alarm_v2"
  by (simp add: fun_eq_iff do_alarm_v1_def do_alarm_v2_def)

lemma tick_same [same_functions]:
  "tick_alarm_v1 = tick_alarm_v2" "handle_timer_tick_v1 = handle_timer_tick_v2"
proof -
  show t: "tick_alarm_v1 = tick_alarm_v2"
    unfolding fun_eq_iff tick_alarm_v1_def tick_alarm_v2_def same_functions by simp
  show "handle_timer_tick_v1 = handle_timer_tick_v2"
    unfolding fun_eq_iff handle_timer_tick_v1_def handle_timer_tick_v2_def t by simp
qed

section \<open>They keep the contract\<close>

definition schedule_v2 :: "'o sched_ops \<Rightarrow> 'o handlers" where
  "schedule_v2 A = \<lparr>h_tick = handle_timer_tick_v2, h_exit = do_exit_v2, h_sleep = do_sleep_v2,
     h_clone = do_clone_v2 A, h_signal = do_signal_v2, h_alarm = do_alarm_v2\<rparr>"

definition schedule_v1 ::
    "'o sched_ops \<Rightarrow> (32 word \<times> nat \<Rightarrow> 32 word \<times> nat) \<Rightarrow> 'o handlers" where
  "schedule_v1 A translate = \<lparr>h_tick = handle_timer_tick_v1, h_exit = do_exit_v1, h_sleep = do_sleep_v1,
     h_clone = do_clone_v1 A translate, h_signal = do_signal_v1, h_alarm = do_alarm_v1\<rparr>"

lemma invoke_alarm_v2:
  assumes "invoke_sync_signal_v2 SIGALRM sp ip k = Inr r"
  shows "\<exists>sp' ip' k'. r = Inr (sp', ip', k') \<and> same_tasks k k'"
  using assms by (auto simp: invoke_sync_signal_v2_def Let_def same_tasks_def split: if_splits)

lemma tick_alarm_v2_ok:
  assumes "tick_alarm_v2 sp ip k = Inr r"
  shows "\<exists>sp' ip' k'. r = Inr (sp', ip', k') \<and> same_tasks k k'"
proof (cases "1 \<le> ticks_to_alarm (tab k 1)")
  case False
  then show ?thesis using assms by (auto simp: tick_alarm_v2_def)
next
  case True
  define k1 where "k1 = upd 1 (\<lambda>t. t\<lparr>ticks_to_alarm := ticks_to_alarm t - 1\<rparr>) k"
  have s1: "same_tasks k k1" unfolding k1_def by (rule same_tasks_upd) simp
  show ?thesis
  proof (cases "ticks_to_alarm (tab k1 1) = 0")
    case z: True
    then have "invoke_sync_signal_v2 SIGALRM sp ip k1 = Inr r"
      using assms True unfolding tick_alarm_v2_def Let_def k1_def [symmetric] by simp
    from invoke_alarm_v2 [OF this] show ?thesis using s1 by (auto simp: same_tasks_def)
  next
    case False
    then have "r = Inr (sp, ip, k1)"
      using assms True unfolding tick_alarm_v2_def Let_def k1_def [symmetric] by simp
    then show ?thesis using s1 by blast
  qed
qed

lemma tick_resume_v2:
  assumes ok: "sched_ok k" and run: "handle_timer_tick_v2 junk u k = Inr (Resume u' k')"
  obtains sp ip k1 k2 where "same_tasks k k2"
    "tick_alarm_v2 (entry_rsp u) (entry_rip u) k1 = Inr (Inr (sp, ip, k2))"
    "k1 = print [Tick (numticks k + 1), CurrentPid (cur k)] (k\<lparr>numticks := numticks k + 1\<rparr>)"
    "tick_switch junk (push_regs (gprs u) []) u (u\<lparr>entry_rip := ip, entry_rsp := sp\<rparr>) (wake_all k2)
      = Resume u' k'"
proof -
  note okD = sched_okD [OF ok]
  define k1 where "k1 = print [Tick (numticks k + 1), CurrentPid (cur k)] (k\<lparr>numticks := numticks k + 1\<rparr>)"
  obtain r where r: "tick_alarm_v2 (entry_rsp u) (entry_rip u) k1 = Inr r"
    using run okD(1,2) by (cases "tick_alarm_v2 (entry_rsp u) (entry_rip u) k1")
      (auto simp: handle_timer_tick_v2_def Let_def k1_def)
  obtain sp ip k2 where al: "tick_alarm_v2 (entry_rsp u) (entry_rip u) k1 = Inr (Inr (sp, ip, k2))"
      and "same_tasks k1 k2" using tick_alarm_v2_ok [OF r] r by auto
  then have "same_tasks k k2" by (simp add: same_tasks_def k1_def)
  moreover have "tick_switch junk (push_regs (gprs u) []) u
      (u\<lparr>entry_rip := ip, entry_rsp := sp\<rparr>) (wake_all k2) = Resume u' k'"
    using run al okD(1,2) by (simp add: handle_timer_tick_v2_def Let_def k1_def)
  ultimately show ?thesis using that al k1_def by blast
qed

lemma tick_after_v2:
  assumes ok: "sched_ok k" and run: "handle_timer_tick_v2 junk u k = Inr (Resume u' k')"
  shows "after_tick u k u' k'"
proof -
  obtain sp ip k1 k2 where st: "same_tasks k k2"
    and sw: "tick_switch junk (push_regs (gprs u) []) u (u\<lparr>entry_rip := ip, entry_rsp := sp\<rparr>)
      (wake_all k2) = Resume u' k'"
    by (rule tick_resume_v2 [OF ok run])
  note r = tick_switch_resume [OF ok st sw]
  show ?thesis unfolding after_tick_def using r by simp
qed

lemma exit_v2_given_up:
  assumes "sched_ok k" and "cur k \<noteq> 0" and "do_exit_v2 k = Resume u' k'"
  shows "\<exists>t. given_up (cur k) t \<and> gives_way t k u' k'"
proof -
  let ?A = "\<lparr>get_new_ctx = (\<lambda>_. None), pt_alloc = (\<lambda>al. (0, al)), pt_free = (\<lambda>_ al. al)\<rparr>"
  have "do_exit ?A k = do_exit_v2 k"
    by (simp add: do_exit_def do_exit_v2_def same_functions Let_def cong: option.case_cong)
  then show ?thesis using exit_given_up [OF assms(1,2), of ?A] assms(3) by simp
qed

lemma alarm_v2_returns: "do_alarm_v2 n k = (r, k') \<Longrightarrow> returns k k'"
  by (auto simp: do_alarm_v2_def returns_def same_tasks_def)

lemma clone_v1_returns:
  assumes A: "new_ctx_ok A" and run: "do_clone_v1 A translate junk f st k = Inr (r, k')"
  shows "returns k k'"
proof -
  obtain n where n: "get_new_ctx A k = Some n"
    using run by (cases "get_new_ctx A k") (simp_all add: do_clone_v1_def)
  obtain a al where al: "pt_alloc A (alloc k) = (a, al)" by fastforce
  let ?i = "tab k (cur k)"
  obtain nm where nm: "clone_name_v1 junk (name ?i) (pid ?i) (name (tab k n)) = Inr nm"
    using run n al by (cases "clone_name_v1 junk (name ?i) (pid ?i) (name (tab k n))")
      (simp_all add: do_clone_v1_def Let_def split: prod.splits)
  have "0 < n \<and> n < 16 \<and> state (tab k n) = UNUSED" using A n by (simp add: new_ctx_ok_def)
  moreover have "tab k' = (tab k)(n := tab k' n) \<and> cur k' = cur k \<and> pid (tab k' n) = pid (tab k n) \<and>
      state (tab k' n) = READY \<and> ticks_to_sleep (tab k' n) = 0"
    using run n al nm by (auto simp: do_clone_v1_def Let_def fun_eq_iff split: prod.splits)
  ultimately show ?thesis unfolding returns_def by blast
qed

lemma schedule_v2_ok: "new_ctx_ok A \<Longrightarrow> handlers_ok (schedule_v2 A)"
  unfolding handlers_ok_def schedule_v2_def handlers.simps same_functions
  by (intro allI impI conjI; (erule (1) tick_after_v2 | erule (2) exit_v2_given_up | erule (2) sleep_given_up |
      erule (1) clone_returns | erule signal_returns | erule alarm_v2_returns))

lemma schedule_v1_ok: "new_ctx_ok A \<Longrightarrow> handlers_ok (schedule_v1 A translate)"
  unfolding handlers_ok_def schedule_v1_def handlers.simps same_functions
  by (intro allI impI conjI; (erule (1) tick_after_v2 | erule (2) exit_v2_given_up | erule (2) sleep_given_up |
      erule (1) clone_v1_returns | erule signal_returns | erule alarm_v2_returns))

end
