(* ===== verification/Sched_Signals.thy ===== *)
theory Sched_Signals
  imports Sched_Versions
begin

unbundle bit_operations_syntax

text \<open>
  Signals and names: what the timer interrupt leaves of an alarm in the registers, in user
  memory and in the countdown, and the decimal digits that \<open>clone\<close> appends to a name.
\<close>

section \<open>Eight bytes of user memory\<close>

lemma byte_of_u64:
  "bit (push_bit (8 * i) (ucast (ucast (drop_bit (8 * i) v :: 64 word) :: 8 word)) :: 64 word) n
     \<longleftrightarrow> 8 * i \<le> n \<and> n < 8 * i + 8 \<and> n < 64 \<and> bit v n"
  by (auto simp: bit_simps)

lemma read_write_u64 [simp]: "read_u64 a (write_u64 a v m) = v"
proof -
  have w: "write_u64 a v m (a + word_of_nat i) = ucast (drop_bit (8 * i) v)" if "i < 8" for i
  proof -
    have "unat (word_of_nat i :: 64 word) = i" using that by (simp add: unat_of_nat take_bit_nat_eq_self)
    then show ?thesis using that by (simp add: write_u64_def)
  qed
  have "bit (fold (\<lambda>i v. v OR push_bit (8 * i) (ucast (write_u64 a v' m (a + word_of_nat i)))) [0 ..< j] 0 :: 64 word) n
      \<longleftrightarrow> n < 8 * j \<and> n < 64 \<and> bit v' n" if "j \<le> 8" and "v' = v" for j n v'
    using that(1)
  proof (induction j)
    case (Suc j)
    then show ?case using w [of j] that(2) by (auto simp: bit_or_iff byte_of_u64)
  qed simp
  from this [of 8 v] show ?thesis
    unfolding read_u64_def by (intro bit_word_eqI) auto
qed

lemma write_u64_other: "8 \<le> unat (x - a) \<Longrightarrow> write_u64 a v m x = m x"
  by (simp add: write_u64_def)

section \<open>The alarm\<close>

lemma umem_wake_all [simp]: "umem (wake_all k) = umem k"
proof -
  have "umem (fold (\<lambda>i. upd i wake) xs k) = umem k" for xs by (induction xs arbitrary: k) simp_all
  then show ?thesis by (simp add: wake_all_def)
qed

lemma ticks_to_alarm_wake_all [simp]: "ticks_to_alarm (tab (wake_all k) p) = ticks_to_alarm (tab k p)"
  by simp

lemma tick_switch_fields:
  assumes "tick_switch junk stack frame back k = Resume u' k'"
  shows "ticks_to_alarm (tab k' p) = ticks_to_alarm (tab k p)" "alarm_config_time (tab k' p) = alarm_config_time (tab k p)"
    "sighandlers (tab k' p) = sighandlers (tab k p)" "umem k' = umem k"
  using assms by (auto simp: tick_switch_def Let_def split: option.splits if_splits)

lemma tick_alarm_due:
  assumes "ticks_to_alarm (tab k 1) = 1" and "2 < length (sighandlers (tab k (cur k)))"
    and "tick_alarm A sp ip k = Inr (Inr (sp', ip', k'))"
  shows "ticks_to_alarm (tab k' 1) = alarm_config_time (tab k 1)"
    and "if sighandlers (tab k (cur k)) ! 2 = 0 then sp' = sp \<and> ip' = ip \<and> umem k' = umem k
      else sp' = sp - 8 \<and> ip' = sighandlers (tab k (cur k)) ! 2 \<and> umem k' = write_u64 (sp - 8) ip (umem k)"
proof -
  let ?k2 = "upd 1 (\<lambda>t. t\<lparr>ticks_to_alarm := alarm_config_time t\<rparr>)
      (upd 1 (\<lambda>t. t\<lparr>ticks_to_alarm := ticks_to_alarm t - 1\<rparr>) k)"
  have "tick_alarm A sp ip k = invoke_sync_signal A SIGALRM sp ip ?k2"
    using assms(1) by (simp add: tick_alarm_def Let_def)
  moreover have "sighandlers (tab ?k2 (cur ?k2)) = sighandlers (tab k (cur k))" by simp
  ultimately show "ticks_to_alarm (tab k' 1) = alarm_config_time (tab k 1)"
    "if sighandlers (tab k (cur k)) ! 2 = 0 then sp' = sp \<and> ip' = ip \<and> umem k' = umem k
      else sp' = sp - 8 \<and> ip' = sighandlers (tab k (cur k)) ! 2 \<and> umem k' = write_u64 (sp - 8) ip (umem k)"
    using assms(2,3) by (auto simp: invoke_sync_signal_def Let_def split: if_splits)
qed

lemma tick_alarm_v2_due:
  assumes "ticks_to_alarm (tab k 1) = 1" and "2 < length (sighandlers (tab k (cur k)))"
    and "sighandlers (tab k (cur k)) ! 2 \<noteq> 0"
    and "tick_alarm_v2 sp ip k = Inr (Inr (sp', ip', k'))"
  shows "sp' = sp - 8 \<and> ip' = sighandlers (tab k (cur k)) ! 2 \<and>
    umem k' = write_u64 (sp - 8) ip (umem k) \<and> ticks_to_alarm (tab k' 1) = 0"
proof -
  let ?k1 = "upd 1 (\<lambda>t. t\<lparr>ticks_to_alarm := ticks_to_alarm t - 1\<rparr>) k"
  have "tick_alarm_v2 sp ip k = invoke_sync_signal_v2 SIGALRM sp ip ?k1"
    using assms(1) by (simp add: tick_alarm_v2_def Let_def)
  moreover have "sighandlers (tab ?k1 (cur ?k1)) = sighandlers (tab k (cur k))" by simp
  ultimately show ?thesis
    using assms(1-4) by (auto simp: invoke_sync_signal_v2_def Let_def split: if_splits)
qed

lemma tick_alarm_not_due:
  assumes "ticks_to_alarm (tab k 1) \<noteq> 1"
    and "tick_alarm A sp ip k = Inr (Inr (sp', ip', k'))"
  shows "sp' = sp \<and> ip' = ip \<and> umem k' = umem k"
proof -
  have "ticks_to_alarm (tab k 1) - 1 \<noteq> 0" using assms(1) by simp
  then show ?thesis using assms(2) by (auto simp: tick_alarm_def Let_def split: if_splits)
qed

text \<open>The frame that a context interrupted by the timer goes on with, now or later.\<close>

definition interrupted :: "user_regs \<Rightarrow> 'o sched \<Rightarrow> user_regs" where
  "interrupted u k =
     (if ticks_to_alarm (tab k 1) = 1 \<and> sighandlers (tab k (cur k)) ! 2 \<noteq> 0
      then u\<lparr>entry_rip := sighandlers (tab k (cur k)) ! 2, entry_rsp := entry_rsp u - 8\<rparr> else u)"

lemma tick_frame:
  assumes ok: "sched_ok k" and run: "handle_timer_tick A junk u k = Inr (Resume u' k')"
    and len: "2 < length (sighandlers (tab k (cur k)))"
  shows "if cur k' = cur k then u' = interrupted u k
    else regs (tab k' (cur k)) = interrupted u k \<and> u' = regs (tab k (cur k'))"
proof -
  obtain sp ip k1 k2 where st: "same_tasks k k2"
    and al: "tick_alarm A (entry_rsp u) (entry_rip u) k1 = Inr (Inr (sp, ip, k2))"
    and k1: "k1 = print [Tick (numticks k + 1), CurrentPid (cur k)] (k\<lparr>numticks := numticks k + 1\<rparr>)"
    and sw: "tick_switch junk (push_regs (gprs u) []) (u\<lparr>entry_rip := ip, entry_rsp := sp\<rparr>)
      (u\<lparr>entry_rip := ip, entry_rsp := sp\<rparr>) (wake_all k2) = Resume u' k'"
    by (rule tick_resume [OF ok run])
  have k1_simps: "tab k1 = tab k" "cur k1 = cur k" by (simp_all add: k1)
  have "u\<lparr>entry_rip := ip, entry_rsp := sp\<rparr> = interrupted u k"
  proof (cases "ticks_to_alarm (tab k 1) = 1")
    case True
    then show ?thesis
      using tick_alarm_due(2) [of k1, OF _ _ al] len
      by (cases "sighandlers (tab k (cur k)) ! 2 = 0") (simp_all add: interrupted_def k1_simps)
  next
    case False
    then show ?thesis
      using tick_alarm_not_due [of k1, OF _ al] by (simp add: interrupted_def k1_simps)
  qed
  moreover have "gprs (interrupted u k) = gprs u" by (simp add: interrupted_def)
  ultimately show ?thesis
    using tick_switch_resume(6) [OF ok st sw, of "cur k"] tick_switch_resume(7) [OF ok st sw]
      sched_okD(1) [OF ok] by simp
qed

section \<open>Decimal digits\<close>

text \<open>The \<open>m\<close> lowest digits, and the number a list of digits stands for.\<close>

fun dec :: "nat \<Rightarrow> nat \<Rightarrow> char list" where
  "dec 0 n = []"
| "dec (Suc m) n = dec m (n div 10) @ [digit_char (n mod 10)]"

definition parse :: "char list \<Rightarrow> nat" where
  "parse ds = foldl (\<lambda>a c. 10 * a + (of_char c - 48)) 0 ds"

lemma fill_digits_dec: "m \<le> length str \<Longrightarrow> fill_digits m n str = dec m n @ drop m str"
proof (induction m arbitrary: n str)
  case (Suc m)
  then have "drop m (str[m := c]) = c # drop (Suc m) str" for c
    by (metis Cons_nth_drop_Suc Suc_le_eq drop_update_cancel length_list_update lessI nth_list_update_eq)
  then show ?case using Suc by simp
qed simp

lemma of_digit_char: "d < 10 \<Longrightarrow> of_char (digit_char d) = (d + 48 :: nat)"
  by (simp add: digit_char_def)

lemma parse_dec: "parse (dec m n) = n mod 10 ^ m"
proof (induction m arbitrary: n)
  case (Suc m)
  have "parse (dec (Suc m) n) = 10 * (n div 10 mod 10 ^ m) + n mod 10"
    using Suc [of "n div 10"] by (simp add: parse_def of_digit_char)
  also have "\<dots> = n mod 10 ^ Suc m" by (simp add: mod_mult2_eq)
  finally show ?case .
qed (simp add: parse_def)

lemma set_dec: "\<forall>c \<in> set (dec m n). 48 \<le> (of_char c :: nat) \<and> of_char c < (58 :: nat)"
proof (induction m arbitrary: n)
  case (Suc m)
  then show ?case by (simp add: of_digit_char)
qed simp

lemma count_digits_bound: "n < 10 ^ count_digits n"
proof (induction n rule: count_digits.induct)
  case (1 n)
  then show ?case by (cases "n = 0") (auto simp: count_digits.simps [of n])
qed

lemma count_digits_least: "n \<noteq> 0 \<Longrightarrow> 10 ^ (count_digits n - 1) \<le> n"
proof (induction n rule: count_digits.induct)
  case (1 n)
  show ?case
  proof (cases "n div 10 = 0")
    case True
    then show ?thesis using 1(2) by (simp add: count_digits.simps [of n] count_digits.simps [of 0])
  next
    case False
    then have c: "0 < count_digits (n div 10)" by (simp add: count_digits.simps [of "n div 10"])
    have "10 ^ (count_digits (n div 10) - 1) \<le> n div 10" using 1(1) [OF 1(2) False] .
    then have "10 * 10 ^ (count_digits (n div 10) - 1) \<le> n" by linarith
    then show ?thesis using c 1(2) by (simp add: count_digits.simps [of n] power_eq_if)
  qed
qed

lemma length_dec [simp]: "length (dec m n) = m"
  by (induction m arbitrary: n) simp_all

lemma clone_name_dec:
  assumes "clone_name junk base p = Inr nm"
  shows "length nm = 64"
    and "takeWhile (\<lambda>c. c \<noteq> CHR 0x00) nm = takeWhile (\<lambda>c. c \<noteq> CHR 0x00) base @ dec (count_digits p) p"
proof -
  let ?P = "\<lambda>c. c \<noteq> CHR 0x00" and ?len = "count_digits p"
  let ?b = "takeWhile ?P base" and ?d = "dec (count_digits p) p"
  have fill: "fill_digits ?len p (replicate ?len (CHR 0x00)) = ?d"
    using fill_digits_dec [of ?len "replicate ?len (CHR 0x00)"] by simp
  have b: "take (length ?b) base = ?b" by (rule takeWhile_eq_take [symmetric])
  have "length (?b @ ?d @ [CHR 0x00]) \<le> 64 \<and> nm = (?b @ ?d @ [CHR 0x00]) @
      map junk [length (?b @ ?d @ [CHR 0x00]) ..< 64]"
    using assms unfolding clone_name_def Let_def fill b append_assoc
    by (simp only: sum.inject split: if_splits) (simp_all only: sum.distinct sum.inject not_less)
  then have nm: "nm = ?b @ ?d @ CHR 0x00 # map junk [length ?b + ?len + 1 ..< 64]"
    "length ?b + ?len + 1 \<le> 64" by simp_all
  show "length nm = 64" using nm by simp
  have "of_char (CHR 0x00) = (0 :: nat)" by simp
  then have "\<forall>c \<in> set (?b @ ?d). ?P c"
    using set_dec [of ?len p] set_takeWhileD [of _ ?P base] by fastforce
  then have "takeWhile ?P ((?b @ ?d) @ CHR 0x00 # map junk [length ?b + ?len + 1 ..< 64]) = ?b @ ?d"
    by (subst takeWhile_append2) auto
  then show "takeWhile ?P nm = ?b @ ?d" using nm by simp
qed

end
