(* ===== verification/Sched_Example.thy ===== *)
theory Sched_Example
  imports Sched_Signals
begin

text \<open>
  A system on which the properties of the scheduler are applied: the swapper, the process
  \<open>init\<close> that runs with an alarm about to expire, one process that is ready, one that sleeps.
  The parameters are instantiated by a search for an unused context and by a counter of frames.
\<close>

section \<open>The parameters and the state\<close>

definition ex_ops :: "nat sched_ops" where
  "ex_ops = \<lparr>get_new_ctx = (\<lambda>k. find (\<lambda>i. state (tab k i) = UNUSED) [1 ..< 16]),
     pt_alloc = (\<lambda>n. (word_of_nat n, n + 1)), pt_free = (\<lambda>_ n. n)\<rparr>"

definition ex_regs :: "64 word \<Rightarrow> user_regs" where
  "ex_regs w = \<lparr>gprs = (\<lambda>_. w), rbp = w + 1, entry_rip = w + 2, entry_cs = 0x23,
     entry_rflags = w + 3, entry_rsp = w + 0x100, entry_ss = 0x2b\<rparr>"

definition ex_task :: "nat \<Rightarrow> task" where
  "ex_task p = \<lparr>pid = p, ty = 0,
     state = (if p = 0 then READY else if p = 1 then RUNNING else if p = 2 then READY
       else if p = 3 then WAITING else UNUSED),
     task_mem = 0, task_pgd = 0, os_stack_pfn = word_of_nat p, os_rsp = 0,
     segs = replicate 4 \<lparr>sg_start = 0, sg_end = 0, sg_next_free = 0, sg_access_flags = 0\<rparr>,
     name = ''init'' @ replicate 60 (CHR 0x00), regs = ex_regs (word_of_nat (0x1000 * p)),
     pending_signal_bitmap = 0, sighandlers = [0, 0, 0x5000],
     ticks_to_sleep = (if p = 3 then 2 else 0), alarm_config_time = 7,
     ticks_to_alarm = (if p = 1 then 1 else 0)\<rparr>"

definition ex_sched :: "nat sched" where
  "ex_sched = \<lparr>tab = ex_task, cur = 1, numticks = 0, umem = (\<lambda>_. 0), kstack = (\<lambda>_ _. 0),
     tss = 1, acks = 0, out = [], alloc = 100\<rparr>"

abbreviation ex_u :: user_regs where
  "ex_u \<equiv> ex_regs 0x9000"

lemma ex_task_simps [simp]:
  "pid (ex_task p) = p" "sighandlers (ex_task p) = [0, 0, 0x5000]"
  "os_stack_pfn (ex_task p) = word_of_nat p" "alarm_config_time (ex_task p) = 7"
  "state (ex_task p) = (if p = 0 then READY else if p = 1 then RUNNING else if p = 2 then READY
       else if p = 3 then WAITING else UNUSED)"
  "ticks_to_sleep (ex_task p) = (if p = 3 then 2 else 0)"
  "ticks_to_alarm (ex_task p) = (if p = 1 then 1 else 0)"
  "name (ex_task p) = ''init'' @ replicate 60 (CHR 0x00)"
  by (simp_all add: ex_task_def)

lemma ex_sched_simps [simp]:
  "tab ex_sched = ex_task" "cur ex_sched = 1" "umem ex_sched = (\<lambda>_. 0)" "kstack ex_sched = (\<lambda>_ _. 0)"
  "alloc ex_sched = 100" "out ex_sched = []"
  by (simp_all add: ex_sched_def)

lemma ex_ops_ok: "new_ctx_ok ex_ops"
  by (auto simp: new_ctx_ok_def ex_ops_def find_Some_iff)

lemma ex_ok: "sched_ok ex_sched"
  by (auto simp: sched_ok_def)

lemma ex_handlers: "handlers_ok (schedule_v3 ex_ops)"
  by (rule schedule_v3_ok [OF ex_ops_ok])

section \<open>Handlers that return\<close>

text \<open>The timer and \<open>sleep\<close> always have a context to go on with.\<close>

lemma tick_alarm_total:
  assumes "2 < length (sighandlers (tab k (cur k)))"
  shows "\<exists>sp' ip' k'. tick_alarm A sp ip k = Inr (Inr (sp', ip', k'))"
proof -
  have "\<exists>sp' ip' k'. invoke_sync_signal A SIGALRM sp ip k1 = Inr (Inr (sp', ip', k'))"
    if "sighandlers (tab k1 (cur k1)) = sighandlers (tab k (cur k))" for k1
    using assms that by (simp add: invoke_sync_signal_def Let_def)
  then show ?thesis by (simp add: tick_alarm_def Let_def)
qed

lemma tick_switch_returns:
  "pid (tab k (cur k)) \<noteq> 0 \<Longrightarrow> \<exists>u' k'. tick_switch junk st frame other (wake_all k) = Resume u' k'"
  by (auto simp: tick_switch_def pick_next_context_def Let_def split: option.split)

lemma tick_returns:
  assumes ok: "sched_ok k" and c: "cur k \<noteq> 0" and len: "2 < length (sighandlers (tab k (cur k)))"
  shows "\<exists>u' k'. handle_timer_tick A junk u k = Inr (Resume u' k')"
proof -
  define k1 where "k1 = print [Tick (numticks k + 1), CurrentPid (pid (tab k (cur k)))] (k\<lparr>numticks := numticks k + 1\<rparr>)"
  obtain sp ip k2 where al: "tick_alarm A (entry_rsp u) (entry_rip u) k1 = Inr (Inr (sp, ip, k2))"
    using tick_alarm_total [of k1 A "entry_rsp u" "entry_rip u"] len by (auto simp: k1_def)
  have "same_tasks k1 k2" using tick_alarm_ok [OF al] by auto
  then have "pid (tab k2 (cur k2)) \<noteq> 0" using c sched_okD(1,2) [OF ok] by (simp add: same_tasks_def k1_def)
  then show ?thesis
    using al tick_switch_returns by (simp add: handle_timer_tick_def Let_def k1_def)
qed

lemma tick_v2_returns:
  assumes ok: "sched_ok k" and c: "cur k \<noteq> 0" and len: "2 < length (sighandlers (tab k (cur k)))"
  shows "\<exists>u' k'. handle_timer_tick_v2 junk u k = Inr (Resume u' k')"
proof -
  define k1 where "k1 = print [Tick (numticks k + 1), CurrentPid (pid (tab k (cur k)))] (k\<lparr>numticks := numticks k + 1\<rparr>)"
  have "\<exists>sp' ip' k'. invoke_sync_signal_v2 SIGALRM sp ip k3 = Inr (Inr (sp', ip', k'))"
    if "sighandlers (tab k3 (cur k3)) = sighandlers (tab k (cur k))" for sp ip k3
    using len that by (simp add: invoke_sync_signal_v2_def Let_def)
  note this [of "upd 1 (\<lambda>t. t\<lparr>ticks_to_alarm := ticks_to_alarm t - 1\<rparr>) k1"]
  then have "\<exists>sp ip k2. tick_alarm_v2 (entry_rsp u) (entry_rip u) k1 = Inr (Inr (sp, ip, k2))"
    by (simp add: tick_alarm_v2_def Let_def k1_def)
  then obtain sp ip k2 where al: "tick_alarm_v2 (entry_rsp u) (entry_rip u) k1 = Inr (Inr (sp, ip, k2))"
    by blast
  have "same_tasks k1 k2" using tick_alarm_v2_ok [OF al] by auto
  then have "pid (tab k2 (cur k2)) \<noteq> 0" using c sched_okD(1,2) [OF ok] by (simp add: same_tasks_def k1_def)
  then show ?thesis
    using al tick_switch_returns by (simp add: handle_timer_tick_v2_def Let_def k1_def)
qed

lemma sleep_returns: "\<exists>u' k'. do_sleep n k = Resume u' k'"
  by (auto simp: do_sleep_def pick_next_context_def Let_def split: option.split)

lemma tick_keeps_handlers:
  assumes run: "handle_timer_tick A junk u k = Inr (Resume u' k')" and ok: "sched_ok k"
  shows "sighandlers (tab k' p) = sighandlers (tab k p)"
proof -
  obtain sp ip k1 k2 where al: "tick_alarm A (entry_rsp u) (entry_rip u) k1 = Inr (Inr (sp, ip, k2))"
    and k1: "k1 = print [Tick (numticks k + 1), CurrentPid (cur k)] (k\<lparr>numticks := numticks k + 1\<rparr>)"
    and sw: "tick_switch junk (push_regs (gprs u) []) (u\<lparr>entry_rip := ip, entry_rsp := sp\<rparr>)
      (u\<lparr>entry_rip := ip, entry_rsp := sp\<rparr>) (wake_all k2) = Resume u' k'"
    by (rule tick_resume [OF ok run])
  have "sighandlers (tab k2 p) = sighandlers (tab k1 p)"
    using al by (auto simp: tick_alarm_def invoke_sync_signal_def Let_def split: if_splits)
  moreover have "sighandlers (tab k' p) = sighandlers (tab (wake_all k2) p)"
    using sw by (auto simp: tick_switch_def Let_def split: option.splits if_splits)
  ultimately show ?thesis by (simp add: k1)
qed

section \<open>Three ticks\<close>

definition tick_from :: "user_regs \<times> nat sched \<Rightarrow> user_regs \<times> nat sched" where
  "tick_from s = (case handle_timer_tick ex_ops (\<lambda>_. 0) (fst s) (snd s) of
     Inr (Resume u k) \<Rightarrow> (u, k) | _ \<Rightarrow> s)"

definition ex1 :: "user_regs \<times> nat sched" where "ex1 = tick_from (ex_u, ex_sched)"
definition ex2 :: "user_regs \<times> nat sched" where "ex2 = tick_from ex1"
definition ex3 :: "user_regs \<times> nat sched" where "ex3 = tick_from ex2"

lemma tick_from_run:
  assumes ok: "sched_ok (snd s)" and c: "cur (snd s) \<noteq> 0"
    and h: "\<And>p. 2 < length (sighandlers (tab (snd s) p))"
  shows "handle_timer_tick ex_ops (\<lambda>_. 0) (fst s) (snd s) = Inr (Resume (fst (tick_from s)) (snd (tick_from s)))"
    and "sched_step (schedule_v3 ex_ops) Timer s (tick_from s)"
    and "sched_ok (snd (tick_from s))"
    and "after_tick (fst s) (snd s) (fst (tick_from s)) (snd (tick_from s))"
    and "2 < length (sighandlers (tab (snd (tick_from s)) p))"
proof -
  show run: "handle_timer_tick ex_ops (\<lambda>_. 0) (fst s) (snd s) = Inr (Resume (fst (tick_from s)) (snd (tick_from s)))"
    using tick_returns [OF ok c h, of ex_ops "\<lambda>_. 0" "fst s"] by (auto simp: tick_from_def)
  then have "sched_step (schedule_v3 ex_ops) Timer (fst s, snd s) (fst (tick_from s), snd (tick_from s))"
    by (intro sched_step.timer [of _ "\<lambda>_. 0"]) (simp add: schedule_v3_def)
  then show st: "sched_step (schedule_v3 ex_ops) Timer s (tick_from s)" by simp
  show "sched_ok (snd (tick_from s))"
    using sys.ok_step [of "schedule_v3 ex_ops" s Timer "tick_from s"] ok ex_handlers st by simp
  show "after_tick (fst s) (snd s) (fst (tick_from s)) (snd (tick_from s))"
    using tick_after [OF ok run] .
  show "2 < length (sighandlers (tab (snd (tick_from s)) p))"
    using tick_keeps_handlers [OF run ok, of p] h [of p] by simp
qed

text \<open>The turn goes to the ready context that comes first.\<close>

lemma next_turn:
  assumes "after_tick u k u' k'" and p: "1 \<le> p" "p < 16" "p \<noteq> cur k" "tick_state k p = READY"
    and first: "\<And>q. 1 \<le> q \<Longrightarrow> q < 16 \<Longrightarrow> tick_state k q = READY \<Longrightarrow> q \<noteq> p \<Longrightarrow> rr_dist (cur k) p \<le> rr_dist q p"
  shows "cur k' = p"
proof (rule ccontr)
  assume n: "cur k' \<noteq> p"
  then have "1 \<le> cur k'" "rr_dist (cur k') p < rr_dist (cur k) p" "cur k' < 16" "tick_state k (cur k') = READY"
    using assms unfolding after_tick_def by auto
  then show False using first [of "cur k'"] n by simp
qed

lemma after_tickD:
  assumes "after_tick u k u' k'" and "p < 16"
  shows "state (tab k' p) = (if p = cur k' then RUNNING else tick_state k p)"
    and "ticks_to_sleep (tab k' p) = tick_sleep k p"
  using assms by (auto simp: after_tick_def)

lemma ex1:
  shows "sched_step (schedule_v3 ex_ops) Timer (ex_u, ex_sched) ex1" and "sched_ok (snd ex1)"
    and "cur (snd ex1) = 2" and "2 < length (sighandlers (tab (snd ex1) p))"
    and "p < 16 \<Longrightarrow> state (tab (snd ex1) p) = (if p = 2 then RUNNING else if p < 2 then READY
      else if p = 3 then WAITING else UNUSED)"
    and "p < 16 \<Longrightarrow> ticks_to_sleep (tab (snd ex1) p) = (if p = 3 then 1 else 0)"
proof -
  note r = tick_from_run [of "(ex_u, ex_sched)", folded ex1_def]
  show "sched_step (schedule_v3 ex_ops) Timer (ex_u, ex_sched) ex1" "sched_ok (snd ex1)"
    "2 < length (sighandlers (tab (snd ex1) p))"
    using r ex_ok by simp_all
  have at: "after_tick ex_u ex_sched (fst ex1) (snd ex1)" using r(4) ex_ok by simp
  show c: "cur (snd ex1) = 2"
    by (rule next_turn [OF at]) (auto simp: tick_state_def rr_dist_def split: if_splits)
  show "p < 16 \<Longrightarrow> state (tab (snd ex1) p) = (if p = 2 then RUNNING else if p < 2 then READY
      else if p = 3 then WAITING else UNUSED)"
    "p < 16 \<Longrightarrow> ticks_to_sleep (tab (snd ex1) p) = (if p = 3 then 1 else 0)"
    using after_tickD [OF at] c by (auto simp: tick_state_def tick_sleep_def)
qed

lemma ex2:
  shows "sched_step (schedule_v3 ex_ops) Timer ex1 ex2" and "sched_ok (snd ex2)"
    and "cur (snd ex2) = 3" and "2 < length (sighandlers (tab (snd ex2) p))"
    and "p < 16 \<Longrightarrow> state (tab (snd ex2) p) = (if p = 3 then RUNNING else if p < 3 then READY else UNUSED)"
proof -
  note r = tick_from_run [of ex1, folded ex2_def]
  show "sched_step (schedule_v3 ex_ops) Timer ex1 ex2" "sched_ok (snd ex2)"
    "2 < length (sighandlers (tab (snd ex2) p))"
    using r ex1 by simp_all
  have at: "after_tick (fst ex1) (snd ex1) (fst ex2) (snd ex2)" using r(4) ex1 by simp
  show c: "cur (snd ex2) = 3"
    by (rule next_turn [OF at]) (auto simp: tick_state_def rr_dist_def ex1(3,5,6) split: if_splits)
  show "p < 16 \<Longrightarrow> state (tab (snd ex2) p) = (if p = 3 then RUNNING else if p < 3 then READY else UNUSED)"
    using after_tickD(1) [OF at, of p] c by (auto simp: tick_state_def ex1(3,5,6))
qed

lemma ex3:
  shows "sched_step (schedule_v3 ex_ops) Timer ex2 ex3" and "sched_ok (snd ex3)" and "cur (snd ex3) = 1"
proof -
  note r = tick_from_run [of ex2, folded ex3_def]
  show "sched_step (schedule_v3 ex_ops) Timer ex2 ex3" "sched_ok (snd ex3)"
    using r ex2 by simp_all
  have at: "after_tick (fst ex2) (snd ex2) (fst ex3) (snd ex3)" using r(4) ex2 by simp
  have "ticks_to_sleep (tab (snd ex2) q) = 0" if "q < 16" for q
    using sched_okD(4) [OF ex2(2) that] ex2(5) [OF that] by (auto split: if_splits)
  then show c: "cur (snd ex3) = 1"
    by (intro next_turn [OF at]) (auto simp: tick_state_def rr_dist_def ex2(3,5) split: if_splits)
qed

section \<open>A nap\<close>

text \<open>The call \<open>sleep(1)\<close> of \<open>init\<close>, then a tick.\<close>

definition ex_call :: "nat sched" where
  "ex_call = ex_sched\<lparr>kstack := (kstack ex_sched)(os_stack_pfn (tab ex_sched (cur ex_sched)) :=
     (\<lambda>i. if i = 501 then rbp ex_u else if i = 507 then entry_rip ex_u
        else if i = 509 then entry_rflags ex_u else entry_rsp ex_u))\<rparr>"

definition sleep_from :: "32 word \<Rightarrow> user_regs \<times> nat sched" where
  "sleep_from n = (case do_sleep n ex_call of Resume u k \<Rightarrow> (u, k) | _ \<Rightarrow> (ex_u, ex_call))"

definition ex_woken :: "user_regs \<times> nat sched" where
  "ex_woken = tick_from (sleep_from 1)"

lemma ex_call:
  "syscall_entry ex_u ex_sched ex_call" "tab ex_call = ex_task" "cur ex_call = 1" "sched_ok ex_call"
  "kstack ex_call 1 501 = rbp ex_u" "kstack ex_call 1 507 = entry_rip ex_u"
  "kstack ex_call 1 509 = entry_rflags ex_u" "kstack ex_call 1 510 = entry_rsp ex_u"
proof -
  show entry: "syscall_entry ex_u ex_sched ex_call"
    unfolding ex_call_def syscall_entry_def by (intro exI conjI, rule refl) simp_all
  show "tab ex_call = ex_task" "cur ex_call = 1" "sched_ok ex_call"
    using entry_tab [OF entry] ex_ok by simp_all
qed (simp_all add: ex_call_def)

lemma sleep_from:
  shows "do_sleep n ex_call = Resume (fst (sleep_from n)) (snd (sleep_from n))"
    and "sched_step (schedule_v3 ex_ops) (SysSleep n) (ex_u, ex_sched) (sleep_from n)"
    and "sched_ok (snd (sleep_from n))" and "cur (snd (sleep_from n)) = 2"
    and "state (tab (snd (sleep_from n)) p) = (if p = 2 then RUNNING else if p = 1 then WAITING else state (ex_task p))"
    and "ticks_to_sleep (tab (snd (sleep_from n)) p) = (if p = 1 then n else ticks_to_sleep (ex_task p))"
    and "sighandlers (tab (snd (sleep_from n)) p) = [0, 0, 0x5000]"
proof -
  show run: "do_sleep n ex_call = Resume (fst (sleep_from n)) (snd (sleep_from n))"
    using sleep_returns [of n ex_call] by (auto simp: sleep_from_def)
  then have "sched_step (schedule_v3 ex_ops) (SysSleep n) (ex_u, ex_sched) (fst (sleep_from n), snd (sleep_from n))"
    by (intro sched_step.sleep [OF _ ex_call(1)]) (simp_all add: schedule_v3_def)
  then show st: "sched_step (schedule_v3 ex_ops) (SysSleep n) (ex_u, ex_sched) (sleep_from n)" by simp
  show "sched_ok (snd (sleep_from n))"
    using sys.ok_step [of "schedule_v3 ex_ops" "(ex_u, ex_sched)" "SysSleep n" "sleep_from n"]
      ex_ok ex_handlers st by simp
  note gw = sleep_resume [OF ex_call(4) _ run, unfolded gives_way_def]
  have "\<forall>p. 1 \<le> p \<longrightarrow> p < 16 \<longrightarrow> p \<noteq> 1 \<longrightarrow> state (ex_task p) = READY \<longrightarrow> 1 \<le> cur (snd (sleep_from n)) \<and>
      (cur (snd (sleep_from n)) = p \<or> rr_dist (cur (snd (sleep_from n))) p < rr_dist 1 p)"
    using gw unfolding ex_call by simp
  from this [THEN spec, of 2] have "1 \<le> cur (snd (sleep_from n)) \<and>
      (cur (snd (sleep_from n)) = 2 \<or> rr_dist (cur (snd (sleep_from n))) 2 < rr_dist 1 2)" by simp
  moreover have "cur (snd (sleep_from n)) < 16" using gw by (simp add: ex_call)
  ultimately show c: "cur (snd (sleep_from n)) = 2" by (auto simp: rr_dist_def split: if_splits)
  show "state (tab (snd (sleep_from n)) p) = (if p = 2 then RUNNING else if p = 1 then WAITING else state (ex_task p))"
    "ticks_to_sleep (tab (snd (sleep_from n)) p) = (if p = 1 then n else ticks_to_sleep (ex_task p))"
    "sighandlers (tab (snd (sleep_from n)) p) = [0, 0, 0x5000]"
    using gw c by (simp_all add: ex_call)
qed

lemma ex_woken:
  shows "sched_step (schedule_v3 ex_ops) Timer (sleep_from 1) ex_woken" and "cur (snd ex_woken) = 1"
proof -
  note r = tick_from_run [of "sleep_from 1", folded ex_woken_def]
  show "sched_step (schedule_v3 ex_ops) Timer (sleep_from 1) ex_woken"
    using r by (simp add: sleep_from)
  have at: "after_tick (fst (sleep_from 1)) (snd (sleep_from 1)) (fst ex_woken) (snd ex_woken)"
    using r(4) by (simp add: sleep_from)
  show "cur (snd ex_woken) = 1"
    by (rule next_turn [OF at]) (auto simp: tick_state_def rr_dist_def sleep_from split: if_splits)
qed

section \<open>A thread\<close>

lemma ex_name:
  "clone_name (\<lambda>_. CHR 0x00) (''init'' @ replicate 60 (CHR 0x00)) 4 = Inr (''init4'' @ replicate 59 (CHR 0x00))"
proof -
  have "takeWhile (\<lambda>c. c \<noteq> CHR 0x00) (''init'' @ replicate 60 (CHR 0x00)) = ''init''" by simp
  moreover have "count_digits 4 = 1" by (simp add: count_digits.simps)
  moreover have "digit_char 4 = CHR ''4''" by (simp add: digit_char_def char_of_def bit_simps)
  ultimately show ?thesis by (simp add: clone_name_def Let_def) (simp add: eval_nat_numeral)
qed

lemma ex_clone: "\<exists>k1. do_clone ex_ops (\<lambda>_. CHR 0x00) f st ex_sched = Inr (0, k1)"
proof -
  have "get_new_ctx ex_ops ex_sched = Some 4" by (simp add: ex_ops_def upt_rec)
  then show ?thesis using ex_name by (simp add: do_clone_def Let_def ex_ops_def)
qed

end
