(* ===== verification/Sched_Properties.thy ===== *)
theory Sched_Properties
  imports Sched_Example
begin

text \<open>
  What the scheduler of assignment 3 guarantees, and where it does not do what it means to.
  Each property is followed by its application to the system of \<open>Sched_Example\<close>.
\<close>

section \<open>Runs\<close>

text \<open>C33: In every state that the system reaches, with any of the three versions of the
  scheduler, exactly the current context is running, only waiting contexts count down, and the
  swapper is ready when it does not run.\<close>

theorem one_running:
  assumes "H \<in> {schedule_v1 A translate, schedule_v2 A, schedule_v3 A}" and "new_ctx_ok A"
    and "sched_ok k" and "run (sched_step H) (u, k) r" and "final (u, k) r = (u', k')"
  shows "{p. p < 16 \<and> state (tab k' p) = RUNNING} = {cur k'} \<and>
    (\<forall>p < 16. ticks_to_sleep (tab k' p) \<noteq> 0 \<longrightarrow> state (tab k' p) = WAITING) \<and>
    (cur k' \<noteq> 0 \<longrightarrow> state (tab k' 0) = READY)"
proof -
  have "handlers_ok H" using assms(1,2) schedule_v1_ok schedule_v2_ok schedule_v3_ok by blast
  then have "sched_ok k'" using sys.ok_run [of H "(u, k)" r] assms(3-5) by simp
  note okD = sched_okD [OF this]
  show ?thesis using okD(1,3,4,5) by auto
qed

theorem one_running_witness:
  "{p. p < 16 \<and> state (tab (snd ex2) p) = RUNNING} = {3}"
  using one_running [of "schedule_v3 ex_ops" ex_ops id ex_sched ex_u "[(Timer, ex1), (Timer, ex2)]"
      "fst ex2" "snd ex2"] ex1(1) ex2(1,3) ex_ok ex_ops_ok by simp

text \<open>C29: Round robin: a ready context becomes current after at most as many choices of the
  scheduler as it is ahead of the current one, which is at most 15, whatever else happens.\<close>

theorem fair_turn:
  assumes "H \<in> {schedule_v1 A translate, schedule_v2 A, schedule_v3 A}" and "new_ctx_ok A"
    and "sched_ok k" and "run (sched_step H) (u, k) r"
    and "1 \<le> p" "p < 16" "p \<noteq> cur k" "state (tab k p) = READY"
    and "rr_dist (cur k) p \<le> count chooses r"
  shows "rr_dist (cur k) p \<le> 15 \<and> (\<exists>(e, t) \<in> set r. cur (snd t) = p)"
proof
  have "handlers_ok H" using assms(1,2) schedule_v1_ok schedule_v2_ok schedule_v3_ok by blast
  then show "\<exists>(e, t) \<in> set r. cur (snd t) = p"
    using assms(3-9) by (intro sys.turn_comes [of H "(u, k)"]) auto
  show "rr_dist (cur k) p \<le> 15" using assms(6,7) sched_okD(1) [OF assms(3)] by (intro rr_dist_max) auto
qed

theorem fair_turn_witness:
  "rr_dist 1 2 \<le> 15 \<and> (\<exists>(e, t) \<in> set [(Timer, ex1)]. cur (snd t) = 2)"
  using fair_turn [of "schedule_v3 ex_ops" ex_ops id ex_sched ex_u "[(Timer, ex1)]" 2]
    ex1(1) ex_ok ex_ops_ok by (simp add: rr_dist_def)

text \<open>C28: A process that the timer takes the processor from goes on, when its turn comes, with
  exactly the registers it was interrupted with; if the alarm went off at that interrupt, in
  the handler, with the stack pointer moved by one word.\<close>

theorem preempted_resumes:
  assumes A: "new_ctx_ok A" and ok: "sched_ok k" and len: "length (sighandlers (tab k (cur k))) = 3"
    and tick: "handle_timer_tick A junk u k = Inr (Resume u1 k1)" and away: "cur k1 \<noteq> cur k"
    and r: "run (sched_step (schedule_v3 A)) (u1, k1) (r @ [(e, (u2, k2))])"
    and first: "\<forall>(e, v) \<in> set r. cur (snd v) \<noteq> cur k" and turn: "cur k2 = cur k"
  shows "u2 = (let h = sighandlers (tab k (cur k)) ! 2 in
    if ticks_to_alarm (tab k 1) = 1 \<and> h \<noteq> 0 then u\<lparr>entry_rip := h, entry_rsp := entry_rsp u - 8\<rparr> else u)"
proof -
  let ?H = "schedule_v3 A"
  have H: "handlers_ok ?H" by (rule schedule_v3_ok [OF A])
  have "sched_step ?H Timer (u, k) (u1, k1)"
    by (rule sched_step.timer [of _ junk]) (simp add: schedule_v3_def tick)
  then have ok1: "sched_ok k1" using sched_ok_step [OF _ ok H] by blast
  have at: "after_tick u k u1 k1" using tick_after [OF ok tick] .
  have "state (tab k1 (cur k)) = READY"
    using after_tickD(1) [OF at sched_okD(1) [OF ok]] away by (simp add: tick_state_def)
  then have "u2 = regs (tab k1 (cur k))"
    using switch.resumes_as_saved [of ?H "(u1, k1)" r e "(u2, k2)" "cur k"]
      H ok1 r first turn away sched_okD(1) [OF ok] by simp
  also have "\<dots> = interrupted u k" using tick_frame [OF ok tick] len away by simp
  finally show ?thesis by (simp add: interrupted_def Let_def)
qed

theorem preempted_resumes_witness:
  "fst ex3 = ex_u\<lparr>entry_rip := 0x5000, entry_rsp := entry_rsp ex_u - 8\<rparr>"
  using preempted_resumes [of ex_ops ex_sched "\<lambda>_. 0" ex_u "fst ex1" "snd ex1" "[(Timer, ex2)]" Timer
      "fst ex3" "snd ex3"]
    tick_from_run(1) [of "(ex_u, ex_sched)", folded ex1_def] ex_ok ex_ops_ok ex1(1,3) ex2(1,3) ex3(1,3)
  by simp

section \<open>Sleep\<close>

text \<open>C34: A process that calls \<open>sleep(n)\<close>, \<open>n\<close> not 0, waits while fewer than \<open>n\<close> timer
  interrupts have come, is not chosen meanwhile, and is ready or running after the \<open>n\<close>-th.\<close>

theorem sleep_wakes_on_time:
  assumes A: "new_ctx_ok A" and ok: "sched_ok k" and c: "cur k \<noteq> 0"
    and sl: "do_sleep n k = Resume u1 k1"
    and r: "run (sched_step (schedule_v3 A)) (u1, k1) (r @ [(Timer, (u2, k2))])"
    and n: "unat n = count is_timer r + 1"
  shows "(\<forall>(e, v) \<in> set r. state (tab (snd v) (cur k)) = WAITING \<and> cur (snd v) \<noteq> cur k) \<and>
    state (tab k2 (cur k)) \<in> {READY, RUNNING}"
proof -
  let ?H = "schedule_v3 A"
  have H: "handlers_ok ?H" by (rule schedule_v3_ok [OF A])
  have p: "cur k < 16" using sched_okD(1) [OF ok] .
  note gw = sleep_resume [OF ok c sl]
  have ok1: "sys_ok ?H (u1, k1)"
    using gives_way_ok [OF ok gw] H sched_okD(1,2) [OF ok] c by simp
  have sl1: "asleep (cur k) (unat n) (u1, k1)" using gw by (auto simp: asleep_def gives_way_def)
  have run1: "run (sched_step ?H) (u1, k1) r" and last: "sched_step ?H Timer (final (u1, k1) r) (u2, k2)"
    using r by (simp_all add: run_append)
  have "\<forall>(e, v) \<in> set r. state (tab (snd v) (cur k)) = WAITING \<and> cur (snd v) \<noteq> cur k"
    using asleep_all [OF run1 ok1 p sl1] n by simp
  moreover have "asleep (cur k) 1 (final (u1, k1) r)" using asleep_run [OF run1 ok1 p sl1] n by simp
  then have "state (tab k2 (cur k)) \<in> {READY, RUNNING}"
    using asleep_step [OF last sys.ok_run [OF ok1 run1] p, of 1] by simp
  ultimately show ?thesis by blast
qed

theorem sleep_wakes_on_time_witness:
  "state (tab (snd ex_woken) 1) \<in> {READY, RUNNING}"
  using sleep_wakes_on_time [of ex_ops ex_call 1 "fst (sleep_from 1)" "snd (sleep_from 1)" "[]"
      "fst ex_woken" "snd ex_woken"]
    ex_ops_ok ex_call(3,4) sleep_from(1) ex_woken(1) by simp

text \<open>C35: A process that calls \<open>sleep(0)\<close> never runs again.\<close>

theorem sleep_zero_never_wakes:
  assumes A: "new_ctx_ok A" and ok: "sched_ok k" and c: "cur k \<noteq> 0"
    and sl: "do_sleep 0 k = Resume u1 k1" and r: "run (sched_step (schedule_v3 A)) (u1, k1) r"
  shows "\<forall>(e, v) \<in> set r. state (tab (snd v) (cur k)) = WAITING \<and> cur (snd v) \<noteq> cur k"
proof -
  have H: "handlers_ok (schedule_v3 A)" by (rule schedule_v3_ok [OF A])
  note gw = sleep_resume [OF ok c sl]
  have ok1: "sys_ok (schedule_v3 A) (u1, k1)"
    using gives_way_ok [OF ok gw] H sched_okD(1,2) [OF ok] c by simp
  have "asleep (cur k) 0 (u1, k1)" using gw by (auto simp: asleep_def gives_way_def)
  from asleep_all [OF r ok1 sched_okD(1) [OF ok] this] show ?thesis by simp
qed

theorem sleep_zero_never_wakes_witness:
  "state (tab (snd (tick_from (sleep_from 0))) 1) = WAITING"
  using sleep_zero_never_wakes [of ex_ops ex_call "fst (sleep_from 0)" "snd (sleep_from 0)"
      "[(Timer, tick_from (sleep_from 0))]"]
    ex_ops_ok ex_call(3,4) sleep_from(1) tick_from_run(2) [of "sleep_from 0"]
  by (simp add: sleep_from)

text \<open>C36: A process that slept goes on at the system call with the stack, the flags and the frame
  pointer of that moment, but its general purpose registers are those of the last time the
  timer took the processor from it: \<open>do_sleep\<close> does not save them.\<close>

theorem sleep_loses_registers:
  assumes A: "new_ctx_ok A" and ok: "sched_ok k" and c: "cur k \<noteq> 0" and entry: "syscall_entry u k k0"
    and sl: "do_sleep n k0 = Resume u1 k1"
    and r: "run (sched_step (schedule_v3 A)) (u1, k1) (r @ [(e, (u2, k2))])"
    and first: "\<forall>(e, v) \<in> set r. cur (snd v) \<noteq> cur k" and turn: "cur k2 = cur k"
  shows "u2 = u\<lparr>gprs := gprs (regs (tab k (cur k))), entry_cs := 0x23, entry_ss := 0x2b\<rparr>"
proof -
  let ?H = "schedule_v3 A"
  have H: "handlers_ok ?H" by (rule schedule_v3_ok [OF A])
  have e: "tab k0 = tab k" "cur k0 = cur k" "sched_ok k0" using entry_tab [OF entry] ok by auto
  have c0: "cur k0 \<noteq> 0" using c e by simp
  note gw = sleep_resume [OF e(3) c0 sl, unfolded e]
  have ok1: "sys_ok ?H (u1, k1)"
    using gives_way_ok [OF e(3) sleep_resume [OF e(3) c0 sl]] H sched_okD(1,2) [OF ok] c e by simp
  have "u2 = regs (tab k1 (cur k))"
    using switch.resumes_as_saved [of ?H "(u1, k1)" r e "(u2, k2)" "cur k"]
      ok1 gw r first turn sched_okD(1) [OF ok] by (simp add: gives_way_def e)
  also have "\<dots> = u\<lparr>gprs := gprs (regs (tab k (cur k))), entry_cs := 0x23, entry_ss := 0x2b\<rparr>"
    using gw entry by (auto simp: gives_way_def e syscall_entry_def)
  finally show ?thesis .
qed

theorem sleep_loses_registers_witness:
  "fst ex_woken = ex_u\<lparr>gprs := gprs (regs (ex_task 1)), entry_cs := 0x23, entry_ss := 0x2b\<rparr>"
  using sleep_loses_registers [of ex_ops ex_sched ex_u ex_call 1 "fst (sleep_from 1)" "snd (sleep_from 1)"
      "[]" Timer "fst ex_woken" "snd ex_woken"]
    ex_ops_ok ex_ok ex_call(1) sleep_from(1) ex_woken by simp

section \<open>Signals\<close>

text \<open>C37: When the alarm of \<open>init\<close> goes off, the process that the timer interrupts, whichever it
  is, goes on in its own handler for the alarm; the address it was interrupted at is the word
  on top of its stack, no other byte of user memory changes, and the alarm is set again.\<close>

theorem alarm_runs_handler:
  assumes ok: "sched_ok k" and len: "length (sighandlers (tab k (cur k))) = 3"
    and due: "ticks_to_alarm (tab k 1) = 1" and h: "h = sighandlers (tab k (cur k)) ! 2" "h \<noteq> 0"
    and tick: "handle_timer_tick A junk u k = Inr (Resume u' k')"
  shows "(if cur k' = cur k then u' else regs (tab k' (cur k))) =
      u\<lparr>entry_rip := h, entry_rsp := entry_rsp u - 8\<rparr> \<and>
    read_u64 (entry_rsp u - 8) (umem k') = entry_rip u \<and>
    (\<forall>x. 8 \<le> unat (x - (entry_rsp u - 8)) \<longrightarrow> umem k' x = umem k x) \<and>
    ticks_to_alarm (tab k' 1) = alarm_config_time (tab k 1)"
proof -
  have frame: "(if cur k' = cur k then u' else regs (tab k' (cur k))) =
      u\<lparr>entry_rip := h, entry_rsp := entry_rsp u - 8\<rparr>"
    using tick_frame [OF ok tick] len due h by (simp add: interrupted_def split: if_splits)
  obtain sp ip k1 k2 where al: "tick_alarm A (entry_rsp u) (entry_rip u) k1 = Inr (Inr (sp, ip, k2))"
    and k1: "k1 = print [Tick (numticks k + 1), CurrentPid (cur k)] (k\<lparr>numticks := numticks k + 1\<rparr>)"
    and sw: "tick_switch junk (push_regs (gprs u) []) (u\<lparr>entry_rip := ip, entry_rsp := sp\<rparr>)
      (u\<lparr>entry_rip := ip, entry_rsp := sp\<rparr>) (wake_all k2) = Resume u' k'"
    by (rule tick_resume [OF ok tick])
  have m: "umem k' = write_u64 (entry_rsp u - 8) (entry_rip u) (umem k)"
    "ticks_to_alarm (tab k' 1) = alarm_config_time (tab k 1)"
    using tick_alarm_due [OF _ _ al] tick_switch_fields(1) [OF sw, of 1] tick_switch_fields(4) [OF sw] due len h by (simp_all add: k1)
  have "umem k' x = umem k x" if "8 \<le> unat (x - (entry_rsp u - 8))" for x
    using that by (simp add: m write_u64_other)
  then show ?thesis using m(2) frame by (simp add: m(1))
qed

theorem alarm_runs_handler_witness:
  "read_u64 (entry_rsp ex_u - 8) (umem (snd ex1)) = entry_rip ex_u \<and> ticks_to_alarm (tab (snd ex1) 1) = 7"
  using alarm_runs_handler [of ex_sched _ ex_ops "\<lambda>_. 0" ex_u "fst ex1" "snd ex1", OF _ _ _ refl]
    tick_from_run(1) [of "(ex_u, ex_sched)", folded ex1_def] ex_ok by simp

text \<open>C38: Version 2 of the scheduler loses the signal when another context is chosen at the
  interrupt at which the alarm goes off: the process goes on where it was, while its memory
  below the stack pointer has been overwritten and the alarm is used up.\<close>

theorem v2_loses_signal:
  assumes ok: "sched_ok k" and len: "length (sighandlers (tab k (cur k))) = 3"
    and due: "ticks_to_alarm (tab k 1) = 1" and h: "sighandlers (tab k (cur k)) ! 2 \<noteq> 0"
    and tick: "handle_timer_tick_v2 junk u k = Inr (Resume u' k')" and other: "cur k' \<noteq> cur k"
  shows "regs (tab k' (cur k)) = u \<and> read_u64 (entry_rsp u - 8) (umem k') = entry_rip u \<and>
    ticks_to_alarm (tab k' 1) = 0"
proof -
  obtain sp ip k1 k2 where st: "same_tasks k k2"
    and al: "tick_alarm_v2 (entry_rsp u) (entry_rip u) k1 = Inr (Inr (sp, ip, k2))"
    and k1: "k1 = print [Tick (numticks k + 1), CurrentPid (cur k)] (k\<lparr>numticks := numticks k + 1\<rparr>)"
    and sw: "tick_switch junk (push_regs (gprs u) []) u (u\<lparr>entry_rip := ip, entry_rsp := sp\<rparr>) (wake_all k2)
      = Resume u' k'"
    by (rule tick_resume_v2 [OF ok tick])
  have "regs (tab k' (cur k)) = u"
    using tick_switch_resume(6) [OF ok st sw _ _ sched_okD(1) [OF ok]] other by simp
  moreover have "umem k' = write_u64 (entry_rsp u - 8) (entry_rip u) (umem k)" "ticks_to_alarm (tab k' 1) = 0"
    using tick_alarm_v2_due [OF _ _ _ al] tick_switch_fields(1) [OF sw, of 1] tick_switch_fields(4) [OF sw] due len h by (simp_all add: k1)
  ultimately show ?thesis by simp
qed

theorem v2_loses_signal_witness:
  "\<exists>u' k'. handle_timer_tick_v2 (\<lambda>_. 0) ex_u ex_sched = Inr (Resume u' k') \<and> regs (tab k' 1) = ex_u"
proof -
  obtain u' k' where t: "handle_timer_tick_v2 (\<lambda>_. 0) ex_u ex_sched = Inr (Resume u' k')"
    using tick_v2_returns [of ex_sched "\<lambda>_. 0" ex_u] ex_ok by auto
  have "cur k' = 2"
    by (rule next_turn [OF tick_after_v2 [OF ex_ok t]]) (auto simp: tick_state_def rr_dist_def split: if_splits)
  then show ?thesis using v2_loses_signal [of ex_sched "\<lambda>_. 0" ex_u u' k'] t ex_ok by auto
qed

text \<open>A handler registered with \<open>signal\<close> is the one that the signal runs: the kernel enters it
  with the interrupted address on top of the user stack.\<close>

theorem signal_then_invoke:
  assumes "do_signal s h k = Inr (r, k1)" and "h \<noteq> 0"
  shows "\<exists>k2. invoke_sync_signal A s sp ip k1 = Inr (Inr (sp - 8, h, k2)) \<and>
    read_u64 (sp - 8) (umem k2) = ip \<and> tab k2 = tab k1 \<and> 0 \<le> s \<and> nat s < length (sighandlers (tab k (cur k)))"
proof -
  have s: "0 \<le> s" "nat s < length (sighandlers (tab k (cur k)))"
    and k1: "k1 = upd (cur k) (\<lambda>t. t\<lparr>sighandlers := (sighandlers t)[nat s := h]\<rparr>) k"
    using assms(1) by (auto simp: do_signal_def split: if_splits)
  have "sighandlers (tab k1 (cur k1)) = (sighandlers (tab k (cur k)))[nat s := h]" by (simp add: k1)
  then show ?thesis using s assms(2) by (auto simp: invoke_sync_signal_def Let_def)
qed

theorem signal_then_invoke_witness:
  "\<exists>k1 k2. do_signal 0 0x4000 ex_sched = Inr (0, k1) \<and>
    invoke_sync_signal ex_ops 0 0x8000 0x123 k1 = Inr (Inr (0x7ff8, 0x4000, k2))"
proof -
  obtain k1 where k1: "do_signal 0 0x4000 ex_sched = Inr (0, k1)" by (simp add: do_signal_def)
  then show ?thesis using signal_then_invoke [of 0 "0x4000" ex_sched 0 k1 ex_ops "0x8000" "0x123"] by auto
qed

section \<open>Clone and exit\<close>

text \<open>A thread that \<open>clone\<close> makes takes a context that was not in use, is called after \<open>init\<close>
  and its own number, and the first time it runs it is at the start of its function with its
  own stack and the general purpose registers saved for \<open>init\<close>.\<close>

theorem clone_starts_thread:
  assumes A: "new_ctx_ok A" and ok: "sched_ok k" and c: "do_clone A junk f st k = Inr (r0, k1)"
  shows "\<exists>n. state (tab k n) = UNUSED \<and> (\<forall>p. p \<noteq> n \<longrightarrow> tab k1 p = tab k p) \<and>
    clone_name junk (name (tab k 1)) n = Inr (name (tab k1 n)) \<and>
    (\<forall>r e v. run (sched_step (schedule_v3 A)) (u, k1) (r @ [(e, v)]) \<longrightarrow>
       (\<forall>(e, w) \<in> set r. cur (snd w) \<noteq> n) \<longrightarrow> cur (snd v) = n \<longrightarrow>
       entry_rip (fst v) = f \<and> entry_rsp (fst v) = st \<and> rbp (fst v) = st \<and>
       entry_cs (fst v) = 0x23 \<and> entry_ss (fst v) = 0x2b \<and> gprs (fst v) = gprs (regs (tab k 1)))"
proof -
  obtain n nm where n: "0 < n" "n < 16" "state (tab k n) = UNUSED" "state (tab k1 n) = READY"
      "\<forall>p. p \<noteq> n \<longrightarrow> tab k1 p = tab k p" "cur k1 = cur k" "name (tab k1 n) = nm"
      "clone_name junk (name (tab k 1)) (pid (tab k n)) = Inr nm"
    and t: "regs (tab k1 n) = (regs (tab k 1))\<lparr>entry_cs := 0x23, entry_ss := 0x2b, entry_rip := f,
      entry_rsp := st, rbp := st, entry_rflags := kstack k (os_stack_pfn (tab k 1)) 509\<rparr>"
    by (rule clone_task [OF c A])
  have H: "handlers_ok (schedule_v3 A)" by (rule schedule_v3_ok [OF A])
  have "sched_ok k1" using sched_ok_returns [OF clone_returns [OF A c] ok] .
  moreover have "cur k1 \<noteq> n" using n sched_okD(6) [OF ok] by auto
  ultimately have "fst v = regs (tab k1 n)" if "run (sched_step (schedule_v3 A)) (u, k1) (r @ [(e, v)])"
      "\<forall>(e, w) \<in> set r. cur (snd w) \<noteq> n" "cur (snd v) = n" for r e v
    using switch.resumes_as_saved [of "schedule_v3 A" "(u, k1)" r e v n] H n that by simp
  then show ?thesis using n t sched_okD(2) [OF ok n(2)] by (intro exI [of _ n]) simp
qed

theorem clone_starts_thread_witness:
  "\<exists>k1 n. do_clone ex_ops (\<lambda>_. CHR 0x00) 0x7000 0x8000 ex_sched = Inr (0, k1) \<and> state (ex_task n) = UNUSED \<and>
    clone_name (\<lambda>_. CHR 0x00) (''init'' @ replicate 60 (CHR 0x00)) n = Inr (name (tab k1 n))"
proof -
  obtain k1 where "do_clone ex_ops (\<lambda>_. CHR 0x00) 0x7000 0x8000 ex_sched = Inr (0, k1)"
    using ex_clone by blast
  moreover from clone_starts_thread [OF ex_ops_ok ex_ok this] obtain n where
    "state (tab ex_sched n) = UNUSED" "clone_name (\<lambda>_. CHR 0x00) (name (tab ex_sched 1)) n = Inr (name (tab k1 n))"
    by blast
  ultimately show ?thesis unfolding ex_sched_simps(1) ex_task_simps(8) by blast
qed

text \<open>The name of a thread is the name of \<open>init\<close> followed by its number in decimal, without
  leading zeros.\<close>

theorem clone_name_decimal:
  assumes "clone_name junk base p = Inr nm"
  shows "length nm = CNAME_MAX \<and>
    (\<exists>ds. takeWhile (\<lambda>c. c \<noteq> CHR 0x00) nm = takeWhile (\<lambda>c. c \<noteq> CHR 0x00) base @ ds \<and>
      parse ds = p \<and> (\<forall>c \<in> set ds. 48 \<le> (of_char c :: nat) \<and> of_char c < (58 :: nat)) \<and>
      (p \<noteq> 0 \<longrightarrow> 10 ^ (length ds - 1) \<le> p))"
  using clone_name_dec [OF assms] parse_dec [of "count_digits p" p] count_digits_bound [of p]
    count_digits_least [of p] set_dec
  by (auto intro!: exI [of _ "dec (count_digits p) p"])

theorem clone_name_decimal_witness:
  "length ''init4'' + 59 = CNAME_MAX \<and> clone_name (\<lambda>_. CHR 0x00) (''init'' @ replicate 60 (CHR 0x00)) 4 =
      Inr (''init4'' @ replicate 59 (CHR 0x00))"
  using clone_name_decimal [OF ex_name] ex_name by simp

text \<open>\<open>exit\<close> ends the run exactly when no other process is ready or waits.\<close>

theorem exit_ends_run:
  assumes ok: "sched_ok k"
  shows "(\<exists>k'. do_exit A k = Shutdown k') \<longleftrightarrow>
    (\<forall>p. 1 \<le> p \<longrightarrow> p < 16 \<longrightarrow> p \<noteq> cur k \<longrightarrow> state (tab k p) \<notin> {READY, WAITING})"
proof -
  let ?k1 = "upd (cur k) (\<lambda>t. t\<lparr>state := UNUSED\<rparr>) k"
  have c: "cur k < 16" by (rule sched_okD(1) [OF ok])
  have "(\<exists>k'. do_exit A k = Shutdown k') \<longleftrightarrow> pick_next_context DO_EXIT ?k1 = None"
    by (auto simp: do_exit_def Let_def split: option.split)
  also have "\<dots> \<longleftrightarrow> first_ready (tab ?k1) (cur k) = None \<and> \<not> is_wait (tab ?k1) (cur k)"
    by (auto simp: pick_next_context_def split: option.split)
  also have "\<dots> \<longleftrightarrow> (\<forall>p \<in> {1 ..< 16} - {cur k}. state (tab ?k1 p) \<notin> {READY, WAITING})"
    unfolding first_ready_def find_None_iff is_wait_def set_search_order [OF c] by auto
  also have "\<dots> \<longleftrightarrow> (\<forall>p. 1 \<le> p \<longrightarrow> p < 16 \<longrightarrow> p \<noteq> cur k \<longrightarrow> state (tab k p) \<notin> {READY, WAITING})"
    by auto
  finally show ?thesis .
qed

theorem exit_ends_run_witness:
  "\<not> (\<exists>k'. do_exit ex_ops ex_sched = Shutdown k')"
  unfolding exit_ends_run [OF ex_ok] by (auto intro!: exI [of _ 2])

section \<open>The digits of version 1\<close>

text \<open>The zeros at the end of a number are not printed.\<close>

lemma num_to_str_drops_zeros: "num_to_str (10 * n) = num_to_str n"
  by (cases "n = 0") (simp_all add: num_to_str_def rev_digits.simps [of 0 "10 * n"])

end
