(* ===== verification/Process_Spec.thy ===== *)
theory Process_Spec
  imports Sched_Example
begin

text \<open>
  What the scheduler of assignment 3 promises, without its table, its saved registers and its
  kernel stacks: sixteen processes with registers of their own, of which one at a time has the
  turn. \<open>vstep\<close> says what each event does to them; every run of \<open>schedule.c\<close> is a run of it.
\<close>

section \<open>Processes\<close>

text \<open>\<open>Asleep n\<close>: able again after \<open>n\<close> ticks, never when \<open>n\<close> is 0. \<open>Apart\<close>: not in the game.\<close>

datatype mode = Absent | Able | Asleep nat | Apart

record process =
  mode :: mode
  ureg_of :: user_regs
  countdown :: nat
  period :: nat
  handlers_of :: "64 word list"

record processes =
  procs :: "nat \<Rightarrow> process"
  turn :: nat
  memory :: "64 word \<Rightarrow> 8 word"

definition change :: "nat \<Rightarrow> (process \<Rightarrow> process) \<Rightarrow> processes \<Rightarrow> processes" where
  "change p f v = v\<lparr>procs := (procs v)(p := f (procs v p))\<rparr>"

text \<open>Who may have the turn after \<open>c\<close>: nobody who is able is passed over.\<close>

definition elects :: "processes \<Rightarrow> nat \<Rightarrow> nat \<Rightarrow> bool" where
  "elects v c n \<longleftrightarrow> n < 16 \<and> mode (procs v n) = Able \<and>
     (\<forall>p. 1 \<le> p \<longrightarrow> p < 16 \<longrightarrow> p \<noteq> c \<longrightarrow> mode (procs v p) = Able \<longrightarrow>
       1 \<le> n \<and> (n = p \<or> rr_dist n p < rr_dist c p))"

text \<open>The alarm of process 1 runs a handler of the process that has the turn.\<close>

definition signalled :: "processes \<Rightarrow> processes" where
  "signalled v =
     (let x = procs v (turn v); h = handlers_of x ! 2; r = ureg_of x in
      if h = 0 then v
      else change (turn v) (\<lambda>x. x\<lparr>ureg_of := r\<lparr>entry_rip := h, entry_rsp := entry_rsp r - 8\<rparr>\<rparr>)
        (v\<lparr>memory := write_u64 (entry_rsp r - 8) (entry_rip r) (memory v)\<rparr>))"

definition ring :: "processes \<Rightarrow> processes" where
  "ring v =
     (let a = countdown (procs v 1) in
      if a = 0 then v
      else if a = 1 then signalled (change 1 (\<lambda>x. x\<lparr>countdown := period x\<rparr>) v)
      else change 1 (\<lambda>x. x\<lparr>countdown := a - 1\<rparr>) v)"

fun doze :: "mode \<Rightarrow> mode" where
  "doze (Asleep n) = (if n = 1 then Able else Asleep (n - 1))"
| "doze m = m"

definition doze_all :: "processes \<Rightarrow> processes" where
  "doze_all v = v\<lparr>procs := (\<lambda>p. (procs v p)\<lparr>mode := doze (mode (procs v p))\<rparr>)\<rparr>"

text \<open>
  The steps. The timer leaves every register alone but for a signal; \<open>sleep\<close> loses the general
  purpose registers \<open>g\<close>; what the registers are after a call that returns (\<open>r\<close>), and what user code
  does, is not said. A new thread takes the handlers of process 1.
\<close>

inductive vstep :: "event \<Rightarrow> processes \<Rightarrow> processes \<Rightarrow> bool" where
  v_timer: "w = doze_all (ring v) \<Longrightarrow> elects w (turn v) n \<Longrightarrow> vstep Timer v (w\<lparr>turn := n\<rparr>)"
| v_exit: "turn v \<noteq> 0 \<Longrightarrow> w = change (turn v) (\<lambda>x. x\<lparr>mode := Absent, ureg_of := r\<rparr>) v \<Longrightarrow>
    elects w (turn v) n \<Longrightarrow> vstep SysExit v (w\<lparr>turn := n\<rparr>)"
| v_sleep: "turn v \<noteq> 0 \<Longrightarrow> w = change (turn v) (\<lambda>x. x\<lparr>mode := Asleep (unat m),
      ureg_of := (ureg_of x)\<lparr>gprs := g, entry_cs := 0x23, entry_ss := 0x2b\<rparr>\<rparr>) v \<Longrightarrow>
    elects w (turn v) n \<Longrightarrow> vstep (SysSleep m) v (w\<lparr>turn := n\<rparr>)"
| v_clone: "turn v \<noteq> 0 \<Longrightarrow> 0 < n \<Longrightarrow> n < 16 \<Longrightarrow> mode (procs v n) = Absent \<Longrightarrow>
    entry_rip q = f \<Longrightarrow> entry_rsp q = st \<Longrightarrow> rbp q = st \<Longrightarrow> entry_cs q = 0x23 \<Longrightarrow> entry_ss q = 0x2b \<Longrightarrow>
    vstep (SysClone f st) v (change (turn v) (\<lambda>x. x\<lparr>ureg_of := r\<rparr>)
      (change n (\<lambda>_. \<lparr>mode = Able, ureg_of = q, countdown = 0, period = 0,
         handlers_of = map (\<lambda>j. handlers_of (procs v 1) ! j) [0 ..< 3]\<rparr>) v))"
| v_signal: "turn v \<noteq> 0 \<Longrightarrow> 0 \<le> sg \<Longrightarrow> vstep (SysSignal sg h) v
    (change (turn v) (\<lambda>x. x\<lparr>ureg_of := r, handlers_of := (handlers_of x)[nat sg := h]\<rparr>) v)"
| v_alarm: "turn v \<noteq> 0 \<Longrightarrow> vstep (SysAlarm m) v
    (change (turn v) (\<lambda>x. x\<lparr>ureg_of := r, countdown := unat m, period := unat m\<rparr>) v)"
| v_user: "vstep UserCode v (change (turn v) (\<lambda>x. x\<lparr>ureg_of := r\<rparr>) (v\<lparr>memory := mem\<rparr>))"

section \<open>The processes that a state of the scheduler stands for\<close>

definition mode_of :: "task \<Rightarrow> mode" where
  "mode_of t = (case state t of UNUSED \<Rightarrow> Absent | READY \<Rightarrow> Able | RUNNING \<Rightarrow> Able
     | WAITING \<Rightarrow> Asleep (unat (ticks_to_sleep t)) | NEW \<Rightarrow> Apart | EXITING \<Rightarrow> Apart)"

definition process_of :: "user_regs \<Rightarrow> task \<Rightarrow> process" where
  "process_of r t = \<lparr>mode = mode_of t, ureg_of = r, countdown = unat (ticks_to_alarm t),
     period = unat (alarm_config_time t), handlers_of = sighandlers t\<rparr>"

definition no_process :: process where
  "no_process = \<lparr>mode = Absent, ureg_of = \<lparr>gprs = (\<lambda>_. 0), rbp = 0, entry_rip = 0, entry_cs = 0, entry_rflags = 0,
     entry_rsp = 0, entry_ss = 0\<rparr>, countdown = 0, period = 0, handlers_of = []\<rparr>"

text \<open>The registers of the process that runs are in the processor, the others in the table.\<close>

definition view :: "user_regs \<times> 'o sched \<Rightarrow> processes" where
  "view = (\<lambda>(u, k).
     \<lparr>procs = (\<lambda>p. if p < 16 then process_of (if p = cur k then u else regs (tab k p)) (tab k p)
        else no_process),
      turn = cur k, memory = umem k\<rparr>)"

lemma change_simps [simp]:
  "procs (change p f v) q = (if q = p then f (procs v p) else procs v q)"
  "turn (change p f v) = turn v" "memory (change p f v) = memory v"
  by (simp_all add: change_def)

lemma doze_all_simps [simp]:
  "procs (doze_all v) p = (procs v p)\<lparr>mode := doze (mode (procs v p))\<rparr>"
  "turn (doze_all v) = turn v" "memory (doze_all v) = memory v"
  by (simp_all add: doze_all_def)

lemma process_of_simps [simp]:
  "mode (process_of r t) = mode_of t" "ureg_of (process_of r t) = r"
  "countdown (process_of r t) = unat (ticks_to_alarm t)"
  "period (process_of r t) = unat (alarm_config_time t)" "handlers_of (process_of r t) = sighandlers t"
  by (simp_all add: process_of_def)

lemma view_simps [simp]:
  "turn (view (u, k)) = cur k" "memory (view (u, k)) = umem k"
  "p < 16 \<Longrightarrow> procs (view (u, k)) p = process_of (if p = cur k then u else regs (tab k p)) (tab k p)"
  "\<not> p < 16 \<Longrightarrow> procs (view (u, k)) p = no_process"
  by (simp_all add: view_def)

lemma view_entry: "syscall_entry u k k0 \<Longrightarrow> view (r, k0) = view (r, k)"
  by (auto simp: syscall_entry_def view_def)

text \<open>States are compared process by process.\<close>

lemma processes_eqI:
  assumes "turn v = turn w" and "memory v = memory w" and "\<And>p. procs v p = procs w p"
  shows "v = (w :: processes)"
  using assms by (intro processes.equality) auto


lemma processD: "mode x = a \<Longrightarrow> ureg_of x = b \<Longrightarrow> countdown x = c \<Longrightarrow> period x = d \<Longrightarrow> handlers_of x = e \<Longrightarrow>
    x = \<lparr>mode = a, ureg_of = b, countdown = c, period = d, handlers_of = e\<rparr>"
  by simp

lemma electsI:
  assumes "\<And>p. p < 16 \<Longrightarrow> mode (procs w p) = Able \<longleftrightarrow> ready p" and "n < 16" and "ready n"
    and "\<forall>p. 1 \<le> p \<longrightarrow> p < 16 \<longrightarrow> p \<noteq> c \<longrightarrow> ready p \<longrightarrow> 1 \<le> n \<and> (n = p \<or> rr_dist n p < rr_dist c p)"
  shows "elects w c n"
  using assms unfolding elects_def by simp

lemma mode_of_able: "mode_of t = Able \<longleftrightarrow> state t = READY \<or> state t = RUNNING"
  by (simp add: mode_of_def split: pstate.split)

lemma mode_of_cong: "state t' = state t \<Longrightarrow> ticks_to_sleep t' = ticks_to_sleep t \<Longrightarrow> mode_of t' = mode_of t"
  by (simp add: mode_of_def cong: pstate.case_cong)

lemma unat_one: "unat (x :: 32 word) = Suc 0 \<longleftrightarrow> x = 1"
  by (metis One_nat_def unat_1 word_unat_eq_iff)

section \<open>The timer\<close>

text \<open>The table that the timer handler leaves dozes for one tick.\<close>

lemma doze_tick:
  assumes ok: "sched_ok k" and at: "after_tick u k u' k'" and p: "p < 16"
  shows "mode_of (tab k' p) = doze (mode_of (tab k p))"
proof -
  note okD = sched_okD [OF ok]
  have t: "state (tab k' p) = (if p = cur k' then RUNNING else tick_state k p)"
      "ticks_to_sleep (tab k' p) = tick_sleep k p" "tick_state k (cur k') = READY"
    using at p by (auto simp: after_tick_def)
  let ?w = "ticks_to_sleep (tab k p)"
  have able: "mode_of (tab k' p) = Able" if "tick_state k p = READY"
    using t that by (simp add: mode_of_able)
  consider "p = cur k" | "p \<noteq> cur k" "?w = 1" | "p \<noteq> cur k" "?w \<noteq> 1" by blast
  then show ?thesis
  proof cases
    case 1
    then have "tick_state k p = READY" "mode_of (tab k p) = Able"
      using okD(6) by (simp_all add: tick_state_def mode_of_able)
    then show ?thesis using able by simp
  next
    case 2
    then have "tick_state k p = READY" "mode_of (tab k p) = Asleep 1"
      using p okD(4) [OF p] by (simp_all add: tick_state_def mode_of_def)
    then show ?thesis using able by simp
  next
    case 3
    then have s: "tick_state k p = state (tab k p)" by (simp add: tick_state_def)
    have "mode_of (tab k p) \<noteq> Asleep 1" using 3(2) by (auto simp: mode_of_def unat_one split: pstate.splits)
    moreover have "p = cur k' \<longrightarrow> state (tab k p) = READY" using t(3) s by auto
    moreover have "unat (tick_sleep k p) = unat ?w - 1"
      using p by (auto simp: tick_sleep_def unat_minus_one)
    ultimately show ?thesis
      using t(1,2) s 3(2) by (auto simp: mode_of_def unat_one split: pstate.splits)
  qed
qed

lemma able_after_tick:
  assumes ok: "sched_ok k" and at: "after_tick u k u' k'" and p: "p < 16"
  shows "mode_of (tab k' p) = Able \<longleftrightarrow> tick_state k p = READY"
proof -
  have "state (tab k' p) = (if p = cur k' then RUNNING else tick_state k p)" "tick_state k (cur k') = READY"
    using at p by (simp_all add: after_tick_def)
  moreover have "tick_state k p \<noteq> RUNNING" using sched_okD(3) [OF ok p] by (auto simp: tick_state_def)
  ultimately show ?thesis by (auto simp: mode_of_able)
qed

lemma tick_alarm_fields:
  assumes "tick_alarm A sp ip k = Inr (Inr (sp', ip', k'))"
  shows "sighandlers (tab k' p) = sighandlers (tab k p)" "alarm_config_time (tab k' p) = alarm_config_time (tab k p)"
    "ticks_to_alarm (tab k' p) = (if p = 1 \<and> ticks_to_alarm (tab k 1) \<noteq> 0
       then if ticks_to_alarm (tab k 1) = 1 then alarm_config_time (tab k 1) else ticks_to_alarm (tab k 1) - 1
       else ticks_to_alarm (tab k p))"
proof -
  have one: "1 \<le> x \<longleftrightarrow> x \<noteq> 0" "x - 1 = 0 \<longleftrightarrow> x = 1" for x :: "32 word"
    by (simp_all add: word_le_nat_alt Suc_le_eq unat_gt_0)
  define k1 where "k1 = upd 1 (\<lambda>t. t\<lparr>ticks_to_alarm := ticks_to_alarm t - 1\<rparr>) k"
  define k2 where "k2 = upd 1 (\<lambda>t. t\<lparr>ticks_to_alarm := alarm_config_time t\<rparr>) k1"
  have "tab k' = (if ticks_to_alarm (tab k 1) = 0 then tab k
      else if ticks_to_alarm (tab k 1) = 1 then tab k2 else tab k1)"
    using assms unfolding tick_alarm_def Let_def k1_def [symmetric] k2_def [symmetric] one
    by (auto simp: k1_def invoke_sync_signal_def Let_def split: if_splits)
  then show "sighandlers (tab k' p) = sighandlers (tab k p)" "alarm_config_time (tab k' p) = alarm_config_time (tab k p)"
    "ticks_to_alarm (tab k' p) = (if p = 1 \<and> ticks_to_alarm (tab k 1) \<noteq> 0
       then if ticks_to_alarm (tab k 1) = 1 then alarm_config_time (tab k 1) else ticks_to_alarm (tab k 1) - 1
       else ticks_to_alarm (tab k p))"
    by (auto simp: k1_def k2_def)
qed

text \<open>The alarm of the handler is the alarm of the processes.\<close>

lemma ring_view:
  assumes al: "tick_alarm A (entry_rsp u) (entry_rip u) k = Inr (Inr (sp, ip, k2))" and c: "cur k < 16"
  shows "ring (view (u, k)) = view (u\<lparr>entry_rip := ip, entry_rsp := sp\<rparr>, k2)"
proof -
  let ?a = "ticks_to_alarm (tab k 1)" and ?h = "sighandlers (tab k (cur k)) ! 2"
  have st: "cur k2 = cur k" "regs (tab k2 p) = regs (tab k p)" "mode_of (tab k2 p) = mode_of (tab k p)" for p
    using tick_alarm_ok [OF al] by (auto simp: same_tasks_def intro: mode_of_cong)
  note f = tick_alarm_fields [OF al]
  consider "?a = 0" | "?a = 1" | "?a \<noteq> 0" "?a \<noteq> 1" by blast
  then show ?thesis
  proof cases
    case 1
    then show ?thesis
      using tick_alarm_not_due [OF _ al] f st
      by (intro processes_eqI) (auto simp: ring_def process_of_def view_def)
  next
    case 2
    have len: "2 < length (sighandlers (tab k (cur k)))"
      using al 2 by (auto simp: tick_alarm_def invoke_sync_signal_def Let_def split: if_splits)
    note due = tick_alarm_due(2) [OF 2 len al]
    show ?thesis
      using 2 due f st c
      by (intro processes_eqI) (auto simp: ring_def signalled_def Let_def process_of_def view_def)
  next
    case 3
    then show ?thesis
      using tick_alarm_not_due [OF _ al] f st
      by (intro processes_eqI) (auto simp: ring_def process_of_def view_def Let_def unat_one unat_minus_one)
  qed
qed


lemma timer_view:
  assumes ok: "sched_ok k" and run: "handle_timer_tick A junk u k = Inr (Resume u' k')"
  shows "vstep Timer (view (u, k)) (view (u', k'))"
proof -
  have c: "cur k < 16" by (rule sched_okD(1) [OF ok])
  have at: "after_tick u k u' k'" by (rule tick_after [OF ok run])
  obtain sp ip k1 k2 where st: "same_tasks k k2"
    and al: "tick_alarm A (entry_rsp u) (entry_rip u) k1 = Inr (Inr (sp, ip, k2))"
    and k1: "k1 = print [Tick (numticks k + 1), CurrentPid (cur k)] (k\<lparr>numticks := numticks k + 1\<rparr>)"
    and sw: "tick_switch junk (push_regs (gprs u) []) (u\<lparr>entry_rip := ip, entry_rsp := sp\<rparr>)
      (u\<lparr>entry_rip := ip, entry_rsp := sp\<rparr>) (wake_all k2) = Resume u' k'"
    by (rule tick_resume [OF ok run])
  define v where "v = view (u\<lparr>entry_rip := ip, entry_rsp := sp\<rparr>, k2)"
  have "view (u, k1) = view (u, k)" by (simp add: view_def k1 cong: if_cong)
  then have ring: "ring (view (u, k)) = v" using ring_view [OF al] c by (simp add: k1 v_def)
  have st2: "cur k2 = cur k" "\<And>p. mode_of (tab k2 p) = mode_of (tab k p)" "\<And>p. regs (tab k2 p) = regs (tab k p)"
    using st by (auto simp: same_tasks_def intro: mode_of_cong)
  have mode: "mode (procs (doze_all v) p) = (if p < 16 then mode_of (tab k' p) else Absent)" for p
    using doze_tick [OF ok at, of p] st2 by (simp add: v_def no_process_def)
  have r: "regs (tab k' p) = (if p = cur k \<and> cur k' \<noteq> cur k then u\<lparr>entry_rip := ip, entry_rsp := sp\<rparr> else regs (tab k p))"
      "u' = (if cur k' = cur k then u\<lparr>entry_rip := ip, entry_rsp := sp\<rparr> else regs (tab k (cur k')))"
    if "p < 16" for p
    using tick_switch_resume(6) [OF ok st sw _ _ that] tick_switch_resume(7) [OF ok st sw] by simp_all
  note f = tick_switch_fields [OF sw]
  have "view (u', k') = (doze_all v)\<lparr>turn := cur k'\<rparr>"
  proof (rule processes_eqI)
    fix p
    show "procs (view (u', k')) p = procs ((doze_all v)\<lparr>turn := cur k'\<rparr>) p"
    proof (cases "p < 16")
      case True
      have "(if p = cur k' then u' else regs (tab k' p)) =
          (if p = cur k then u\<lparr>entry_rip := ip, entry_rsp := sp\<rparr> else regs (tab k p))"
        using r [OF True] by (cases "cur k' = cur k"; cases "p = cur k'") simp_all
      then show ?thesis
        using True doze_tick [OF ok at True] st2 f(1-3) [of p] by (simp add: v_def process_of_def)
    qed (simp add: v_def no_process_def)
  qed (simp_all add: v_def f st2)
  moreover have "elects (doze_all v) (cur k) (cur k')"
  proof (rule electsI [where ready = "\<lambda>p. tick_state k p = READY"])
    show "mode (procs (doze_all v) p) = Able \<longleftrightarrow> tick_state k p = READY" if "p < 16" for p
      using mode [of p] that able_after_tick [OF ok at that] by simp
  qed (use at in \<open>simp_all add: after_tick_def\<close>)
  ultimately show ?thesis using v_timer [OF refl, of "view (u, k)" "cur k'"] by (simp add: ring)
qed


section \<open>The system calls\<close>

text \<open>A process gives the turn away: \<open>t\<close> is what the table keeps of it.\<close>

lemma gives_way_view:
  fixes u :: user_regs
  assumes ok: "sched_ok k" and g: "gives_way t k u' k'" and m: "umem k' = umem k"
    and t: "mode_of t \<noteq> Able"
  defines "w \<equiv> change (cur k) (\<lambda>_. process_of (regs t) t) (view (u, k))"
  shows "view (u', k') = w\<lparr>turn := cur k'\<rparr>" and "elects w (cur k) (cur k')"
proof -
  note okD = sched_okD [OF ok]
  have tab: "tab k' = (tab k)(cur k := t, cur k' := (tab k (cur k'))\<lparr>state := RUNNING\<rparr>)"
    and c: "cur k' < 16" "cur k' \<noteq> cur k" "state (tab k (cur k')) = READY" "u' = regs (tab k (cur k'))"
    using g by (auto simp: gives_way_def)
  have run: "mode_of (x\<lparr>state := RUNNING\<rparr>) = mode_of x" if "state x = READY" for x
    using that by (simp add: mode_of_def)
  show "view (u', k') = w\<lparr>turn := cur k'\<rparr>"
  proof (rule processes_eqI)
    fix p
    show "procs (view (u', k')) p = procs (w\<lparr>turn := cur k'\<rparr>) p"
    proof (cases "p < 16")
      case True
      then show ?thesis using c okD(1) run [OF c(3)] by (simp add: tab w_def process_of_def)
    next
      case False
      then show ?thesis using okD(1) by (auto simp: w_def)
    qed
  qed (simp_all add: w_def m)
  show "elects w (cur k) (cur k')"
  proof (rule electsI [where ready = "\<lambda>p. p \<noteq> cur k \<and> state (tab k p) = READY"])
    show "mode (procs w p) = Able \<longleftrightarrow> p \<noteq> cur k \<and> state (tab k p) = READY" if "p < 16" for p
      using that t okD(3) [OF that] by (simp add: w_def mode_of_able)
  qed (use g in \<open>simp_all add: gives_way_def\<close>)
qed

lemma exit_view:
  assumes ok: "sched_ok k" and c: "cur k \<noteq> 0" and run: "do_exit A k = Resume u' k'"
  shows "vstep SysExit (view (u, k)) (view (u', k'))"
proof -
  let ?t = "(tab k (cur k))\<lparr>state := UNUSED\<rparr>"
  have m: "umem k' = umem k" using run by (auto simp: do_exit_def Let_def split: option.splits)
  have "mode_of ?t \<noteq> Able" by (simp add: mode_of_def)
  note g = gives_way_view [OF ok exit_resume [OF ok c run] m this, where u = u]
  have w: "change (cur k) (\<lambda>_. process_of (regs ?t) ?t) (view (u, k)) =
      change (turn (view (u, k))) (\<lambda>x. x\<lparr>mode := Absent, ureg_of := regs ?t\<rparr>) (view (u, k))"
    using sched_okD(1) [OF ok] by (intro processes_eqI) (simp_all add: process_of_def mode_of_def)
  show ?thesis
    unfolding g(1) by (rule v_exit [OF _ w]) (use g(2) c in simp_all)
qed

lemma sleep_view:
  assumes ok: "sched_ok k" and c: "cur k \<noteq> 0" and entry: "syscall_entry u k k0"
    and run: "do_sleep n k0 = Resume u' k'"
  shows "vstep (SysSleep n) (view (u, k)) (view (u', k'))"
proof -
  note e = entry_tab [OF entry]
  have ok0: "sched_ok k0" and c0: "cur k0 \<noteq> 0" using e ok c by simp_all
  have u: "kstack k0 (os_stack_pfn (tab k0 (cur k0))) 501 = rbp u"
    "kstack k0 (os_stack_pfn (tab k0 (cur k0))) 507 = entry_rip u"
    "kstack k0 (os_stack_pfn (tab k0 (cur k0))) 509 = entry_rflags u"
    "kstack k0 (os_stack_pfn (tab k0 (cur k0))) 510 = entry_rsp u"
    using entry by (auto simp: syscall_entry_def)
  let ?r = "(regs (tab k (cur k)))\<lparr>rbp := rbp u, entry_rip := entry_rip u, entry_rflags := entry_rflags u,
    entry_rsp := entry_rsp u, entry_cs := 0x23, entry_ss := 0x2b\<rparr>"
  let ?t = "(tab k (cur k))\<lparr>ticks_to_sleep := n, state := WAITING, regs := ?r\<rparr>"
  have m: "umem k' = umem k0" using run by (auto simp: do_sleep_def Let_def split: option.splits)
  have g: "gives_way ?t k0 u' k'" using sleep_resume [OF ok0 c0 run] u e by simp
  have "mode_of ?t \<noteq> Able" by (simp add: mode_of_def)
  note g = gives_way_view [OF ok0 g m this, where u = u]
  have w: "change (cur k0) (\<lambda>_. process_of (regs ?t) ?t) (view (u, k0)) =
      change (turn (view (u, k0))) (\<lambda>x. x\<lparr>mode := Asleep (unat n),
        ureg_of := (ureg_of x)\<lparr>gprs := gprs (regs (tab k (cur k))), entry_cs := 0x23, entry_ss := 0x2b\<rparr>\<rparr>) (view (u, k0))"
    using sched_okD(1) [OF ok] e by (intro processes_eqI) (simp_all add: process_of_def mode_of_def)
  show ?thesis
    unfolding g(1) view_entry [OF entry, symmetric] by (rule v_sleep [OF _ w]) (use g(2) c0 in simp_all)
qed

text \<open>Calls that return to the process.\<close>

lemma clone_view:
  assumes ok: "sched_ok k" and A: "new_ctx_ok A" and c: "cur k \<noteq> 0" and run: "do_clone A junk f st k = Inr (r, k')"
  shows "vstep (SysClone f st) (view (u, k)) (view (u', k'))"
proof -
  obtain n nm where n: "0 < n" "n < 16" "state (tab k n) = UNUSED" and c': "cur k' = cur k" and m: "umem k' = umem k"
    and q: "\<forall>p. p \<noteq> n \<longrightarrow> tab k' p = tab k p"
    and t: "regs (tab k' n) = (regs (tab k 1))\<lparr>entry_cs := 0x23, entry_ss := 0x2b, entry_rip := f,
      entry_rsp := st, rbp := st, entry_rflags := kstack k (os_stack_pfn (tab k 1)) 509\<rparr>"
      "state (tab k' n) = READY" "ticks_to_alarm (tab k' n) = 0" "alarm_config_time (tab k' n) = 0"
      "sighandlers (tab k' n) = map (\<lambda>j. sighandlers (tab k 1) ! j) [0 ..< 3]"
    by (rule clone_task [OF run A])
  have nc: "n \<noteq> cur k" using n(3) sched_okD(6) [OF ok] by auto
  have "view (u', k') = change (turn (view (u, k))) (\<lambda>x. x\<lparr>ureg_of := u'\<rparr>)
      (change n (\<lambda>_. \<lparr>mode = Able, ureg_of = regs (tab k' n), countdown = 0, period = 0,
         handlers_of = map (\<lambda>j. handlers_of (procs (view (u, k)) 1) ! j) [0 ..< 3]\<rparr>) (view (u, k)))"
  proof (rule processes_eqI)
    fix p
    consider "p = n" | "p \<noteq> n" "p = cur k" | "p \<noteq> n" "p \<noteq> cur k" by blast
    then show "procs (view (u', k')) p = procs (change (turn (view (u, k))) (\<lambda>x. x\<lparr>ureg_of := u'\<rparr>)
      (change n (\<lambda>_. \<lparr>mode = Able, ureg_of = regs (tab k' n), countdown = 0, period = 0,
         handlers_of = map (\<lambda>j. handlers_of (procs (view (u, k)) 1) ! j) [0 ..< 3]\<rparr>) (view (u, k)))) p"
    proof cases
      case 1
      then show ?thesis using n nc c' t by (simp add: process_of_def mode_of_def)
    next
      case 2
      then show ?thesis using nc c' q sched_okD(1) [OF ok] by (simp add: process_of_def)
    next
      case 3
      then show ?thesis using c' q by (cases "p < 16") simp_all
    qed
  qed (simp_all add: c' m)
  then show ?thesis
    using v_clone [of "view (u, k)" n "regs (tab k' n)" f st u'] n nc c t by (simp add: mode_of_def)
qed


lemma signal_view:
  assumes ok: "sched_ok k" and c: "cur k \<noteq> 0" and run: "do_signal sg h k = Inr (r, k')"
  shows "vstep (SysSignal sg h) (view (u, k)) (view (u', k'))"
proof -
  have sg: "0 \<le> sg" and k': "k' = upd (cur k) (\<lambda>t. t\<lparr>sighandlers := (sighandlers t)[nat sg := h]\<rparr>) k"
    using run by (auto simp: do_signal_def split: if_splits)
  have "view (u', k') =
      change (turn (view (u, k))) (\<lambda>x. x\<lparr>ureg_of := u', handlers_of := (handlers_of x)[nat sg := h]\<rparr>) (view (u, k))"
    using sched_okD(1) [OF ok]
    by (intro processes_eqI) (auto simp: k' view_def process_of_def intro: mode_of_cong)
  then show ?thesis using v_signal [of "view (u, k)" sg h u'] sg c by simp
qed

lemma alarm_view:
  assumes ok: "sched_ok k" and c: "cur k \<noteq> 0" and run: "do_alarm n k = (r, k')"
  shows "vstep (SysAlarm n) (view (u, k)) (view (u', k'))"
proof -
  have k': "k' = upd (cur k) (\<lambda>t. t\<lparr>ticks_to_alarm := n, alarm_config_time := n\<rparr>) (print [SettingAlarm] k)"
    using run by (simp add: do_alarm_def)
  have "view (u', k') =
      change (turn (view (u, k))) (\<lambda>x. x\<lparr>ureg_of := u', countdown := unat n, period := unat n\<rparr>) (view (u, k))"
    using sched_okD(1) [OF ok]
    by (intro processes_eqI) (auto simp: k' view_def process_of_def intro: mode_of_cong)
  then show ?thesis using v_alarm [of "view (u, k)" n u'] c by simp
qed

lemma user_view:
  assumes ok: "sched_ok k"
  shows "vstep UserCode (view (u, k)) (view (u', k\<lparr>umem := m\<rparr>))"
proof -
  have "view (u', k\<lparr>umem := m\<rparr>) = change (turn (view (u, k))) (\<lambda>x. x\<lparr>ureg_of := u'\<rparr>) ((view (u, k))\<lparr>memory := m\<rparr>)"
    using sched_okD(1) [OF ok] by (intro processes_eqI) (auto simp: view_def process_of_def)
  then show ?thesis using v_user [of "view (u, k)" u' m] by simp
qed

section \<open>Refinement\<close>

lemma step_view:
  assumes A: "new_ctx_ok A" and ok: "sched_ok k" and step: "sched_step (schedule_v3 A) e (u, k) (u', k')"
  shows "vstep e (view (u, k)) (view (u', k'))"
  using step
proof cases
  case (timer junk)
  then show ?thesis using timer_view [OF ok] by (simp add: schedule_v3_def)
next
  case (exit k0)
  note e = entry_tab [OF exit(3)]
  then show ?thesis
    using exit_view [of k0 A u' k' u] exit ok view_entry [OF exit(3)] by (simp add: schedule_v3_def)
next
  case (sleep k0 n)
  then show ?thesis using sleep_view [OF ok] by (simp add: schedule_v3_def)
next
  case (clone k0 cj f st r)
  note e = entry_tab [OF clone(3)]
  then show ?thesis
    using clone_view [OF _ A, of k0 cj f st r k' u u'] clone ok view_entry [OF clone(3)] by (simp add: schedule_v3_def)
next
  case (signal k0 sg h r)
  note e = entry_tab [OF signal(3)]
  then show ?thesis
    using signal_view [of k0 sg h r k' u u'] signal ok view_entry [OF signal(3)] by (simp add: schedule_v3_def)
next
  case (alarm k0 n r)
  note e = entry_tab [OF alarm(3)]
  then show ?thesis
    using alarm_view [of k0 n r k' u u'] alarm ok view_entry [OF alarm(3)] by (simp add: schedule_v3_def)
next
  case (user m)
  then show ?thesis using user_view [OF ok] by simp
qed

text \<open>A system that stands for another, step by step.\<close>

locale simulation =
  fixes step :: "'l \<Rightarrow> 's \<Rightarrow> 's \<Rightarrow> bool" and spec :: "'l \<Rightarrow> 'a \<Rightarrow> 'a \<Rightarrow> bool"
    and stands_for :: "'s \<Rightarrow> 'a" and ok :: "'s \<Rightarrow> bool"
  assumes ok_next: "ok s \<Longrightarrow> step l s t \<Longrightarrow> ok t"
    and simulated: "ok s \<Longrightarrow> step l s t \<Longrightarrow> spec l (stands_for s) (stands_for t)"
begin

lemma run_simulated:
  "ok s \<Longrightarrow> run step s r \<Longrightarrow> run spec (stands_for s) (map (\<lambda>(l, t). (l, stands_for t)) r)"
  by (induction s r rule: final.induct) (auto intro: simulated ok_next)

end

interpretation processes: simulation "sched_step (schedule_v3 A)" vstep view "\<lambda>s. new_ctx_ok A \<and> sched_ok (snd s)"
  for A :: "'o sched_ops"
proof (unfold_locales, goal_cases)
  case (1 s l t)
  then have "sched_step (schedule_v3 A) l (fst s, snd s) (fst t, snd t)" "handlers_ok (schedule_v3 A)"
    using schedule_v3_ok by auto
  then show ?case using sched_ok_step 1(1) by blast
next
  case (2 s l t)
  then show ?case using step_view [of A "snd s" l "fst s" "fst t" "snd t"] by simp
qed

text \<open>C27: Every run of the scheduler, with timer interrupts, system calls and user code in any
  order, is a run of sixteen processes that have registers of their own: the timer touches no
  register but to deliver the alarm, counts down the sleepers and passes the turn on without
  passing over anybody, and a call changes only the process that makes it (and the one it makes).\<close>

theorem scheduler_refines_processes:
  assumes "new_ctx_ok A" and "sched_ok k" and "run (sched_step (schedule_v3 A)) (u, k) r"
  shows "run vstep (view (u, k)) (map (\<lambda>(e, s). (e, view s)) r)"
  using processes.run_simulated [of A "(u, k)" r] assms by simp

theorem scheduler_refines_processes_witness:
  "run vstep (view (ex_u, ex_sched)) [(Timer, view ex1), (Timer, view ex2), (Timer, view ex3)]"
  using scheduler_refines_processes [of ex_ops ex_sched ex_u "[(Timer, ex1), (Timer, ex2), (Timer, ex3)]"]
    ex1(1) ex2(1) ex3(1) ex_ok ex_ops_ok by simp

end
