(* ===== verification/Thread_Programs.thy ===== *)
theory Thread_Programs
  imports Sched_Example
begin

text \<open>
  The user programs of assignment 3, \<open>assignment3/user/init.c\<close>, \<open>init_n.c\<close>, \<open>init_old.c\<close>,
  \<open>init _m.c\<close> and \<open>init_h.c\<close>, run by the scheduler of \<open>schedule.c\<close>: a process stands at a statement of the
  program, the one that its instruction pointer leads to; between statements the timer may
  interrupt it. (A handler that returns can do harm inside a statement; \<open>Thread_Calls\<close> has the
  system calls of \<open>init_h.c\<close>, the program with such a handler, in two steps.) \<open>write\<close>, \<open>expand\<close> and \<open>getpid\<close> are system calls of a binary, and so is the handler
  of the divide error.
\<close>

section \<open>Programs\<close>

datatype ufun = Main | Fun | Fu | Fun1 | Fun2 | Fun3

text \<open>
  A statement is a call of a library function, \<open>while(1);\<close> or the end of a function that
  returns. \<open>UExpand v\<close> assigns the result to the variable number \<open>v\<close> of the process, \<open>UClone f v\<close>
  uses it for the stack of the thread. \<open>USet\<close> and \<open>UGetpid\<close> assign to a variable, \<open>ULoads j i n\<close> is the
  loop that reads the elements of the local array \<open>buff\<close> from \<open>i\<close> to \<open>n\<close> into \<open>j\<close>, and \<open>UDivide j i w\<close>
  is \<open>j = i / (i - w)\<close>.
\<close>

datatype ustmt =
    UWrite string nat
  | UExpand nat "64 word" "64 word"
  | UClone ufun nat
  | USignal int ufun
  | UAlarm "32 word"
  | USleep "32 word"
  | UExit "32 word"
  | USpin
  | UReturn
  | UGetpid nat
  | USet nat "64 word"
  | ULoads nat nat "64 word"
  | UDivide nat nat "64 word"

type_synonym program = "ufun \<Rightarrow> ustmt list"

abbreviation (input) MAP_WR3 :: "64 word" where "MAP_WR3 \<equiv> 1"

definition newline :: string where
  "newline = [CHR 0x0A]"

definition init_prog :: program where
  "init_prog f = (case f of
     Main \<Rightarrow> [USignal SIGALRM Fun, UExpand 0 20 MAP_WR3, UClone Fun1 0, UAlarm 3, USpin, UExit 0]
   | Fun \<Rightarrow> [UWrite (''ALARM'' @ newline) 12, UExit 0]
   | Fun1 \<Rightarrow> [UWrite (''Hello Hello'' @ newline) 12, UExit 0]
   | Fun2 \<Rightarrow> [UWrite (''Bye Bye'' @ newline) 9, UExit 0]
   | Fun3 \<Rightarrow> [UWrite (''I am 3'' @ newline) 9, UExit 0]
   | Fu \<Rightarrow> [])"

definition init_n_prog :: program where
  "init_n_prog f = (case f of
     Main \<Rightarrow> [UExpand 0 2 MAP_WR3, UExpand 1 2 MAP_WR3, UClone Fun1 0, UClone Fun2 1,
       UWrite (''back to main'' @ newline) 20, UExit 0]
   | Fun1 \<Rightarrow> [UWrite (''Hello Hello'' @ newline) 12, UExit 0]
   | Fun2 \<Rightarrow> [UWrite (''Bye Bye'' @ newline) 9, UExit 0]
   | _ \<Rightarrow> [])"

definition init_old_prog :: program where
  "init_old_prog f = (case f of
     Main \<Rightarrow> [UWrite (''aaaaaa'' @ newline) 12, USleep 10, UWrite (''aaaaaa'' @ newline) 12, USleep 5,
       UWrite (''dddd'' @ newline) 10, USignal SIGALRM Fu, UAlarm 5, USpin, UExit 0]
   | Fun \<Rightarrow> [UWrite (''Hello Hello'' @ newline) 15, UExit 0]
   | Fu \<Rightarrow> [UWrite (''Hll'' @ newline) 15, UExit 0]
   | _ \<Rightarrow> [])"

definition init_m_prog :: program where
  "init_m_prog f = (case f of
     Main \<Rightarrow> [UWrite (''aaaaaa'' @ newline) 12, USleep 10, UWrite (''aaaaaa'' @ newline) 12, USleep 5,
       UWrite (''dddd'' @ newline) 10, USignal SIGALRM Fu, UAlarm 5, USpin]
   | Fun \<Rightarrow> [UWrite (''Hello Hello'' @ newline) 15, UExit 0]
   | Fu \<Rightarrow> [UWrite (''Hll'' @ newline) 15, UReturn]
   | _ \<Rightarrow> [])"

definition init_h_prog :: program where
  "init_h_prog f = (case f of
     Main \<Rightarrow> [USignal SIGALRM Fun, UGetpid 0, UWrite (''alarm'' @ newline) 6, UAlarm 2, UWrite (''hello'' @ newline) 6,
       USet 0 0, ULoads 1 0 4096, USet 0 0x100034, UDivide 1 0 0x100034, UExit (- 5)]
   | Fun \<Rightarrow> [UWrite (''ping!!'' @ newline) 7, UReturn]
   | _ \<Rightarrow> [])"

section \<open>The machine\<close>

text \<open>
  The processor with the registers of the process that runs, the kernel, the variables of each
  process, and what has been written, with the context that wrote it.
\<close>

record 'o umach =
  ureg :: user_regs
  sys :: "'o sched"
  vars :: "nat \<Rightarrow> nat \<Rightarrow> 64 word"
  written :: "(nat \<times> char list) list"

text \<open>
  What compilation and the binary decide: the address of each statement, what lies in memory
  behind a string constant, the registers after a system call, the words of a kernel stack that
  no handler reads, the registers that the body of the timer handler leaves, the bytes of
  uninitialised arrays, where the array \<open>buff\<close> lies, \<open>expand\<close>, \<open>getpid\<close> and the divide error.
\<close>

record 'o uenv =
  addr :: "ufun \<Rightarrow> nat \<Rightarrow> 64 word"
  beyond :: "string \<Rightarrow> char list"
  clobber :: "user_regs \<Rightarrow> gpr \<Rightarrow> 64 word"
  stack_rest :: "nat \<Rightarrow> 64 word"
  tick_junk :: "gpr \<Rightarrow> 64 word"
  name_junk :: "nat \<Rightarrow> char"
  buff_addr :: "user_regs \<Rightarrow> 64 word"
  sys_expand :: "64 word \<Rightarrow> 64 word \<Rightarrow> 'o sched \<Rightarrow> 64 word \<times> 'o sched"
  sys_getpid :: "'o sched \<Rightarrow> 64 word \<times> 'o sched"
  div_error :: "user_regs \<Rightarrow> 'o sched \<Rightarrow> 'o outcome res"

datatype 'o status = Going "'o umach" | Ended "'o umach"

definition points :: "program \<Rightarrow> (ufun \<times> nat) list" where
  "points P = concat (map (\<lambda>f. map (Pair f) [0 ..< length (P f)]) [Main, Fun, Fu, Fun1, Fun2, Fun3])"

definition stmt_at :: "'o uenv \<Rightarrow> program \<Rightarrow> 64 word \<Rightarrow> (ufun \<times> nat) option" where
  "stmt_at E P a = find (\<lambda>(f, i). addr E f i = a) (points P)"

text \<open>A system call: the registers that \<open>schedule.c\<close> reads are on the kernel stack of the process.\<close>

definition sys_entry :: "'o uenv \<Rightarrow> 64 word \<Rightarrow> 'o umach \<Rightarrow> 'o sched" where
  "sys_entry E ret m =
     (let k = sys m; u = ureg m in
      k\<lparr>kstack := (kstack k)(os_stack_pfn (tab k (cur k)) :=
          (\<lambda>i. if i = 501 then rbp u else if i = 507 then ret else if i = 509 then entry_rflags u
               else if i = 510 then entry_rsp u else stack_rest E i))\<rparr>)"

definition sys_return :: "'o uenv \<Rightarrow> 64 word \<Rightarrow> 'o umach \<Rightarrow> 'o sched \<Rightarrow> 'o umach" where
  "sys_return E ret m k = m\<lparr>ureg := (ureg m)\<lparr>entry_rip := ret, gprs := clobber E (ureg m)\<rparr>, sys := k\<rparr>"

text \<open>How a handler that switches ends.\<close>

definition switched :: "'o umach \<Rightarrow> 'o outcome \<Rightarrow> 'o status" where
  "switched m x = (case x of Resume u k \<Rightarrow> Going (m\<lparr>ureg := u, sys := k\<rparr>) | Shutdown k \<Rightarrow> Ended (m\<lparr>sys := k\<rparr>))"

section \<open>The library functions\<close>

definition t_exit :: "'o sched_ops \<Rightarrow> 'o uenv \<Rightarrow> 64 word \<Rightarrow> 'o umach \<Rightarrow> 'o status" where
  "t_exit A E ret m = switched m (do_exit A (sys_entry E ret m))"

definition t_write :: "'o uenv \<Rightarrow> string \<Rightarrow> nat \<Rightarrow> 64 word \<Rightarrow> 'o umach \<Rightarrow> 'o status" where
  "t_write E s n ret m =
     Going ((sys_return E ret m (sys_entry E ret m))
       \<lparr>written := written m @ [(cur (sys m), take n (s @ CHR 0x00 # beyond E s))]\<rparr>)"

definition t_signal :: "'o uenv \<Rightarrow> int \<Rightarrow> ufun \<Rightarrow> 64 word \<Rightarrow> 'o umach \<Rightarrow> 'o status res" where
  "t_signal E signum f ret m =
     rbind (do_signal signum (addr E f 0) (sys_entry E ret m)) (\<lambda>(_, k). Inr (Going (sys_return E ret m k)))"

definition t_alarm :: "'o uenv \<Rightarrow> 32 word \<Rightarrow> 64 word \<Rightarrow> 'o umach \<Rightarrow> 'o status" where
  "t_alarm E n ret m = Going (sys_return E ret m (snd (do_alarm n (sys_entry E ret m))))"

definition t_sleep :: "'o uenv \<Rightarrow> 32 word \<Rightarrow> 64 word \<Rightarrow> 'o umach \<Rightarrow> 'o status" where
  "t_sleep E ticks ret m = switched m (do_sleep ticks (sys_entry E ret m))"

definition t_clone :: "'o sched_ops \<Rightarrow> 'o uenv \<Rightarrow> ufun \<Rightarrow> 64 word \<Rightarrow> 64 word \<Rightarrow> 'o umach \<Rightarrow> 'o status res" where
  "t_clone A E f st ret m =
     rbind (do_clone A (name_junk E) (addr E f 0) st (sys_entry E ret m))
       (\<lambda>(_, k). Inr (Going (sys_return E ret m k)))"

definition t_expand :: "'o uenv \<Rightarrow> nat \<Rightarrow> 64 word \<Rightarrow> 64 word \<Rightarrow> 64 word \<Rightarrow> 'o umach \<Rightarrow> 'o status" where
  "t_expand E v n flags ret m =
     (case sys_expand E n flags (sys_entry E ret m) of (ptr, k) \<Rightarrow>
        Going ((sys_return E ret m k)\<lparr>vars := (vars m)(cur (sys m) := (vars m (cur (sys m)))(v := ptr))\<rparr>))"

definition set_var :: "nat \<Rightarrow> 64 word \<Rightarrow> 'o umach \<Rightarrow> 'o umach" where
  "set_var v w m = m\<lparr>vars := (vars m)(cur (sys m) := (vars m (cur (sys m)))(v := w))\<rparr>"

definition t_getpid :: "'o uenv \<Rightarrow> nat \<Rightarrow> 64 word \<Rightarrow> 'o umach \<Rightarrow> 'o status" where
  "t_getpid E v ret m =
     (case sys_getpid E (sys_entry E ret m) of (n, k) \<Rightarrow> Going (set_var v n (sys_return E ret m k)))"

text \<open>The stack of a thread: \<open>(((ptr >> 12) + 2) << 12) - 1\<close>.\<close>

definition thread_stack :: "64 word \<Rightarrow> 64 word" where
  "thread_stack ptr = push_bit 12 (drop_bit 12 ptr + 2) - 1"

section \<open>Execution\<close>

text \<open>The end of a statement that is no call: the compiled code uses the general purpose registers.\<close>

definition go_to :: "'o uenv \<Rightarrow> 64 word \<Rightarrow> 'o umach \<Rightarrow> 'o umach" where
  "go_to E a m = m\<lparr>ureg := (ureg m)\<lparr>entry_rip := a, gprs := clobber E (ureg m)\<rparr>\<rparr>"

text \<open>One round of the loop, or its end.\<close>

definition load_round :: "'o uenv \<Rightarrow> nat \<Rightarrow> nat \<Rightarrow> 64 word \<Rightarrow> 64 word \<Rightarrow> 'o umach \<Rightarrow> 'o umach" where
  "load_round E j i n ret m =
     (let x = vars m (cur (sys m)) i in
      if x < n then
        set_var i (x + 1) (set_var j (read_u64 (buff_addr E (ureg m) + 8 * x) (umem (sys m)))
          (go_to E (entry_rip (ureg m)) m))
      else go_to E ret m)"

text \<open>The division: a divisor of 0 is an exception at this statement.\<close>

definition divide :: "'o uenv \<Rightarrow> nat \<Rightarrow> nat \<Rightarrow> 64 word \<Rightarrow> 64 word \<Rightarrow> 'o umach \<Rightarrow> 'o status res" where
  "divide E j i w ret m =
     (let x = vars m (cur (sys m)) i in
      if x - w = 0 then rbind (div_error E (ureg m) (sys m)) (\<lambda>x. Inr (switched m x))
      else Inr (Going (set_var j (x div (x - w)) (go_to E ret m))))"

definition do_stmt :: "'o sched_ops \<Rightarrow> 'o uenv \<Rightarrow> ustmt \<Rightarrow> 64 word \<Rightarrow> 'o umach \<Rightarrow> 'o status res" where
  "do_stmt A E x ret m = (case x of
     UWrite s n \<Rightarrow> Inr (t_write E s n ret m)
   | UExpand v n flags \<Rightarrow> Inr (t_expand E v n flags ret m)
   | UClone f v \<Rightarrow> t_clone A E f (thread_stack (vars m (cur (sys m)) v)) ret m
   | USignal signum f \<Rightarrow> t_signal E signum f ret m
   | UAlarm n \<Rightarrow> Inr (t_alarm E n ret m)
   | USleep n \<Rightarrow> Inr (t_sleep E n ret m)
   | UExit code \<Rightarrow> Inr (t_exit A E ret m)
   | USpin \<Rightarrow> Inr (Going m)
   | UReturn \<Rightarrow>
       let u = ureg m in
       Inr (Going (m\<lparr>ureg := u\<lparr>entry_rip := read_u64 (entry_rsp u) (umem (sys m)), entry_rsp := entry_rsp u + 8\<rparr>\<rparr>))
   | UGetpid v \<Rightarrow> Inr (t_getpid E v ret m)
   | USet v w \<Rightarrow> Inr (Going (set_var v w (go_to E ret m)))
   | ULoads j i n \<Rightarrow> Inr (Going (load_round E j i n ret m))
   | UDivide j i w \<Rightarrow> divide E j i w ret m)"

text \<open>One statement of the process that runs; the swapper has none. Other addresses hold no code.\<close>

definition user_step :: "'o sched_ops \<Rightarrow> 'o uenv \<Rightarrow> program \<Rightarrow> 'o umach \<Rightarrow> 'o status res" where
  "user_step A E P m =
     (if cur (sys m) = 0 then Inr (Going m)
      else case stmt_at E P (entry_rip (ureg m)) of
        None \<Rightarrow> Inl OutOfBounds
      | Some (f, i) \<Rightarrow> do_stmt A E (P f ! i) (addr E f (Suc i)) m)"

definition tick_step :: "'o sched_ops \<Rightarrow> 'o uenv \<Rightarrow> 'o umach \<Rightarrow> 'o status res" where
  "tick_step A E m =
     rbind (handle_timer_tick A (tick_junk E) (ureg m) (sys m)) (\<lambda>x. Inr (switched m x))"

text \<open>An execution: at each place \<open>True\<close> for an interrupt of the timer, \<open>False\<close> for a statement.\<close>

fun exec :: "'o sched_ops \<Rightarrow> 'o uenv \<Rightarrow> program \<Rightarrow> bool list \<Rightarrow> 'o umach \<Rightarrow> 'o status res" where
  "exec A E P [] m = Inr (Going m)"
| "exec A E P (b # bs) m =
     rbind (if b then tick_step A E m else user_step A E P m)
       (\<lambda>s. case s of Going m' \<Rightarrow> exec A E P bs m' | Ended m' \<Rightarrow> Inr (Ended m'))"

end
