(* ===== verification/Thread_Run.thy ===== *)
theory Thread_Run
  imports Thread_Programs "HOL-Library.Multiset"
begin

text \<open>
  Programs whose threads only write and exit: however the timer interrupts them, every statement
  of every thread is executed once, so that the run ends after as many statements as there are
  and everything that is to be written has been written once.
\<close>

section \<open>Programs and what they still have to do\<close>

text \<open>The addresses of the statements are apart.\<close>

definition layout_ok :: "'o uenv \<Rightarrow> program \<Rightarrow> bool" where
  "layout_ok E P \<longleftrightarrow> distinct (map (\<lambda>(f, i). addr E f i) (points P))"

lemma points_iff: "(f, i) \<in> set (points P) \<longleftrightarrow> i < length (P f)"
  by (cases f) (auto simp: points_def)

lemma stmt_at_addr:
  assumes "layout_ok E P" and "i < length (P f)"
  shows "stmt_at E P (addr E f i) = Some (f, i)"
proof -
  have inj: "inj_on (\<lambda>(f, i). addr E f i) (set (points P))"
    using assms(1) by (simp add: layout_ok_def distinct_map)
  have at: "(f, i) \<in> set (points P)" using assms(2) by (simp add: points_iff)
  then have "stmt_at E P (addr E f i) \<noteq> None" by (auto simp: stmt_at_def find_None_iff)
  then obtain x where x: "stmt_at E P (addr E f i) = Some x" by blast
  then have "x \<in> set (points P)" "(\<lambda>(f, i). addr E f i) x = addr E f i"
    by (auto simp: stmt_at_def find_Some_iff) (metis nth_mem)
  then have "x = (f, i)" using inj_onD [OF inj, of x "(f, i)"] at by simp
  then show ?thesis using x by simp
qed

fun thread_body :: "ustmt list \<Rightarrow> bool" where
  "thread_body [UExit c] \<longleftrightarrow> True"
| "thread_body (UWrite s n # xs) \<longleftrightarrow> thread_body xs"
| "thread_body _ \<longleftrightarrow> False"

fun main_body :: "program \<Rightarrow> ustmt list \<Rightarrow> bool" where
  "main_body P [UExit c] \<longleftrightarrow> True"
| "main_body P (UWrite s n # xs) \<longleftrightarrow> main_body P xs"
| "main_body P (UExpand v n fl # xs) \<longleftrightarrow> main_body P xs"
| "main_body P (UClone f v # xs) \<longleftrightarrow> thread_body (P f) \<and> main_body P xs"
| "main_body P _ \<longleftrightarrow> False"

lemma thread_main: "thread_body xs \<Longrightarrow> main_body P xs"
  by (induction xs rule: thread_body.induct) auto

text \<open>The number of statements, threads still to be made included; the number of those threads; what is written.\<close>

fun work :: "program \<Rightarrow> ustmt list \<Rightarrow> nat" where
  "work P [] = 0"
| "work P (UClone f v # xs) = Suc (length (P f) + work P xs)"
| "work P (x # xs) = Suc (work P xs)"

fun clones :: "ustmt list \<Rightarrow> nat" where
  "clones [] = 0"
| "clones (UClone f v # xs) = Suc (clones xs)"
| "clones (x # xs) = clones xs"

definition text_of :: "'o uenv \<Rightarrow> string \<Rightarrow> nat \<Rightarrow> char list" where
  "text_of E s n = take n (s @ CHR 0x00 # beyond E s)"

fun says1 :: "'o uenv \<Rightarrow> ustmt list \<Rightarrow> char list multiset" where
  "says1 E [] = {#}"
| "says1 E (UWrite s n # xs) = add_mset (text_of E s n) (says1 E xs)"
| "says1 E (x # xs) = says1 E xs"

fun says :: "'o uenv \<Rightarrow> program \<Rightarrow> ustmt list \<Rightarrow> char list multiset" where
  "says E P [] = {#}"
| "says E P (UWrite s n # xs) = add_mset (text_of E s n) (says E P xs)"
| "says E P (UClone f v # xs) = says1 E (P f) + says E P xs"
| "says E P (x # xs) = says E P xs"

lemma thread_totals:
  assumes "thread_body xs"
  shows "work P xs = length xs" and "says E P xs = says1 E xs" and "clones xs = 0"
  using assms by (induction xs rule: thread_body.induct) auto

section \<open>The processes of a state\<close>

definition live :: "'o umach \<Rightarrow> nat set" where
  "live m = {p. 1 \<le> p \<and> p < 16 \<and> state (tab (sys m) p) \<noteq> UNUSED}"

definition rip_of :: "'o umach \<Rightarrow> nat \<Rightarrow> 64 word" where
  "rip_of m p = (if p = cur (sys m) then entry_rip (ureg m) else entry_rip (regs (tab (sys m) p)))"

definition rest :: "'o uenv \<Rightarrow> program \<Rightarrow> 'o umach \<Rightarrow> nat \<Rightarrow> ustmt list" where
  "rest E P m p = (case stmt_at E P (rip_of m p) of None \<Rightarrow> [] | Some (f, i) \<Rightarrow> drop i (P f))"

definition total_work :: "'o uenv \<Rightarrow> program \<Rightarrow> 'o umach \<Rightarrow> nat" where
  "total_work E P m = (\<Sum>p \<in> live m. work P (rest E P m p))"

definition total_text :: "'o uenv \<Rightarrow> program \<Rightarrow> 'o umach \<Rightarrow> char list multiset" where
  "total_text E P m = mset (map snd (written m)) + (\<Sum>p \<in> live m. says E P (rest E P m p))"

lemma live_finite [simp]: "finite (live m)"
  by (rule finite_subset [of _ "{..< 16}"]) (auto simp: live_def)

text \<open>
  The names that \<open>clone\<close> can use: terminated, and with two digits within the array. Nobody
  sleeps and no alarm is set.
\<close>

definition name_ok :: "char list \<Rightarrow> bool" where
  "name_ok nm \<longleftrightarrow> CHR 0x00 \<in> set nm \<and> length (takeWhile (\<lambda>c. c \<noteq> CHR 0x00) nm) \<le> 61"

definition busy :: "'o sched \<Rightarrow> bool" where
  "busy k \<longleftrightarrow> sched_ok k \<and> cur k \<noteq> 0 \<and> (\<forall>p < 16. state (tab k p) \<in> {UNUSED, READY, RUNNING})"

definition calm :: "'o sched \<Rightarrow> bool" where
  "calm k \<longleftrightarrow> sched_ok k \<and> cur k \<noteq> 0 \<and> ticks_to_alarm (tab k 1) = 0 \<and>
     (\<forall>p < 16. state (tab k p) \<in> {UNUSED, READY, RUNNING})"

lemma calm_busy: "calm k \<longleftrightarrow> busy k \<and> ticks_to_alarm (tab k 1) = 0"
  by (auto simp: calm_def busy_def)

definition flat_ok :: "'o uenv \<Rightarrow> program \<Rightarrow> 'o umach \<Rightarrow> bool" where
  "flat_ok E P m \<longleftrightarrow> calm (sys m) \<and> card (live m) + (if 1 \<in> live m then clones (rest E P m 1) else 0) \<le> 15 \<and>
     (1 \<in> live m \<longrightarrow> main_body P (rest E P m 1) \<and> name_ok (name (tab (sys m) 1))) \<and>
     (\<forall>p \<in> live m. p \<noteq> 1 \<longrightarrow> thread_body (rest E P m p))"

lemma flat_okD:
  assumes "flat_ok E P m"
  shows "calm (sys m)" and "sched_ok (sys m)" and "cur (sys m) \<noteq> 0" and "cur (sys m) \<in> live m"
    and "p \<in> live m \<Longrightarrow> main_body P (rest E P m p)"
proof -
  show c: "calm (sys m)" and ok: "sched_ok (sys m)" and c0: "cur (sys m) \<noteq> 0"
    using assms by (auto simp: flat_ok_def calm_def)
  show "cur (sys m) \<in> live m"
    using sched_okD(1,6) [OF ok] c0 by (simp add: live_def)
  show "p \<in> live m \<Longrightarrow> main_body P (rest E P m p)"
    using assms by (cases "p = 1") (auto simp: flat_ok_def intro: thread_main)
qed

text \<open>The same processes at the same places, but for the current one.\<close>

lemma totals_cong:
  assumes "live m' = live m" and "\<And>p. p \<in> live m \<Longrightarrow> rest E P m' p = rest E P m p"
  shows "total_work E P m' = total_work E P m"
    and "written m' = written m \<Longrightarrow> total_text E P m' = total_text E P m"
  using assms by (simp_all add: total_work_def total_text_def)

lemma rest_cong: "rip_of m' p = rip_of m p \<Longrightarrow> rest E P m' p = rest E P m p"
  by (simp add: rest_def)

section \<open>Interrupts\<close>

lemma tick_switch_kept:
  assumes "tick_switch junk stack frame back k = Resume u' k'"
  shows "name (tab k' p) = name (tab k p)" and "ticks_to_alarm (tab k' p) = ticks_to_alarm (tab k p)"
  using assms by (auto simp: tick_switch_def Let_def split: option.splits if_splits)

lemma tick_switch_process:
  assumes "tick_switch junk stack frame back k = Resume u' k'" and "cur k < 16" "cur k \<noteq> 0" and "pid (tab k (cur k)) \<noteq> 0"
  shows "cur k' \<noteq> 0"
proof -
  let ?k3 = "upd (cur k) (\<lambda>t. t\<lparr>state := READY\<rparr>) k"
  obtain n where n: "pick_next_context TIMER ?k3 = Some n" "cur k' = n \<or> cur k' = cur k"
    using assms(1) by (auto simp: tick_switch_def Let_def split: option.splits if_splits)
  have "n \<noteq> 0"
  proof (cases "first_ready (tab ?k3) (cur k)")
    case None
    then show ?thesis using n(1) assms(3,4) by (simp add: pick_next_context_def)
  next
    case (Some i)
    then show ?thesis using n(1) first_ready_Some(1) [OF assms(2) Some] by (simp add: pick_next_context_def)
  qed
  then show ?thesis using n(2) assms(3) by auto
qed

lemma calm_states:
  assumes "calm k" and "p < 16"
  shows "ticks_to_sleep (tab k p) = 0" and "tick_state k p = (if p = cur k then READY else state (tab k p))"
proof -
  have ok: "sched_ok k" and st: "state (tab k p) \<in> {UNUSED, READY, RUNNING}" using assms by (auto simp: calm_def)
  show "ticks_to_sleep (tab k p) = 0" using sched_okD(4) [OF ok assms(2)] st
    by (cases "ticks_to_sleep (tab k p) = 0") auto
  then show "tick_state k p = (if p = cur k then READY else state (tab k p))" by (simp add: tick_state_def)
qed

lemma tick_calm:
  assumes "calm k"
  obtains u' k' where "handle_timer_tick A junk u k = Inr (Resume u' k')" "calm k'"
    "\<And>p. p < 16 \<Longrightarrow> state (tab k' p) = UNUSED \<longleftrightarrow> state (tab k p) = UNUSED"
    "\<And>p. name (tab k' p) = name (tab k p)"
    "\<And>p. p < 16 \<Longrightarrow> (if p = cur k' then u' else regs (tab k' p)) = (if p = cur k then u else regs (tab k p))"
proof -
  have ok: "sched_ok k" and c: "cur k \<noteq> 0" and al: "ticks_to_alarm (tab k 1) = 0" using assms by (auto simp: calm_def)
  note okD = sched_okD [OF ok]
  define k1 where "k1 = print [Tick (numticks k + 1), CurrentPid (cur k)] (k\<lparr>numticks := numticks k + 1\<rparr>)"
  have st: "same_tasks k k1" by (simp add: same_tasks_def k1_def)
  have "tick_alarm A (entry_rsp u) (entry_rip u) k1 = Inr (Inr (entry_rsp u, entry_rip u, k1))"
    using al by (simp add: tick_alarm_def k1_def)
  then have h: "handle_timer_tick A junk u k = Inr (tick_switch junk (push_regs (gprs u) []) u u (wake_all k1))"
    using okD(1,2) by (simp add: handle_timer_tick_def Let_def k1_def)
  have "pid (tab k1 (cur k1)) \<noteq> 0" using c okD(1,2) by (simp add: k1_def)
  then obtain u' k' where sw: "tick_switch junk (push_regs (gprs u) []) u u (wake_all k1) = Resume u' k'"
    using tick_switch_returns by blast
  note r = tick_switch_resume [OF ok st sw refl refl]
  have k1: "cur (wake_all k1) = cur k" "pid (tab (wake_all k1) (cur k)) = cur k" using okD(1,2) by (simp_all add: k1_def)
  have c': "cur k' \<noteq> 0" using tick_switch_process [OF sw] okD(1) c unfolding k1 by simp
  note cs = calm_states [OF assms]
  have un: "state (tab k' p) = UNUSED \<longleftrightarrow> state (tab k p) = UNUSED" if "p < 16" for p
    using r(2) r(3) [OF that] cs(2) [OF that] cs(2) [OF r(1)] okD(6) that by (auto split: if_splits)
  have "sched_ok k'" using after_tick_ok [OF ok tick_after [OF ok]] h sw by simp
  moreover have "state (tab k' p) \<in> {UNUSED, READY, RUNNING}" if "p < 16" for p
    using r(3) [OF that] cs(2) [OF that] assms that by (auto simp: calm_def)
  moreover have "ticks_to_alarm (tab k' 1) = 0" using tick_switch_kept(2) [OF sw, of 1] al by (simp add: k1_def)
  ultimately have "calm k'" using c' by (simp add: calm_def)
  moreover have "name (tab k' p) = name (tab k p)" for p using tick_switch_kept(1) [OF sw, of p] by (simp add: k1_def)
  moreover have "(if p = cur k' then u' else regs (tab k' p)) = (if p = cur k then u else regs (tab k p))" if "p < 16" for p
    using r(6) [OF that] r(7) by auto
  ultimately show ?thesis using that [of u' k'] h sw un by simp
qed

lemma tick_flat:
  assumes "flat_ok E P m"
  shows "\<exists>m'. tick_step A E m = Inr (Going m') \<and> flat_ok E P m' \<and>
    total_work E P m' = total_work E P m \<and> total_text E P m' = total_text E P m"
proof -
  obtain u' k' where t: "handle_timer_tick A (tick_junk E) (ureg m) (sys m) = Inr (Resume u' k')" "calm k'"
      "\<And>p. p < 16 \<Longrightarrow> state (tab k' p) = UNUSED \<longleftrightarrow> state (tab (sys m) p) = UNUSED"
      "\<And>p. name (tab k' p) = name (tab (sys m) p)"
      "\<And>p. p < 16 \<Longrightarrow> (if p = cur k' then u' else regs (tab k' p)) =
        (if p = cur (sys m) then ureg m else regs (tab (sys m) p))"
    using tick_calm [OF flat_okD(1) [OF assms], of A "tick_junk E" "ureg m"] by blast
  let ?m = "m\<lparr>ureg := u', sys := k'\<rparr>"
  have lv: "live ?m = live m" using t(3) by (auto simp: live_def)
  have "rip_of ?m p = rip_of m p" if "p < 16" for p
    using arg_cong [OF t(5) [OF that], of entry_rip] by (simp add: rip_of_def if_distrib cong: if_cong)
  then have rs: "rest E P ?m p = rest E P m p" if "p \<in> live m" for p
    using that by (intro rest_cong) (simp add: live_def)
  note tot = totals_cong [of ?m m, OF lv rs]
  have "flat_ok E P ?m" using assms t(2,4) lv rs
    by (cases "1 \<in> live m") (simp_all add: flat_ok_def del: One_nat_def)
  then show ?thesis using t(1) tot by (intro exI [of _ ?m]) (simp add: tick_step_def switched_def)
qed

section \<open>Statements\<close>

lemma sys_entry_simps [simp]:
  "tab (sys_entry E ret m) = tab (sys m)" "cur (sys_entry E ret m) = cur (sys m)"
  "sched_ok (sys_entry E ret m) = sched_ok (sys m)" "alloc (sys_entry E ret m) = alloc (sys m)"
  by (simp_all add: sys_entry_def Let_def sched_ok_def)

text \<open>What \<open>expand\<close> does to the contexts: the segments of the caller change.\<close>

definition expand_ok :: "'o uenv \<Rightarrow> bool" where
  "expand_ok E \<longleftrightarrow> (\<forall>n fl k. cur (snd (sys_expand E n fl k)) = cur k \<and>
     (\<exists>sg. tab (snd (sys_expand E n fl k)) = (tab k)(cur k := (tab k (cur k))\<lparr>segs := sg\<rparr>)))"

text \<open>The statement of the current process, and the one behind it.\<close>

lemma current_stmt:
  assumes L: "layout_ok E P" and ok: "flat_ok E P m"
  obtains f i x xs where "stmt_at E P (entry_rip (ureg m)) = Some (f, i)" "P f ! i = x"
    "rest E P m (cur (sys m)) = x # xs" "xs \<noteq> [] \<Longrightarrow> stmt_at E P (addr E f (Suc i)) = Some (f, Suc i)"
    "xs = drop (Suc i) (P f)"
proof -
  let ?c = "cur (sys m)"
  have body: "main_body P (rest E P m ?c)" by (rule flat_okD(5) [OF ok flat_okD(4) [OF ok]])
  then have "rest E P m ?c \<noteq> []" by (metis main_body.simps(5))
  then obtain f i where fi: "stmt_at E P (entry_rip (ureg m)) = Some (f, i)" "drop i (P f) \<noteq> []"
    by (auto simp: rest_def rip_of_def split: option.splits)
  then have "rest E P m ?c = P f ! i # drop (Suc i) (P f)"
    by (simp add: rest_def rip_of_def Cons_nth_drop_Suc)
  moreover have "stmt_at E P (addr E f (Suc i)) = Some (f, Suc i)" if "drop (Suc i) (P f) \<noteq> []"
    using that by (intro stmt_at_addr [OF L]) simp
  ultimately show ?thesis using that [OF fi(1) refl] by blast
qed

lemma body_cases:
  assumes "main_body P (x # xs)"
  obtains (writes) s n where "x = UWrite s n" "xs \<noteq> []" "main_body P xs"
  | (expands) v n fl where "x = UExpand v n fl" "xs \<noteq> []" "main_body P xs"
  | (makes) f v where "x = UClone f v" "xs \<noteq> []" "main_body P xs" "thread_body (P f)"
  | (exits) code where "x = UExit code" "xs = []"
  using assms by (cases x; cases xs) auto

lemma thread_tail: "thread_body (x # xs) \<Longrightarrow> xs \<noteq> [] \<Longrightarrow> thread_body xs"
  by (cases x; cases xs) auto

text \<open>The current process has made a statement that neither makes a thread nor ends it.\<close>

lemma advance:
  assumes ok: "flat_ok E P m" and at: "rest E P m (cur (sys m)) = x # xs" "xs \<noteq> []"
    and x: "work P (x # xs) = Suc (work P xs)" "clones (x # xs) = clones xs" "main_body P xs"
    and k': "cur (sys m') = cur (sys m)" "\<And>p. \<exists>sg. tab (sys m') p = (tab (sys m) p)\<lparr>segs := sg\<rparr>"
    and nxt: "stmt_at E P (entry_rip (ureg m')) = Some (f, j)" "xs = drop j (P f)"
    and said: "mset (map snd (written m')) + says E P xs = mset (map snd (written m)) + says E P (x # xs)"
  shows "flat_ok E P m' \<and> total_work E P m = Suc (total_work E P m') \<and> total_text E P m' = total_text E P m"
proof -
  let ?c = "cur (sys m)"
  have tab: "pid (tab (sys m') p) = pid (tab (sys m) p)" "state (tab (sys m') p) = state (tab (sys m) p)"
      "name (tab (sys m') p) = name (tab (sys m) p)" "regs (tab (sys m') p) = regs (tab (sys m) p)"
      "ticks_to_alarm (tab (sys m') p) = ticks_to_alarm (tab (sys m) p)"
      "ticks_to_sleep (tab (sys m') p) = ticks_to_sleep (tab (sys m) p)" for p
    using k'(2) [of p] by auto
  have lv: "live m' = live m" by (simp add: live_def tab)
  have c: "?c \<in> live m" by (rule flat_okD(4) [OF ok])
  have rc: "rest E P m' ?c = xs" using nxt k'(1) by (simp add: rest_def rip_of_def)
  have rp: "rest E P m' p = rest E P m p" if "p \<noteq> ?c" for p
    by (rule rest_cong) (simp add: rip_of_def k'(1) tab that)
  have "sched_ok (sys m') = sched_ok (sys m)" by (simp add: sched_ok_def k'(1) tab)
  then have "calm (sys m')" using flat_okD(1) [OF ok] by (simp add: calm_def k'(1) tab)
  moreover have "1 \<in> live m \<longrightarrow> clones (rest E P m' 1) = clones (rest E P m 1) \<and> main_body P (rest E P m' 1)"
    using rc rp [of 1] at x ok by (cases "1 = ?c") (auto simp: flat_ok_def)
  moreover have "thread_body (rest E P m' p)" if "p \<in> live m" "p \<noteq> 1" for p
    using that rc rp [of p] ok at thread_tail by (cases "p = ?c") (auto simp: flat_ok_def)
  ultimately have "flat_ok E P m'" using ok by (auto simp: flat_ok_def lv tab)
  moreover have "total_work E P m = Suc (total_work E P m')"
    using c rc rp at(1) x(1) by (simp add: total_work_def lv sum.remove [of _ ?c])
  moreover have "total_text E P m' = total_text E P m"
    using c rc rp at(1) said by (simp add: total_text_def lv sum.remove [of _ ?c] flip: add.assoc)
  ultimately show ?thesis by blast
qed

lemma t_write_flat:
  assumes ok: "flat_ok E P m" and at: "rest E P m (cur (sys m)) = UWrite s n # xs" "xs \<noteq> []" "main_body P xs"
    and nxt: "stmt_at E P ret = Some (f, j)" "xs = drop j (P f)"
  shows "\<exists>m'. t_write E s n ret m = Going m' \<and> flat_ok E P m' \<and>
    total_work E P m = Suc (total_work E P m') \<and> total_text E P m' = total_text E P m"
proof -
  let ?m = "(sys_return E ret m (sys_entry E ret m))\<lparr>written := written m @ [(cur (sys m), text_of E s n)]\<rparr>"
  have "\<exists>sg. tab (sys ?m) p = (tab (sys m) p)\<lparr>segs := sg\<rparr>" for p
    by (rule exI [of _ "segs (tab (sys m) p)"]) (simp add: sys_return_def)
  then have "flat_ok E P ?m \<and> total_work E P m = Suc (total_work E P ?m) \<and> total_text E P ?m = total_text E P m"
    by (intro advance [OF ok at(1,2) _ _ at(3) _ _ _ nxt(2)]) (simp_all add: sys_return_def nxt)
  then show ?thesis by (simp add: t_write_def text_of_def)
qed

lemma t_expand_flat:
  assumes ok: "flat_ok E P m" and E: "expand_ok E"
    and at: "rest E P m (cur (sys m)) = UExpand v n fl # xs" "xs \<noteq> []" "main_body P xs"
    and nxt: "stmt_at E P ret = Some (f, j)" "xs = drop j (P f)"
  shows "\<exists>m'. t_expand E v n fl ret m = Going m' \<and> flat_ok E P m' \<and>
    total_work E P m = Suc (total_work E P m') \<and> total_text E P m' = total_text E P m"
proof -
  obtain ptr k where k: "sys_expand E n fl (sys_entry E ret m) = (ptr, k)" by fastforce
  obtain sg where sg: "cur k = cur (sys m)"
      "tab k = (tab (sys m))(cur (sys m) := (tab (sys m) (cur (sys m)))\<lparr>segs := sg\<rparr>)"
    using E [unfolded expand_ok_def, THEN spec, THEN spec, THEN spec, of n fl "sys_entry E ret m"] k by auto
  let ?m = "(sys_return E ret m k)\<lparr>vars := (vars m)(cur (sys m) := (vars m (cur (sys m)))(v := ptr))\<rparr>"
  have "\<exists>sg. tab (sys ?m) p = (tab (sys m) p)\<lparr>segs := sg\<rparr>" for p
    by (rule exI [of _ "if p = cur (sys m) then sg else segs (tab (sys m) p)"]) (simp add: sys_return_def sg)
  then have "flat_ok E P ?m \<and> total_work E P m = Suc (total_work E P ?m) \<and> total_text E P ?m = total_text E P m"
    by (intro advance [OF ok at(1,2) _ _ at(3) _ _ _ nxt(2)]) (simp_all add: sys_return_def nxt sg)
  then show ?thesis by (simp add: t_expand_def k)
qed

section \<open>Making a thread\<close>

text \<open>What the parameter \<open>get_new_ctx\<close> promises besides: it finds a context when there is one.\<close>

definition new_ctx_found :: "'o sched_ops \<Rightarrow> bool" where
  "new_ctx_found A \<longleftrightarrow> (\<forall>k. (\<exists>p. 1 \<le> p \<and> p < 16 \<and> state (tab k p) = UNUSED) \<longrightarrow> get_new_ctx A k \<noteq> None)"

lemma count_digits_small: "p < 16 \<Longrightarrow> count_digits p \<le> 2"
  by (subst count_digits.simps, subst count_digits.simps, subst count_digits.simps) auto

lemma length_fill: "length (fill_digits n p str) = length str"
  by (induction n arbitrary: p str) auto

lemma clone_name_defined:
  assumes "name_ok nm" and "p < 16"
  shows "\<exists>b. clone_name junk nm p = Inr b"
proof -
  have "takeWhile (\<lambda>c. c \<noteq> CHR 0x00) nm \<noteq> nm" using assms(1) by (auto simp: name_ok_def takeWhile_eq_all_conv)
  then have "length (takeWhile (\<lambda>c. c \<noteq> CHR 0x00) nm) < length nm"
    by (metis length_takeWhile_le linorder_not_less order_antisym_conv take_all_iff takeWhile_eq_take)
  then show ?thesis
    using assms(1) count_digits_small [OF assms(2)]
    by (simp add: clone_name_def Let_def length_fill name_ok_def)
qed

lemma room_unused:
  assumes "card (live m) < 15"
  shows "\<exists>p. 1 \<le> p \<and> p < 16 \<and> state (tab (sys m) p) = UNUSED"
proof (rule ccontr)
  assume "\<nexists>p. 1 \<le> p \<and> p < 16 \<and> state (tab (sys m) p) = UNUSED"
  then have "live m = {1 ..< 16}" by (auto simp: live_def)
  then show False using assms by simp
qed

lemma clone_handlers:
  assumes "do_clone A junk f st k = Inr (r, k')" and "tab k' n \<noteq> tab k n"
  shows "sighandlers (tab k' n) = map (\<lambda>j. sighandlers (tab k 1) ! j) [0 ..< MAX_SIGNALS]"
  using assms by (auto simp: do_clone_def Let_def rbind_eq_Inr fun_upd_def split: option.splits prod.splits if_splits)

lemma clone_busy:
  assumes A: "new_ctx_ok A" "new_ctx_found A" and b: "busy k" and c: "cur k = 1"
    and room: "\<exists>p. 1 \<le> p \<and> p < 16 \<and> state (tab k p) = UNUSED" and nm: "name_ok (name (tab k 1))"
  obtains n r k' where "do_clone A junk f st k = Inr (r, k')" "1 < n" "n < 16" "state (tab k n) = UNUSED"
    "busy k'" "cur k' = 1" "state (tab k' n) = READY" "\<forall>p. p \<noteq> n \<longrightarrow> tab k' p = tab k p" "entry_rip (regs (tab k' n)) = f"
proof -
  have ok: "sched_ok k" using b by (simp add: busy_def)
  obtain n0 where n0: "get_new_ctx A k = Some n0" using A(2) room by (auto simp: new_ctx_found_def)
  then have "n0 < 16" using A(1) by (auto simp: new_ctx_ok_def)
  then obtain b where "clone_name junk (name (tab k 1)) (pid (tab k n0)) = Inr b"
    using clone_name_defined [OF nm] sched_okD(2) [OF ok] by metis
  moreover obtain a al where "pt_alloc A (alloc k) = (a, al)" by fastforce
  ultimately obtain k' where run: "do_clone A junk f st k = Inr (0, k')"
    using n0 by (simp add: do_clone_def Let_def)
  obtain n nm' where n: "0 < n" "n < 16" "state (tab k n) = UNUSED" "state (tab k' n) = READY"
      "\<forall>p. p \<noteq> n \<longrightarrow> tab k' p = tab k p" "cur k' = cur k" "name (tab k' n) = nm'"
      "clone_name junk (name (tab k 1)) (pid (tab k n)) = Inr nm'"
      "regs (tab k' n) = (regs (tab k 1))\<lparr>entry_cs := 0x23, entry_ss := 0x2b, entry_rip := f,
        entry_rsp := st, rbp := st, entry_rflags := kstack k (os_stack_pfn (tab k 1)) 509\<rparr>"
      "pid (tab k' n) = pid (tab k n)" "ticks_to_sleep (tab k' n) = 0"
    by (rule clone_task [OF run A(1)])
  have "n \<noteq> 1" using n(3) sched_okD(6) [OF ok] c by auto
  have t: "tab k' = (tab k)(n := tab k' n)" using n(5) by auto
  have "sched_ok k'"
    using ok n(1,2,4,6,10,11) \<open>n \<noteq> 1\<close> c unfolding sched_ok_def by (subst (1 2 3 4 5) t) auto
  moreover have "state (tab k' p) \<in> {UNUSED, READY, RUNNING}" if "p < 16" for p
    using \<open>busy k\<close> that n(4,5) by (cases "p = n") (auto simp: busy_def)
  ultimately have "busy k'" using c n(6) by (simp add: busy_def)
  then show ?thesis using that [OF run _ n(2,3)] n(1,4,5,6,9) c \<open>n \<noteq> 1\<close> by simp
qed

text \<open>A sum over the live contexts when \<open>c\<close> has moved on and \<open>n\<close> has come.\<close>

lemma sum_made:
  fixes g :: "'a \<Rightarrow> 'b :: comm_monoid_add"
  assumes "finite L" and "c \<in> L" and "n \<notin> L" and "\<And>p. p \<in> L \<Longrightarrow> p \<noteq> c \<Longrightarrow> r' p = r p"
  shows "(\<Sum>p \<in> insert n L. g (r' p)) = g (r' n) + (g (r' c) + (\<Sum>p \<in> L - {c}. g (r p)))"
    and "(\<Sum>p \<in> L. g (r p)) = g (r c) + (\<Sum>p \<in> L - {c}. g (r p))"
proof -
  have "(\<Sum>p \<in> L - {c}. g (r' p)) = (\<Sum>p \<in> L - {c}. g (r p))" using assms(4) by (intro sum.cong) auto
  then show "(\<Sum>p \<in> insert n L. g (r' p)) = g (r' n) + (g (r' c) + (\<Sum>p \<in> L - {c}. g (r p)))"
    "(\<Sum>p \<in> L. g (r p)) = g (r c) + (\<Sum>p \<in> L - {c}. g (r p))"
    using assms(1-3) by (simp_all add: sum.remove [of L c])
qed

lemma t_clone_flat:
  assumes L: "layout_ok E P" and A: "new_ctx_ok A" "new_ctx_found A" and ok: "flat_ok E P m"
    and at: "rest E P m (cur (sys m)) = UClone f v # xs" "xs \<noteq> []" "main_body P xs" and th: "thread_body (P f)"
    and nxt: "stmt_at E P ret = Some (g, j)" "xs = drop j (P g)"
  shows "\<exists>m'. t_clone A E f st ret m = Inr (Going m') \<and> flat_ok E P m' \<and>
    total_work E P m = Suc (total_work E P m') \<and> total_text E P m' = total_text E P m"
proof -
  have live: "cur (sys m) \<in> live m" by (rule flat_okD(4) [OF ok])
  have c: "cur (sys m) = 1"
    using ok at(1) live by (cases "cur (sys m) = 1") (auto simp: flat_ok_def)
  have card: "card (live m) + Suc (clones xs) \<le> 15" and nm: "name_ok (name (tab (sys m) 1))"
    and ths: "\<And>p. p \<in> live m \<Longrightarrow> p \<noteq> 1 \<Longrightarrow> thread_body (rest E P m p)"
    using ok live at(1) unfolding c by (simp_all add: flat_ok_def del: One_nat_def)
  have calm: "calm (sys m)" by (rule flat_okD(1) [OF ok])
  then have busy: "busy (sys_entry E ret m)" by (simp add: calm_def busy_def)
  obtain n r k' where n: "do_clone A (name_junk E) (addr E f 0) st (sys_entry E ret m) = Inr (r, k')" "1 < n" "n < 16"
      "state (tab (sys m) n) = UNUSED" "busy k'" "cur k' = 1" "state (tab k' n) = READY"
      "\<forall>p. p \<noteq> n \<longrightarrow> tab k' p = tab (sys m) p" "entry_rip (regs (tab k' n)) = addr E f 0"
    by (rule clone_busy [OF A busy, of "name_junk E" "addr E f 0" st])
      (use c room_unused [of m] card nm in \<open>simp_all del: One_nat_def\<close>)
  have "calm k'" using n(2,5,8) calm by (simp add: calm_busy)
  let ?m = "sys_return E ret m k'"
  have lv: "live ?m = insert n (live m)" and nn: "n \<notin> live m"
    using n(2-4,7,8) by (auto simp: live_def sys_return_def split: if_splits)
  have "P f \<noteq> []" using th by auto
  then have rn: "rest E P ?m n = P f"
    using n(2,6,9) stmt_at_addr [OF L, of 0 f] by (simp add: rest_def rip_of_def sys_return_def)
  have r1: "rest E P ?m 1 = xs" using n(6) nxt by (simp add: rest_def rip_of_def sys_return_def)
  have rp: "rest E P ?m p = rest E P m p" if "p \<noteq> 1" "p \<noteq> n" for p
    by (rule rest_cong) (use that n(6,8) c in \<open>simp add: rip_of_def sys_return_def\<close>)
  note sums = sum_made [where L = "live m" and c = 1 and n = n and r' = "rest E P ?m" and r = "rest E P m",
    OF live_finite live [unfolded c] nn, unfolded lv [symmetric]]
  have rp': "\<And>p. p \<in> live m \<Longrightarrow> p \<noteq> 1 \<Longrightarrow> rest E P ?m p = rest E P m p" using rp nn by metis
  have "thread_body (rest E P ?m p)" if "p \<in> live ?m" "p \<noteq> 1" for p
    using that lv rn th ths rp' by (cases "p = n") auto
  moreover have "1 \<in> live ?m" using lv live c by simp
  moreover have "card (live ?m) + clones xs \<le> 15" using lv nn card by simp
  moreover have "tab k' 1 = tab (sys m) 1" using n(2,8) by simp
  ultimately have "flat_ok E P ?m"
    using \<open>calm k'\<close> r1 at(3) nm by (simp add: flat_ok_def sys_return_def del: One_nat_def)
  moreover have "total_work E P m = Suc (total_work E P ?m)"
    using sums [OF rp', where g = "work P"] rn r1 at(1) thread_totals(1) [OF th, of P]
    by (simp add: total_work_def c del: One_nat_def)
  moreover have "total_text E P ?m = total_text E P m"
    using sums [OF rp', where g = "says E P"] rn r1 at(1) thread_totals(2) [OF th, of E P]
    by (simp add: total_text_def c sys_return_def ac_simps del: One_nat_def)
  ultimately show ?thesis using n(1) by (simp add: t_clone_def)
qed

section \<open>Leaving\<close>

lemma calm_live:
  assumes "flat_ok E P m" and "p < 16"
  shows "state (tab (sys m) p) \<in> {UNUSED, READY, RUNNING}"
  using flat_okD(1) [OF assms(1)] assms(2) by (auto simp: calm_def)

lemma t_exit_last:
  assumes ok: "flat_ok E P m" and at: "rest E P m (cur (sys m)) = [UExit code]"
    and None: "first_ready (tab (upd (cur (sys m)) (\<lambda>t. t\<lparr>state := UNUSED\<rparr>) (sys_entry E ret m))) (cur (sys m)) = None"
  shows "\<exists>m'. t_exit A E ret m = Ended m' \<and> total_work E P m = 1 \<and> mset (map snd (written m')) = total_text E P m"
proof -
  let ?c = "cur (sys m)" and ?k = "sys_entry E ret m"
  let ?k1 = "upd ?c (\<lambda>t. t\<lparr>state := UNUSED\<rparr>) ?k"
  have sok: "sched_ok (sys m)" and c: "?c \<in> live m" by (rule flat_okD [OF ok])+
  note st = calm_live [OF ok]
  have "\<not> is_wait (tab ?k1) ?c"
    using st sched_okD(1) [OF sok] by (fastforce simp: is_wait_def set_search_order)
  then have "t_exit A E ret m = Ended (m\<lparr>sys := print [CleaningUp] ?k1\<rparr>)"
    using None by (simp add: t_exit_def do_exit_def Let_def switched_def pick_next_context_def)
  moreover have "live m = {?c}"
  proof -
    have "state (tab (sys m) p) = UNUSED" if "1 \<le> p" "p < 16" "p \<noteq> ?c" for p
      using first_ready_None [OF sched_okD(1) [OF sok] None that] st [OF that(2)] sched_okD(3) [OF sok that(2)] that
      by auto
    then show ?thesis using c by (auto simp: live_def)
  qed
  ultimately show ?thesis using at by (simp add: total_work_def total_text_def)
qed

text \<open>The switch at an exit, when another process is ready.\<close>

lemma exit_next:
  assumes b: "busy k"
    and Some: "first_ready (tab (upd (cur k) (\<lambda>t. t\<lparr>state := UNUSED\<rparr>) k)) (cur k) = Some n"
  obtains u' k' where "do_exit A k = Resume u' k'" "u' = regs (tab k n)" "cur k' = n" "busy k'" "1 \<le> n" "n < 16"
    "n \<noteq> cur k" "state (tab k n) = READY"
    "tab k' = (tab k)(cur k := (tab k (cur k))\<lparr>state := UNUSED\<rparr>, n := (tab k n)\<lparr>state := RUNNING\<rparr>)"
proof -
  let ?c = "cur k"
  have sok: "sched_ok k" and c0: "?c \<noteq> 0" and st: "\<And>p. p < 16 \<Longrightarrow> state (tab k p) \<in> {UNUSED, READY, RUNNING}"
    using b by (auto simp: busy_def)
  obtain u' k' where run: "do_exit A k = Resume u' k'" and n': "cur k' = n"
    using Some by (auto simp: do_exit_def Let_def pick_next_context_def)
  note fr = first_ready_Some [OF sched_okD(1) [OF sok] Some]
  have g: "gives_way ((tab k ?c)\<lparr>state := UNUSED\<rparr>) k u' k'" by (rule exit_resume [OF sok c0 run])
  then have gw: "u' = regs (tab k n)"
      "tab k' = (tab k)(?c := (tab k ?c)\<lparr>state := UNUSED\<rparr>, n := (tab k n)\<lparr>state := RUNNING\<rparr>)"
    using n' by (auto simp: gives_way_def)
  have "sched_ok k'"
    by (rule gives_way_ok [OF sok g]) (use sched_okD(1,2,7) [OF sok] c0 in simp_all)
  moreover have "state (tab k' p) \<in> {UNUSED, READY, RUNNING}" if "p < 16" for p
    using st [OF that] by (simp add: gw(2))
  ultimately have "busy k'" using fr(1) n' by (simp add: busy_def)
  then show ?thesis using that [OF run gw(1) n'] fr gw(2) by simp
qed

lemma t_exit_next:
  assumes ok: "flat_ok E P m" and at: "rest E P m (cur (sys m)) = [UExit code]"
    and Some: "first_ready (tab (upd (cur (sys m)) (\<lambda>t. t\<lparr>state := UNUSED\<rparr>) (sys_entry E ret m))) (cur (sys m)) = Some n"
  shows "\<exists>m'. t_exit A E ret m = Going m' \<and> flat_ok E P m' \<and>
    total_work E P m = Suc (total_work E P m') \<and> total_text E P m' = total_text E P m"
proof -
  let ?c = "cur (sys m)" and ?k = "sys_entry E ret m"
  have calm: "calm (sys m)" and c: "?c \<in> live m" by (rule flat_okD [OF ok])+
  then have b: "busy ?k" by (simp add: calm_def busy_def)
  have "first_ready (tab (upd (cur ?k) (\<lambda>t. t\<lparr>state := UNUSED\<rparr>) ?k)) (cur ?k) = Some n" using Some by simp
  then obtain u' k' where run: "do_exit A ?k = Resume u' k'" and gw: "u' = regs (tab (sys m) n)" "cur k' = n"
      "tab k' = (tab (sys m))(?c := (tab (sys m) ?c)\<lparr>state := UNUSED\<rparr>, n := (tab (sys m) n)\<lparr>state := RUNNING\<rparr>)"
    and b': "busy k'" and n: "1 \<le> n" "n < 16" "n \<noteq> ?c" "state (tab (sys m) n) = READY"
    by (rule exit_next [where A = A, OF b]) auto
  have "ticks_to_alarm (tab k' p) = ticks_to_alarm (tab (sys m) p)" for p by (auto simp: gw(3))
  then have calm': "calm k'" using calm b' by (simp add: calm_busy)
  let ?m = "m\<lparr>ureg := u', sys := k'\<rparr>"
  have lv: "live ?m = live m - {?c}" and nl: "n \<in> live m" using n gw(3) by (auto simp: live_def split: if_splits)
  have rp: "rest E P ?m p = rest E P m p" if "p \<in> live ?m" for p
    using that lv by (intro rest_cong) (auto simp: rip_of_def gw n(3))
  have flat: "card (live m) + (if 1 \<in> live m then clones (rest E P m 1) else 0) \<le> 15"
      "1 \<in> live m \<Longrightarrow> main_body P (rest E P m 1) \<and> name_ok (name (tab (sys m) 1))"
      "\<And>p. p \<in> live m \<Longrightarrow> p \<noteq> 1 \<Longrightarrow> thread_body (rest E P m p)"
    using ok by (auto simp: flat_ok_def)
  have sub: "p \<in> live ?m \<Longrightarrow> p \<in> live m" for p unfolding lv by blast
  have "card (live ?m) \<le> card (live m)" by (rule card_mono) (use sub in auto)
  then have "card (live ?m) + (if 1 \<in> live ?m then clones (rest E P ?m 1) else 0) \<le> 15"
    using flat(1) rp [of 1] sub [of 1] by (auto split: if_splits)
  moreover have "name (tab k' 1) = name (tab (sys m) 1)" by (auto simp: gw(3))
  moreover have "thread_body (rest E P ?m p)" if "p \<in> live ?m" "p \<noteq> 1" for p
    using flat(3) [OF sub [OF that(1)] that(2)] rp [OF that(1)] by simp
  moreover have "main_body P (rest E P ?m 1) \<and> name_ok (name (tab (sys m) 1))" if "1 \<in> live ?m"
    using flat(2) [OF sub [OF that]] rp [OF that] by simp
  ultimately have "flat_ok E P ?m" unfolding flat_ok_def using calm' by simp
  moreover have "total_work E P m = Suc (total_work E P ?m)" and "total_text E P ?m = total_text E P m"
    using rp lv at c by (simp_all add: total_work_def total_text_def sum.remove [of "live m" ?c])
  ultimately show ?thesis using run by (auto simp: t_exit_def switched_def)
qed

lemma t_exit_flat:
  assumes ok: "flat_ok E P m" and at: "rest E P m (cur (sys m)) = [UExit code]"
  shows "(\<exists>m'. t_exit A E ret m = Going m' \<and> flat_ok E P m' \<and>
      total_work E P m = Suc (total_work E P m') \<and> total_text E P m' = total_text E P m) \<or>
    (\<exists>m'. t_exit A E ret m = Ended m' \<and> total_work E P m = 1 \<and> mset (map snd (written m')) = total_text E P m)"
  using t_exit_last [OF ok at] t_exit_next [OF ok at]
  by (cases "first_ready (tab (upd (cur (sys m)) (\<lambda>t. t\<lparr>state := UNUSED\<rparr>) (sys_entry E ret m))) (cur (sys m))") blast+

section \<open>Whole runs\<close>

lemma user_flat:
  assumes L: "layout_ok E P" and A: "new_ctx_ok A" "new_ctx_found A" and E: "expand_ok E" and ok: "flat_ok E P m"
  shows "(\<exists>m'. user_step A E P m = Inr (Going m') \<and> flat_ok E P m' \<and>
      total_work E P m = Suc (total_work E P m') \<and> total_text E P m' = total_text E P m) \<or>
    (\<exists>m'. user_step A E P m = Inr (Ended m') \<and> total_work E P m = 1 \<and> mset (map snd (written m')) = total_text E P m)"
proof -
  obtain f i x xs where s: "stmt_at E P (entry_rip (ureg m)) = Some (f, i)" "P f ! i = x"
      "rest E P m (cur (sys m)) = x # xs" "xs \<noteq> [] \<Longrightarrow> stmt_at E P (addr E f (Suc i)) = Some (f, Suc i)"
      "xs = drop (Suc i) (P f)"
    using current_stmt [OF L ok] by metis
  have run: "user_step A E P m = do_stmt A E x (addr E f (Suc i)) m"
    using s(1,2) flat_okD(3) [OF ok] by (simp add: user_step_def)
  have "main_body P (x # xs)" using flat_okD(5) [OF ok flat_okD(4) [OF ok]] s(3) by simp
  then show ?thesis
  proof (cases rule: body_cases)
    case (writes t n)
    from t_write_flat [OF ok s(3) [unfolded writes(1)] writes(2,3) s(4) [OF writes(2)] s(5)]
    show ?thesis by (auto simp: run do_stmt_def writes(1))
  next
    case (expands v n fl)
    from t_expand_flat [OF ok E s(3) [unfolded expands(1)] expands(2,3) s(4) [OF expands(2)] s(5)]
    show ?thesis by (auto simp: run do_stmt_def expands(1))
  next
    case (makes g v)
    from t_clone_flat [OF L A ok s(3) [unfolded makes(1)] makes(2-4) s(4) [OF makes(2)] s(5)]
    show ?thesis by (auto simp: run do_stmt_def makes(1))
  next
    case (exits code)
    from t_exit_flat [OF ok s(3) [unfolded exits]] show ?thesis by (simp add: run do_stmt_def exits(1))
  qed
qed

text \<open>However the interrupts fall, the run ends when its statements have been made.\<close>

lemma flat_run:
  assumes L: "layout_ok E P" and A: "new_ctx_ok A" "new_ctx_found A" and E: "expand_ok E"
  shows "flat_ok E P m \<Longrightarrow> total_work E P m \<le> length (filter Not bs) \<Longrightarrow>
    \<exists>m'. exec A E P bs m = Inr (Ended m') \<and> mset (map snd (written m')) = total_text E P m"
proof (induction bs arbitrary: m)
  case Nil
  have "0 < total_work E P m"
  proof -
    have "cur (sys m) \<in> live m" "main_body P (rest E P m (cur (sys m)))" using flat_okD(4,5) [OF Nil(1)] by simp_all
    then have "0 < work P (rest E P m (cur (sys m)))" by (cases "rest E P m (cur (sys m))") (auto elim!: body_cases)
    then show ?thesis
      using \<open>cur (sys m) \<in> live m\<close> by (simp add: total_work_def sum.remove [of _ "cur (sys m)"])
  qed
  then show ?case using Nil by simp
next
  case (Cons b bs)
  show ?case
  proof (cases b)
    case True
    then obtain m' where "tick_step A E m = Inr (Going m')" "flat_ok E P m'" "total_work E P m' = total_work E P m"
        "total_text E P m' = total_text E P m"
      using tick_flat [OF Cons.prems(1)] by blast
    then show ?thesis using Cons.IH [of m'] Cons.prems(2) True by simp
  next
    case False
    from user_flat [OF L A E Cons.prems(1)] show ?thesis
    proof (elim disjE exE conjE)
      fix m' assume "user_step A E P m = Inr (Going m')" "flat_ok E P m'" "total_work E P m = Suc (total_work E P m')"
        "total_text E P m' = total_text E P m"
      then show ?thesis using Cons.IH [of m'] Cons.prems(2) False by simp
    qed (use False in simp)
  qed
qed

end
