(* ===== verification/Thread_Alone.thy ===== *)
theory Thread_Alone
  imports Thread_Run
begin

text \<open>
  A system in which \<open>init\<close> is the only process: its alarm, and its sleep while the swapper runs.
  From these the runs of the programs that sleep and set an alarm are put together.
\<close>

section \<open>The table\<close>

definition alone :: "'o sched \<Rightarrow> bool" where
  "alone k \<longleftrightarrow> sched_ok k \<and> (\<forall>p \<in> {2 ..< 16}. state (tab k p) = UNUSED)"

lemma alone_other: "alone k \<Longrightarrow> p < 16 \<Longrightarrow> p \<noteq> 0 \<Longrightarrow> p \<noteq> 1 \<Longrightarrow> state (tab k p) = UNUSED"
  by (simp add: alone_def)

lemma tick_run:
  assumes ok: "sched_ok k" and c: "cur k < 16"
    and al: "tick_alarm A (entry_rsp u) (entry_rip u) (print [Tick (numticks k + 1), CurrentPid (cur k)] (k\<lparr>numticks := numticks k + 1\<rparr>)) =
      Inr (Inr (sp, ip, k2))"
  shows "handle_timer_tick A junk u k = Inr (tick_switch junk (push_regs (gprs u) [])
      (u\<lparr>entry_rip := ip, entry_rsp := sp\<rparr>) (u\<lparr>entry_rip := ip, entry_rsp := sp\<rparr>) (wake_all k2))"
    and "same_tasks k k2"
proof -
  show "handle_timer_tick A junk u k = Inr (tick_switch junk (push_regs (gprs u) [])
      (u\<lparr>entry_rip := ip, entry_rsp := sp\<rparr>) (u\<lparr>entry_rip := ip, entry_rsp := sp\<rparr>) (wake_all k2))"
    using al sched_okD(2) [OF ok c] by (simp add: handle_timer_tick_def Let_def)
  show "same_tasks k k2" using tick_alarm_ok [OF al] by (auto simp: same_tasks_def)
qed

text \<open>The state after the countdown of the alarm.\<close>

definition counted :: "'o sched \<Rightarrow> 'o sched" where
  "counted k = (let k1 = print [Tick (numticks k + 1), CurrentPid (cur k)] (k\<lparr>numticks := numticks k + 1\<rparr>)
     in if ticks_to_alarm (tab k 1) = 0 then k1 else upd 1 (\<lambda>t. t\<lparr>ticks_to_alarm := ticks_to_alarm t - 1\<rparr>) k1)"

lemma alarm_counts:
  assumes "ticks_to_alarm (tab k 1) \<noteq> 1"
  shows "tick_alarm A sp ip (print [Tick (numticks k + 1), CurrentPid (cur k)] (k\<lparr>numticks := numticks k + 1\<rparr>)) =
    Inr (Inr (sp, ip, counted k))"
proof -
  have "1 \<le> x \<longleftrightarrow> x \<noteq> 0" "x - 1 = 0 \<longleftrightarrow> x = 1" for x :: "32 word"
    by (simp_all add: word_le_nat_alt Suc_le_eq unat_gt_0)
  then show ?thesis using assms by (simp add: tick_alarm_def counted_def Let_def)
qed

section \<open>Running\<close>

lemma tick_alone:
  assumes al: "alone k" and c: "cur k = 1"
    and st: "tick_alarm A (entry_rsp u) (entry_rip u) (print [Tick (numticks k + 1), CurrentPid (cur k)] (k\<lparr>numticks := numticks k + 1\<rparr>)) =
      Inr (Inr (sp, ip, k2))"
  obtains k' where "handle_timer_tick A junk u k = Inr (Resume (u\<lparr>entry_rip := ip, entry_rsp := sp\<rparr>) k')"
    "alone k'" "cur k' = 1" "ticks_to_alarm (tab k' 1) = ticks_to_alarm (tab k2 1)"
    "alarm_config_time (tab k' 1) = alarm_config_time (tab k2 1)" "sighandlers (tab k' 1) = sighandlers (tab k2 1)"
    "umem k' = umem k2"
proof -
  have ok: "sched_ok k" and c16: "cur k < 16" using al c by (simp_all add: alone_def)
  note h = tick_run(1) [OF ok c16 st, of junk] and same = tick_run(2) [OF ok c16 st]
  have "pid (tab k2 (cur k2)) \<noteq> 0" using same sched_okD(2) [OF ok c16] c by (simp add: same_tasks_def)
  then obtain u' k' where sw: "tick_switch junk (push_regs (gprs u) []) (u\<lparr>entry_rip := ip, entry_rsp := sp\<rparr>)
      (u\<lparr>entry_rip := ip, entry_rsp := sp\<rparr>) (wake_all k2) = Resume u' k'"
    using tick_switch_returns by blast
  note r = tick_switch_resume [OF ok same sw] and f = tick_switch_fields [OF sw]
  have "cur k' \<noteq> 0"
    by (rule tick_switch_process [OF sw]) (use same c sched_okD(2) [OF ok c16] in \<open>auto simp: same_tasks_def\<close>)
  moreover have "cur k' < 16" "tick_state k (cur k') = READY" by (rule r; simp)+
  moreover have un: "tick_state k p = UNUSED" if "p < 16" "p \<noteq> 0" "p \<noteq> 1" for p
    using sched_okD(4) [OF ok that(1)] alone_other [OF al that] that c by (auto simp: tick_state_def)
  ultimately have c': "cur k' = 1" by (metis pstate.distinct(3))
  have "after_tick u k u' k'" using tick_after [OF ok] h sw by simp
  from after_tick_ok [OF ok this] have "alone k'"
    unfolding alone_def using r(3) c' un by simp
  moreover have "u' = u\<lparr>entry_rip := ip, entry_rsp := sp\<rparr>" using r(7) c c' by simp
  ultimately show ?thesis using that [of k'] h sw f c' by simp
qed

text \<open>Without an alarm due the process goes on as it was; when it is due, in its handler.\<close>

lemma tick_quiet:
  assumes "alone k" and "cur k = 1" and "ticks_to_alarm (tab k 1) \<noteq> 1"
  obtains k' where "handle_timer_tick A junk u k = Inr (Resume u k')" "alone k'" "cur k' = 1"
    "ticks_to_alarm (tab k' 1) = ticks_to_alarm (tab k 1) - (if ticks_to_alarm (tab k 1) = 0 then 0 else 1)"
    "alarm_config_time (tab k' 1) = alarm_config_time (tab k 1)" "sighandlers (tab k' 1) = sighandlers (tab k 1)"
    "umem k' = umem k"
  by (rule tick_alone [OF assms(1,2) alarm_counts [OF assms(3)], where A = A and junk = junk and u = u])
    (use that in \<open>simp add: counted_def Let_def split: if_splits\<close>)

lemma tick_due:
  assumes al: "alone k" and c: "cur k = 1" and due: "ticks_to_alarm (tab k 1) = 1"
    and h: "2 < length (sighandlers (tab k 1))" "sighandlers (tab k 1) ! 2 \<noteq> 0"
  obtains k' where "handle_timer_tick A junk u k =
      Inr (Resume (u\<lparr>entry_rip := sighandlers (tab k 1) ! 2, entry_rsp := entry_rsp u - 8\<rparr>) k')" "alone k'" "cur k' = 1"
    "ticks_to_alarm (tab k' 1) = alarm_config_time (tab k 1)"
    "alarm_config_time (tab k' 1) = alarm_config_time (tab k 1)" "sighandlers (tab k' 1) = sighandlers (tab k 1)"
    "umem k' = write_u64 (entry_rsp u - 8) (entry_rip u) (umem k)"
proof -
  let ?k1 = "print [Tick (numticks k + 1), CurrentPid (cur k)] (k\<lparr>numticks := numticks k + 1\<rparr>)"
  obtain k2 where k2: "tick_alarm A (entry_rsp u) (entry_rip u) ?k1 =
      Inr (Inr (entry_rsp u - 8, sighandlers (tab k 1) ! 2, k2))"
    "ticks_to_alarm (tab k2 1) = alarm_config_time (tab k 1)" "alarm_config_time (tab k2 1) = alarm_config_time (tab k 1)"
    "sighandlers (tab k2 1) = sighandlers (tab k 1)" "umem k2 = write_u64 (entry_rsp u - 8) (entry_rip u) (umem k)"
    using due h c by (simp add: tick_alarm_def invoke_sync_signal_def Let_def)
  from tick_alone [OF al c k2(1), of junk] show ?thesis using that k2(2-5) by metis
qed

section \<open>Sleeping\<close>

text \<open>\<open>init\<close> sleeps for \<open>n\<close> ticks more, the swapper runs.\<close>

definition asleep :: "32 word \<Rightarrow> 'o sched \<Rightarrow> bool" where
  "asleep n k \<longleftrightarrow> alone k \<and> cur k = 0 \<and> n \<noteq> 0 \<and> state (tab k 1) = WAITING \<and> ticks_to_sleep (tab k 1) = n \<and>
     ticks_to_alarm (tab k 1) = 0"

lemma sleep_alone:
  assumes al: "alone k" and c: "cur k = 1" and n: "n \<noteq> 0" and alarm: "ticks_to_alarm (tab k 1) = 0"
  obtains u' k' where "do_sleep n k = Resume u' k'" "asleep n k'"
    "entry_rip (regs (tab k' 1)) = kstack k (os_stack_pfn (tab k 1)) 507"
    "entry_rsp (regs (tab k' 1)) = kstack k (os_stack_pfn (tab k 1)) 510"
    "sighandlers (tab k' 1) = sighandlers (tab k 1)"
proof -
  have ok: "sched_ok k" using al by (simp add: alone_def)
  obtain u' k' where run: "do_sleep n k = Resume u' k'" using sleep_returns by blast
  note gw = sleep_resume [OF ok _ run, unfolded gives_way_def c]
  then have k': "cur k' < 16" "cur k' \<noteq> 1" "state (tab k (cur k')) = READY"
    and tab: "tab k' = (tab k)(1 := (tab k 1)\<lparr>ticks_to_sleep := n, state := WAITING,
      regs := (regs (tab k 1))\<lparr>rbp := kstack k (os_stack_pfn (tab k 1)) 501,
        entry_rip := kstack k (os_stack_pfn (tab k 1)) 507, entry_rflags := kstack k (os_stack_pfn (tab k 1)) 509,
        entry_rsp := kstack k (os_stack_pfn (tab k 1)) 510, entry_cs := 0x23, entry_ss := 0x2b\<rparr>\<rparr>,
      cur k' := (tab k (cur k'))\<lparr>state := RUNNING\<rparr>)" by simp_all
  have c': "cur k' = 0" using alone_other [OF al k'(1)] k'(2,3) by fastforce
  have "sched_ok k'"
    by (rule gives_way_ok [OF ok sleep_resume [OF ok _ run]]) (use c sched_okD(2) [OF ok, of 1] in simp_all)
  then have "alone k'" using al by (simp add: alone_def tab c')
  then have "asleep n k'" using n alarm by (simp add: asleep_def c' tab)
  then show ?thesis using that [OF run] by (simp add: tab c')
qed

lemma tick_switch_picks:
  "pick_next_context TIMER (upd (cur k) (\<lambda>t. t\<lparr>state := READY\<rparr>) k) \<noteq> None \<Longrightarrow>
   \<exists>u' k'. tick_switch junk stack frame back k = Resume u' k'"
  by (auto simp: tick_switch_def Let_def split: option.split)

lemma tick_asleep:
  assumes as: "asleep n k"
  obtains u' k' where "handle_timer_tick A junk u k = Inr (Resume u' k')"
    "if n = 1 then alone k' \<and> cur k' = 1 \<and> ticks_to_alarm (tab k' 1) = 0 \<and> u' = regs (tab k 1) else asleep (n - 1) k'"
    "regs (tab k' 1) = regs (tab k 1)" "sighandlers (tab k' 1) = sighandlers (tab k 1)"
proof -
  have al: "alone k" and c: "cur k = 0" and n: "n \<noteq> 0" and w: "state (tab k 1) = WAITING" "ticks_to_sleep (tab k 1) = n"
    and alarm: "ticks_to_alarm (tab k 1) = 0" using as by (simp_all add: asleep_def)
  have ok: "sched_ok k" and c16: "cur k < 16" using al c by (simp_all add: alone_def)
  have st: "tick_alarm A (entry_rsp u) (entry_rip u) (print [Tick (numticks k + 1), CurrentPid (cur k)] (k\<lparr>numticks := numticks k + 1\<rparr>)) =
      Inr (Inr (entry_rsp u, entry_rip u, counted k))" by (rule alarm_counts) (use alarm in simp)
  note h = tick_run(1) [OF ok c16 st, of junk] and same = tick_run(2) [OF ok c16 st]
  let ?k3 = "upd (cur (wake_all (counted k))) (\<lambda>t. t\<lparr>state := READY\<rparr>) (wake_all (counted k))"
  have k3: "cur ?k3 = 0" "state (tab ?k3 1) = (if n = 1 then READY else WAITING)"
    using c alarm w by (simp_all add: counted_def Let_def)
  have "pick_next_context TIMER ?k3 \<noteq> None"
  proof (cases "first_ready (tab ?k3) (cur ?k3)")
    case None
    then have "n \<noteq> 1" using first_ready_None [of 0 "tab ?k3" 1] k3 by auto
    then have "is_wait (tab ?k3) (cur ?k3)" using k3 by (auto simp: is_wait_def set_search_order intro!: bexI [of _ 1])
    then show ?thesis using None by (simp add: pick_next_context_def)
  qed (simp add: pick_next_context_def)
  then obtain u' k' where sw: "tick_switch junk (push_regs (gprs u) []) u u (wake_all (counted k)) = Resume u' k'"
    using tick_switch_picks [of "wake_all (counted k)"] by blast
  note r = tick_switch_resume [OF ok same sw refl refl] and f = tick_switch_fields [OF sw]
  have un: "tick_state k p = UNUSED" if "p < 16" "p \<noteq> 0" "p \<noteq> 1" for p
    using sched_okD(4) [OF ok that(1)] alone_other [OF al that] that c by (auto simp: tick_state_def)
  have one: "tick_state k 1 = (if n = 1 then READY else WAITING)" using c w by (simp add: tick_state_def)
  have "cur k' = 0 \<or> cur k' = 1" using r(1,2) un [of "cur k'"] by fastforce
  then have c': "cur k' = (if n = 1 then 1 else 0)"
    using r(2) one r(8) [of 1] c by (auto split: if_splits)
  have "after_tick u k u' k'" using tick_after [OF ok] h sw by simp
  from after_tick_ok [OF ok this] have al': "alone k'"
    unfolding alone_def using r(3) c' un by simp
  have alarm': "ticks_to_alarm (tab k' 1) = 0" "sighandlers (tab k' 1) = sighandlers (tab k 1)"
    using f(1,3) [of 1] alarm by (simp_all add: counted_def Let_def)
  have "asleep (n - 1) k'" if "n \<noteq> 1"
    unfolding asleep_def using al' c' r(3,4) [of 1] one that w n alarm' by (simp add: tick_sleep_def)
  then show ?thesis
    using that [of u' k'] h sw al' c' alarm' r(6) [of 1] r(7) c by simp
qed

end
