(* ===== verification/Thread_Phases.thy ===== *)
theory Thread_Phases
  imports Thread_Alone
begin

text \<open>
  The phases in the life of \<open>init\<close> when it is alone: its statements, its sleep, its loop until the
  alarm, the handler. What happens in a phase does not depend on how many statements of the
  swapper or of the loop come between the interrupts.
\<close>

section \<open>Where the process stands\<close>

definition stands :: "'o uenv \<Rightarrow> ufun \<Rightarrow> nat \<Rightarrow> 'o umach \<Rightarrow> bool" where
  "stands E f j m \<longleftrightarrow> alone (sys m) \<and> cur (sys m) = 1 \<and> entry_rip (ureg m) = addr E f j \<and>
     2 < length (sighandlers (tab (sys m) 1))"

abbreviation alarm_in :: "'o umach \<Rightarrow> 32 word" where
  "alarm_in m \<equiv> ticks_to_alarm (tab (sys m) 1)"

abbreviation alarm_set :: "'o umach \<Rightarrow> 32 word" where
  "alarm_set m \<equiv> alarm_config_time (tab (sys m) 1)"

abbreviation on_alarm :: "'o umach \<Rightarrow> 64 word" where
  "on_alarm m \<equiv> sighandlers (tab (sys m) 1) ! 2"

text \<open>What a phase that writes nothing keeps.\<close>

definition same_proc :: "'o umach \<Rightarrow> 'o umach \<Rightarrow> bool" where
  "same_proc m m' \<longleftrightarrow> written m' = written m \<and> alarm_set m' = alarm_set m \<and> on_alarm m' = on_alarm m"

lemma user_at:
  assumes "layout_ok E P" and "stands E f j m" and "j < length (P f)"
  shows "user_step A E P m = do_stmt A E (P f ! j) (addr E f (Suc j)) m"
  using assms stmt_at_addr [OF assms(1,3)] by (simp add: user_step_def stands_def)

lemma alone_entry [simp]: "alone (sys_entry E ret m) = alone (sys m)"
  by (simp add: alone_def)

lemma alone_fields:
  assumes "alone k" and "cur k' = cur k"
    and "\<And>p. pid (tab k' p) = pid (tab k p) \<and> state (tab k' p) = state (tab k p) \<and> ticks_to_sleep (tab k' p) = ticks_to_sleep (tab k p)"
  shows "alone k'"
  using assms by (simp add: alone_def sched_ok_def)

section \<open>Statements\<close>

lemma write_phase:
  assumes "stands E f j m"
  shows "\<exists>m'. t_write E s n (addr E f (Suc j)) m = Going m' \<and> stands E f (Suc j) m' \<and>
    written m' = written m @ [(1, text_of E s n)] \<and> alarm_in m' = alarm_in m \<and> alarm_set m' = alarm_set m \<and>
    on_alarm m' = on_alarm m \<and> entry_rsp (ureg m') = entry_rsp (ureg m) \<and> umem (sys m') = umem (sys m) \<and>
    vars m' = vars m \<and> sighandlers (tab (sys m') 1) = sighandlers (tab (sys m) 1)"
  using assms by (simp add: t_write_def sys_return_def stands_def text_of_def sys_entry_def Let_def alone_def sched_ok_def)

lemma signal_phase:
  assumes st: "stands E f j m"
  shows "\<exists>m'. t_signal E SIGALRM h (addr E f (Suc j)) m = Inr (Going m') \<and> stands E f (Suc j) m' \<and>
    written m' = written m \<and> alarm_in m' = alarm_in m \<and> alarm_set m' = alarm_set m \<and> on_alarm m' = addr E h 0 \<and>
    sighandlers (tab (sys m') 1) = (sighandlers (tab (sys m) 1))[2 := addr E h 0]"
proof -
  let ?k = "sys_entry E (addr E f (Suc j)) m"
  let ?k' = "upd (cur ?k) (\<lambda>t. t\<lparr>sighandlers := (sighandlers t)[2 := addr E h 0]\<rparr>) ?k"
  have c: "cur ?k = 1" "alone (sys m)" "2 < length (sighandlers (tab (sys m) 1))" using st by (simp_all add: stands_def)
  have "alone ?k'" by (rule alone_fields [OF c(2)]) simp_all
  then have "stands E f (Suc j) (sys_return E (addr E f (Suc j)) m ?k')"
    using c st by (simp add: stands_def sys_return_def)
  moreover have "t_signal E SIGALRM h (addr E f (Suc j)) m = Inr (Going (sys_return E (addr E f (Suc j)) m ?k'))"
    using c by (simp add: t_signal_def do_signal_def)
  ultimately show ?thesis using c by (simp add: sys_return_def)
qed

lemma alarm_phase:
  assumes st: "stands E f j m"
  shows "\<exists>m'. t_alarm E n (addr E f (Suc j)) m = Going m' \<and> stands E f (Suc j) m' \<and>
    written m' = written m \<and> alarm_in m' = n \<and> alarm_set m' = n \<and> on_alarm m' = on_alarm m \<and>
    sighandlers (tab (sys m') 1) = sighandlers (tab (sys m) 1)"
proof -
  let ?k' = "snd (do_alarm n (sys_entry E (addr E f (Suc j)) m))"
  have c: "cur (sys m) = 1" "alone (sys m)" using st by (simp_all add: stands_def)
  have "alone ?k'" by (rule alone_fields [OF c(2)]) (simp_all add: do_alarm_def)
  then have "stands E f (Suc j) (sys_return E (addr E f (Suc j)) m ?k')"
    using c st by (simp add: stands_def sys_return_def do_alarm_def)
  then show ?thesis using c by (simp add: t_alarm_def sys_return_def do_alarm_def)
qed

lemma exit_alone:
  assumes al: "alone k" and c: "cur k = 1"
  shows "\<exists>k'. do_exit A k = Shutdown k'"
proof -
  let ?k1 = "upd (cur k) (\<lambda>t. t\<lparr>state := UNUSED\<rparr>) k"
  have un: "state (tab ?k1 p) = UNUSED" if "p \<in> set (search_order 1)" for p
    using that alone_other [OF al, of p] by (simp add: search_order_def c)
  have "first_ready (tab ?k1) 1 = None" "\<not> is_wait (tab ?k1) 1"
    using un by (auto simp: first_ready_def find_None_iff is_wait_def)
  then show ?thesis using c by (simp add: do_exit_def Let_def pick_next_context_def)
qed

lemma exit_phase:
  assumes "stands E f j m"
  shows "\<exists>m'. t_exit A E ret m = Ended m' \<and> written m' = written m"
  using exit_alone [of "sys_entry E ret m" A] assms by (auto simp: stands_def t_exit_def switched_def)

section \<open>Sleep\<close>

definition sleeps :: "'o uenv \<Rightarrow> ufun \<Rightarrow> nat \<Rightarrow> 32 word \<Rightarrow> 'o umach \<Rightarrow> bool" where
  "sleeps E f j n m \<longleftrightarrow> asleep n (sys m) \<and> entry_rip (regs (tab (sys m) 1)) = addr E f j \<and>
     2 < length (sighandlers (tab (sys m) 1))"

lemma sleep_phase:
  assumes st: "stands E f j m" and n: "n \<noteq> 0" and a: "alarm_in m = 0"
  shows "\<exists>m'. t_sleep E n (addr E f (Suc j)) m = Going m' \<and> sleeps E f (Suc j) n m' \<and> written m' = written m"
proof -
  let ?k = "sys_entry E (addr E f (Suc j)) m"
  have al: "alone ?k" "cur ?k = 1" "ticks_to_alarm (tab ?k 1) = 0" "cur (sys m) = 1" using st a by (simp_all add: stands_def)
  obtain u' k' where r: "do_sleep n ?k = Resume u' k'" "asleep n k'"
      "entry_rip (regs (tab k' 1)) = kstack ?k (os_stack_pfn (tab ?k 1)) 507"
      "sighandlers (tab k' 1) = sighandlers (tab ?k 1)"
    using sleep_alone [OF al(1,2) n al(3)] by metis
  have "kstack ?k (os_stack_pfn (tab ?k 1)) 507 = addr E f (Suc j)" using al(4) by (simp add: sys_entry_def Let_def)
  then show ?thesis using r st by (simp add: t_sleep_def switched_def sleeps_def stands_def)
qed

text \<open>A phase with \<open>n\<close> interrupts, the last of which ends it.\<close>

definition ticks :: "nat \<Rightarrow> bool list \<Rightarrow> bool" where
  "ticks n ts \<longleftrightarrow> length (filter id ts) = n \<and> (ts \<noteq> [] \<longrightarrow> last ts)"

lemma ticks_Cons: "ticks n (b # ts) \<longleftrightarrow> (if b then 0 < n \<and> ticks (n - 1) ts else 0 < n \<and> ticks n ts)"
proof (cases "ts = []")
  case True
  then show ?thesis by (auto simp: ticks_def)
next
  case False
  have "filter id ts \<noteq> []" if "last ts" using last_in_set [OF False] that by (auto simp: filter_empty_conv)
  then show ?thesis using False by (auto simp: ticks_def)
qed

lemma ticks_Nil [simp]: "ticks n [] \<longleftrightarrow> n = 0"
  by (auto simp: ticks_def)

lemma sleeping_phase:
  assumes "sleeps E f j n m" and "ticks (unat n) ts"
  shows "\<exists>m'. (\<forall>bs. exec A E P (ts @ bs) m = exec A E P bs m') \<and> stands E f j m' \<and> alarm_in m' = 0 \<and> written m' = written m"
  using assms
proof (induction ts arbitrary: n m)
  case Nil
  then show ?case by (simp add: sleeps_def asleep_def unat_eq_0)
next
  case (Cons b ts)
  have as: "asleep n (sys m)" using Cons.prems(1) by (simp add: sleeps_def)
  show ?case
  proof (cases b)
    case False
    then have "exec A E P ((b # ts) @ bs) m = exec A E P (ts @ bs) m" for bs using as by (simp add: user_step_def asleep_def)
    then show ?thesis using Cons.IH [OF Cons.prems(1)] Cons.prems(2) False by (simp add: ticks_Cons)
  next
    case True
    obtain u' k' where t: "handle_timer_tick A (tick_junk E) (ureg m) (sys m) = Inr (Resume u' k')"
        "if n = 1 then alone k' \<and> cur k' = 1 \<and> ticks_to_alarm (tab k' 1) = 0 \<and> u' = regs (tab (sys m) 1) else asleep (n - 1) k'"
        "regs (tab k' 1) = regs (tab (sys m) 1)" "sighandlers (tab k' 1) = sighandlers (tab (sys m) 1)"
      by (rule tick_asleep [OF as])
    let ?m = "m\<lparr>ureg := u', sys := k'\<rparr>"
    have run: "exec A E P ((b # ts) @ bs) m = exec A E P (ts @ bs) ?m" for bs
      using t(1) True by (simp add: tick_step_def switched_def)
    have n0: "n \<noteq> 0" using as by (simp add: asleep_def)
    show ?thesis
    proof (cases "n = 1")
      case True
      then have "ts = []" using Cons.prems(2) \<open>b\<close> by (cases ts) (simp_all add: ticks_Cons split: if_splits)
      then show ?thesis using run t True Cons.prems(1) by (intro exI [of _ ?m]) (simp add: stands_def sleeps_def)
    next
      case False
      have "sleeps E f j (n - 1) ?m" using t False Cons.prems(1) by (simp add: sleeps_def)
      moreover have "unat (n - 1) = unat n - 1" using n0 by (simp add: unat_minus_one)
      ultimately show ?thesis
        using Cons.IH [of "n - 1" ?m] Cons.prems(2) run \<open>b\<close> by (simp add: ticks_Cons)
    qed
  qed
qed

section \<open>The loop and the alarm\<close>

text \<open>An interrupt at which no alarm is due, and one at which it is.\<close>

lemma quiet_tick:
  assumes st: "stands E f j m" and a: "alarm_in m \<noteq> 1"
  obtains k' where "tick_step A E m = Inr (Going (m\<lparr>sys := k'\<rparr>))" "stands E f j (m\<lparr>sys := k'\<rparr>)"
    "same_proc m (m\<lparr>sys := k'\<rparr>)" "ticks_to_alarm (tab k' 1) = alarm_in m - (if alarm_in m = 0 then 0 else 1)"
    "sighandlers (tab k' 1) = sighandlers (tab (sys m) 1)" "umem k' = umem (sys m)"
proof -
  have al: "alone (sys m)" and c: "cur (sys m) = 1" using st by (simp_all add: stands_def)
  obtain k' where "handle_timer_tick A (tick_junk E) (ureg m) (sys m) = Inr (Resume (ureg m) k')" "alone k'"
      "cur k' = 1" "ticks_to_alarm (tab k' 1) = alarm_in m - (if alarm_in m = 0 then 0 else 1)"
      "alarm_config_time (tab k' 1) = alarm_set m" "sighandlers (tab k' 1) = sighandlers (tab (sys m) 1)"
      "umem k' = umem (sys m)"
    by (rule tick_quiet [OF al c a])
  then show ?thesis
    using that [of k'] st by (simp add: tick_step_def switched_def stands_def same_proc_def)
qed

lemma due_tick:
  assumes st: "stands E f j m" and a: "alarm_in m = 1" and h: "on_alarm m = addr E g 0" "addr E g 0 \<noteq> 0"
  obtains m' where "tick_step A E m = Inr (Going m')" "stands E g 0 m'" "same_proc m m'" "alarm_in m' = alarm_set m"
    "sighandlers (tab (sys m') 1) = sighandlers (tab (sys m) 1)" "vars m' = vars m"
    "entry_rsp (ureg m') = entry_rsp (ureg m) - 8"
    "umem (sys m') = write_u64 (entry_rsp (ureg m) - 8) (addr E f j) (umem (sys m))"
proof -
  have al: "alone (sys m)" and c: "cur (sys m) = 1" and len: "2 < length (sighandlers (tab (sys m) 1))"
    and rip: "entry_rip (ureg m) = addr E f j" using st by (simp_all add: stands_def)
  have "on_alarm m \<noteq> 0" using h by simp
  then obtain k' where k': "handle_timer_tick A (tick_junk E) (ureg m) (sys m) =
        Inr (Resume ((ureg m)\<lparr>entry_rip := on_alarm m, entry_rsp := entry_rsp (ureg m) - 8\<rparr>) k')"
      "alone k'" "cur k' = 1" "ticks_to_alarm (tab k' 1) = alarm_set m" "alarm_config_time (tab k' 1) = alarm_set m"
      "sighandlers (tab k' 1) = sighandlers (tab (sys m) 1)"
      "umem k' = write_u64 (entry_rsp (ureg m) - 8) (entry_rip (ureg m)) (umem (sys m))"
    by (rule tick_due [OF al c a len])
  let ?m = "m\<lparr>ureg := (ureg m)\<lparr>entry_rip := on_alarm m, entry_rsp := entry_rsp (ureg m) - 8\<rparr>, sys := k'\<rparr>"
  show ?thesis
    by (rule that [of ?m]) (use k' h len rip in \<open>simp_all add: tick_step_def switched_def stands_def same_proc_def\<close>)
qed

text \<open>In \<open>while(1);\<close> until the alarm is due; then at the handler, with the way back on the stack.\<close>

lemma spin_phase:
  assumes L: "layout_ok E P" and st: "stands E f j m" and sp: "j < length (P f)" "P f ! j = USpin"
    and a: "alarm_in m \<noteq> 0" and h: "on_alarm m = addr E g 0" "addr E g 0 \<noteq> 0" and ts: "ticks (unat (alarm_in m)) ts"
  shows "\<exists>m'. (\<forall>bs. exec A E P (ts @ bs) m = exec A E P bs m') \<and> stands E g 0 m' \<and> alarm_in m' = alarm_set m \<and>
    same_proc m m' \<and> entry_rsp (ureg m') = entry_rsp (ureg m) - 8 \<and>
    read_u64 (entry_rsp (ureg m')) (umem (sys m')) = addr E f j"
  using st a h ts
proof (induction ts arbitrary: m)
  case Nil
  then show ?case by (simp add: unat_eq_0)
next
  case (Cons b ts)
  show ?case
  proof (cases b)
    case False
    then have "exec A E P ((b # ts) @ bs) m = exec A E P (ts @ bs) m" for bs
      using user_at [OF L Cons.prems(1) sp(1), of A] sp(2) by (simp add: do_stmt_def)
    then show ?thesis using Cons.IH [OF Cons.prems(1-4)] Cons.prems(5) False by (simp add: ticks_Cons)
  next
    case True
    show ?thesis
    proof (cases "alarm_in m = 1")
      case due: True
      then have "ts = []" using Cons.prems(5) \<open>b\<close> by (cases ts) (simp_all add: ticks_Cons split: if_splits)
      obtain m' where "tick_step A E m = Inr (Going m')" "stands E g 0 m'" "same_proc m m'" "alarm_in m' = alarm_set m"
          "entry_rsp (ureg m') = entry_rsp (ureg m) - 8"
          "umem (sys m') = write_u64 (entry_rsp (ureg m) - 8) (addr E f j) (umem (sys m))"
        by (rule due_tick [OF Cons.prems(1) due Cons.prems(3,4)])
      then show ?thesis using \<open>ts = []\<close> \<open>b\<close> by (intro exI [of _ m']) simp
    next
      case False
      obtain k' where k': "tick_step A E m = Inr (Going (m\<lparr>sys := k'\<rparr>))" "stands E f j (m\<lparr>sys := k'\<rparr>)"
          "same_proc m (m\<lparr>sys := k'\<rparr>)" "ticks_to_alarm (tab k' 1) = alarm_in m - (if alarm_in m = 0 then 0 else 1)"
        by (rule quiet_tick [OF Cons.prems(1) False])
      have a': "alarm_in (m\<lparr>sys := k'\<rparr>) \<noteq> 0" "unat (alarm_in (m\<lparr>sys := k'\<rparr>)) = unat (alarm_in m) - 1"
        using k'(4) Cons.prems(2) False by (simp_all add: unat_minus_one)
      then have "ticks (unat (alarm_in (m\<lparr>sys := k'\<rparr>))) ts" using Cons.prems(5) \<open>b\<close> by (simp add: ticks_Cons)
      then show ?thesis
        using Cons.IH [OF k'(2) a'(1) _ Cons.prems(4)] Cons.prems(3) k'(1,3) \<open>b\<close> by (simp add: same_proc_def)
    qed
  qed
qed

lemma return_phase:
  assumes "stands E f j m" and "read_u64 (entry_rsp (ureg m)) (umem (sys m)) = addr E g i"
  shows "\<exists>m'. do_stmt A E UReturn ret m = Inr (Going m') \<and> stands E g i m' \<and> same_proc m m' \<and> alarm_in m' = alarm_in m"
  using assms by (simp add: do_stmt_def Let_def stands_def same_proc_def)

section \<open>The sleepers\<close>

lemma exec_stmt:
  assumes "layout_ok E P" and "stands E f j m" and "j < length (P f)" and "P f ! j = x"
    and "do_stmt A E x (addr E f (Suc j)) m = Inr s"
  shows "exec A E P (False # bs) m = (case s of Going m' \<Rightarrow> exec A E P bs m' | Ended m' \<Rightarrow> Inr (Ended m'))"
  using user_at [OF assms(1-3), of A] assms(4,5) by simp

text \<open>What \<open>init_old.c\<close> and \<open>init _m.c\<close> have in common, up to \<open>while(1);\<close>.\<close>

definition sleeper :: "ustmt list" where
  "sleeper = [UWrite (''aaaaaa'' @ newline) 12, USleep 10, UWrite (''aaaaaa'' @ newline) 12, USleep 5,
     UWrite (''dddd'' @ newline) 10, USignal SIGALRM Fu, UAlarm 5, USpin]"

lemma sleeper_write:
  assumes "layout_ok E P" and "stands E f j m" and "j < length (P f)" and "P f ! j = UWrite s n"
  obtains m' where "\<forall>bs. exec A E P (False # bs) m = exec A E P bs m'" "stands E f (Suc j) m'"
    "written m' = written m @ [(1, text_of E s n)]" "alarm_in m' = alarm_in m" "alarm_set m' = alarm_set m"
    "on_alarm m' = on_alarm m" "entry_rsp (ureg m') = entry_rsp (ureg m)" "umem (sys m') = umem (sys m)"
proof -
  obtain m' where m': "t_write E s n (addr E f (Suc j)) m = Going m'" "stands E f (Suc j) m'"
      "written m' = written m @ [(1, text_of E s n)]" "alarm_in m' = alarm_in m" "alarm_set m' = alarm_set m"
      "on_alarm m' = on_alarm m" "entry_rsp (ureg m') = entry_rsp (ureg m)" "umem (sys m') = umem (sys m)"
    using write_phase [OF assms(2)] by blast
  have "exec A E P (False # bs) m = exec A E P bs m'" for bs
    using exec_stmt [OF assms, of A "Going m'" bs] m'(1) by (simp add: do_stmt_def)
  then show ?thesis using that m'(2-8) by blast
qed

lemma sleeper_sleep:
  assumes "layout_ok E P" and "stands E f j m" and "j < length (P f)" and "P f ! j = USleep n"
    and "n \<noteq> 0" and "alarm_in m = 0" and "ticks (unat n) ts"
  obtains m' where "\<forall>bs. exec A E P (False # ts @ bs) m = exec A E P bs m'" "stands E f (Suc j) m'"
    "written m' = written m" "alarm_in m' = 0"
proof -
  obtain m1 where m1: "t_sleep E n (addr E f (Suc j)) m = Going m1" "sleeps E f (Suc j) n m1" "written m1 = written m"
    using sleep_phase [OF assms(2,5,6)] by blast
  have run: "exec A E P (False # bs) m = exec A E P bs m1" for bs
    using exec_stmt [OF assms(1-4), of A "Going m1" bs] m1(1) by (simp add: do_stmt_def)
  obtain m' where "\<forall>bs. exec A E P (ts @ bs) m1 = exec A E P bs m'" "stands E f (Suc j) m'" "alarm_in m' = 0"
      "written m' = written m1"
    using sleeping_phase [OF m1(2) assms(7), of A P] by blast
  then show ?thesis using that [of m'] run m1(3) by simp
qed

lemma sleeper_signal_alarm:
  assumes "layout_ok E P" and "stands E f j m" and "Suc j < length (P f)"
    and "P f ! j = USignal SIGALRM h" and "P f ! Suc j = UAlarm n"
  obtains m' where "\<forall>bs. exec A E P (False # False # bs) m = exec A E P bs m'" "stands E f (Suc (Suc j)) m'"
    "written m' = written m" "alarm_in m' = n" "alarm_set m' = n" "on_alarm m' = addr E h 0"
proof -
  obtain m1 where m1: "t_signal E SIGALRM h (addr E f (Suc j)) m = Inr (Going m1)" "stands E f (Suc j) m1"
      "written m1 = written m" "on_alarm m1 = addr E h 0"
    using signal_phase [OF assms(2)] by blast
  obtain m2 where m2: "t_alarm E n (addr E f (Suc (Suc j))) m1 = Going m2" "stands E f (Suc (Suc j)) m2"
      "written m2 = written m1" "alarm_in m2 = n" "alarm_set m2 = n" "on_alarm m2 = on_alarm m1"
    using alarm_phase [OF m1(2)] by blast
  have j: "j < length (P f)" using assms(3) by simp
  have "exec A E P (False # bs) m = exec A E P bs m1" for bs
    using exec_stmt [OF assms(1,2) j assms(4), of A "Going m1" bs] m1(1) by (simp add: do_stmt_def)
  moreover have "exec A E P (False # bs) m1 = exec A E P bs m2" for bs
    using exec_stmt [OF assms(1) m1(2) assms(3,5), of A "Going m2" bs] m2(1) by (simp add: do_stmt_def)
  ultimately show ?thesis using that [of m2] m1(3,4) m2(2-6) by metis
qed

lemma sleeper_runs:
  assumes L: "layout_ok E P" and P: "take 8 (P Main) = sleeper" and st: "stands E Main 0 m" and a: "alarm_in m = 0"
    and ts: "ticks 10 ts1" "ticks 5 ts2"
  obtains m' where "\<forall>bs. exec A E P ([False, False] @ ts1 @ [False, False] @ ts2 @ [False, False, False] @ bs) m = exec A E P bs m'"
    "stands E Main 7 m'" "alarm_in m' = 5" "alarm_set m' = 5" "on_alarm m' = addr E Fu 0"
    "map snd (written m') = map snd (written m) @ [text_of E (''aaaaaa'' @ newline) 12, text_of E (''aaaaaa'' @ newline) 12,
      text_of E (''dddd'' @ newline) 10]"
proof -
  have len: "8 \<le> length (P Main)" using arg_cong [OF P, of length] by (simp add: sleeper_def)
  then have at: "j < length (P Main)" "P Main ! j = sleeper ! j" if "j < 8" for j
    using that arg_cong [OF P, of "\<lambda>xs. xs ! j"] by simp_all
  have l: "0 < length (P Main)" "Suc 0 < length (P Main)" "Suc (Suc 0) < length (P Main)" "Suc (Suc (Suc 0)) < length (P Main)" "Suc (Suc (Suc (Suc 0))) < length (P Main)" "Suc (Suc (Suc (Suc (Suc 0)))) < length (P Main)" "Suc (Suc (Suc (Suc (Suc (Suc 0))))) < length (P Main)"
    using len by (simp_all del: length_greater_0_conv)
  have s: "P Main ! 0 = UWrite (''aaaaaa'' @ newline) 12" "P Main ! (Suc 0) = USleep 10" "P Main ! (Suc (Suc 0)) = UWrite (''aaaaaa'' @ newline) 12" "P Main ! (Suc (Suc (Suc 0))) = USleep 5" "P Main ! (Suc (Suc (Suc (Suc 0)))) = UWrite (''dddd'' @ newline) 10" "P Main ! (Suc (Suc (Suc (Suc (Suc 0))))) = USignal SIGALRM Fu" "P Main ! (Suc (Suc (Suc (Suc (Suc (Suc 0)))))) = UAlarm 5"
    using at(2) [of "0"] at(2) [of "Suc 0"] at(2) [of "Suc (Suc 0)"] at(2) [of "Suc (Suc (Suc 0))"] at(2) [of "Suc (Suc (Suc (Suc 0)))"] at(2) [of "Suc (Suc (Suc (Suc (Suc 0))))"] at(2) [of "Suc (Suc (Suc (Suc (Suc (Suc 0)))))"] by (simp_all add: sleeper_def)
  obtain m1 where m1: "\<forall>bs. exec A E P (False # bs) m = exec A E P bs m1" "stands E Main (Suc 0) m1"
      "written m1 = written m @ [(1, text_of E (''aaaaaa'' @ newline) 12)]" "alarm_in m1 = alarm_in m"
      "alarm_set m1 = alarm_set m" "on_alarm m1 = on_alarm m" "entry_rsp (ureg m1) = entry_rsp (ureg m)"
      "umem (sys m1) = umem (sys m)"
    by (rule sleeper_write [where A = A, OF L st l(1) s(1)])
  have a2: "alarm_in m1 = 0" using a m1(4) by simp
  have t2: "ticks (unat (10 :: 32 word)) ts1" using ts by simp
  obtain m2 where m2: "\<forall>bs. exec A E P (False # ts1 @ bs) m1 = exec A E P bs m2" "stands E Main (Suc (Suc 0)) m2"
      "written m2 = written m1" "alarm_in m2 = 0"
    by (rule sleeper_sleep [where A = A, OF L m1(2) l(2) s(2) _ a2 t2]) simp
  obtain m3 where m3: "\<forall>bs. exec A E P (False # bs) m2 = exec A E P bs m3" "stands E Main (Suc (Suc (Suc 0))) m3"
      "written m3 = written m2 @ [(1, text_of E (''aaaaaa'' @ newline) 12)]" "alarm_in m3 = alarm_in m2"
      "alarm_set m3 = alarm_set m2" "on_alarm m3 = on_alarm m2" "entry_rsp (ureg m3) = entry_rsp (ureg m2)"
      "umem (sys m3) = umem (sys m2)"
    by (rule sleeper_write [where A = A, OF L m2(2) l(3) s(3)])
  have a4: "alarm_in m3 = 0" using m2(4) m3(4) by simp
  have t4: "ticks (unat (5 :: 32 word)) ts2" using ts by simp
  obtain m4 where m4: "\<forall>bs. exec A E P (False # ts2 @ bs) m3 = exec A E P bs m4" "stands E Main (Suc (Suc (Suc (Suc 0)))) m4"
      "written m4 = written m3" "alarm_in m4 = 0"
    by (rule sleeper_sleep [where A = A, OF L m3(2) l(4) s(4) _ a4 t4]) simp
  obtain m5 where m5: "\<forall>bs. exec A E P (False # bs) m4 = exec A E P bs m5" "stands E Main (Suc (Suc (Suc (Suc (Suc 0))))) m5"
      "written m5 = written m4 @ [(1, text_of E (''dddd'' @ newline) 10)]" "alarm_in m5 = alarm_in m4"
      "alarm_set m5 = alarm_set m4" "on_alarm m5 = on_alarm m4" "entry_rsp (ureg m5) = entry_rsp (ureg m4)"
      "umem (sys m5) = umem (sys m4)"
    by (rule sleeper_write [where A = A, OF L m4(2) l(5) s(5)])
  obtain m6 where m6: "\<forall>bs. exec A E P (False # False # bs) m5 = exec A E P bs m6" "stands E Main (Suc (Suc (Suc (Suc (Suc (Suc (Suc 0))))))) m6"
      "written m6 = written m5" "alarm_in m6 = 5" "alarm_set m6 = 5" "on_alarm m6 = addr E Fu 0"
    by (rule sleeper_signal_alarm [where A = A, OF L m5(2) l(7) s(6,7)])
  have "stands E Main 7 m6" using m6(2) by (simp add: numeral_eq_Suc)
  then show ?thesis
    using that [of m6] m1(1,3) m2(1,3) m3(1,3) m4(1,3) m5(1,3) m6(1,3-6) by simp
qed

end
