(* ===== verification/Thread_Calls.thy ===== *)
theory Thread_Calls
  imports Thread_Phases
begin

text \<open>
  \<open>init_h.c\<close> with the stubs of its system calls: a call puts its arguments into registers, and the
  timer may interrupt the process before \<open>int $0x80\<close> reads them. The kernel saves no general
  purpose register when it calls a handler, and a handler that makes a system call of its own
  leaves its arguments there.
\<close>

section \<open>The divide error\<close>

text \<open>
  The exception is dispatched by \<open>invoke_sync_signal\<close>, which gets the user stack and instruction
  pointers of the exception frame.
\<close>

definition div_trap :: "'o sched_ops \<Rightarrow> user_regs \<Rightarrow> 'o sched \<Rightarrow> 'o outcome res" where
  "div_trap A u k = rbind (invoke_sync_signal A SIGFPE (entry_rsp u) (entry_rip u) k) (\<lambda>r. case r of
     Inl x \<Rightarrow> Inr x
   | Inr (sp, ip, k') \<Rightarrow> Inr (Resume (u\<lparr>entry_rip := ip, entry_rsp := sp\<rparr>) k'))"

definition traps_ok :: "'o sched_ops \<Rightarrow> 'o uenv \<Rightarrow> bool" where
  "traps_ok A E \<longleftrightarrow> div_error E = div_trap A \<and>
     (\<forall>k. sys_getpid E k = (word_of_nat (pid (tab k (cur k))), k))"

lemma divide_ends:
  assumes E: "traps_ok A E" and st: "stands E f j m" and h: "sighandlers (tab (sys m) 1) ! 1 = 0"
    and x: "vars m 1 i = w"
  shows "\<exists>m'. divide E v i w ret m = Inr (Ended m') \<and> written m' = written m"
proof -
  let ?k = "print [CalledSignal (entry_rsp (ureg m)) (entry_rip (ureg m))] (sys m)"
  have c: "cur (sys m) = 1" "alone (sys m)" "2 < length (sighandlers (tab (sys m) 1))" using st by (simp_all add: stands_def)
  have "alone ?k" using c(2) by (simp add: alone_def sched_ok_def)
  then obtain k' where "do_exit A ?k = Shutdown k'" using exit_alone [of ?k A] c by auto
  then have "div_trap A (ureg m) (sys m) = Inr (Shutdown k')"
    using c h by (simp add: div_trap_def invoke_sync_signal_def Let_def)
  then show ?thesis using E x c by (simp add: divide_def traps_ok_def switched_def)
qed


section \<open>The stubs\<close>

text \<open>
  What compilation decides: where the instruction \<open>int $0x80\<close> of \<open>_syscall0\<close>, \<open>_syscall1\<close> and
  \<open>_syscall2\<close> lies (by the number of arguments), the addresses of the string constants and the bytes
  that lie there, and the registers that the code of a call uses before the stub. The system calls
  that \<open>schedule.c\<close> does not have are a parameter.
\<close>

record 'o stubs =
  int80 :: "nat \<Rightarrow> 64 word"
  literal :: "string \<Rightarrow> 64 word"
  chars :: "64 word \<Rightarrow> nat \<Rightarrow> char list"
  prologue :: "user_regs \<Rightarrow> gpr \<Rightarrow> 64 word"
  other_call :: "user_regs \<Rightarrow> 'o sched \<Rightarrow> 'o sched"

text \<open>
  The number of a system call and its arguments. A statement that uses the result, as \<open>i = getpid()\<close>
  does, is executed as a whole.
\<close>

definition call_of :: "'o uenv \<Rightarrow> 'o stubs \<Rightarrow> ustmt \<Rightarrow> 64 word list option" where
  "call_of E S x = (case x of
     UExit code \<Rightarrow> Some [1, scast code]
   | UWrite s n \<Rightarrow> Some [3, literal S s, word_of_nat n]
   | UAlarm n \<Rightarrow> Some [6, ucast n]
   | USignal signo f \<Rightarrow> Some [8, word_of_int signo, addr E f 0]
   | _ \<Rightarrow> None)"

text \<open>
  The call of a stub up to its \<open>int $0x80\<close>: the arguments are in \<open>rdi\<close>, \<open>rsi\<close> and \<open>rdx\<close>, the return
  address and \<open>rbp\<close> on the stack. (One frame stands for that of \<open>write\<close> and that of \<open>_syscall2\<close>.)
\<close>

definition enter_call :: "'o stubs \<Rightarrow> 64 word list \<Rightarrow> 64 word \<Rightarrow> 'o umach \<Rightarrow> 'o umach" where
  "enter_call S args ret m =
     (let u = ureg m; sp = entry_rsp u in
      m\<lparr>ureg := u\<lparr>gprs := fold (\<lambda>(r, w) g. g(r := w)) (zip [RDI, RSI, RDX] args) (prologue S u),
          rbp := sp - 16, entry_rsp := sp - 16, entry_rip := int80 S (length args - 1)\<rparr>,
        sys := (sys m)\<lparr>umem := write_u64 (sp - 16) (rbp u) (write_u64 (sp - 8) ret (umem (sys m)))\<rparr>\<rparr>)"

text \<open>\<open>leaveq\<close> and \<open>retq\<close>.\<close>

definition leave_ret :: "(64 word \<Rightarrow> 8 word) \<Rightarrow> user_regs \<Rightarrow> user_regs" where
  "leave_ret mem u =
     u\<lparr>rbp := read_u64 (rbp u) mem, entry_rip := read_u64 (rbp u + 8) mem, entry_rsp := rbp u + 16\<rparr>"

text \<open>\<open>int $0x80\<close> with what the registers hold now, and the end of the stub.\<close>

definition int80_trap :: "'o sched_ops \<Rightarrow> 'o uenv \<Rightarrow> 'o stubs \<Rightarrow> 'o umach \<Rightarrow> 'o status res" where
  "int80_trap A E S m =
     (let u = ureg m; num = ucast (gprs u RDI) :: 32 word; a = gprs u RSI; b = gprs u RDX;
          u' = leave_ret (umem (sys m)) u; ret = entry_rip u'; m' = m\<lparr>ureg := u'\<rparr> in
      if num = 1 then Inr (t_exit A E ret m')
      else if num = 3 then
        Inr (Going ((sys_return E ret m' (sys_entry E ret m'))
          \<lparr>written := written m @ [(cur (sys m), chars S a (unat b))]\<rparr>))
      else if num = 6 then Inr (t_alarm E (ucast a) ret m')
      else if num = 8 then
        rbind (do_signal (sint (ucast a :: 32 word)) b (sys_entry E ret m'))
          (\<lambda>(_, k). Inr (Going (sys_return E ret m' k)))
      else Inr (Going (sys_return E ret m' (other_call S u (sys_entry E ret m')))))"

text \<open>
  A step of the process that runs: a stub at its \<open>int $0x80\<close>, or a statement, of which a call
  only goes up to there.
\<close>

definition call_step :: "'o sched_ops \<Rightarrow> 'o uenv \<Rightarrow> 'o stubs \<Rightarrow> program \<Rightarrow> 'o umach \<Rightarrow> 'o status res" where
  "call_step A E S P m =
     (if cur (sys m) = 0 then Inr (Going m)
      else if entry_rip (ureg m) \<in> int80 S ` {0, 1, 2} then int80_trap A E S m
      else case stmt_at E P (entry_rip (ureg m)) of
        None \<Rightarrow> Inl OutOfBounds
      | Some (f, i) \<Rightarrow>
          (case call_of E S (P f ! i) of
             Some args \<Rightarrow> Inr (Going (enter_call S args (addr E f (Suc i)) m))
           | None \<Rightarrow> do_stmt A E (P f ! i) (addr E f (Suc i)) m))"

fun exec_calls :: "'o sched_ops \<Rightarrow> 'o uenv \<Rightarrow> 'o stubs \<Rightarrow> program \<Rightarrow> bool list \<Rightarrow> 'o umach \<Rightarrow> 'o status res" where
  "exec_calls A E S P [] m = Inr (Going m)"
| "exec_calls A E S P (b # bs) m =
     rbind (if b then tick_step A E m else call_step A E S P m)
       (\<lambda>s. case s of Going m' \<Rightarrow> exec_calls A E S P bs m' | Ended m' \<Rightarrow> Inr (Ended m'))"

text \<open>
  The stubs are apart from the statements, the constants of the program are what \<open>write\<close> finds at
  their addresses, and the kernel gives the three registers back as it found them. (The stubs
  tell the compiler that no register changes.)
\<close>

definition stubs_ok :: "'o uenv \<Rightarrow> 'o stubs \<Rightarrow> program \<Rightarrow> bool" where
  "stubs_ok E S P \<longleftrightarrow>
     (\<forall>f. \<forall>i < length (P f). addr E f i \<notin> int80 S ` {0, 1, 2}) \<and>
     (\<forall>f s n. UWrite s n \<in> set (P f) \<longrightarrow> chars S (literal S s) n = text_of E s n) \<and>
     (\<forall>u. \<forall>r \<in> {RDI, RSI, RDX}. clobber E u r = gprs u r)"


section \<open>Steps\<close>

lemma read_other:
  assumes "\<And>j. j < 8 \<Longrightarrow> 8 \<le> unat (a + word_of_nat j - b)"
  shows "read_u64 a (write_u64 b v mem) = read_u64 a mem"
proof -
  have "fold (\<lambda>i v. v OR push_bit (8 * i) (ucast (write_u64 b v' mem (a + word_of_nat i)))) xs y =
      fold (\<lambda>i v. v OR push_bit (8 * i) (ucast (mem (a + word_of_nat i)))) xs (y :: 64 word)"
    if "set xs \<subseteq> {..< 8}" for xs y v'
    using that assms by (induction xs arbitrary: y) (simp_all add: write_u64_other)
  then show ?thesis unfolding read_u64_def by (simp add: subset_eq)
qed

lemma read_above:
  assumes "a = b + word_of_nat n" and "8 \<le> n" and "n < 2 ^ 60"
  shows "read_u64 a (write_u64 b v mem) = read_u64 a mem"
proof (rule read_other)
  fix j :: nat assume "j < 8"
  have "a + word_of_nat j - b = word_of_nat (n + j)" using assms(1) by simp
  moreover have "n + j < 2 ^ 64" using assms(3) \<open>j < 8\<close> by simp
  ultimately have "unat (a + word_of_nat j - b) = n + j"
    by (simp only: unat_of_nat) (simp add: take_bit_nat_eq_self)
  then show "8 \<le> unat (a + word_of_nat j - b)" using assms(2) by simp
qed

text \<open>\<open>init\<close> is alone and at the address \<open>a\<close>.\<close>

definition poised :: "64 word \<Rightarrow> 'o umach \<Rightarrow> bool" where
  "poised a m \<longleftrightarrow> alone (sys m) \<and> cur (sys m) = 1 \<and> entry_rip (ureg m) = a \<and>
     2 < length (sighandlers (tab (sys m) 1)) \<and> sighandlers (tab (sys m) 1) ! 1 = 0"

lemma poised_stands: "poised (addr E f i) m \<Longrightarrow> stands E f i m"
  by (simp add: poised_def stands_def)

lemma call_step_stmt:
  assumes L: "layout_ok E P" and S: "stubs_ok E S P" and st: "poised (addr E f i) m" and i: "i < length (P f)"
  shows "call_step A E S P m = (case call_of E S (P f ! i) of
     Some args \<Rightarrow> Inr (Going (enter_call S args (addr E f (Suc i)) m))
   | None \<Rightarrow> do_stmt A E (P f ! i) (addr E f (Suc i)) m)"
proof -
  have "addr E f i \<notin> int80 S ` {0, 1, 2}" using S i unfolding stubs_ok_def by blast
  then show ?thesis using st stmt_at_addr [OF L i] by (simp add: call_step_def poised_def)
qed

lemma call_step_trap:
  "poised (int80 S n) m \<Longrightarrow> n \<in> {0, 1, 2} \<Longrightarrow> call_step A E S P m = int80_trap A E S m"
  unfolding call_step_def poised_def by auto

lemma enter_call_simps [simp]:
  "written (enter_call S args ret m) = written m" "vars (enter_call S args ret m) = vars m"
  "tab (sys (enter_call S args ret m)) = tab (sys m)" "cur (sys (enter_call S args ret m)) = cur (sys m)"
  "alone (sys (enter_call S args ret m)) = alone (sys m)" "entry_rip (ureg (enter_call S args ret m)) = int80 S (length args - 1)"
  "rbp (ureg (enter_call S args ret m)) = entry_rsp (ureg m) - 16" "entry_rsp (ureg (enter_call S args ret m)) = entry_rsp (ureg m) - 16"
  "umem (sys (enter_call S args ret m)) = write_u64 (entry_rsp (ureg m) - 16) (rbp (ureg m)) (write_u64 (entry_rsp (ureg m) - 8) ret (umem (sys m)))"
  by (simp_all add: enter_call_def Let_def alone_def sched_ok_def)

lemma enter_poised: "poised a m \<Longrightarrow> poised (int80 S (length args - 1)) (enter_call S args ret m)"
  by (simp add: poised_def)

lemma enter_return: "read_u64 (sp - 8) (write_u64 (sp - 16) v (write_u64 (sp - 8) ret mem)) = ret"
  using read_above [of "sp - 8" "sp - 16" 8] by simp

lemma enter_above:
  assumes "n < 2 ^ 60 - 16"
  shows "read_u64 (sp + word_of_nat n) (write_u64 (sp - 16) v (write_u64 (sp - 8) ret mem)) = read_u64 (sp + word_of_nat n) mem"
proof -
  have "read_u64 (sp + word_of_nat n) (write_u64 (sp - 16) v mem') = read_u64 (sp + word_of_nat n) mem'" for mem'
    by (rule read_above [where n = "n + 16"]) (use assms in simp_all)
  moreover have "read_u64 (sp + word_of_nat n) (write_u64 (sp - 8) v mem') = read_u64 (sp + word_of_nat n) mem'" for v mem'
    by (rule read_above [where n = "n + 8"]) (use assms in simp_all)
  ultimately show ?thesis by simp
qed

text \<open>\<open>write\<close> with the registers as they are.\<close>

lemma trap_writes:
  assumes S: "stubs_ok E S P" and st: "poised (int80 S 2) m" and num: "gprs (ureg m) RDI = 3"
  obtains m' where "call_step A E S P m = Inr (Going m')" "poised (read_u64 (rbp (ureg m) + 8) (umem (sys m))) m'"
    "written m' = written m @ [(1, chars S (gprs (ureg m) RSI) (unat (gprs (ureg m) RDX)))]"
    "\<And>r. r \<in> {RDI, RSI, RDX} \<Longrightarrow> gprs (ureg m') r = gprs (ureg m) r"
    "entry_rsp (ureg m') = rbp (ureg m) + 16" "rbp (ureg m') = read_u64 (rbp (ureg m)) (umem (sys m))"
    "umem (sys m') = umem (sys m)" "vars m' = vars m" "alarm_in m' = alarm_in m" "alarm_set m' = alarm_set m"
    "sighandlers (tab (sys m') 1) = sighandlers (tab (sys m) 1)"
proof -
  let ?u = "leave_ret (umem (sys m)) (ureg m)"
  let ?m1 = "m\<lparr>ureg := ?u\<rparr>"
  let ?m' = "(sys_return E (entry_rip ?u) ?m1 (sys_entry E (entry_rip ?u) ?m1))
    \<lparr>written := written m @ [(1, chars S (gprs (ureg m) RSI) (unat (gprs (ureg m) RDX)))]\<rparr>"
  have "clobber E ?u r = gprs ?u r" if "r \<in> {RDI, RSI, RDX}" for r using S that unfolding stubs_ok_def by blast
  then have g: "gprs (ureg ?m') r = gprs (ureg m) r" if "r \<in> {RDI, RSI, RDX}" for r
    using that by (simp add: sys_return_def leave_ret_def)
  have s: "sys_entry E (entry_rip ?u) ?m1 = (sys m)\<lparr>kstack := kstack (sys_entry E (entry_rip ?u) ?m1)\<rparr>"
    by (simp add: sys_entry_def Let_def)
  have "int80_trap A E S m = Inr (Going ?m')"
    using num st by (simp add: int80_trap_def Let_def poised_def)
  then have "call_step A E S P m = Inr (Going ?m')" using call_step_trap [OF st] by simp
  moreover have "poised (read_u64 (rbp (ureg m) + 8) (umem (sys m))) ?m'"
    using st by (simp add: poised_def sys_return_def leave_ret_def sys_entry_def Let_def alone_def sched_ok_def)
  ultimately show ?thesis
    by (rule that) (use g in \<open>simp_all add: sys_return_def leave_ret_def sys_entry_def Let_def\<close>)
qed

text \<open>A call of \<open>write\<close> that is not interrupted.\<close>

lemma write_call:
  assumes L: "layout_ok E P" and S: "stubs_ok E S P" and st: "poised (addr E f i) m"
    and i: "i < length (P f)" "P f ! i = UWrite s n" and n: "n < 2 ^ 64"
  obtains m' where "\<forall>bs. exec_calls A E S P (False # False # bs) m = exec_calls A E S P bs m'"
    "poised (addr E f (Suc i)) m'" "written m' = written m @ [(1, text_of E s n)]"
    "gprs (ureg m') RDI = 3" "gprs (ureg m') RSI = literal S s" "gprs (ureg m') RDX = word_of_nat n"
    "entry_rsp (ureg m') = entry_rsp (ureg m)" "rbp (ureg m') = rbp (ureg m)"
    "\<forall>n < 2 ^ 60 - 16. read_u64 (entry_rsp (ureg m) + word_of_nat n) (umem (sys m')) =
      read_u64 (entry_rsp (ureg m) + word_of_nat n) (umem (sys m))"
    "vars m' = vars m" "alarm_in m' = alarm_in m" "alarm_set m' = alarm_set m"
    "sighandlers (tab (sys m') 1) = sighandlers (tab (sys m) 1)"
proof -
  let ?m1 = "enter_call S [3, literal S s, word_of_nat n] (addr E f (Suc i)) m"
  have 1: "call_step A E S P m = Inr (Going ?m1)"
    using call_step_stmt [OF L S st i(1)] i(2) by (simp add: call_of_def)
  have p1: "poised (int80 S 2) ?m1" using enter_poised [OF st, of S "[3, literal S s, word_of_nat n]"] by (simp add: numeral_2_eq_2)
  have g: "gprs (ureg ?m1) RDI = 3" "gprs (ureg ?m1) RSI = literal S s" "gprs (ureg ?m1) RDX = word_of_nat n"
    by (simp_all add: enter_call_def Let_def)
  have c: "chars S (literal S s) n = text_of E s n"
    using S i nth_mem [OF i(1)] unfolding stubs_ok_def by metis
  have "unat (word_of_nat n :: 64 word) = n" using n by (simp add: unat_of_nat take_bit_nat_eq_self)
  obtain m' where m': "call_step A E S P ?m1 = Inr (Going m')"
    "poised (read_u64 (rbp (ureg ?m1) + 8) (umem (sys ?m1))) m'"
    "written m' = written ?m1 @ [(1, chars S (gprs (ureg ?m1) RSI) (unat (gprs (ureg ?m1) RDX)))]"
    "\<And>r. r \<in> {RDI, RSI, RDX} \<Longrightarrow> gprs (ureg m') r = gprs (ureg ?m1) r"
    "entry_rsp (ureg m') = rbp (ureg ?m1) + 16" "rbp (ureg m') = read_u64 (rbp (ureg ?m1)) (umem (sys ?m1))"
    "umem (sys m') = umem (sys ?m1)" "vars m' = vars ?m1" "alarm_in m' = alarm_in ?m1" "alarm_set m' = alarm_set ?m1"
    "sighandlers (tab (sys m') 1) = sighandlers (tab (sys ?m1) 1)"
    using trap_writes [OF S p1 g(1)] by blast
  show ?thesis
  proof (rule that)
    show "\<forall>bs. exec_calls A E S P (False # False # bs) m = exec_calls A E S P bs m'" using 1 m'(1) by simp
    show "poised (addr E f (Suc i)) m'" using m'(2) by (simp add: enter_return)
    show "written m' = written m @ [(1, text_of E s n)]" using m'(3) g c \<open>unat _ = n\<close> by simp
  qed (use m' g in \<open>simp_all add: enter_above\<close>)
qed

section \<open>The start of \<open>main\<close>\<close>

lemma text_exact: "length s = n \<Longrightarrow> text_of E s n = s"
  by (simp add: text_of_def)

lemma at_main:
  "init_h_prog Main ! 0 = USignal SIGALRM Fun" "init_h_prog Main ! Suc 0 = UGetpid 0"
  "init_h_prog Main ! 2 = UWrite (''alarm'' @ newline) 6" "init_h_prog Main ! 3 = UAlarm 2"
  "init_h_prog Main ! 4 = UWrite (''hello'' @ newline) 6" "init_h_prog Main ! 5 = USet 0 0"
  "init_h_prog Main ! 6 = ULoads 1 0 4096" "init_h_prog Main ! 7 = USet 0 0x100034"
  "init_h_prog Main ! 8 = UDivide 1 0 0x100034" "length (init_h_prog Main) = 10"
  by (simp_all add: init_h_prog_def)

text \<open>The calls of \<open>reg_handler\<close> and \<open>alarm\<close>.\<close>

lemma signal_call:
  assumes L: "layout_ok E init_h_prog" and S: "stubs_ok E S init_h_prog" and st: "poised (addr E Main 0) m"
  obtains m' where "\<forall>bs. exec_calls A E S init_h_prog (False # False # bs) m = exec_calls A E S init_h_prog bs m'"
    "poised (addr E Main 1) m'" "written m' = written m" "on_alarm m' = addr E Fun 0" "alarm_in m' = alarm_in m"
proof -
  let ?r = "addr E Main (Suc 0)"
  let ?m1 = "enter_call S [8, 2, addr E Fun 0] ?r m"
  let ?m2 = "?m1\<lparr>ureg := leave_ret (umem (sys ?m1)) (ureg ?m1)\<rparr>"
  let ?k = "upd 1 (\<lambda>t. t\<lparr>sighandlers := (sighandlers t)[2 := addr E Fun 0]\<rparr>) (sys_entry E ?r ?m2)"
  have st': "alone (sys m)" "cur (sys m) = 1" "2 < length (sighandlers (tab (sys m) 1))" "sighandlers (tab (sys m) 1) ! 1 = 0"
    using st by (simp_all add: poised_def)
  have 1: "call_step A E S init_h_prog m = Inr (Going ?m1)"
    using call_step_stmt [OF L S st] by (simp add: call_of_def at_main)
  have p1: "poised (int80 S 2) ?m1" using enter_poised [OF st, of S "[8, 2, addr E Fun 0]"] by (simp add: numeral_2_eq_2)
  have u: "entry_rip (ureg ?m2) = ?r" by (simp add: leave_ret_def enter_return)
  have g: "gprs (ureg ?m1) RDI = 8" "gprs (ureg ?m1) RSI = 2" "gprs (ureg ?m1) RDX = addr E Fun 0"
    by (simp_all add: enter_call_def Let_def)
  have "do_signal 2 (addr E Fun 0) (sys_entry E ?r ?m2) = Inr (0, ?k)"
    using st' by (simp add: do_signal_def)
  then have "call_step A E S init_h_prog ?m1 = Inr (Going (sys_return E ?r ?m2 ?k))"
    using call_step_trap [OF p1, of A E init_h_prog] u g by (simp add: int80_trap_def Let_def)
  moreover have "alone ?k" using st'(1) by (simp add: alone_def sched_ok_def)
  ultimately show ?thesis
    using that [of "sys_return E ?r ?m2 ?k"] 1 st' by (simp add: poised_def sys_return_def)
qed

lemma alarm_call:
  assumes L: "layout_ok E init_h_prog" and S: "stubs_ok E S init_h_prog" and st: "poised (addr E Main 3) m"
  obtains m' where "\<forall>bs. exec_calls A E S init_h_prog (False # False # bs) m = exec_calls A E S init_h_prog bs m'"
    "poised (addr E Main 4) m'" "written m' = written m" "on_alarm m' = on_alarm m" "alarm_in m' = 2" "alarm_set m' = 2"
proof -
  let ?r = "addr E Main 4"
  let ?m1 = "enter_call S [6, 2] ?r m"
  let ?m2 = "?m1\<lparr>ureg := leave_ret (umem (sys ?m1)) (ureg ?m1)\<rparr>"
  let ?k = "snd (do_alarm 2 (sys_entry E ?r ?m2))"
  have st': "alone (sys m)" "cur (sys m) = 1" "2 < length (sighandlers (tab (sys m) 1))" "sighandlers (tab (sys m) 1) ! 1 = 0"
    using st by (simp_all add: poised_def)
  have 1: "call_step A E S init_h_prog m = Inr (Going ?m1)"
    using call_step_stmt [OF L S st] by (simp add: call_of_def at_main)
  have p1: "poised (int80 S 1) ?m1" using enter_poised [OF st, of S "[6, 2]"] by simp
  have u: "entry_rip (ureg ?m2) = ?r" by (simp add: leave_ret_def enter_return)
  have g: "gprs (ureg ?m1) RDI = 6" "gprs (ureg ?m1) RSI = 2" by (simp_all add: enter_call_def Let_def)
  have "call_step A E S init_h_prog ?m1 = Inr (Going (sys_return E ?r ?m2 ?k))"
    using call_step_trap [OF p1, of A E init_h_prog] u g by (simp add: int80_trap_def Let_def t_alarm_def)
  moreover have "alone ?k" using st'(1) by (simp add: alone_def sched_ok_def do_alarm_def)
  ultimately show ?thesis
    using that [of "sys_return E ?r ?m2 ?k"] 1 st' by (simp add: poised_def sys_return_def do_alarm_def)
qed

text \<open>Up to the second line.\<close>

lemma main_starts:
  assumes L: "layout_ok E init_h_prog" and S: "stubs_ok E S init_h_prog" and E: "traps_ok A E"
    and st: "poised (addr E Main 0) m" and a: "alarm_in m = 0" "written m = []"
  obtains m' where "\<forall>bs. exec_calls A E S init_h_prog (replicate 7 False @ bs) m = exec_calls A E S init_h_prog bs m'"
    "poised (addr E Main 4) m'" "map snd (written m') = [''alarm'' @ newline]" "on_alarm m' = addr E Fun 0"
    "alarm_in m' = 2" "alarm_set m' = 2"
proof -
  obtain m1 where m1: "\<forall>bs. exec_calls A E S init_h_prog (False # False # bs) m = exec_calls A E S init_h_prog bs m1"
    "poised (addr E Main 1) m1" "written m1 = written m" "on_alarm m1 = addr E Fun 0"
    using signal_call [OF L S st, of A] by metis
  let ?r = "addr E Main 2"
  let ?m2 = "set_var 0 (word_of_nat (pid (tab (sys m1) 1))) (sys_return E ?r m1 (sys_entry E ?r m1))"
  have "call_step A E S init_h_prog m1 = Inr (Going ?m2)"
    using call_step_stmt [OF L S m1(2)] m1(2) E
    by (simp add: call_of_def at_main do_stmt_def t_getpid_def traps_ok_def poised_def numeral_2_eq_2)
  moreover have "alone (sys ?m2) = alone (sys m1)" by (simp add: set_var_def sys_return_def)
  ultimately have m2: "\<forall>bs. exec_calls A E S init_h_prog (False # bs) m1 = exec_calls A E S init_h_prog bs ?m2"
    "poised ?r ?m2" "written ?m2 = written m1" "on_alarm ?m2 = on_alarm m1"
    using m1(2) by (simp_all add: poised_def set_var_def sys_return_def)
  have w: "2 < length (init_h_prog Main)" "init_h_prog Main ! 2 = UWrite (''alarm'' @ newline) 6" "(6 :: nat) < 2 ^ 64"
    by (simp_all add: at_main)
  obtain m3 where m3: "\<forall>bs. exec_calls A E S init_h_prog (False # False # bs) ?m2 = exec_calls A E S init_h_prog bs m3"
    "poised (addr E Main (Suc 2)) m3" "written m3 = written ?m2 @ [(1, text_of E (''alarm'' @ newline) 6)]"
    "sighandlers (tab (sys m3) 1) = sighandlers (tab (sys ?m2) 1)"
    using write_call [OF L S m2(2) w, of A] by metis
  obtain m4 where m4: "\<forall>bs. exec_calls A E S init_h_prog (False # False # bs) m3 = exec_calls A E S init_h_prog bs m4"
    "poised (addr E Main 4) m4" "written m4 = written m3" "on_alarm m4 = on_alarm m3" "alarm_in m4 = 2" "alarm_set m4 = 2"
    using alarm_call [OF L S, of m3 A] m3(2) by (metis eval_nat_numeral(3))
  have t: "text_of E (''alarm'' @ newline) 6 = ''alarm'' @ newline" by (rule text_exact) (simp add: newline_def)
  have "exec_calls A E S init_h_prog (replicate 7 False @ bs) m = exec_calls A E S init_h_prog bs m4" for bs
  proof -
    have "replicate 7 False @ bs = False # False # False # False # False # False # False # bs" by (simp add: eval_nat_numeral)
    then show ?thesis by (simp only: m1(1) [rule_format] m2(1) [rule_format] m3(1) [rule_format] m4(1) [rule_format])
  qed
  then have "\<forall>bs. exec_calls A E S init_h_prog (replicate 7 False @ bs) m = exec_calls A E S init_h_prog bs m4" by blast
  moreover have "map snd (written m4) = [''alarm'' @ newline]"
    using m4(3) m3(3) m2(3) m1(3) a(2) t by (simp only: list.map append_Nil snd_conv)
  moreover have "on_alarm m4 = addr E Fun 0" using m4(4) m3(4) m2(4) m1(4) by metis
  ultimately show ?thesis by (rule that [OF _ m4(2) _ _ m4(5,6)])
qed

section \<open>The end of \<open>main\<close>\<close>

lemma quiet_simps [simp]:
  "sys (go_to E a m) = sys m" "vars (go_to E a m) = vars m" "written (go_to E a m) = written m"
  "sys (set_var v w m) = sys m" "written (set_var v w m) = written m"
  "vars (set_var v w m) p i = (if p = cur (sys m) \<and> i = v then w else vars m p i)"
  "entry_rip (ureg (go_to E a m)) = a" "ureg (set_var v w m) = ureg m"
  by (simp_all add: go_to_def set_var_def)

lemma poised_go [simp]: "poised a (set_var v w m) = poised a m" "poised a (go_to E a m') = poised (entry_rip (ureg m')) m'"
  by (simp_all add: poised_def)

lemma below_4096: "k < 4096 \<Longrightarrow> (word_of_nat k :: 64 word) < 4096"
  by (simp add: word_less_nat_alt unat_of_nat take_bit_nat_eq_self)

text \<open>The loop, without interrupts.\<close>

lemma loop_calls:
  assumes L: "layout_ok E init_h_prog" and S: "stubs_ok E S init_h_prog"
  shows "poised (addr E Main 6) m \<Longrightarrow> vars m 1 0 = word_of_nat (4096 - n) \<Longrightarrow> n \<le> 4096 \<Longrightarrow>
    \<exists>m'. (\<forall>bs. exec_calls A E S init_h_prog (replicate (Suc n) False @ bs) m = exec_calls A E S init_h_prog bs m') \<and>
      poised (addr E Main 7) m' \<and> written m' = written m"
proof (induction n arbitrary: m)
  case 0
  let ?m = "go_to E (addr E Main 7) m"
  have "cur (sys m) = 1" "entry_rip (ureg m) = addr E Main 6" using 0(1) by (simp_all add: poised_def)
  then have "call_step A E S init_h_prog m = Inr (Going ?m)"
    using call_step_stmt [OF L S 0(1)] 0(2) by (simp add: call_of_def at_main do_stmt_def load_round_def Let_def)
  moreover have "poised (addr E Main 7) ?m" using 0(1) by (simp add: poised_def)
  ultimately show ?case by (intro exI [of _ ?m]) simp
next
  case (Suc n)
  let ?m = "load_round E 1 0 4096 (addr E Main 7) m"
  have c: "cur (sys m) = 1" "entry_rip (ureg m) = addr E Main 6" using Suc.prems(1) by (simp_all add: poised_def)
  have x: "(word_of_nat (4096 - Suc n) :: 64 word) < 4096"
    by (rule below_4096) simp
  have x1: "(word_of_nat (4096 - Suc n) :: 64 word) + 1 = word_of_nat (4096 - n)"
  proof -
    have "4096 - n = Suc (4096 - Suc n)" using Suc.prems(3) by linarith
    then show ?thesis by (metis of_nat_Suc add.commute)
  qed
  have 1: "call_step A E S init_h_prog m = Inr (Going ?m)"
    using call_step_stmt [OF L S Suc.prems(1)] by (simp add: call_of_def at_main do_stmt_def)
  have m: "poised (addr E Main 6) ?m" "vars ?m 1 0 = word_of_nat (4096 - n)" "written ?m = written m"
    using Suc.prems(1,2) c x x1 by (simp_all add: load_round_def Let_def poised_def)
  obtain m' where "\<forall>bs. exec_calls A E S init_h_prog (replicate (Suc n) False @ bs) ?m = exec_calls A E S init_h_prog bs m'"
    "poised (addr E Main 7) m'" "written m' = written ?m"
    using Suc.IH [OF m(1,2)] Suc.prems(3) by auto
  then show ?case using 1 m(3) by (intro exI [of _ m']) simp
qed

lemma main_ends:
  assumes L: "layout_ok E init_h_prog" and S: "stubs_ok E S init_h_prog" and E: "traps_ok A E"
    and st: "poised (addr E Main 5) m"
  shows "\<exists>m'. exec_calls A E S init_h_prog (replicate 4100 False) m = Inr (Ended m') \<and> written m' = written m"
proof -
  let ?m1 = "set_var 0 0 (go_to E (addr E Main 6) m)"
  have c: "cur (sys m) = 1" using st by (simp add: poised_def)
  have 1: "call_step A E S init_h_prog m = Inr (Going ?m1)"
    using call_step_stmt [OF L S st] by (simp add: call_of_def at_main do_stmt_def)
  have p1: "poised (addr E Main 6) ?m1" "vars ?m1 1 0 = word_of_nat (4096 - 4096)" using st c by (simp_all add: poised_def)
  from loop_calls [OF L S p1, of A] obtain m2 where
    m2: "\<forall>bs. exec_calls A E S init_h_prog (replicate (Suc 4096) False @ bs) ?m1 = exec_calls A E S init_h_prog bs m2"
      "poised (addr E Main 7) m2" "written m2 = written ?m1" by auto
  let ?m3 = "set_var 0 0x100034 (go_to E (addr E Main 8) m2)"
  have c2: "cur (sys m2) = 1" using m2(2) by (simp add: poised_def)
  have 3: "call_step A E S init_h_prog m2 = Inr (Going ?m3)"
    using call_step_stmt [OF L S m2(2)] by (simp add: call_of_def at_main do_stmt_def)
  have p3: "poised (addr E Main 8) ?m3" "vars ?m3 1 0 = 0x100034" using m2(2) c2 by (simp_all add: poised_def)
  have h: "sighandlers (tab (sys ?m3) 1) ! 1 = 0" using p3(1) by (simp add: poised_def)
  obtain m4 where m4: "divide E 1 0 0x100034 (addr E Main (Suc 8)) ?m3 = Inr (Ended m4)" "written m4 = written ?m3"
    using divide_ends [OF E poised_stands [OF p3(1)] h p3(2)] by blast
  have 4: "call_step A E S init_h_prog ?m3 = Inr (Ended m4)"
    using call_step_stmt [OF L S p3(1)] m4(1) by (simp add: call_of_def at_main do_stmt_def)
  have r: "replicate 4100 False = False # replicate (Suc 4096) False @ [False, False]"
  proof -
    have "replicate (Suc (Suc 4096 + 2)) False = False # replicate (Suc 4096) False @ replicate 2 False"
      by (simp only: replicate.simps replicate_add)
    moreover have "Suc (Suc 4096 + 2) = 4100" "replicate 2 False = [False, False]" by (simp_all add: numeral_2_eq_2)
    ultimately show ?thesis by (simp only:)
  qed
  have "exec_calls A E S init_h_prog (replicate 4100 False) m = Inr (Ended m4)"
    unfolding r exec_calls.simps using 1 m2(1) 3 4 by simp
  then show ?thesis using m2(3) m4(2) by simp
qed

section \<open>The handler between a call and its system call\<close>

definition ping :: string where "ping = ''ping!!'' @ newline"

lemma poised_quiet:
  assumes st: "poised a m" and q: "alarm_in m \<noteq> 1"
  obtains m' where "tick_step A E m = Inr (Going m')" "poised a m'" "written m' = written m"
    "alarm_in m' = alarm_in m - (if alarm_in m = 0 then 0 else 1)" "alarm_set m' = alarm_set m" "on_alarm m' = on_alarm m"
proof -
  have al: "alone (sys m)" and c: "cur (sys m) = 1" using st by (simp_all add: poised_def)
  obtain k' where "handle_timer_tick A (tick_junk E) (ureg m) (sys m) = Inr (Resume (ureg m) k')" "alone k'"
      "cur k' = 1" "ticks_to_alarm (tab k' 1) = alarm_in m - (if alarm_in m = 0 then 0 else 1)"
      "alarm_config_time (tab k' 1) = alarm_set m" "sighandlers (tab k' 1) = sighandlers (tab (sys m) 1)"
    by (rule tick_quiet [OF al c q])
  then show ?thesis
    using that [of "m\<lparr>sys := k'\<rparr>"] st by (simp add: tick_step_def switched_def poised_def)
qed

lemma poised_due:
  assumes st: "poised a m" and due: "alarm_in m = 1" and h: "on_alarm m \<noteq> 0"
  obtains m' where "tick_step A E m = Inr (Going m')" "poised (on_alarm m) m'" "written m' = written m"
    "ureg m' = (ureg m)\<lparr>entry_rip := on_alarm m, entry_rsp := entry_rsp (ureg m) - 8\<rparr>"
    "umem (sys m') = write_u64 (entry_rsp (ureg m) - 8) a (umem (sys m))"
proof -
  have al: "alone (sys m)" and c: "cur (sys m) = 1" and len: "2 < length (sighandlers (tab (sys m) 1))"
    and rip: "entry_rip (ureg m) = a" using st by (simp_all add: poised_def)
  obtain k' where k': "handle_timer_tick A (tick_junk E) (ureg m) (sys m) =
        Inr (Resume ((ureg m)\<lparr>entry_rip := on_alarm m, entry_rsp := entry_rsp (ureg m) - 8\<rparr>) k')"
      "alone k'" "cur k' = 1" "sighandlers (tab k' 1) = sighandlers (tab (sys m) 1)"
      "umem k' = write_u64 (entry_rsp (ureg m) - 8) (entry_rip (ureg m)) (umem (sys m))"
    by (rule tick_due [OF al c due len h])
  then show ?thesis
    using that [of "m\<lparr>ureg := (ureg m)\<lparr>entry_rip := on_alarm m, entry_rsp := entry_rsp (ureg m) - 8\<rparr>, sys := k'\<rparr>"] st rip
    by (simp add: tick_step_def switched_def poised_def)
qed

text \<open>
  The handler called at \<open>int $0x80\<close>: when it is back there, the registers hold the arguments of its
  own \<open>write\<close>; the stack and \<open>rbp\<close> are as they were.
\<close>

lemma handler_in_call:
  assumes L: "layout_ok E init_h_prog" and S: "stubs_ok E S init_h_prog" and st: "poised (int80 S 2) m"
    and due: "alarm_in m = 1" and h: "on_alarm m = addr E Fun 0" "addr E Fun 0 \<noteq> 0"
  obtains m' where "\<forall>bs. exec_calls A E S init_h_prog (True # replicate 3 False @ bs) m = exec_calls A E S init_h_prog bs m'"
    "poised (int80 S 2) m'" "written m' = written m @ [(1, ping)]"
    "gprs (ureg m') RDI = 3" "gprs (ureg m') RSI = literal S ping" "gprs (ureg m') RDX = 7"
    "rbp (ureg m') = rbp (ureg m)"
    "\<forall>n < 2 ^ 59. read_u64 (entry_rsp (ureg m) + word_of_nat n) (umem (sys m')) =
      read_u64 (entry_rsp (ureg m) + word_of_nat n) (umem (sys m))"
proof -
  let ?sp = "entry_rsp (ureg m)"
  have "on_alarm m \<noteq> 0" using h by simp
  then obtain m1 where m1: "tick_step A E m = Inr (Going m1)" "poised (on_alarm m) m1" "written m1 = written m"
      "ureg m1 = (ureg m)\<lparr>entry_rip := on_alarm m, entry_rsp := ?sp - 8\<rparr>"
      "umem (sys m1) = write_u64 (?sp - 8) (int80 S 2) (umem (sys m))"
    by (rule poised_due [OF st due])
  have F: "0 < length (init_h_prog Fun)" "init_h_prog Fun ! 0 = UWrite ping 7" "(7 :: nat) < 2 ^ 64"
      "Suc 0 < length (init_h_prog Fun)" "init_h_prog Fun ! Suc 0 = UReturn"
    by (simp_all add: init_h_prog_def ping_def)
  have sp1: "entry_rsp (ureg m1) = ?sp - 8" "rbp (ureg m1) = rbp (ureg m)" using m1(4) by simp_all
  obtain m2 where m2: "\<forall>bs. exec_calls A E S init_h_prog (False # False # bs) m1 = exec_calls A E S init_h_prog bs m2"
      "poised (addr E Fun (Suc 0)) m2" "written m2 = written m1 @ [(1, text_of E ping 7)]"
      "gprs (ureg m2) RDI = 3" "gprs (ureg m2) RSI = literal S ping" "gprs (ureg m2) RDX = word_of_nat 7"
      "entry_rsp (ureg m2) = entry_rsp (ureg m1)" "rbp (ureg m2) = rbp (ureg m1)"
      "\<forall>n < 2 ^ 60 - 16. read_u64 (entry_rsp (ureg m1) + word_of_nat n) (umem (sys m2)) =
        read_u64 (entry_rsp (ureg m1) + word_of_nat n) (umem (sys m1))"
      "vars m2 = vars m1" "alarm_in m2 = alarm_in m1" "alarm_set m2 = alarm_set m1"
      "sighandlers (tab (sys m2) 1) = sighandlers (tab (sys m1) 1)"
    by (rule write_call [where A = A, OF L S m1(2) [unfolded h(1)] F(1-3)])
  let ?u = "ureg m2"
  let ?m3 = "m2\<lparr>ureg := ?u\<lparr>entry_rip := read_u64 (entry_rsp ?u) (umem (sys m2)), entry_rsp := entry_rsp ?u + 8\<rparr>\<rparr>"
  have 3: "call_step A E S init_h_prog m2 = Inr (Going ?m3)"
    using call_step_stmt [OF L S m2(2) F(4)] F(5) by (simp add: call_of_def do_stmt_def Let_def)
  have "read_u64 (?sp - 8) (umem (sys m2)) = read_u64 (?sp - 8) (umem (sys m1))"
    using m2(9) [rule_format, of 0] by (simp add: sp1)
  also have "\<dots> = int80 S 2" by (simp add: m1(5))
  finally have home: "read_u64 (entry_rsp ?u) (umem (sys m2)) = int80 S 2" by (simp add: m2(7) sp1)
  have above: "read_u64 (?sp + word_of_nat n) (umem (sys ?m3)) = read_u64 (?sp + word_of_nat n) (umem (sys m))"
    if "n < 2 ^ 59" for n
  proof -
    have "?sp - 8 + word_of_nat (n + 8) = ?sp + word_of_nat n" by simp
    then have "read_u64 (?sp + word_of_nat n) (umem (sys m2)) = read_u64 (?sp + word_of_nat n) (umem (sys m1))"
      using m2(9) [rule_format, of "n + 8"] that by (simp only: sp1) simp
    also have "\<dots> = read_u64 (?sp + word_of_nat n) (umem (sys m))"
      unfolding m1(5) by (rule read_above [where n = "n + 8"]) (use that in simp_all)
    finally show ?thesis by simp
  qed
  have t: "text_of E ping 7 = ping" by (rule text_exact) (simp add: ping_def newline_def)
  have "exec_calls A E S init_h_prog (True # replicate 3 False @ bs) m = exec_calls A E S init_h_prog bs ?m3" for bs
  proof -
    have "replicate 3 False @ bs = False # False # False # bs" by (simp add: eval_nat_numeral)
    then show ?thesis using m1(1) m2(1) 3 by simp
  qed
  then have "\<forall>bs. exec_calls A E S init_h_prog (True # replicate 3 False @ bs) m = exec_calls A E S init_h_prog bs ?m3" by blast
  then show ?thesis
  proof (rule that)
    show "poised (int80 S 2) ?m3" using m2(2) home by (simp add: poised_def)
  qed (use m1(3) m2 t sp1 above in simp_all)
qed

text \<open>The call of \<open>write\<close> for the second line, with the alarm due inside it.\<close>

lemma hello_lost:
  assumes L: "layout_ok E init_h_prog" and S: "stubs_ok E S init_h_prog" and st: "poised (addr E Main 4) m"
    and a: "alarm_in m = 2" and h: "on_alarm m = addr E Fun 0" "addr E Fun 0 \<noteq> 0"
  obtains m' where "\<forall>bs. exec_calls A E S init_h_prog ([True, False, True] @ replicate 3 False @ False # bs) m =
      exec_calls A E S init_h_prog bs m'"
    "poised (addr E Main 5) m'" "map snd (written m') = map snd (written m) @ [ping, ping]"
proof -
  obtain m1 where m1: "tick_step A E m = Inr (Going m1)" "poised (addr E Main 4) m1" "written m1 = written m"
      "alarm_in m1 = 1" "on_alarm m1 = on_alarm m"
    by (rule poised_quiet [OF st, of A E]) (use a that in simp_all)
  let ?m2 = "enter_call S [3, literal S (''hello'' @ newline), 6] (addr E Main 5) m1"
  let ?sp = "entry_rsp (ureg ?m2)"
  have 2: "call_step A E S init_h_prog m1 = Inr (Going ?m2)"
    using call_step_stmt [OF L S m1(2)] by (simp add: call_of_def at_main)
  have p2: "poised (int80 S 2) ?m2"
    using enter_poised [OF m1(2), of S "[3, literal S (''hello'' @ newline), 6]"] by (simp add: numeral_2_eq_2)
  have ret: "rbp (ureg ?m2) = ?sp" "read_u64 (?sp + word_of_nat 8) (umem (sys ?m2)) = addr E Main 5"
    by (simp_all add: enter_return)
  have a2: "alarm_in ?m2 = 1" "on_alarm ?m2 = addr E Fun 0" using m1(4,5) h by simp_all
  obtain m3 where m3: "\<forall>bs. exec_calls A E S init_h_prog (True # replicate 3 False @ bs) ?m2 = exec_calls A E S init_h_prog bs m3"
      "poised (int80 S 2) m3" "written m3 = written ?m2 @ [(1, ping)]"
      "gprs (ureg m3) RDI = 3" "gprs (ureg m3) RSI = literal S ping" "gprs (ureg m3) RDX = 7"
      "rbp (ureg m3) = rbp (ureg ?m2)"
      "\<forall>n < 2 ^ 59. read_u64 (?sp + word_of_nat n) (umem (sys m3)) = read_u64 (?sp + word_of_nat n) (umem (sys ?m2))"
    by (rule handler_in_call [where A = A, OF L S p2 a2 h(2)])
  have r: "read_u64 (rbp (ureg m3) + 8) (umem (sys m3)) = addr E Main 5"
    using m3(8) [rule_format, of 8] ret m3(7) by simp
  obtain m4 where m4: "call_step A E S init_h_prog m3 = Inr (Going m4)"
      "poised (read_u64 (rbp (ureg m3) + 8) (umem (sys m3))) m4"
      "written m4 = written m3 @ [(1, chars S (gprs (ureg m3) RSI) (unat (gprs (ureg m3) RDX)))]"
    by (rule trap_writes [OF S m3(2,4)])
  have c: "chars S (literal S ping) 7 = text_of E ping 7"
  proof -
    have "UWrite ping 7 \<in> set (init_h_prog Fun)" by (simp add: init_h_prog_def ping_def)
    then show ?thesis using S unfolding stubs_ok_def by blast
  qed
  also have "\<dots> = ping" by (rule text_exact) (simp add: ping_def newline_def)
  finally have "map snd (written m4) = map snd (written m) @ [ping, ping]"
    using m4(3) m3(3,5,6) m1(3) by simp
  moreover have "\<forall>bs. exec_calls A E S init_h_prog ([True, False, True] @ replicate 3 False @ False # bs) m =
      exec_calls A E S init_h_prog bs m4"
    using m1(1) 2 m3(1) m4(1) by simp
  ultimately show ?thesis by (intro that [OF _ m4(2) [unfolded r]])
qed

end
