(* ===== verification/Thread_Alarm.thy ===== *)
theory Thread_Alarm
  imports Thread_Alone
begin

text \<open>
  Programs with an alarm, as \<open>init.c\<close>: any process may be taken out of its statements and into
  the handler, at any interrupt at which the countdown of \<open>init\<close> ends. What stays true under
  every interleaving: no execution leaves the program, only its texts are written, and
  a text that \<open>init\<close> owes, wherever it is taken, has been written when the run ends.
\<close>

section \<open>Bodies\<close>

text \<open>A thread or a handler: it writes texts of \<open>W\<close>, loops, and exits.\<close>

fun simple_body :: "'o uenv \<Rightarrow> char list set \<Rightarrow> ustmt list \<Rightarrow> bool" where
  "simple_body E W [UExit c] \<longleftrightarrow> True"
| "simple_body E W (UWrite s n # xs) \<longleftrightarrow> text_of E s n \<in> W \<and> simple_body E W xs"
| "simple_body E W (USpin # xs) \<longleftrightarrow> simple_body E W xs"
| "simple_body E W _ \<longleftrightarrow> False"

text \<open>The text \<open>t\<close> is written before the body exits.\<close>

fun owes :: "'o uenv \<Rightarrow> char list \<Rightarrow> ustmt list \<Rightarrow> bool" where
  "owes E t [] \<longleftrightarrow> False"
| "owes E t (UExit c # xs) \<longleftrightarrow> False"
| "owes E t (USpin # xs) \<longleftrightarrow> True"
| "owes E t (UWrite s n # xs) \<longleftrightarrow> text_of E s n = t \<or> owes E t xs"
| "owes E t (x # xs) \<longleftrightarrow> owes E t xs"

text \<open>\<open>main\<close>, whose handlers owe \<open>t\<close>.\<close>

fun signal_body :: "'o uenv \<Rightarrow> char list \<Rightarrow> char list set \<Rightarrow> program \<Rightarrow> ustmt list \<Rightarrow> bool" where
  "signal_body E t W P [UExit c] \<longleftrightarrow> True"
| "signal_body E t W P (UWrite s n # xs) \<longleftrightarrow> text_of E s n \<in> W \<and> signal_body E t W P xs"
| "signal_body E t W P (USpin # xs) \<longleftrightarrow> signal_body E t W P xs"
| "signal_body E t W P (UExpand v n fl # xs) \<longleftrightarrow> signal_body E t W P xs"
| "signal_body E t W P (UAlarm n # xs) \<longleftrightarrow> signal_body E t W P xs"
| "signal_body E t W P (USignal s h # xs) \<longleftrightarrow>
     s = SIGALRM \<and> simple_body E W (P h) \<and> owes E t (P h) \<and> signal_body E t W P xs"
| "signal_body E t W P (UClone f v # xs) \<longleftrightarrow> simple_body E W (P f) \<and> signal_body E t W P xs"
| "signal_body E t W P _ \<longleftrightarrow> False"

lemma simple_signal: "simple_body E W xs \<Longrightarrow> signal_body E t W P xs \<and> clones xs = 0"
  by (induction E W xs rule: simple_body.induct) auto

lemma signal_cases:
  assumes "signal_body E t W P (x # xs)"
  obtains (writes) s n where "x = UWrite s n" "xs \<noteq> []" "signal_body E t W P xs" "text_of E s n \<in> W"
  | (spins) "x = USpin"
  | (expands) v n fl where "x = UExpand v n fl" "xs \<noteq> []" "signal_body E t W P xs"
  | (alarms) n where "x = UAlarm n" "xs \<noteq> []" "signal_body E t W P xs"
  | (signals) h where "x = USignal SIGALRM h" "xs \<noteq> []" "signal_body E t W P xs" "simple_body E W (P h)" "owes E t (P h)"
  | (makes) f v where "x = UClone f v" "xs \<noteq> []" "signal_body E t W P xs" "simple_body E W (P f)"
  | (exits) code where "x = UExit code" "xs = []"
  using assms by (cases x; cases xs) auto

lemma simple_tail: "simple_body E W (x # xs) \<Longrightarrow> xs \<noteq> [] \<Longrightarrow> simple_body E W xs"
  by (cases x; cases xs) auto

lemma simple_stmt: "simple_body E W (x # xs) \<Longrightarrow> (\<exists>s n. x = UWrite s n) \<or> x = USpin \<or> (\<exists>c. x = UExit c)"
  by (cases x; cases xs) auto

section \<open>The invariant\<close>

definition handler_ok :: "'o uenv \<Rightarrow> char list \<Rightarrow> char list set \<Rightarrow> program \<Rightarrow> task \<Rightarrow> bool" where
  "handler_ok E t W P x \<longleftrightarrow> 2 < length (sighandlers x) \<and>
     (sighandlers x ! 2 = 0 \<or> (\<exists>h. sighandlers x ! 2 = addr E h 0 \<and> simple_body E W (P h) \<and> owes E t (P h)))"

definition sound :: "'o uenv \<Rightarrow> char list \<Rightarrow> char list set \<Rightarrow> program \<Rightarrow> 'o umach \<Rightarrow> bool" where
  "sound E t W P m \<longleftrightarrow> busy (sys m) \<and> set (map snd (written m)) \<subseteq> W \<and>
     card (live m) + (if 1 \<in> live m then clones (rest E P m 1) else 0) \<le> 15 \<and>
     (1 \<in> live m \<longrightarrow> signal_body E t W P (rest E P m 1) \<and> name_ok (name (tab (sys m) 1))) \<and>
     (\<forall>p \<in> live m. handler_ok E t W P (tab (sys m) p) \<and> (p \<noteq> 1 \<longrightarrow> simple_body E W (rest E P m p))) \<and>
     (t \<in> set (map snd (written m)) \<or> 1 \<in> live m \<and> owes E t (rest E P m 1))"

lemma soundD:
  assumes "sound E t W P m"
  shows "busy (sys m)" and "sched_ok (sys m)" and "cur (sys m) \<noteq> 0" and "cur (sys m) \<in> live m"
    and "p \<in> live m \<Longrightarrow> handler_ok E t W P (tab (sys m) p)" and "p \<in> live m \<Longrightarrow> signal_body E t W P (rest E P m p)"
    and "p \<in> live m \<Longrightarrow> p \<noteq> 1 \<Longrightarrow> simple_body E W (rest E P m p)"
proof -
  show b: "busy (sys m)" and ok: "sched_ok (sys m)" and c: "cur (sys m) \<noteq> 0"
    using assms by (auto simp: sound_def busy_def)
  show "cur (sys m) \<in> live m" using sched_okD(1,6) [OF ok] c by (simp add: live_def)
  show "p \<in> live m \<Longrightarrow> handler_ok E t W P (tab (sys m) p)"
    and s: "p \<in> live m \<Longrightarrow> p \<noteq> 1 \<Longrightarrow> simple_body E W (rest E P m p)"
    using assms by (auto simp: sound_def)
  show "signal_body E t W P (rest E P m p)" if "p \<in> live m"
  proof (cases "p = 1")
    case True
    then show ?thesis using assms that by (simp add: sound_def)
  next
    case False
    then show ?thesis using s [OF that] simple_signal by blast
  qed
qed

text \<open>Every process is where it was, or at its handler.\<close>

lemma sound_moved:
  assumes L: "layout_ok E P" and s: "sound E t W P m" and b: "busy (sys m')" and lv: "live m' = live m"
    and w: "written m' = written m"
    and f: "\<And>p. p \<in> live m \<Longrightarrow> name (tab (sys m') p) = name (tab (sys m) p) \<and>
      sighandlers (tab (sys m') p) = sighandlers (tab (sys m) p)"
    and rip: "\<And>p. p \<in> live m \<Longrightarrow> rip_of m' p = rip_of m p \<or>
      rip_of m' p = sighandlers (tab (sys m) p) ! 2 \<and> sighandlers (tab (sys m) p) ! 2 \<noteq> 0"
  shows "sound E t W P m'"
proof -
  have r: "rest E P m' p = rest E P m p \<or> simple_body E W (rest E P m' p) \<and> owes E t (rest E P m' p)" if p: "p \<in> live m" for p
    using rip [OF p]
  proof
    assume "rip_of m' p = rip_of m p"
    then show ?thesis by (simp add: rest_def)
  next
    assume r: "rip_of m' p = sighandlers (tab (sys m) p) ! 2 \<and> sighandlers (tab (sys m) p) ! 2 \<noteq> 0"
    then obtain h where h: "rip_of m' p = addr E h 0" "simple_body E W (P h)" "owes E t (P h)"
      using soundD(5) [OF s p] by (auto simp: handler_ok_def)
    then have "P h \<noteq> []" by auto
    then have "rest E P m' p = P h" using stmt_at_addr [OF L, of 0 h] h(1) by (simp add: rest_def)
    then show ?thesis using h by simp
  qed
  have h: "handler_ok E t W P (tab (sys m') p)" if "p \<in> live m" for p
    using soundD(5) [OF s that] f [OF that] by (simp add: handler_ok_def)
  have one: "signal_body E t W P (rest E P m' 1) \<and> name_ok (name (tab (sys m') 1)) \<and>
      clones (rest E P m' 1) \<le> clones (rest E P m 1) \<and> (owes E t (rest E P m 1) \<longrightarrow> owes E t (rest E P m' 1))"
    if "1 \<in> live m"
    using r [OF that] f [OF that] s that simple_signal [of E W "rest E P m' 1" t P] by (auto simp: sound_def)
  have "simple_body E W (rest E P m' p)" if "p \<in> live m" "p \<noteq> 1" for p
    using r [OF that(1)] soundD(7) [OF s that] by auto
  moreover have "card (live m) + (if 1 \<in> live m then clones (rest E P m' 1) else 0) \<le> 15"
    using s one by (auto simp: sound_def simp del: One_nat_def split: if_splits)
  ultimately show ?thesis using s b one h by (auto simp: sound_def lv w simp del: One_nat_def)
qed

section \<open>Interrupts\<close>

lemma tick_names:
  assumes run: "handle_timer_tick A junk u k = Inr (Resume u' k')" and ok: "sched_ok k" and c: "cur k \<noteq> 0"
  shows "name (tab k' p) = name (tab k p)" and "cur k' \<noteq> 0"
proof -
  obtain sp ip k1 k2 where st: "same_tasks k k2"
    and al: "tick_alarm A (entry_rsp u) (entry_rip u) k1 = Inr (Inr (sp, ip, k2))"
    and k1: "k1 = print [Tick (numticks k + 1), CurrentPid (cur k)] (k\<lparr>numticks := numticks k + 1\<rparr>)"
    and sw: "tick_switch junk (push_regs (gprs u) []) (u\<lparr>entry_rip := ip, entry_rsp := sp\<rparr>)
      (u\<lparr>entry_rip := ip, entry_rsp := sp\<rparr>) (wake_all k2) = Resume u' k'"
    by (rule tick_resume [OF ok run])
  have "name (tab k2 p) = name (tab k1 p)"
    using al by (auto simp: tick_alarm_def invoke_sync_signal_def Let_def split: if_splits)
  then show "name (tab k' p) = name (tab k p)" using tick_switch_kept(1) [OF sw, of p] by (simp add: k1)
  show "cur k' \<noteq> 0"
    by (rule tick_switch_process [OF sw]) (use st c sched_okD(1,2) [OF ok] in \<open>auto simp: same_tasks_def\<close>)
qed

lemma tick_busy:
  assumes b: "busy k" and len: "2 < length (sighandlers (tab k (cur k)))"
  obtains u' k' where "handle_timer_tick A junk u k = Inr (Resume u' k')" "busy k'"
    "\<forall>p < 16. state (tab k' p) = UNUSED \<longleftrightarrow> state (tab k p) = UNUSED"
    "\<forall>p. name (tab k' p) = name (tab k p) \<and> sighandlers (tab k' p) = sighandlers (tab k p)"
    "\<forall>p < 16. (if p = cur k' then u' else regs (tab k' p)) = (if p = cur k then interrupted u k else regs (tab k p))"
proof -
  have ok: "sched_ok k" and c: "cur k \<noteq> 0" and st: "\<And>p. p < 16 \<Longrightarrow> state (tab k p) \<in> {UNUSED, READY, RUNNING}"
    using b by (auto simp: busy_def)
  note okD = sched_okD [OF ok]
  obtain u' k' where run: "handle_timer_tick A junk u k = Inr (Resume u' k')" using tick_returns [OF ok c len] by blast
  have at: "after_tick u k u' k'" by (rule tick_after [OF ok run])
  have ts: "tick_state k p = (if p = cur k then READY else state (tab k p))" if "p < 16" for p
    using okD(4) [OF that] st [OF that] by (cases "ticks_to_sleep (tab k p) = 0") (auto simp: tick_state_def)
  have s': "state (tab k' p) = (if p = cur k' then RUNNING else if p = cur k then READY else state (tab k p))" if "p < 16" for p
    using at ts [OF that] that by (simp add: after_tick_def)
  have "tick_state k (cur k') = READY" "cur k' < 16" using at by (simp_all add: after_tick_def)
  then have c': "cur k' \<noteq> cur k \<Longrightarrow> state (tab k (cur k')) = READY" using ts by auto
  have "busy k'"
    using after_tick_ok [OF ok at] tick_names(2) [OF run ok c] s' st by (simp add: busy_def)
  moreover have "state (tab k' p) = UNUSED \<longleftrightarrow> state (tab k p) = UNUSED" if "p < 16" for p
    using s' [OF that] c' okD(6) by auto
  moreover have "(if p = cur k' then u' else regs (tab k' p)) = (if p = cur k then interrupted u k else regs (tab k p))"
    if "p < 16" for p
    using tick_frame [OF ok run len] at that by (auto simp: after_tick_def split: if_splits)
  ultimately show ?thesis using that run tick_names(1) [OF run ok c] tick_keeps_handlers [OF run ok] by blast
qed

lemma tick_sound:
  assumes L: "layout_ok E P" and s: "sound E t W P m"
  shows "\<exists>m'. tick_step A E m = Inr (Going m') \<and> sound E t W P m'"
proof -
  have len: "2 < length (sighandlers (tab (sys m) (cur (sys m))))"
    using soundD(5) [OF s soundD(4) [OF s]] by (simp add: handler_ok_def)
  obtain u' k' where t: "handle_timer_tick A (tick_junk E) (ureg m) (sys m) = Inr (Resume u' k')" "busy k'"
      "\<forall>p < 16. state (tab k' p) = UNUSED \<longleftrightarrow> state (tab (sys m) p) = UNUSED"
      "\<forall>p. name (tab k' p) = name (tab (sys m) p) \<and> sighandlers (tab k' p) = sighandlers (tab (sys m) p)"
      "\<forall>p < 16. (if p = cur k' then u' else regs (tab k' p)) =
        (if p = cur (sys m) then interrupted (ureg m) (sys m) else regs (tab (sys m) p))"
    by (rule tick_busy [OF soundD(1) [OF s] len])
  let ?m = "m\<lparr>ureg := u', sys := k'\<rparr>"
  have rip: "rip_of ?m p = rip_of m p \<or>
      rip_of ?m p = sighandlers (tab (sys m) p) ! 2 \<and> sighandlers (tab (sys m) p) ! 2 \<noteq> 0" if "p \<in> live m" for p
  proof -
    have "rip_of ?m p = (if p = cur (sys m) then entry_rip (interrupted (ureg m) (sys m)) else entry_rip (regs (tab (sys m) p)))"
      using arg_cong [OF t(5) [rule_format, of p], of entry_rip] that
      by (auto simp: rip_of_def live_def if_distrib [of entry_rip] split: if_splits)
    then show ?thesis by (auto simp: rip_of_def interrupted_def)
  qed
  have "sound E t W P ?m"
    by (rule sound_moved [OF L s _ _ _ _ rip]) (use t(2-4) in \<open>auto simp: live_def\<close>)
  then show ?thesis using t(1) by (simp add: tick_step_def switched_def)
qed

section \<open>Statements\<close>

text \<open>The statement of the current process, and the one behind it.\<close>

lemma stmt_here:
  assumes L: "layout_ok E P" and at: "rest E P m (cur (sys m)) = x # xs"
  obtains f i where "stmt_at E P (entry_rip (ureg m)) = Some (f, i)" "P f ! i = x" "i < length (P f)"
    "xs \<noteq> [] \<longrightarrow> stmt_at E P (addr E f (Suc i)) = Some (f, Suc i)" "xs = drop (Suc i) (P f)"
proof -
  obtain f i where fi: "stmt_at E P (entry_rip (ureg m)) = Some (f, i)" "drop i (P f) = x # xs"
    using at by (auto simp: rest_def rip_of_def split: option.splits)
  then have i: "i < length (P f)" by (metis drop_eq_Nil linorder_not_less list.distinct(1))
  then have "P f ! i = x" "xs = drop (Suc i) (P f)" using fi(2) by (simp_all flip: Cons_nth_drop_Suc)
  moreover have "stmt_at E P (addr E f (Suc i)) = Some (f, Suc i)" if "drop (Suc i) (P f) \<noteq> []"
    using that by (intro stmt_at_addr [OF L]) simp
  ultimately show ?thesis using that fi(1) i by blast
qed

text \<open>The current process has made a statement that neither makes a thread nor ends it.\<close>

lemma sound_step:
  assumes s: "sound E t W P m" and at: "rest E P m (cur (sys m)) = x # xs" and r: "rest E P m' (cur (sys m)) = xs"
    and x: "simple_body E W (x # xs) \<longrightarrow> simple_body E W xs" "signal_body E t W P xs" "clones xs \<le> clones (x # xs)"
    and c: "cur (sys m') = cur (sys m)"
    and f: "\<And>p. pid (tab (sys m') p) = pid (tab (sys m) p) \<and> state (tab (sys m') p) = state (tab (sys m) p) \<and>
      ticks_to_sleep (tab (sys m') p) = ticks_to_sleep (tab (sys m) p) \<and> name (tab (sys m') p) = name (tab (sys m) p) \<and>
      regs (tab (sys m') p) = regs (tab (sys m) p)"
    and h: "\<And>p. p \<in> live m \<Longrightarrow> handler_ok E t W P (tab (sys m') p)"
    and w: "set (map snd (written m)) \<subseteq> set (map snd (written m'))" "set (map snd (written m')) \<subseteq> W"
      "owes E t (x # xs) \<longrightarrow> t \<in> set (map snd (written m')) \<or> owes E t xs"
  shows "sound E t W P m'"
proof -
  have lv: "live m' = live m" by (simp add: live_def f)
  have rp: "rest E P m' p = rest E P m p" if "p \<noteq> cur (sys m)" for p
    by (rule rest_cong) (simp add: rip_of_def c f that)
  have "sched_ok (sys m') = sched_ok (sys m)" by (simp add: sched_ok_def c f)
  then have b: "busy (sys m')" using soundD(1) [OF s] by (simp add: busy_def c f)
  have body: "simple_body E W (rest E P m' p)" if "p \<in> live m" "p \<noteq> 1" for p
    using soundD(7) [OF s that] rp [of p] r at x(1) by (cases "p = cur (sys m)") auto
  have one: "signal_body E t W P (rest E P m' 1) \<and> clones (rest E P m' 1) \<le> clones (rest E P m 1) \<and>
      (owes E t (rest E P m 1) \<longrightarrow> t \<in> set (map snd (written m')) \<or> owes E t (rest E P m' 1))" if "1 \<in> live m"
  proof (cases "cur (sys m) = 1")
    case True
    then show ?thesis using r at x(2,3) w(3) by (simp del: One_nat_def)
  next
    case False
    then show ?thesis using rp [of 1] soundD(6) [OF s that] by (simp del: One_nat_def)
  qed
  have "card (live m) + (if 1 \<in> live m then clones (rest E P m' 1) else 0) \<le> 15"
    using s one by (auto simp: sound_def simp del: One_nat_def split: if_splits)
  then show ?thesis
    using s b body one h w(1,2) by (auto simp: sound_def lv f simp del: One_nat_def)
qed

lemma write_sound:
  assumes s: "sound E t W P m" and at: "rest E P m (cur (sys m)) = UWrite a n # xs" "xs \<noteq> []" and xs: "signal_body E t W P xs"
    and here: "text_of E a n \<in> W" and nxt: "stmt_at E P ret = Some (f, j)" "xs = drop j (P f)"
  shows "\<exists>m'. t_write E a n ret m = Going m' \<and> sound E t W P m'"
proof -
  let ?m = "(sys_return E ret m (sys_entry E ret m))\<lparr>written := written m @ [(cur (sys m), text_of E a n)]\<rparr>"
  have "rest E P ?m (cur (sys m)) = xs"
    using nxt by (simp add: rest_def rip_of_def sys_return_def)
  then have "sound E t W P ?m"
    by (rule sound_step [OF s at(1)])
      (use xs at(2) simple_tail [of E W "UWrite a n" xs] here s soundD(5) [OF s] in
        \<open>auto simp: sys_return_def sound_def\<close>)
  then show ?thesis by (simp add: t_write_def text_of_def)
qed

lemma expand_sound:
  assumes s: "sound E t W P m" and E: "expand_ok E"
    and at: "rest E P m (cur (sys m)) = UExpand v n fl # xs" and xs: "signal_body E t W P xs"
    and nxt: "stmt_at E P ret = Some (f, j)" "xs = drop j (P f)"
  shows "\<exists>m'. t_expand E v n fl ret m = Going m' \<and> sound E t W P m'"
proof -
  obtain ptr k where k: "sys_expand E n fl (sys_entry E ret m) = (ptr, k)" by fastforce
  obtain sg where sg: "cur k = cur (sys m)"
      "tab k = (tab (sys m))(cur (sys m) := (tab (sys m) (cur (sys m)))\<lparr>segs := sg\<rparr>)"
    using E [unfolded expand_ok_def, THEN spec, THEN spec, THEN spec, of n fl "sys_entry E ret m"] k by auto
  let ?m = "(sys_return E ret m k)\<lparr>vars := (vars m)(cur (sys m) := (vars m (cur (sys m)))(v := ptr))\<rparr>"
  have "rest E P ?m (cur (sys m)) = xs"
    using nxt sg by (simp add: rest_def rip_of_def sys_return_def)
  then have "sound E t W P ?m"
    by (rule sound_step [OF s at])
      (use xs s soundD(5) [OF s] in \<open>auto simp: sys_return_def sg handler_ok_def sound_def\<close>)
  then show ?thesis by (simp add: t_expand_def k)
qed

lemma alarm_sound:
  assumes s: "sound E t W P m" and at: "rest E P m (cur (sys m)) = UAlarm n # xs" and xs: "signal_body E t W P xs"
    and nxt: "stmt_at E P ret = Some (f, j)" "xs = drop j (P f)"
  shows "\<exists>m'. t_alarm E n ret m = Going m' \<and> sound E t W P m'"
proof -
  let ?m = "sys_return E ret m (snd (do_alarm n (sys_entry E ret m)))"
  have "rest E P ?m (cur (sys m)) = xs"
    using nxt by (simp add: rest_def rip_of_def sys_return_def do_alarm_def)
  then have "sound E t W P ?m"
    by (rule sound_step [OF s at])
      (use xs s soundD(5) [OF s] in \<open>auto simp: sys_return_def do_alarm_def handler_ok_def sound_def\<close>)
  then show ?thesis by (simp add: t_alarm_def)
qed

lemma signal_sound:
  assumes s: "sound E t W P m" and at: "rest E P m (cur (sys m)) = USignal SIGALRM h # xs" and xs: "signal_body E t W P xs"
    and h: "simple_body E W (P h)" "owes E t (P h)" and nxt: "stmt_at E P ret = Some (f, j)" "xs = drop j (P f)"
  shows "\<exists>m'. t_signal E SIGALRM h ret m = Inr (Going m') \<and> sound E t W P m'"
proof -
  let ?c = "cur (sys m)"
  let ?k = "upd ?c (\<lambda>x. x\<lparr>sighandlers := (sighandlers x)[2 := addr E h 0]\<rparr>) (sys_entry E ret m)"
  let ?m = "sys_return E ret m ?k"
  have len: "2 < length (sighandlers (tab (sys m) ?c))" using soundD(5) [OF s soundD(4) [OF s]] by (simp add: handler_ok_def)
  have "rest E P ?m ?c = xs"
    using nxt by (simp add: rest_def rip_of_def sys_return_def)
  then have "sound E t W P ?m"
    by (rule sound_step [OF s at])
      (use xs s soundD(5) [OF s] len h in \<open>auto simp: sys_return_def handler_ok_def sound_def\<close>)
  then show ?thesis using len by (simp add: t_signal_def do_signal_def)
qed

lemma clone_sound:
  assumes L: "layout_ok E P" and A: "new_ctx_ok A" "new_ctx_found A" and s: "sound E t W P m"
    and at: "rest E P m (cur (sys m)) = UClone f v # xs" and xs: "signal_body E t W P xs" and th: "simple_body E W (P f)"
    and nxt: "stmt_at E P ret = Some (g, j)" "xs = drop j (P g)"
  shows "\<exists>m'. t_clone A E f st ret m = Inr (Going m') \<and> sound E t W P m'"
proof -
  have live: "cur (sys m) \<in> live m" by (rule soundD(4) [OF s])
  have c: "cur (sys m) = 1" using soundD(7) [OF s live] at simple_stmt by (cases "cur (sys m) = 1") force+
  have card: "card (live m) + Suc (clones xs) \<le> 15" and nm: "name_ok (name (tab (sys m) 1))"
    using s live at unfolding c by (simp_all add: sound_def del: One_nat_def)
  have "busy (sys_entry E ret m)" using soundD(1) [OF s] by (simp add: busy_def)
  then obtain n r k' where n: "do_clone A (name_junk E) (addr E f 0) st (sys_entry E ret m) = Inr (r, k')" "1 < n" "n < 16"
      "state (tab (sys m) n) = UNUSED" "busy k'" "cur k' = 1" "state (tab k' n) = READY"
      "\<forall>p. p \<noteq> n \<longrightarrow> tab k' p = tab (sys m) p" "entry_rip (regs (tab k' n)) = addr E f 0"
    by (rule clone_busy [where junk = "name_junk E" and f = "addr E f 0" and st = st, OF A])
      (use c room_unused [of m] card nm in \<open>simp_all del: One_nat_def\<close>)
  have "tab k' n \<noteq> tab (sys m) n" using n(4,7) by auto
  then have sg: "sighandlers (tab k' n) = map (\<lambda>j. sighandlers (tab (sys m) 1) ! j) [0 ..< MAX_SIGNALS]"
    using clone_handlers [OF n(1)] by simp
  define m' where "m' = sys_return E ret m k'"
  have m': "sys m' = k'" "written m' = written m" by (simp_all add: m'_def sys_return_def)
  have rip: "rip_of m' p = (if p = 1 then ret else entry_rip (regs (tab k' p)))" for p
    using n(6) by (simp add: rip_of_def m'_def sys_return_def)
  have lv: "live m' = insert n (live m)" and nn: "n \<notin> live m"
    using n(2-4,7,8) by (auto simp: live_def m' split: if_splits)
  have "P f \<noteq> []" using th by auto
  then have rn: "rest E P m' n = P f"
    using n(2,6,9) stmt_at_addr [OF L, of 0 f] by (simp add: rest_def rip)
  have r1: "rest E P m' 1 = xs" using nxt by (simp add: rest_def rip)
  have rp: "rest E P m' p = rest E P m p" if "p \<noteq> 1" "p \<noteq> n" for p
    by (rule rest_cong) (use that n(8) c in \<open>simp add: rip\<close>, simp add: rip_of_def)
  have h: "handler_ok E t W P (tab k' p)" if "p \<in> live m'" for p
    using that lv soundD(5) [OF s, of p] soundD(5) [OF s live] n(8) sg c
    by (cases "p = n") (auto simp: handler_ok_def numeral_2_eq_2)
  have body: "simple_body E W (rest E P m' p)" if "p \<in> live m'" "p \<noteq> 1" for p
    using that lv rn th soundD(7) [OF s] rp [of p] by (cases "p = n") auto
  have "tab k' 1 = tab (sys m) 1" using n(2,8) by simp
  moreover have "t \<in> set (map snd (written m)) \<or> owes E t xs" using s at c by (auto simp: sound_def)
  moreover have "1 \<in> live m" using live c by simp
  ultimately have "sound E t W P m'"
    using s n(5) r1 xs card nm h body nn by (simp add: sound_def lv m' del: One_nat_def)
  then show ?thesis using n(1) by (simp add: t_clone_def m'_def)
qed

text \<open>The last exit: nobody else is in use, so that \<open>t\<close> is not owed any more.\<close>

lemma exit_sound_last:
  assumes s: "sound E t W P m" and at: "rest E P m (cur (sys m)) = [UExit code]"
    and None: "first_ready (tab (upd (cur (sys m)) (\<lambda>x. x\<lparr>state := UNUSED\<rparr>) (sys_entry E ret m))) (cur (sys m)) = None"
  shows "\<exists>m'. t_exit A E ret m = Ended m' \<and> set (map snd (written m')) \<subseteq> W \<and> t \<in> set (map snd (written m'))"
proof -
  let ?c = "cur (sys m)" and ?k = "sys_entry E ret m"
  let ?k1 = "upd ?c (\<lambda>x. x\<lparr>state := UNUSED\<rparr>) ?k"
  have b: "busy ?k" using soundD(1) [OF s] by (simp add: busy_def)
  have c: "?c \<in> live m" by (rule soundD(4) [OF s])
  have sok: "sched_ok (sys m)" by (rule soundD(2) [OF s])
  have ends: "t_exit A E ret m = Ended (m\<lparr>sys := print [CleaningUp] ?k1\<rparr>)"
  proof -
    have "\<not> is_wait (tab ?k1) ?c"
      using b sched_okD(1) [OF sok] by (fastforce simp: is_wait_def set_search_order busy_def)
    then show ?thesis using None by (simp add: t_exit_def do_exit_def Let_def switched_def pick_next_context_def)
  qed
  have "state (tab (sys m) p) = UNUSED" if "1 \<le> p" "p < 16" "p \<noteq> ?c" for p
    using first_ready_None [OF sched_okD(1) [OF sok] None that] b sched_okD(3) [OF sok that(2)] that
    by (auto simp: busy_def)
  then have "live m = {?c}" using c by (auto simp: live_def)
  then have "t \<in> set (map snd (written m))" using s at by (auto simp: sound_def)
  then show ?thesis using ends s by (auto simp: sound_def)
qed

lemma exit_sound_next:
  assumes s: "sound E t W P m" and at: "rest E P m (cur (sys m)) = [UExit code]"
    and Some: "first_ready (tab (upd (cur (sys m)) (\<lambda>x. x\<lparr>state := UNUSED\<rparr>) (sys_entry E ret m))) (cur (sys m)) = Some n"
  shows "\<exists>m'. t_exit A E ret m = Going m' \<and> sound E t W P m'"
proof -
  let ?c = "cur (sys m)" and ?k = "sys_entry E ret m"
  have b: "busy ?k" using soundD(1) [OF s] by (simp add: busy_def)
  have c: "?c \<in> live m" by (rule soundD(4) [OF s])
  from Some obtain u' k' where run: "do_exit A ?k = Resume u' k'" and gw: "u' = regs (tab (sys m) n)" "cur k' = n"
      "tab k' = (tab (sys m))(?c := (tab (sys m) ?c)\<lparr>state := UNUSED\<rparr>, n := (tab (sys m) n)\<lparr>state := RUNNING\<rparr>)"
    and b': "busy k'" and n: "1 \<le> n" "n < 16" "n \<noteq> ?c" "state (tab (sys m) n) = READY"
    by (rule exit_next [where A = A, OF b, unfolded sys_entry_simps]) auto
  let ?m = "m\<lparr>ureg := u', sys := k'\<rparr>"
  have lv: "live ?m = live m - {?c}" using n gw(3) by (auto simp: live_def split: if_splits)
  have rp: "rest E P ?m p = rest E P m p" if "p \<in> live ?m" for p
    using that lv by (intro rest_cong) (auto simp: rip_of_def gw n(3))
  have f: "name (tab k' p) = name (tab (sys m) p) \<and> sighandlers (tab k' p) = sighandlers (tab (sys m) p)" for p
    by (auto simp: gw(3))
  have "card (live ?m) \<le> card (live m)" unfolding lv by (rule card_mono) auto
  then have card: "card (live ?m) + (if 1 \<in> live ?m then clones (rest E P ?m 1) else 0) \<le> 15"
    using s rp [of 1] lv by (auto simp: sound_def split: if_splits)
  have h: "handler_ok E t W P (tab k' p) \<and> (p \<noteq> 1 \<longrightarrow> simple_body E W (rest E P ?m p))" if "p \<in> live ?m" for p
    using soundD(5,7) [OF s, of p] that lv rp [OF that] f [of p] by (auto simp: handler_ok_def)
  have one: "signal_body E t W P (rest E P ?m 1) \<and> name_ok (name (tab k' 1))" if "1 \<in> live ?m"
    using s that lv rp [OF that] f [of 1] by (simp add: sound_def del: One_nat_def)
  have "t \<in> set (map snd (written m)) \<or> 1 \<in> live ?m \<and> owes E t (rest E P ?m 1)"
    using s at rp [of 1] unfolding lv by (cases "?c = 1") (auto simp: sound_def)
  then have "sound E t W P ?m" using s b' card h one by (simp add: sound_def del: One_nat_def)
  then show ?thesis using run by (auto simp: t_exit_def switched_def)
qed

lemma exit_sound:
  assumes s: "sound E t W P m" and at: "rest E P m (cur (sys m)) = [UExit code]"
  shows "\<exists>m'. t_exit A E ret m = Going m' \<and> sound E t W P m' \<or>
    t_exit A E ret m = Ended m' \<and> set (map snd (written m')) \<subseteq> W \<and> t \<in> set (map snd (written m'))"
  using exit_sound_last [OF s at, where A = A and ret = ret] exit_sound_next [OF s at, where A = A and ret = ret]
  by (cases "first_ready (tab (upd (cur (sys m)) (\<lambda>x. x\<lparr>state := UNUSED\<rparr>) (sys_entry E ret m))) (cur (sys m))") blast+

section \<open>Whole runs\<close>

lemma user_sound:
  assumes L: "layout_ok E P" and A: "new_ctx_ok A" "new_ctx_found A" and E: "expand_ok E" and s: "sound E t W P m"
  shows "\<exists>m'. user_step A E P m = Inr (Going m') \<and> sound E t W P m' \<or>
    user_step A E P m = Inr (Ended m') \<and> set (map snd (written m')) \<subseteq> W \<and> t \<in> set (map snd (written m'))"
proof -
  have body: "signal_body E t W P (rest E P m (cur (sys m)))" by (rule soundD(6) [OF s soundD(4) [OF s]])
  then obtain x xs where at: "rest E P m (cur (sys m)) = x # xs" by (cases "rest E P m (cur (sys m))") auto
  obtain f i where st: "stmt_at E P (entry_rip (ureg m)) = Some (f, i)" "P f ! i = x" "i < length (P f)"
      "xs \<noteq> [] \<longrightarrow> stmt_at E P (addr E f (Suc i)) = Some (f, Suc i)" "xs = drop (Suc i) (P f)"
    by (rule stmt_here [OF L at])
  have run: "user_step A E P m = do_stmt A E x (addr E f (Suc i)) m"
    using st(1,2) soundD(3) [OF s] by (simp add: user_step_def)
  have "signal_body E t W P (x # xs)" using body at by simp
  then show ?thesis
  proof (cases rule: signal_cases)
    case (writes a n)
    from write_sound [OF s at [unfolded writes(1)] writes(2,3,4) st(4) [rule_format, OF writes(2)] st(5)]
    show ?thesis by (auto simp: run do_stmt_def writes(1))
  next
    case spins
    then show ?thesis using s by (auto simp: run do_stmt_def)
  next
    case (expands v n fl)
    from expand_sound [OF s E at [unfolded expands(1)] expands(3) st(4) [rule_format, OF expands(2)] st(5)]
    show ?thesis by (auto simp: run do_stmt_def expands(1))
  next
    case (alarms n)
    from alarm_sound [OF s at [unfolded alarms(1)] alarms(3) st(4) [rule_format, OF alarms(2)] st(5)]
    show ?thesis by (auto simp: run do_stmt_def alarms(1))
  next
    case (signals h)
    from signal_sound [OF s at [unfolded signals(1)] signals(3-5) st(4) [rule_format, OF signals(2)] st(5)]
    show ?thesis by (auto simp: run do_stmt_def signals(1))
  next
    case (makes g v)
    from clone_sound [OF L A s at [unfolded makes(1)] makes(3,4) st(4) [rule_format, OF makes(2)] st(5)]
    show ?thesis by (auto simp: run do_stmt_def makes(1))
  next
    case (exits code)
    from exit_sound [OF s at [unfolded exits]] show ?thesis by (simp add: run do_stmt_def exits(1))
  qed
qed

lemma sound_run:
  assumes L: "layout_ok E P" and A: "new_ctx_ok A" "new_ctx_found A" and E: "expand_ok E"
  shows "sound E t W P m \<Longrightarrow> \<exists>m'. exec A E P bs m = Inr (Going m') \<and> set (map snd (written m')) \<subseteq> W \<or>
    exec A E P bs m = Inr (Ended m') \<and> set (map snd (written m')) \<subseteq> W \<and> t \<in> set (map snd (written m'))"
proof (induction bs arbitrary: m)
  case Nil
  then show ?case by (auto simp: sound_def)
next
  case (Cons b bs)
  show ?case
  proof (cases b)
    case True
    then show ?thesis using tick_sound [OF L Cons.prems, of A] Cons.IH by auto
  next
    case False
    then show ?thesis using user_sound [OF L A E Cons.prems] Cons.IH by auto
  qed
qed

end
