(* ===== verification/Thread_Properties.thy ===== *)
theory Thread_Properties
  imports Thread_Calls Thread_Alarm
begin

text \<open>
  What the user programs of assignment 3 do under the scheduler, for a system in which only
  \<open>init\<close> runs at first.
\<close>

section \<open>A system at its start\<close>

text \<open>Only \<open>init\<close> is in use, at the first statement of its program; nothing has been written.\<close>

definition at_start :: "'o uenv \<Rightarrow> 'o umach \<Rightarrow> bool" where
  "at_start E m \<longleftrightarrow> calm (sys m) \<and> cur (sys m) = 1 \<and> entry_rip (ureg m) = addr E Main 0 \<and> written m = [] \<and>
     name_ok (name (tab (sys m) 1)) \<and> (\<forall>p \<in> {2 ..< 16}. state (tab (sys m) p) = UNUSED)"

lemma at_startD:
  assumes "at_start E m"
  shows "calm (sys m)" "cur (sys m) = 1" "live m = {1}" "rip_of m 1 = addr E Main 0"
proof -
  show c: "calm (sys m)" "cur (sys m) = 1" and "rip_of m 1 = addr E Main 0"
    using assms by (simp_all add: at_start_def rip_of_def)
  have "state (tab (sys m) 1) = RUNNING" using sched_okD(6) [of "sys m"] c by (simp add: calm_def)
  moreover have "p = 1" if "1 \<le> p" "p < 16" "state (tab (sys m) p) \<noteq> UNUSED" for p
    using assms that by (cases "p = 1") (auto simp: at_start_def)
  ultimately show "live m = {1}" by (auto simp: live_def)
qed

definition ex_env3 :: "nat uenv" where
  "ex_env3 = \<lparr>addr = (\<lambda>f i. (case f of Main \<Rightarrow> 0x1000 | Fun \<Rightarrow> 0x2000 | Fu \<Rightarrow> 0x3000 | Fun1 \<Rightarrow> 0x4000
       | Fun2 \<Rightarrow> 0x5000 | Fun3 \<Rightarrow> 0x6000) + word_of_nat (16 * i)),
     beyond = (\<lambda>_. replicate 20 (CHR 0x00)), clobber = (\<lambda>_ _. 0), stack_rest = (\<lambda>_. 0), tick_junk = (\<lambda>_. 0),
     name_junk = (\<lambda>_. CHR 0x00), buff_addr = entry_rsp, sys_expand = (\<lambda>n fl k. (0x180000000, k)),
     sys_getpid = (\<lambda>k. (word_of_nat (pid (tab k (cur k))), k)), div_error = div_trap ex_ops\<rparr>"

definition ex_start3 :: "nat umach" where
  "ex_start3 = \<lparr>ureg = (ex_regs 0x9000)\<lparr>entry_rip := 0x1000\<rparr>,
     sys = ex_sched\<lparr>tab := (\<lambda>p. (ex_task p)\<lparr>state := if p = 0 then READY else if p = 1 then RUNNING else UNUSED,
       ticks_to_sleep := 0, ticks_to_alarm := 0\<rparr>)\<rparr>, vars = (\<lambda>_ _. 0), written = []\<rparr>"

lemma ex_found: "new_ctx_found ex_ops"
  by (force simp: new_ctx_found_def ex_ops_def find_None_iff)

lemma ex_expand: "expand_ok ex_env3"
  unfolding expand_ok_def
proof (intro allI conjI)
  fix n fl and k :: "nat sched"
  show "cur (snd (sys_expand ex_env3 n fl k)) = cur k" by (simp add: ex_env3_def)
  show "\<exists>sg. tab (snd (sys_expand ex_env3 n fl k)) = (tab k)(cur k := (tab k (cur k))\<lparr>segs := sg\<rparr>)"
    by (rule exI [of _ "segs (tab k (cur k))"]) (simp add: ex_env3_def)
qed

lemma ex_start3: "at_start ex_env3 ex_start3"
  by (auto simp: at_start_def ex_start3_def ex_env3_def calm_def sched_ok_def name_ok_def)

section \<open>Two threads\<close>

text \<open>
  C30: \<open>init_n.c\<close> starts two threads, and the three processes each write a line and exit. However
  the timer interrupts them, nothing is lost or done twice: the run ends after the ten
  statements, and each of the three lines has been written exactly once. (The counts passed to
  \<open>write\<close> go beyond the line, so that bytes behind the string are written too.)
\<close>

theorem two_threads_complete:
  assumes "layout_ok E init_n_prog" and "new_ctx_ok A" and "new_ctx_found A" and "expand_ok E"
    and "at_start E m" and "10 \<le> length (filter Not bs)"
  shows "\<exists>m'. exec A E init_n_prog bs m = Inr (Ended m') \<and>
    mset (map snd (written m')) = {# text_of E (''Hello Hello'' @ newline) 12, text_of E (''Bye Bye'' @ newline) 9,
      text_of E (''back to main'' @ newline) 20 #}"
proof -
  note s = at_startD [OF assms(5)]
  have "stmt_at E init_n_prog (addr E Main 0) = Some (Main, 0)"
    by (rule stmt_at_addr [OF assms(1)]) (simp add: init_n_prog_def)
  then have r: "rest E init_n_prog m 1 = init_n_prog Main" by (simp add: rest_def s(4) del: One_nat_def)
  have "flat_ok E init_n_prog m"
    using s(1,3) r assms(5) by (simp add: flat_ok_def init_n_prog_def at_start_def)
  moreover have "total_work E init_n_prog m = 10"
    using r s(3) by (simp add: total_work_def init_n_prog_def)
  moreover have "total_text E init_n_prog m = {# text_of E (''Hello Hello'' @ newline) 12,
      text_of E (''Bye Bye'' @ newline) 9, text_of E (''back to main'' @ newline) 20 #}"
    using r s(3) assms(5) by (simp add: total_text_def init_n_prog_def at_start_def)
  ultimately show ?thesis using flat_run [OF assms(1-4), of m bs] assms(6) by simp
qed

lemma ex_layout_n: "layout_ok ex_env3 init_n_prog"
  by (simp add: layout_ok_def points_def init_n_prog_def ex_env3_def upt_rec)

theorem two_threads_complete_witness:
  "\<exists>m'. exec ex_ops ex_env3 init_n_prog (concat (replicate 10 [True, False, True])) ex_start3 = Inr (Ended m') \<and>
    size (mset (map snd (written m'))) = 3"
proof -
  let ?bs = "concat (replicate 10 [True, False, True])"
  have "10 \<le> length (filter Not ?bs)" by (simp add: filter_concat length_concat)
  then obtain m' where m': "exec ex_ops ex_env3 init_n_prog ?bs ex_start3 = Inr (Ended m')"
      "mset (map snd (written m')) = {# text_of ex_env3 (''Hello Hello'' @ newline) 12,
        text_of ex_env3 (''Bye Bye'' @ newline) 9, text_of ex_env3 (''back to main'' @ newline) 20 #}"
    using two_threads_complete [OF ex_layout_n ex_ops_ok ex_found ex_expand ex_start3] by blast
  have "size (mset (map snd (written m'))) = 3" unfolding m'(2) by simp
  then show ?thesis using m'(1) by blast
qed

section \<open>Sleep and alarm\<close>

lemma start_stands:
  assumes "at_start E m" and "2 < length (sighandlers (tab (sys m) 1))"
  shows "stands E Main 0 m" and "alarm_in m = 0"
  using assms by (auto simp: at_start_def stands_def calm_def alone_def)

text \<open>
  \<open>init_old.c\<close> writes its first line, sleeps for ten ticks, writes the second, sleeps for
  five, writes the third, and is taken out of its endless loop by the fifth tick after the
  alarm was set: the handler writes a line and exits, which ends the run. It makes no difference
  how much the swapper or the loop runs between the ticks.
\<close>

theorem sleeper_ends:
  assumes "layout_ok E init_old_prog" and "addr E Fu 0 \<noteq> 0"
    and "at_start E m" and "2 < length (sighandlers (tab (sys m) 1))"
    and "ticks 10 ts1" and "ticks 5 ts2" and "ticks 5 ts3"
  shows "\<exists>m'. exec A E init_old_prog
      ([False, False] @ ts1 @ [False, False] @ ts2 @ [False, False, False] @ ts3 @ [False, False]) m = Inr (Ended m') \<and>
    map snd (written m') = [text_of E (''aaaaaa'' @ newline) 12, text_of E (''aaaaaa'' @ newline) 12,
      text_of E (''dddd'' @ newline) 10, text_of E (''Hll'' @ newline) 15]"
proof -
  note st = start_stands [OF assms(3,4)]
  have P: "take 8 (init_old_prog Main) = sleeper" "7 < length (init_old_prog Main)" "init_old_prog Main ! 7 = USpin"
    by (simp_all add: init_old_prog_def sleeper_def)
  have F: "0 < length (init_old_prog Fu)" "init_old_prog Fu ! 0 = UWrite (''Hll'' @ newline) 15"
      "Suc 0 < length (init_old_prog Fu)" "init_old_prog Fu ! Suc 0 = UExit 0"
    by (simp_all add: init_old_prog_def)
  obtain m1 where m1: "\<forall>bs. exec A E init_old_prog ([False, False] @ ts1 @ [False, False] @ ts2 @ [False, False, False] @ bs) m =
        exec A E init_old_prog bs m1" "stands E Main 7 m1" "alarm_in m1 = 5" "alarm_set m1 = 5" "on_alarm m1 = addr E Fu 0"
      "map snd (written m1) = map snd (written m) @ [text_of E (''aaaaaa'' @ newline) 12, text_of E (''aaaaaa'' @ newline) 12,
        text_of E (''dddd'' @ newline) 10]"
    by (rule sleeper_runs [where A = A, OF assms(1) P(1) st assms(5,6)])
  have "alarm_in m1 \<noteq> 0" "ticks (unat (alarm_in m1)) ts3" using m1(3) assms(7) by simp_all
  from spin_phase [OF assms(1) m1(2) P(2,3) this(1) m1(5) assms(2) this(2), of A]
  obtain m2 where m2: "\<forall>bs. exec A E init_old_prog (ts3 @ bs) m1 = exec A E init_old_prog bs m2" "stands E Fu 0 m2"
      "same_proc m1 m2" by blast
  obtain m3 where m3: "\<forall>bs. exec A E init_old_prog (False # bs) m2 = exec A E init_old_prog bs m3" "stands E Fu (Suc 0) m3"
      "written m3 = written m2 @ [(1, text_of E (''Hll'' @ newline) 15)]"
    using sleeper_write [where A = A, OF assms(1) m2(2) F(1,2)] by metis
  obtain m4 where m4: "t_exit A E (addr E Fu (Suc (Suc 0))) m3 = Ended m4" "written m4 = written m3"
    using exit_phase [OF m3(2)] by blast
  have "exec A E init_old_prog [False] m3 = Inr (Ended m4)"
    using exec_stmt [OF assms(1) m3(2) F(3,4), of A "Ended m4" "[]"] m4(1) by (simp add: do_stmt_def)
  then have "exec A E init_old_prog
      ([False, False] @ ts1 @ [False, False] @ ts2 @ [False, False, False] @ ts3 @ [False, False]) m = Inr (Ended m4)"
    using m1(1) m2(1) m3(1) by metis
  moreover have "written m = []" using assms(3) by (simp add: at_start_def)
  ultimately show ?thesis using m1(6) m2(3) m3(3) m4(2) by (intro exI [of _ m4]) (simp add: same_proc_def)
qed

lemma ex_layout_old: "layout_ok ex_env3 init_old_prog"
  by (simp add: layout_ok_def points_def init_old_prog_def ex_env3_def upt_rec)

lemma ex_handlers3: "2 < length (sighandlers (tab (sys ex_start3) 1))"
  by (simp add: ex_start3_def)

lemma ex_ticks: "ticks n (replicate n True)" "ticks n (concat (replicate n [False, True]))"
  by (induction n) (simp_all add: ticks_Cons)

theorem sleeper_ends_witness:
  "\<exists>m'. exec ex_ops ex_env3 init_old_prog ([False, False] @ replicate 10 True @ [False, False] @
      concat (replicate 5 [False, True]) @ [False, False, False] @ replicate 5 True @ [False, False]) ex_start3 = Inr (Ended m') \<and>
    length (written m') = 4"
proof -
  have "addr ex_env3 Fu 0 \<noteq> 0" by (simp add: ex_env3_def)
  note run = sleeper_ends [OF ex_layout_old this ex_start3 ex_handlers3 ex_ticks(1) ex_ticks(2) ex_ticks(1), of ex_ops]
  show ?thesis
  proof (rule ex_forward [OF run], elim conjE, intro conjI)
    fix m' :: "nat umach"
    assume w: "map snd (written m') = [text_of ex_env3 (''aaaaaa'' @ newline) 12, text_of ex_env3 (''aaaaaa'' @ newline) 12,
      text_of ex_env3 (''dddd'' @ newline) 10, text_of ex_env3 (''Hll'' @ newline) 15]"
    show "length (written m') = 4" using arg_cong [OF w, of length] by simp
  qed
qed

section \<open>An alarm that comes back\<close>

text \<open>One period of \<open>init _m.c\<close>: five ticks in the loop, the handler, and back into the loop.\<close>

lemma alarm_period:
  assumes L: "layout_ok E init_m_prog" and h: "addr E Fu 0 \<noteq> 0" and st: "stands E Main 7 m"
    and a: "alarm_in m = 5" "alarm_set m = 5" "on_alarm m = addr E Fu 0" and ts: "ticks 5 ts"
  obtains m' where "\<forall>bs. exec A E init_m_prog (ts @ False # False # bs) m = exec A E init_m_prog bs m'"
    "stands E Main 7 m'" "alarm_in m' = 5" "alarm_set m' = 5" "on_alarm m' = addr E Fu 0"
    "map snd (written m') = map snd (written m) @ [text_of E (''Hll'' @ newline) 15]"
proof -
  have M: "7 < length (init_m_prog Main)" "init_m_prog Main ! 7 = USpin" by (simp_all add: init_m_prog_def)
  have F: "0 < length (init_m_prog Fu)" "init_m_prog Fu ! 0 = UWrite (''Hll'' @ newline) 15"
      "Suc 0 < length (init_m_prog Fu)" "init_m_prog Fu ! Suc 0 = UReturn"
    by (simp_all add: init_m_prog_def)
  have "alarm_in m \<noteq> 0" "ticks (unat (alarm_in m)) ts" using a(1) ts by simp_all
  from spin_phase [OF L st M this(1) a(3) h this(2), of A]
  obtain m1 where m1: "\<forall>bs. exec A E init_m_prog (ts @ bs) m = exec A E init_m_prog bs m1" "stands E Fu 0 m1"
      "alarm_in m1 = 5" "same_proc m m1" "read_u64 (entry_rsp (ureg m1)) (umem (sys m1)) = addr E Main 7"
    using a(2) by auto
  obtain m2 where m2: "\<forall>bs. exec A E init_m_prog (False # bs) m1 = exec A E init_m_prog bs m2" "stands E Fu (Suc 0) m2"
      "written m2 = written m1 @ [(1, text_of E (''Hll'' @ newline) 15)]" "alarm_in m2 = alarm_in m1"
      "alarm_set m2 = alarm_set m1" "on_alarm m2 = on_alarm m1" "entry_rsp (ureg m2) = entry_rsp (ureg m1)"
      "umem (sys m2) = umem (sys m1)"
    by (rule sleeper_write [where A = A, OF L m1(2) F(1,2)])
  have "read_u64 (entry_rsp (ureg m2)) (umem (sys m2)) = addr E Main 7" using m1(5) m2(7,8) by simp
  then obtain m3 where m3: "do_stmt A E UReturn (addr E Fu (Suc (Suc 0))) m2 = Inr (Going m3)" "stands E Main 7 m3"
      "same_proc m2 m3" "alarm_in m3 = alarm_in m2"
    using return_phase [OF m2(2)] by blast
  have "exec A E init_m_prog (False # bs) m2 = exec A E init_m_prog bs m3" for bs
    using exec_stmt [OF L m2(2) F(3,4) m3(1), of bs] by simp
  then have "\<forall>bs. exec A E init_m_prog (ts @ False # False # bs) m = exec A E init_m_prog bs m3"
    using m1(1) m2(1) by metis
  then show ?thesis
    using that [of m3] m1(3,4) m2(3-6) m3(2-4) a(2,3) by (simp add: same_proc_def)
qed

lemma alarm_periods:
  assumes L: "layout_ok E init_m_prog" and h: "addr E Fu 0 \<noteq> 0" and st: "stands E Main 7 m"
    and a: "alarm_in m = 5" "alarm_set m = 5" "on_alarm m = addr E Fu 0" and ts: "list_all (ticks 5) pss"
  shows "\<exists>m'. exec A E init_m_prog (concat (map (\<lambda>ts. ts @ [False, False]) pss)) m = Inr (Going m') \<and> stands E Main 7 m' \<and>
    map snd (written m') = map snd (written m) @ replicate (length pss) (text_of E (''Hll'' @ newline) 15)"
  using st a ts
proof (induction pss arbitrary: m)
  case Nil
  then show ?case by simp
next
  case (Cons ts pss)
  have "ticks 5 ts" "list_all (ticks 5) pss" using Cons.prems(5) by simp_all
  obtain m1 where m1: "\<forall>bs. exec A E init_m_prog (ts @ False # False # bs) m = exec A E init_m_prog bs m1"
    "stands E Main 7 m1" "alarm_in m1 = 5" "alarm_set m1 = 5" "on_alarm m1 = addr E Fu 0"
    "map snd (written m1) = map snd (written m) @ [text_of E (''Hll'' @ newline) 15]"
    by (rule alarm_period [where A = A, OF L h Cons.prems(1-4) \<open>ticks 5 ts\<close>])
  show ?case
    using Cons.IH [OF m1(2-5) \<open>list_all (ticks 5) pss\<close>] m1(1,6) by auto
qed

text \<open>
  In \<open>init _m.c\<close> the handler returns. It returns into the endless loop, where the process was
  interrupted, and the kernel has set the alarm again: after the three lines of the beginning
  every further period of five ticks writes one more line and leaves the process in its loop,
  for any number of periods.
\<close>

theorem periodic_alarm:
  assumes "layout_ok E init_m_prog" and "addr E Fu 0 \<noteq> 0"
    and "at_start E m" and "2 < length (sighandlers (tab (sys m) 1))"
    and "ticks 10 ts1" and "ticks 5 ts2" and "list_all (ticks 5) pss"
  shows "\<exists>m'. exec A E init_m_prog
      ([False, False] @ ts1 @ [False, False] @ ts2 @ [False, False, False] @ concat (map (\<lambda>ts. ts @ [False, False]) pss)) m =
        Inr (Going m') \<and>
    cur (sys m') = 1 \<and> entry_rip (ureg m') = addr E Main 7 \<and>
    map snd (written m') = [text_of E (''aaaaaa'' @ newline) 12, text_of E (''aaaaaa'' @ newline) 12,
      text_of E (''dddd'' @ newline) 10] @ replicate (length pss) (text_of E (''Hll'' @ newline) 15)"
proof -
  note st = start_stands [OF assms(3,4)]
  have P: "take 8 (init_m_prog Main) = sleeper" by (simp add: init_m_prog_def sleeper_def)
  obtain m1 where m1: "\<forall>bs. exec A E init_m_prog ([False, False] @ ts1 @ [False, False] @ ts2 @ [False, False, False] @ bs) m =
        exec A E init_m_prog bs m1" "stands E Main 7 m1" "alarm_in m1 = 5" "alarm_set m1 = 5" "on_alarm m1 = addr E Fu 0"
      "map snd (written m1) = map snd (written m) @ [text_of E (''aaaaaa'' @ newline) 12, text_of E (''aaaaaa'' @ newline) 12,
        text_of E (''dddd'' @ newline) 10]"
    by (rule sleeper_runs [where A = A, OF assms(1) P st assms(5,6)])
  obtain m2 where m2: "exec A E init_m_prog (concat (map (\<lambda>ts. ts @ [False, False]) pss)) m1 = Inr (Going m2)" "stands E Main 7 m2"
      "map snd (written m2) = map snd (written m1) @ replicate (length pss) (text_of E (''Hll'' @ newline) 15)"
    using alarm_periods [OF assms(1,2) m1(2-5) assms(7)] by blast
  have "written m = []" using assms(3) by (simp add: at_start_def)
  then show ?thesis using m1(1,6) m2 by (intro exI [of _ m2]) (simp add: stands_def)
qed

lemma ex_layout_m: "layout_ok ex_env3 init_m_prog"
  by (simp add: layout_ok_def points_def init_m_prog_def ex_env3_def upt_rec)

theorem periodic_alarm_witness:
  "\<exists>m'. exec ex_ops ex_env3 init_m_prog ([False, False] @ replicate 10 True @ [False, False] @
      concat (replicate 5 [False, True]) @ [False, False, False] @
      concat (map (\<lambda>ts. ts @ [False, False]) [replicate 5 True, concat (replicate 5 [False, True])])) ex_start3 = Inr (Going m') \<and>
    length (written m') = 5"
proof -
  have h: "addr ex_env3 Fu 0 \<noteq> 0" by (simp add: ex_env3_def)
  have t: "list_all (ticks 5) [replicate 5 True, concat (replicate 5 [False, True])]"
    using ex_ticks(1) [of 5] ex_ticks(2) [of 5] by simp
  note run = periodic_alarm [OF ex_layout_m h ex_start3 ex_handlers3 ex_ticks(1) ex_ticks(2) t, of ex_ops]
  show ?thesis
  proof (rule ex_forward [OF run], elim conjE, intro conjI)
    fix m' :: "nat umach"
    assume w: "map snd (written m') = [text_of ex_env3 (''aaaaaa'' @ newline) 12, text_of ex_env3 (''aaaaaa'' @ newline) 12,
      text_of ex_env3 (''dddd'' @ newline) 10] @
      replicate (length [replicate 5 True, concat (replicate 5 [False, True])]) (text_of ex_env3 (''Hll'' @ newline) 15)"
    show "length (written m') = 5" using arg_cong [OF w, of length] by simp
  qed
qed

section \<open>An alarm among threads\<close>

text \<open>
  C31: \<open>init.c\<close> sets an alarm, starts a thread and loops. The alarm may find any of the two processes
  at any statement, more than once, and send it into the handler. However the interrupts fall, no
  execution faults or leaves the program, nothing but the two lines is written, and when the
  run ends the line of the handler has been written. (That of the thread may be missing.)
\<close>

theorem alarm_line_written:
  assumes "layout_ok E init_prog" and "new_ctx_ok A" and "new_ctx_found A" and "expand_ok E"
    and "at_start E m" and "2 < length (sighandlers (tab (sys m) 1))" and "sighandlers (tab (sys m) 1) ! 2 = 0"
  shows "\<exists>m'. (exec A E init_prog bs m = Inr (Going m') \<or>
      exec A E init_prog bs m = Inr (Ended m') \<and> text_of E (''ALARM'' @ newline) 12 \<in> set (map snd (written m'))) \<and>
    set (map snd (written m')) \<subseteq> {text_of E (''ALARM'' @ newline) 12, text_of E (''Hello Hello'' @ newline) 12}"
proof -
  let ?t = "text_of E (''ALARM'' @ newline) 12" and ?h = "text_of E (''Hello Hello'' @ newline) 12"
  note s = at_startD [OF assms(5)]
  have "stmt_at E init_prog (addr E Main 0) = Some (Main, 0)"
    by (rule stmt_at_addr [OF assms(1)]) (simp add: init_prog_def)
  then have r: "rest E init_prog m 1 = init_prog Main" by (simp add: rest_def s(4) del: One_nat_def)
  have "busy (sys m)" using s(1) by (simp add: calm_busy)
  moreover have "handler_ok E ?t {?t, ?h} init_prog (tab (sys m) 1)" using assms(6,7) by (simp add: handler_ok_def)
  moreover have "signal_body E ?t {?t, ?h} init_prog (init_prog Main)" "owes E ?t (init_prog Main)"
    by (simp_all add: init_prog_def)
  ultimately have "sound E ?t {?t, ?h} init_prog m"
    using s(3) r assms(5) by (simp add: sound_def init_prog_def at_start_def)
  from sound_run [OF assms(1-4) this, of bs] show ?thesis by blast
qed

lemma ex_layout_i: "layout_ok ex_env3 init_prog"
  by (simp add: layout_ok_def points_def init_prog_def ex_env3_def upt_rec)

text \<open>The system of the other examples, without a handler.\<close>

definition ex_start4 :: "nat umach" where
  "ex_start4 = ex_start3\<lparr>sys := upd 1 (\<lambda>t. t\<lparr>sighandlers := [0, 0, 0]\<rparr>) (sys ex_start3)\<rparr>"

lemma ex_start4: "at_start ex_env3 ex_start4" "2 < length (sighandlers (tab (sys ex_start4) 1))"
    "sighandlers (tab (sys ex_start4) 1) ! 2 = 0"
  using ex_start3 by (auto simp: ex_start4_def at_start_def calm_def sched_ok_def)

theorem alarm_line_written_witness:
  "\<exists>m'. (exec ex_ops ex_env3 init_prog (concat (replicate 9 [False, True, True])) ex_start4 = Inr (Going m') \<or>
      exec ex_ops ex_env3 init_prog (concat (replicate 9 [False, True, True])) ex_start4 = Inr (Ended m')) \<and>
    set (map snd (written m')) \<subseteq>
      {text_of ex_env3 (''ALARM'' @ newline) 12, text_of ex_env3 (''Hello Hello'' @ newline) 12}"
  using alarm_line_written [OF ex_layout_i ex_ops_ok ex_found ex_expand ex_start4,
      of "concat (replicate 9 [False, True, True])"] by blast


section \<open>A call that the alarm changes\<close>

text \<open>
  C32: \<open>init_h.c\<close> writes a line, sets an alarm of two ticks, writes a second line, and divides by zero after
  a loop. When the alarm is due after \<open>write\<close> has put its arguments into the registers and before
  \<open>int $0x80\<close> has read them, the second line is lost: the kernel saves no general purpose register
  for the handler, so that the registers hold the arguments of the handler's own \<open>write\<close> when it
  returns, and its line is written a second time. The stack is right: \<open>main\<close> goes on behind the
  call, and its division ends the run. Without interrupts both lines of \<open>main\<close> are written.
\<close>

theorem alarm_clobbers_call:
  assumes "layout_ok E init_h_prog" and "stubs_ok E S init_h_prog" and "addr E Fun 0 \<noteq> 0" and "traps_ok A E"
    and "at_start E m" and "2 < length (sighandlers (tab (sys m) 1))" and "sighandlers (tab (sys m) 1) ! 1 = 0"
  shows "\<exists>m1 m2.
    exec_calls A E S init_h_prog
      (replicate 7 False @ [True, False, True] @ replicate 3 False @ False # replicate 4100 False) m = Inr (Ended m1) \<and>
    map snd (written m1) = [''alarm'' @ newline, ''ping!!'' @ newline, ''ping!!'' @ newline] \<and>
    exec_calls A E S init_h_prog (replicate 7 False @ False # False # replicate 4100 False) m = Inr (Ended m2) \<and>
    map snd (written m2) = [''alarm'' @ newline, ''hello'' @ newline]"
proof -
  have "poised (addr E Main 0) m" "alarm_in m = 0" "written m = []"
    using start_stands [OF assms(5,6)] assms(5,7) by (simp_all add: poised_def stands_def at_start_def)
  then obtain k where k: "\<forall>bs. exec_calls A E S init_h_prog (replicate 7 False @ bs) m = exec_calls A E S init_h_prog bs k"
    "poised (addr E Main 4) k" "map snd (written k) = [''alarm'' @ newline]" "on_alarm k = addr E Fun 0" "alarm_in k = 2"
    using main_starts [OF assms(1,2,4), of m] by metis
  obtain k1 where k1: "\<forall>bs. exec_calls A E S init_h_prog ([True, False, True] @ replicate 3 False @ False # bs) k =
      exec_calls A E S init_h_prog bs k1"
    "poised (addr E Main 5) k1" "map snd (written k1) = map snd (written k) @ [ping, ping]"
    by (rule hello_lost [where A = A, OF assms(1,2) k(2,5,4) assms(3)])
  obtain m1 where m1: "exec_calls A E S init_h_prog (replicate 4100 False) k1 = Inr (Ended m1)" "written m1 = written k1"
    using main_ends [OF assms(1,2,4) k1(2)] by blast
  have w: "4 < length (init_h_prog Main)" "init_h_prog Main ! 4 = UWrite (''hello'' @ newline) 6" "(6 :: nat) < 2 ^ 64"
    by (simp_all add: at_main)
  obtain k2 where k2: "\<forall>bs. exec_calls A E S init_h_prog (False # False # bs) k = exec_calls A E S init_h_prog bs k2"
    "poised (addr E Main (Suc 4)) k2" "written k2 = written k @ [(1, text_of E (''hello'' @ newline) 6)]"
    using write_call [OF assms(1,2) k(2) w, of A] by metis
  obtain m2 where m2: "exec_calls A E S init_h_prog (replicate 4100 False) k2 = Inr (Ended m2)" "written m2 = written k2"
    using main_ends [OF assms(1,2,4), of k2] k2(2) by (auto simp: eval_nat_numeral)
  have "text_of E (''hello'' @ newline) 6 = ''hello'' @ newline" by (rule text_exact) (simp add: newline_def)
  then have "map snd (written m2) = [''alarm'' @ newline, ''hello'' @ newline]" using m2(2) k2(3) k(3) by simp
  moreover have "map snd (written m1) = [''alarm'' @ newline, ''ping!!'' @ newline, ''ping!!'' @ newline]"
    using m1(2) k1(3) k(3) by (simp add: ping_def)
  ultimately show ?thesis
    using k(1) k1(1) m1(1) k2(1) m2(1) by (intro exI [of _ m1] exI [of _ m2]) (simp only: simp_thms)
qed

lemma ex_layout_h: "layout_ok ex_env3 init_h_prog"
  by (simp add: layout_ok_def points_def init_h_prog_def ex_env3_def upt_rec)

text \<open>System calls that change no register, and places for the stubs and the three constants.\<close>

definition ex_env5 :: "nat uenv" where
  "ex_env5 = ex_env3\<lparr>clobber := gprs\<rparr>"

definition ex_stubs :: "nat stubs" where
  "ex_stubs = \<lparr>int80 = (\<lambda>n. 0x7000 + word_of_nat (16 * n)),
     literal = (\<lambda>s. if s = ''alarm'' @ newline then 0x8000 else if s = ''hello'' @ newline then 0x8100 else 0x8200),
     chars = (\<lambda>a n. text_of ex_env5 ((if a = 0x8000 then ''alarm'' else if a = 0x8100 then ''hello'' else ''ping!!'') @ newline) n),
     prologue = (\<lambda>_ _. 0), other_call = (\<lambda>_ k. k)\<rparr>"

lemma ex_env5: "layout_ok ex_env5 init_h_prog" "addr ex_env5 Fun 0 \<noteq> 0" "traps_ok ex_ops ex_env5" "at_start ex_env5 ex_start3"
  using ex_layout_h ex_start3 by (simp_all add: ex_env5_def layout_ok_def traps_ok_def at_start_def ex_env3_def)

lemma ex_stubs: "stubs_ok ex_env5 ex_stubs init_h_prog"
proof -
  have "addr ex_env5 f i \<notin> int80 ex_stubs ` {0, 1, 2}" if "i < length (init_h_prog f)" for f i
  proof -
    have "(f = Main \<and> i \<in> set [0 ..< 10]) \<or> (f = Fun \<and> i \<in> set [0 ..< 2])"
      using that by (cases f) (simp_all add: init_h_prog_def)
    then show ?thesis by (auto simp: ex_env5_def ex_env3_def ex_stubs_def upt_rec)
  qed
  moreover have "chars ex_stubs (literal ex_stubs s) n = text_of ex_env5 s n" if "UWrite s n \<in> set (init_h_prog f)" for f s n
    using that by (cases f) (auto simp: init_h_prog_def ex_stubs_def newline_def)
  moreover have "clobber ex_env5 u r = gprs u r" for u r by (simp add: ex_env5_def)
  ultimately show ?thesis by (simp add: stubs_ok_def)
qed

theorem alarm_clobbers_call_witness:
  "\<exists>m1 m2. exec_calls ex_ops ex_env5 ex_stubs init_h_prog
      (replicate 7 False @ [True, False, True] @ replicate 3 False @ False # replicate 4100 False) ex_start3 = Inr (Ended m1) \<and>
    map snd (written m1) = [''alarm'' @ newline, ''ping!!'' @ newline, ''ping!!'' @ newline] \<and>
    exec_calls ex_ops ex_env5 ex_stubs init_h_prog
      (replicate 7 False @ False # False # replicate 4100 False) ex_start3 = Inr (Ended m2) \<and>
    map snd (written m2) = [''alarm'' @ newline, ''hello'' @ newline]"
proof (rule alarm_clobbers_call [OF ex_env5(1) ex_stubs ex_env5(2-4) ex_handlers3])
  show "sighandlers (tab (sys ex_start3) 1) ! 1 = 0" by (simp add: ex_start3_def)
qed

end
