(* ===== verification/Store_Locks.thy ===== *)
theory Store_Locks
  imports Store_Properties
begin

text \<open>
  Threads in \<open>assignment4/objstore.c\<close>: FUSE calls the handlers from several threads, and
  \<open>free_data_block\<close> takes the mutex \<open>d_lock\<close>, while the release of a block in \<open>destroy_object\<close> does
  not (its calls of \<open>pthread_mutex_lock\<close> are commented out). A step is one access to the bitmap or
  one operation on the mutex.
\<close>

section \<open>Threads\<close>

text \<open>
  Where a thread is: before \<open>free_data_block\<close>; with the mutex, at the test of bit \<open>n\<close>, at the two
  accesses of \<open>data_bitmap[i] = data_bitmap[i] | b\<close>, or at the unlock that precedes \<open>return r\<close>; in
  \<open>destroy_object\<close>, at the two accesses of the release of the bit \<open>p\<close>; or behind it.
\<close>

datatype pc = Outside | Test nat | Load nat | Store nat "32 word" | Unlock int
  | Clear_load int | Clear_store int "32 word" | Cleared

text \<open>\<open>served\<close> has the values returned, in the order of the returns, with the threads that got them.\<close>

record threads =
  sto :: objstore
  d_lock :: "nat option"
  at_pc :: "nat \<Rightarrow> pc"
  served :: "(nat \<times> int) list"

definition goes :: "nat \<Rightarrow> pc \<Rightarrow> threads \<Rightarrow> threads" where
  "goes t p c = c\<lparr>at_pc := (at_pc c)(t := p)\<rparr>"

definition put_word :: "nat \<Rightarrow> 32 word \<Rightarrow> threads \<Rightarrow> threads" where
  "put_word i w c = c\<lparr>sto := (sto c)\<lparr>data_bitmap := (data_bitmap (sto c))(i := w)\<rparr>\<rparr>"

abbreviation bits :: "threads \<Rightarrow> bitmap" where
  "bits c \<equiv> data_bitmap (sto c)"

text \<open>The next step of a thread, if it has one: \<open>pthread_mutex_lock\<close> waits for the mutex.\<close>

definition alloc_step :: "nat \<Rightarrow> threads \<Rightarrow> threads option" where
  "alloc_step t c = (case at_pc c t of
     Outside \<Rightarrow> if d_lock c = None then Some (goes t (Test 0) (c\<lparr>d_lock := Some t\<rparr>)) else None
   | Test n \<Rightarrow>
       if n_dblocks \<le> n then Some (goes t (Unlock (-1)) c)
       else if bits c (n div 32) AND mask_at n = 0 then Some (goes t (Load n) c)
       else Some (goes t (Test (n + 1)) c)
   | Load n \<Rightarrow> Some (goes t (Store n (bits c (n div 32))) c)
   | Store n w \<Rightarrow> Some (goes t (Unlock (22528 + 287 + int n)) (put_word (n div 32) (w OR mask_at n) c))
   | Unlock r \<Rightarrow> Some (goes t Outside (c\<lparr>d_lock := None, served := served c @ [(t, r)]\<rparr>))
   | _ \<Rightarrow> None)"

definition clear_step :: "nat \<Rightarrow> threads \<Rightarrow> threads option" where
  "clear_step t c = (case at_pc c t of
     Clear_load p \<Rightarrow>
       if p sdiv 32 < 0 \<or> 262144 \<le> p sdiv 32 \<or> 32 \<le> 31 - p smod 32 then None
       else Some (goes t (Clear_store p (bits c (nat (p sdiv 32)))) c)
   | Clear_store p w \<Rightarrow>
       Some (goes t Cleared (put_word (nat (p sdiv 32)) (w XOR push_bit (nat (31 - p smod 32)) 1) c))
   | _ \<Rightarrow> None)"

text \<open>A schedule names the thread that makes the next step; a thread that waits makes none.\<close>

fun exec_threads :: "nat list \<Rightarrow> threads \<Rightarrow> threads" where
  "exec_threads [] c = c"
| "exec_threads (t # ts) c = exec_threads ts
     (case alloc_step t c of Some c' \<Rightarrow> c' | None \<Rightarrow> (case clear_step t c of Some c' \<Rightarrow> c' | None \<Rightarrow> c))"

text \<open>\<open>n\<close> calls one after the other.\<close>

fun allocs :: "nat \<Rightarrow> objstore \<Rightarrow> int list \<times> objstore" where
  "allocs 0 s = ([], s)"
| "allocs (Suc n) s = (case free_data_block s of (r, s1) \<Rightarrow> case allocs n s1 of (rs, s2) \<Rightarrow> (r # rs, s2))"

lemma allocs_snoc:
  "allocs n s = (rs, s1) \<Longrightarrow> free_data_block s1 = (r, s2) \<Longrightarrow> allocs (Suc n) s = (rs @ [r], s2)"
proof (induction n arbitrary: s rs)
  case (Suc n)
  obtain r1 t where t: "free_data_block s = (r1, t)" by fastforce
  obtain rs1 where rs1: "allocs n t = (rs1, s1)" "rs = r1 # rs1" using Suc.prems(1) t by (auto split: prod.splits)
  have "allocs (Suc n) t = (rs1 @ [r], s2)" by (rule Suc.IH [OF rs1(1) Suc.prems(2)])
  then show ?case using t rs1(2) by (subst allocs.simps(2)) simp
qed simp

lemma thread_simps [simp]:
  "sto (goes t p c) = sto c" "d_lock (goes t p c) = d_lock c" "served (goes t p c) = served c"
  "at_pc (goes t p c) u = (if u = t then p else at_pc c u)"
  "d_lock (put_word i w c) = d_lock c" "served (put_word i w c) = served c" "at_pc (put_word i w c) = at_pc c"
  "sto (put_word i w c) = (sto c)\<lparr>data_bitmap := (bits c)(i := w)\<rparr>"
  by (simp_all add: goes_def put_word_def)

section \<open>Threads that allocate\<close>

fun holds :: "pc \<Rightarrow> bool" where
  "holds (Test n) \<longleftrightarrow> True" | "holds (Load n) \<longleftrightarrow> True" | "holds (Store n w) \<longleftrightarrow> True" | "holds (Unlock r) \<longleftrightarrow> True"
| "holds _ \<longleftrightarrow> False"

fun clears :: "pc \<Rightarrow> bool" where
  "clears (Clear_load p) \<longleftrightarrow> True" | "clears (Clear_store p w) \<longleftrightarrow> True" | "clears _ \<longleftrightarrow> False"

text \<open>What a thread with the mutex knows: \<open>s\<close> is the store as the last call left it.\<close>

fun inside :: "objstore \<Rightarrow> pc \<Rightarrow> objstore \<Rightarrow> bool" where
  "inside s (Test n) u \<longleftrightarrow> u = s \<and> n \<le> n_dblocks \<and> (\<forall>j < n. bit_set (data_bitmap s) j)"
| "inside s (Load n) u \<longleftrightarrow> u = s \<and> n < n_dblocks \<and> (\<forall>j < n. bit_set (data_bitmap s) j) \<and> \<not> bit_set (data_bitmap s) n"
| "inside s (Store n w) u \<longleftrightarrow> u = s \<and> n < n_dblocks \<and> (\<forall>j < n. bit_set (data_bitmap s) j) \<and>
     \<not> bit_set (data_bitmap s) n \<and> w = data_bitmap s (n div 32)"
| "inside s (Unlock r) u \<longleftrightarrow> free_data_block s = (r, u)"
| "inside s _ u \<longleftrightarrow> False"

definition serial :: "objstore \<Rightarrow> threads \<Rightarrow> bool" where
  "serial s0 c \<longleftrightarrow> (\<forall>t. holds (at_pc c t) \<longleftrightarrow> d_lock c = Some t) \<and> (\<forall>t. \<not> clears (at_pc c t)) \<and>
     (\<exists>s. allocs (length (served c)) s0 = (map snd (served c), s) \<and>
        (case d_lock c of None \<Rightarrow> sto c = s | Some t \<Rightarrow> inside s (at_pc c t) (sto c)))"

lemma serialD:
  assumes "serial s0 c"
  shows "holds (at_pc c t) \<longleftrightarrow> d_lock c = Some t" and "\<not> clears (at_pc c t)"
  using assms by (auto simp: serial_def)


lemma served_next:
  assumes n: "n < n_dblocks" "\<forall>j < n. bit_set (data_bitmap s) j" "\<not> bit_set (data_bitmap s) n"
  shows "free_data_block s = (22815 + int n,
    s\<lparr>data_bitmap := (data_bitmap s)(n div 32 := data_bitmap s (n div 32) OR mask_at n)\<rparr>)"
  using free_data_block_at [OF n(1,3,2)] by (simp add: set_bit_at_def)

text \<open>A step of the thread with the mutex, up to the unlock.\<close>

lemma inside_step:
  assumes "inside s (at_pc c t) (sto c)" and "alloc_step t c = Some c'" and "\<And>r. at_pc c t \<noteq> Unlock r"
  shows "inside s (at_pc c' t) (sto c')" and "d_lock c' = d_lock c" and "served c' = served c"
    and "\<And>u. u \<noteq> t \<Longrightarrow> at_pc c' u = at_pc c u"
proof -
  have "inside s (at_pc c' t) (sto c') \<and> d_lock c' = d_lock c \<and> served c' = served c \<and> (\<forall>u. u \<noteq> t \<longrightarrow> at_pc c' u = at_pc c u)"
  proof (cases "at_pc c t")
    case (Test n)
    have in': "sto c = s" "n \<le> n_dblocks" "\<forall>j < n. bit_set (data_bitmap s) j" using assms(1) Test by simp_all
    consider "n = n_dblocks" | "n < n_dblocks" "bit_set (data_bitmap s) n" | "n < n_dblocks" "\<not> bit_set (data_bitmap s) n"
      using in'(2) by linarith
    then show ?thesis
    proof cases
      case 1
      then have "free_data_block s = (-1, s)" using in'(3) by (intro free_data_block_full) simp
      then show ?thesis using assms(2) Test in' 1 by (auto simp: alloc_step_def)
    next
      case 2
      then show ?thesis using assms(2) Test in' by (auto simp: alloc_step_def bit_set_def less_Suc_eq)
    next
      case 3
      then show ?thesis using assms(2) Test in' by (auto simp: alloc_step_def bit_set_def)
    qed
  next
    case (Load n)
    then show ?thesis using assms(1,2) by (auto simp: alloc_step_def)
  next
    case (Store n w)
    then show ?thesis using assms(1,2) served_next [of n s] by (auto simp: alloc_step_def)
  qed (use assms in auto)
  then show "inside s (at_pc c' t) (sto c')" "d_lock c' = d_lock c" "served c' = served c"
    "\<And>u. u \<noteq> t \<Longrightarrow> at_pc c' u = at_pc c u" by simp_all
qed

lemma inside_holds: "inside s p u \<Longrightarrow> holds p \<and> \<not> clears p"
  by (cases p) simp_all

lemma serial_step:
  assumes s: "serial s0 c" and step: "alloc_step t c = Some c'"
  shows "serial s0 c'"
proof -
  obtain s where al: "allocs (length (served c)) s0 = (map snd (served c), s)"
    and at: "case d_lock c of None \<Rightarrow> sto c = s | Some t \<Rightarrow> inside s (at_pc c t) (sto c)"
    using s by (auto simp: serial_def)
  note d = serialD [OF s]
  show ?thesis
  proof (cases "d_lock c = Some t")
    case False
    then have "\<not> holds (at_pc c t)" using d(1) [of t] by simp
    then have "at_pc c t = Outside" "d_lock c = None" "c' = goes t (Test 0) (c\<lparr>d_lock := Some t\<rparr>)"
      using step d(2) [of t] by (cases "at_pc c t"; simp add: alloc_step_def split: if_splits)+
    then show ?thesis using al at d by (auto simp: serial_def)
  next
    case True
    then have in': "inside s (at_pc c t) (sto c)" using at by simp
    show ?thesis
    proof (cases "\<exists>r. at_pc c t = Unlock r")
      case False
      note n = inside_step [OF in' step] False
      then show ?thesis
        using al True d inside_holds by (auto simp: serial_def) (metis option.inject)+
    next
      case un: True
      then obtain r where r: "at_pc c t = Unlock r" by blast
      then have f: "free_data_block s = (r, sto c)" using in' by simp
      have c': "c' = goes t Outside (c\<lparr>d_lock := None, served := served c @ [(t, r)]\<rparr>)"
        using step r by (simp add: alloc_step_def)
      have "\<not> holds (at_pc c u)" if "u \<noteq> t" for u using d(1) [of u] True that by simp
      then show ?thesis using allocs_snoc [OF al f] d(2) by (auto simp: serial_def c')
    qed
  qed
qed


lemma serial_run: "serial s0 c \<Longrightarrow> serial s0 (exec_threads ts c)"
proof (induction ts arbitrary: c)
  case (Cons t ts)
  have "clear_step t c = None"
    using serialD(2) [OF Cons.prems, of t] by (cases "at_pc c t") (simp_all add: clear_step_def)
  then show ?case
    using Cons.IH serial_step [OF Cons.prems] Cons.prems by (cases "alloc_step t c") auto
qed simp

lemma serial_progress:
  assumes "serial s0 c" and "d_lock c = Some t"
  shows "alloc_step t c \<noteq> None"
  using serialD(1) [OF assms(1), of t] assms(2) by (cases "at_pc c t") (simp_all add: alloc_step_def)

text \<open>One after the other, the calls hand out blocks that are free, and none twice.\<close>

lemma allocs_fresh:
  assumes "allocs n s = (rs, s')"
  shows "distinct (filter (\<lambda>r. r \<noteq> -1) rs)"
    and "\<And>r. r \<in> set rs \<Longrightarrow> r \<noteq> -1 \<Longrightarrow> \<exists>k < n_dblocks. r = 22815 + int k \<and> \<not> bit_set (data_bitmap s) k"
proof -
  have "distinct (filter (\<lambda>r. r \<noteq> -1) rs) \<and>
      (\<forall>r \<in> set rs. r \<noteq> -1 \<longrightarrow> (\<exists>k < n_dblocks. r = 22815 + int k \<and> \<not> bit_set (data_bitmap s) k))"
    using assms
  proof (induction n arbitrary: s rs)
    case (Suc n)
    obtain r1 t where t: "free_data_block s = (r1, t)" by fastforce
    obtain rs1 where rs1: "allocs n t = (rs1, s')" "rs = r1 # rs1" using Suc.prems t by (auto split: prod.splits)
    note ih = Suc.IH [OF rs1(1)]
    show ?case
    proof (cases s rule: free_data_block_cases)
      case full
      then show ?thesis using ih t rs1(2) by simp
    next
      case (free k)
      then have "r1 = 22815 + int k" "data_bitmap t = set_bit_at k (data_bitmap s)" using t by auto
      then show ?thesis using ih rs1(2) free(1,2) by fastforce
    qed
  qed simp
  then show "distinct (filter (\<lambda>r. r \<noteq> -1) rs)"
    "\<And>r. r \<in> set rs \<Longrightarrow> r \<noteq> -1 \<Longrightarrow> \<exists>k < n_dblocks. r = 22815 + int k \<and> \<not> bit_set (data_bitmap s) k" by blast+
qed

section \<open>A call that is not disturbed\<close>

lemma exec_append: "exec_threads (ts @ us) c = exec_threads us (exec_threads ts c)"
  by (induction ts arbitrary: c) simp_all

lemma goes_goes [simp]: "goes t p (goes t q c) = goes t p c"
  by (simp add: goes_def)

lemma test_loop:
  assumes "at_pc c t = Test (n - d)" and "d \<le> n" and "n < n_dblocks" and "\<forall>j < n. bit_set (bits c) j" and "\<not> bit_set (bits c) n"
  shows "exec_threads (replicate (Suc d) t) c = goes t (Load n) c"
  using assms
proof (induction d arbitrary: c)
  case 0
  then show ?case by (simp add: alloc_step_def bit_set_def)
next
  case (Suc d)
  have "bits c ((n - Suc d) div 32) AND mask_at (n - Suc d) \<noteq> 0"
    using Suc.prems(2) Suc.prems(4) [rule_format, of "n - Suc d"] by (simp add: bit_set_def)
  then have "alloc_step t c = Some (goes t (Test (n - d)) c)"
    using Suc.prems(1,2,3) by (simp add: alloc_step_def Suc_diff_Suc)
  then have "exec_threads (replicate (Suc (Suc d)) t) c = exec_threads (replicate (Suc d) t) (goes t (Test (n - d)) c)"
    by (simp only: replicate_Suc exec_threads.simps option.case)
  also have "\<dots> = goes t (Load n) (goes t (Test (n - d)) c)"
    by (rule Suc.IH) (use Suc.prems in simp_all)
  finally show ?case by simp
qed

lemma undisturbed_call:
  assumes "at_pc c t = Outside" and "d_lock c = None"
    and n: "n < n_dblocks" "\<forall>j < n. bit_set (bits c) j" "\<not> bit_set (bits c) n"
  shows "exec_threads (replicate (n + 5) t) c = c\<lparr>sto := (sto c)\<lparr>data_bitmap := set_bit_at n (bits c)\<rparr>,
    served := served c @ [(t, 22815 + int n)]\<rparr>"
proof -
  let ?c1 = "goes t (Test 0) (c\<lparr>d_lock := Some t\<rparr>)"
  have r: "replicate (n + 5) t = [t] @ replicate (Suc n) t @ [t, t, t]"
  proof -
    have "n + 5 = 1 + (Suc n + 3)" by simp
    then show ?thesis by (simp only: replicate_add) (simp add: numeral_eq_Suc)
  qed
  have "exec_threads (replicate (Suc n) t) ?c1 = goes t (Load n) ?c1"
    by (rule test_loop) (use n in simp_all)
  then show ?thesis
    unfolding r exec_append using assms(1,2)
    by (simp add: alloc_step_def goes_def put_word_def set_bit_at_def fun_upd_idem)
qed


lemma clear_steps:
  assumes "q < n_dblocks"
  shows "at_pc c t = Clear_load (int q) \<Longrightarrow>
      clear_step t c = Some (goes t (Clear_store (int q) (bits c (q div 32))) c)"
    and "at_pc c t = Clear_store (int q) w \<Longrightarrow>
      clear_step t c = Some (goes t Cleared (put_word (q div 32) (w XOR mask_at q) c))"
  using assms by (auto simp: clear_step_def mask_at_eq nat_div_distrib nat_mod_distrib nat_diff_distrib')

section \<open>Properties\<close>

text \<open>C8: Under every interleaving of any number of threads that allocate, the calls of
  \<open>free_data_block\<close> return what as many calls one after the other would, no block goes to two
  of them, the store without the mutex held is the one those calls leave, and the thread that has the mutex
  can always go on.\<close>

theorem allocations_serial:
  assumes "\<forall>t. at_pc c t = Outside" and "d_lock c = None" and "served c = []"
    and c': "c' = exec_threads ts c"
  shows "\<exists>s. allocs (length (served c')) (sto c) = (map snd (served c'), s) \<and>
    distinct (filter (\<lambda>r. r \<noteq> -1) (map snd (served c'))) \<and> (d_lock c' = None \<longrightarrow> sto c' = s) \<and>
    (\<forall>t. d_lock c' = Some t \<longrightarrow> alloc_step t c' \<noteq> None)"
proof -
  have "serial (sto c) c" using assms(1-3) by (simp add: serial_def)
  then have s: "serial (sto c) c'" unfolding c' by (rule serial_run)
  then obtain s' where al: "allocs (length (served c')) (sto c) = (map snd (served c'), s')" "d_lock c' = None \<longrightarrow> sto c' = s'"
    by (auto simp: serial_def split: option.splits)
  then show ?thesis
    using allocs_fresh(1) [OF al(1)] serial_progress [OF s] by (intro exI [of _ s']) blast
qed

text \<open>A store whose second data block is in use, and threads that allocate.\<close>

definition ex_threads :: "(nat \<Rightarrow> pc) \<Rightarrow> threads" where
  "ex_threads pcs = \<lparr>sto = ex_empty\<lparr>data_bitmap := (\<lambda>_. 0)(0 := 0x40000000)\<rparr>, d_lock = None, at_pc = pcs, served = []\<rparr>"

lemma ex_threads_simps [simp]:
  "bits (ex_threads pcs) = (\<lambda>_. 0)(0 := 0x40000000)" "d_lock (ex_threads pcs) = None"
  "at_pc (ex_threads pcs) = pcs" "served (ex_threads pcs) = []"
  by (simp_all add: ex_threads_def)

theorem allocations_serial_witness:
  "\<exists>s. allocs (length (served (exec_threads [1, 2, 1, 2, 1, 1, 1, 2, 2] (ex_threads (\<lambda>_. Outside)))))
      (sto (ex_threads (\<lambda>_. Outside))) =
    (map snd (served (exec_threads [1, 2, 1, 2, 1, 1, 1, 2, 2] (ex_threads (\<lambda>_. Outside)))), s)"
  using allocations_serial [of "ex_threads (\<lambda>_. Outside)", OF _ _ _ refl] by (auto simp del: exec_threads.simps)

text \<open>C9: A release in \<open>destroy_object\<close>, which does not take the mutex, undoes an allocation that falls between
  its two accesses to the same word of the bitmap: the block \<open>n\<close> is handed out to a second
  thread while the first uses it.\<close>

theorem release_races_allocation:
  assumes pcs: "at_pc c 0 = Clear_load (int q)" "at_pc c 1 = Outside" "at_pc c 2 = Outside"
    and lock: "d_lock c = None" "served c = []"
    and n: "n < n_dblocks" "\<forall>j < n. bit_set (bits c) j" "\<not> bit_set (bits c) n"
    and q: "n < q" "q div 32 = n div 32"
  shows "\<exists>ts. served (exec_threads ts c) = [(1, 22815 + int n), (2, 22815 + int n)]"
proof -
  let ?i = "n div 32" and ?w = "bits c (n div 32)" and ?B = "bits c"
  have q': "q < n_dblocks"
  proof -
    have "q div 32 < 262144" using n(1) q(2) by (simp add: div_less_iff_less_mult)
    then show ?thesis by (simp add: div_less_iff_less_mult)
  qed
  let ?c1 = "goes 0 (Clear_store (int q) ?w) c"
  let ?c2 = "?c1\<lparr>sto := (sto ?c1)\<lparr>data_bitmap := set_bit_at n ?B\<rparr>, served := served ?c1 @ [(1, 22815 + int n)]\<rparr>"
  let ?c3 = "goes 0 Cleared (put_word ?i (?w XOR mask_at q) ?c2)"
  have 1: "exec_threads [0] c = ?c1"
    using pcs(1) clear_steps(1) [OF q', of c 0] q(2) by (simp add: alloc_step_def)
  have 2: "exec_threads (replicate (n + 5) 1) ?c1 = ?c2"
    using undisturbed_call [of ?c1 1 n] pcs lock n by simp
  have 3: "exec_threads [0] ?c2 = ?c3"
    using clear_steps(2) [OF q', of ?c2 0 ?w] q(2) by (simp add: alloc_step_def)
  have "bits ?c3 = flip_bit_at q ?B"
    using q(2) by (simp add: set_bit_at_def flip_bit_at_def)
  with undisturbed_call [of ?c3 2 n] have 4: "exec_threads (replicate (n + 5) 2) ?c3 = ?c3\<lparr>sto := (sto ?c3)\<lparr>data_bitmap := set_bit_at n (bits ?c3)\<rparr>,
      served := served ?c3 @ [(2, 22815 + int n)]\<rparr>"
    using pcs lock n q by simp
  have "exec_threads ([0] @ replicate (n + 5) 1 @ [0] @ replicate (n + 5) 2) c =
      ?c3\<lparr>sto := (sto ?c3)\<lparr>data_bitmap := set_bit_at n (bits ?c3)\<rparr>, served := served ?c3 @ [(2, 22815 + int n)]\<rparr>"
    unfolding exec_append 1 2 3 4 ..
  then show ?thesis using lock(2) by (intro exI [of _ "[0] @ replicate (n + 5) 1 @ [0] @ replicate (n + 5) 2"]) simp
qed


theorem release_races_allocation_witness:
  "\<exists>ts. served (exec_threads ts (ex_threads ((\<lambda>_. Outside)(0 := Clear_load 1)))) = [(1, 22815), (2, 22815)]"
  using release_races_allocation [of "ex_threads ((\<lambda>_. Outside)(0 := Clear_load 1))" 1 0]
  by (simp add: bit_set_iff)

end
