(* ===== verification/Spec2Isabelle.thy ===== *)
theory Spec2Isabelle
  imports Startup Callback_Types Client_Properties User_Properties Sched_Properties Process_Spec Thread_Properties
    Store_Locks
    Example_Properties
begin

text \<open>
  A verification development for the programs of the repository: four assignments of an
  operating systems course, in C. They are independent programs; what the development says of
  each is the following.

  \<^bold>\<open>Conventions.\<close> Code that may fault returns \<open>'a res\<close> of \<open>Prelude\<close>: \<open>Inl\<close> of the undefined
  behaviour met (a null or wild pointer, an index outside an array, a signed overflow, an
  overrun buffer, an indeterminate value) or \<open>Inr\<close> of the result. Values returned by the C
  functions themselves, \<open>-1\<close> or a negative error number, are integers. Machine words are words
  of their width where they wrap around or are shifted; C \<open>int\<close> and \<open>long\<close> that are only
  compared and added are integers, with \<open>s32\<close> and \<open>s64\<close> at the narrowing conversions. Arrays
  are functions from indices; loops over them are structural recursions over the list of
  indices or over a number of rounds, so that no fuel is needed. A store of
  user code that faults and is made again is a \<open>partial_function\<close>; that it ends is part of what is proved.

  \<^bold>\<open>Assignment 4, the object store\<close> (\<open>assignment4/lib.c\<close>, \<open>objstore.c\<close>, \<open>objfs.c\<close>). A file
  system over FUSE that keeps objects in a disk image, with an optional write-back cache.
  \<^item> \<open>Block_Cache\<close>: the disk, \<open>read_block\<close>, \<open>write_block\<close>, \<open>cache_blk_read\<close> and
    \<open>cache_blk_write\<close> in both builds; the interface \<open>block_store\<close>, which both implement.
  \<^item> \<open>Inodes\<close>, \<open>Data_Blocks\<close>, \<open>Files\<close>: the state \<open>objstore\<close> (the two bitmaps, the object table,
    its dirty flags and the block layer), and \<open>find_object_id\<close>, \<open>create_object\<close>,
    \<open>rename_object\<close>, \<open>fillup_size_details\<close>; the allocation of data blocks and
    \<open>destroy_object\<close>; \<open>objstore_write\<close> and \<open>objstore_read\<close> over direct and indirect pointers.
  \<^item> \<open>Persist\<close>: the layout on disk, \<open>objstore_init\<close> and \<open>objstore_destroy\<close>.
  \<^item> \<open>Objfs\<close>: the callbacks of \<open>objfs.c\<close>. \<open>Startup\<close>: \<open>do_init\<close> and \<open>main\<close>, over a C library
    that is a parameter; those of the example, too.
  \<^item> \<open>Sync\<close>, \<open>Unlink\<close>, \<open>Store_Refinement\<close>: what an unmount writes; deletion, where it returns; an
    abstract store, a map from keys to files of blocks, and the refinement of it by the callbacks
    create, open, getattr, write, read, unlink, init and destroy, for the calls the code serves
    (\<open>served\<close>): keys below 32 bytes, writes in the order in which sequential writing
    reaches the blocks, reads of blocks that were written, deletion of objects with four index
    blocks whose release marks only free blocks (\<open>unlinkable\<close>); the equivalence of the builds.
    Rename is outside the contract: \<open>rename_object\<close> counts with \<open>ctr\<close>, which it never sets, so that no
    call has a defined outcome. Its model takes that value as an argument
    (\<open>rename_uninitialised_counter\<close>), and what is proved of tables of callbacks that contain it
    holds for every value.
  \<^item> \<open>Store_Properties\<close>: the properties, with the behaviours that lose data. \<open>Callback_Types\<close>: the
    table stays well-typed under every sequence of callbacks with any arguments.
  \<^item> \<open>Store_Locks\<close>: \<open>free_data_block\<close> run by several threads, access by access, under the mutex
    \<open>d_lock\<close> (\<open>alloc_step\<close>), which is equivalent to calls one after the other; and the release in
    \<open>destroy_object\<close> without it (\<open>clear_step\<close>), which is not.

  \<^bold>\<open>Assignment 4, the clients\<close> (\<open>testcases/lib/kvstore.c\<close>, \<open>example/test/kvstore.c\<close> and the programs
  beside them). The C file calls are a parameter, the record \<open>posix\<close>.
  \<^item> \<open>Kvstore\<close>: the library functions and the programs; the contract \<open>key_files\<close> of a directory of
    files, with its extension by removing, from which the programs' lemmas follow.
  \<^item> \<open>Mount\<close>: the operation tables of both file systems; \<open>fuse_mount\<close>, what the kernel does with
    such a table, and \<open>object_files\<close>, what the table has to provide. Together they give \<open>key_files\<close>.
  \<^item> \<open>Store_Files\<close>, \<open>Example_Files\<close>: the two object stores provide \<open>object_files\<close>.
  \<^item> \<open>Client_Properties\<close>: what the programs do, from \<open>main\<close> down to the blocks of the disk.

  \<^bold>\<open>Assignments 1 and 2, address spaces\<close> (\<open>assignment1/context_mm.c\<close>, \<open>assignment2/entry.c\<close>).
  \<^item> \<open>Paging\<close>: the four-level page table in the memory of frames, its walk, and the map from
    pages to frames that it stands for. The frame allocator is a parameter (\<open>frame_ops\<close>) with
    the contract that a frame handed out is new and, for a table, in the region of tables.
  \<^item> \<open>Context_MM\<close>: \<open>prepare_context_mm\<close> and \<open>cleanup_context_mm\<close>.
  \<^item> \<open>Registers\<close>, \<open>Lazy_Memory\<close>: the pushes and pops of the handlers; \<open>do_syscall\<close> with
    \<open>expand\<close>, \<open>shrink\<close> and \<open>write\<close>, \<open>handle_div_by_zero\<close>, \<open>check_present\<close>,
    \<open>handle_page_fault\<close>, and a process whose accesses fault and are retried.
  \<^item> \<open>Memory_Properties\<close>: the properties, applied to a pool of frames.
  \<^item> \<open>User_Program\<close>, \<open>User_Properties\<close>: \<open>assignment2/user/init.c\<close> and \<open>old_init.c\<close>, whose stores
    fault, are served by the handler and made again (\<open>store_user\<close>), and their runs.

  \<^bold>\<open>Assignment 3, the scheduler\<close> (\<open>assignment3/schedule.c\<close>, of which
  \<open>working_schedules/schedule_v3.c\<close> is a copy, and \<open>schedule_v2.c\<close>, \<open>schedule_v1.c\<close>).
  \<^item> \<open>Schedule\<close>: the state \<open>sched\<close> (the table of 16 contexts, the current one, user memory,
    kernel stacks), and every function of the file; a handler ends in an \<open>outcome\<close>: the
    registers with which some context goes on, or the end of the run.
  \<^item> \<open>Sched_Run\<close>: the invariant \<open>sched_ok\<close> and the effect of each handler.
  \<^item> \<open>Sched_Steps\<close>: the step relation \<open>sched_step\<close>, in which timer interrupts, system calls and
    user code follow each other in any order; the contract \<open>handlers_ok\<close> of the handlers; the
    interfaces \<open>round_robin\<close> and \<open>preserving\<close> and their interpretations on the steps.
  \<^item> \<open>Sched_Versions\<close>: the earlier versions, what they share with the last one, and that they keep
    the same contract.
  \<^item> \<open>Sched_Signals\<close>, \<open>Sched_Example\<close>, \<open>Sched_Properties\<close>: signals and names, a system to
    apply the properties to, and the properties.
  \<^item> \<open>Process_Spec\<close>: the abstract system that \<open>schedule.c\<close> implements, sixteen processes with registers
    of their own (\<open>vstep\<close>), the processes that a state of the kernel stands for (\<open>view\<close>), and the
    refinement, through the interface \<open>simulation\<close>.
  \<^item> \<open>Thread_Programs\<close>: \<open>user/init.c\<close>, \<open>init_n.c\<close>, \<open>init_old.c\<close>, \<open>init _m.c\<close> and \<open>init_h.c\<close>
    as lists of statements, the library functions over the handlers of \<open>Schedule\<close>, and executions, in which
    the timer may interrupt between any two statements. \<open>Thread_Run\<close>: threads that only write and
    exit, under every interleaving; the work left is the measure. \<open>Thread_Alarm\<close>: programs with an
    alarm among threads, and what every interleaving keeps of them. \<open>Thread_Alone\<close>,
    \<open>Thread_Phases\<close>: a process alone with the swapper, and the phases of its life between two
    system calls. \<open>Thread_Calls\<close>: \<open>init_h.c\<close> with the stubs of its system calls, which the timer may also
    interrupt before \<open>int $0x80\<close> has read the registers. \<open>Thread_Properties\<close>: what the programs do.

  \<^bold>\<open>The example store\<close> (\<open>assignment4/example\<close>). \<open>Example_Store\<close> models \<open>objstore.c\<close>, \<open>objfs.c\<close>
  and the block transfers of \<open>lib.c\<close>; both builds implement the interface \<open>object_pages\<close>, from
  which \<open>Example_Properties\<close> has its properties.

  \<^bold>\<open>What the theorems show.\<close> The store refines a map from keys to files as long as blocks are
  written in the order and range that it supports and only files are removed that it can remove, its two
  builds give the same answers, and a mount gives back what the unmount wrote; outside that range it
  loses or mixes data, or leaves its arrays, in the ways stated. Threads that allocate blocks get different ones, unless a file is removed meanwhile. Address spaces map exactly the pages asked for, return every frame once, and a
  process with only allowed accesses is never ended. The scheduler implements a system of processes with registers of their own: it runs one
  context at a time, takes turns, and gives a preempted process its registers back; a sleeping process wakes on
  time, unless it asked for 0 ticks, and without its general purpose registers. The test programs of
  assignment 4 get back what they put, and the user program of assignment 2 runs as its comments say;
  the threads of assignment 3 complete under every interleaving, and its sleeps and alarms end on the right tick;
  but a handler that returns may change the arguments of the system call that it interrupts, since the
  kernel saves no general purpose register for it.

  \<^bold>\<open>Not modelled.\<close> Threads in the object store beyond the bitmap of data blocks: elsewhere
  calls come one after the other, as if \<open>i_lock\<close> and \<open>cache_lock\<close> were held for whole calls. The log
  messages. \<open>mmap\<close> of a page is taken to succeed. The functions of the binaries that are linked in (frame allocator,
  \<open>get_new_ctx\<close>, \<open>translate\<close>, \<open>do_exit\<close> of assignment 2) are parameters. What compiled code
  does to registers that the handlers do not name is a parameter. In the user programs of
  assignment 3 interrupts fall between statements, and in \<open>Thread_Calls\<close> also between a call and its system
  call; what is proved for every interleaving is proved of programs whose handlers, if any, do not return,
  so that the place inside a statement at which an interrupt falls makes no difference. Elsewhere the
  frames of the library functions on the user stack are left out, and \<open>expand\<close>, \<open>getpid\<close> and the handler of the divide error are parameters (\<open>traps_ok\<close>
  says of the last that it calls \<open>invoke_sync_signal\<close>, as the comments of \<open>schedule.c\<close> do). The headers of the binaries have none, and the
  messages that programs print to \<open>stderr\<close> are left out. Both \<open>gemfs.c\<close> are copies of \<open>example/objfs.c\<close>.
\<close>

end
